(* ===== verification/JsPrelude.thy ===== *)
theory JsPrelude
  imports Complex_Main
begin

text \<open>
  The part of the JavaScript language and of its standard library that the
  scripts of the WebROaR administration panel rely on: strings and their
  methods, decimal numerals, and the conversion of a string to a number.

  A JavaScript string is a \<^typ>\<open>string\<close>: its characters are the code units
  0 to 255.  Case conversion acts on the ASCII letters.  Numbers that are
  indices, counts or hours are \<^typ>\<open>int\<close> or \<^typ>\<open>nat\<close>; pixel positions,
  percentages and times are \<^typ>\<open>real\<close>, so that rounding of doubles is not
  modelled.
\<close>

named_theorems js_string
  "characterisations of the string methods"

named_theorems js_number
  "facts on numerals and on the conversion of strings to numbers"

type_synonym elem_id = string

section \<open>Characters\<close>

text \<open>The class \<open>\s\<close> of a regular expression, on code units below 256.\<close>

definition is_ws :: "char \<Rightarrow> bool" where
  "is_ws c \<longleftrightarrow> of_char c \<in> {9, 10, 11, 12, 13, 32, 160 :: nat}"

definition is_digit :: "char \<Rightarrow> bool" where
  "is_digit c \<longleftrightarrow> (48 :: nat) \<le> of_char c \<and> of_char c \<le> (57 :: nat)"

definition is_lower :: "char \<Rightarrow> bool" where
  "is_lower c \<longleftrightarrow> (97 :: nat) \<le> of_char c \<and> of_char c \<le> (122 :: nat)"

definition is_upper :: "char \<Rightarrow> bool" where
  "is_upper c \<longleftrightarrow> (65 :: nat) \<le> of_char c \<and> of_char c \<le> (90 :: nat)"

definition is_alpha :: "char \<Rightarrow> bool" where
  "is_alpha c \<longleftrightarrow> is_lower c \<or> is_upper c"

definition lower_char :: "char \<Rightarrow> char" where
  "lower_char c = (if is_upper c then char_of (of_char c + 32 :: nat) else c)"

definition upper_char :: "char \<Rightarrow> char" where
  "upper_char c = (if is_lower c then char_of (of_char c - 32 :: nat) else c)"

definition to_lower_case :: "string \<Rightarrow> string" where
  "to_lower_case s = map lower_char s"

definition to_upper_case :: "string \<Rightarrow> string" where
  "to_upper_case s = map upper_char s"

lemma of_char_less_256: "of_char c < (256 :: nat)"
  by simp

lemma lower_char_lower: "\<not> is_upper (lower_char c)"
  by (simp add: lower_char_def is_upper_def)

lemma lower_char_idem [simp]: "lower_char (lower_char c) = lower_char c"
  using lower_char_lower [of c] by (simp add: lower_char_def [of "lower_char c"])

lemma upper_char_upper: "\<not> is_lower (upper_char c)"
  by (auto simp: upper_char_def is_lower_def)

lemma length_to_lower_case [simp]: "length (to_lower_case s) = length s"
  by (simp add: to_lower_case_def)

lemma length_to_upper_case [simp]: "length (to_upper_case s) = length s"
  by (simp add: to_upper_case_def)

lemma to_lower_case_idem [simp]: "to_lower_case (to_lower_case s) = to_lower_case s"
  by (simp add: to_lower_case_def)

lemma digit_not_ws: "is_digit c \<Longrightarrow> \<not> is_ws c"
  by (auto simp: is_digit_def is_ws_def)

lemma is_digit_set: "is_digit c \<longleftrightarrow> c \<in> set ''0123456789''"
proof -
  have "is_digit c \<longleftrightarrow> of_char c \<in> {48, 49, 50, 51, 52, 53, 54, 55, 56, 57 :: nat}"
    unfolding is_digit_def by (simp only: insert_iff empty_iff) presburger
  also have "\<dots> \<longleftrightarrow> (of_char c :: nat) \<in> of_char ` set ''0123456789''" by simp
  also have "\<dots> \<longleftrightarrow> c \<in> set ''0123456789''"
    by (simp only: inj_image_mem_iff [OF inj_of_char])
  finally show ?thesis .
qed

section \<open>Trimming\<close>

text \<open>\<open>replace(/^\s+/, '')\<close> and \<open>replace(/\s+$/, '')\<close>.\<close>

definition ltrim :: "string \<Rightarrow> string" where
  "ltrim s = dropWhile is_ws s"

definition rtrim :: "string \<Rightarrow> string" where
  "rtrim s = rev (dropWhile is_ws (rev s))"

definition trim :: "string \<Rightarrow> string" where
  "trim s = rtrim (ltrim s)"

lemma rtrim_Nil_iff: "rtrim s = [] \<longleftrightarrow> (\<forall>c \<in> set s. is_ws c)"
  by (simp add: rtrim_def)

lemma ltrim_Nil_iff: "ltrim s = [] \<longleftrightarrow> (\<forall>c \<in> set s. is_ws c)"
  by (simp add: ltrim_def)

lemma trim_Nil_iff [js_string]: "trim s = [] \<longleftrightarrow> (\<forall>c \<in> set s. is_ws c)"
proof -
  have "(\<forall>c \<in> set (dropWhile is_ws s). is_ws c) \<longleftrightarrow> dropWhile is_ws s = []"
    by (metis dropWhile_eq_Nil_conv hd_dropWhile list.set_intros(1) list.set_sel(1) empty_iff
        list.set(1))
  then show ?thesis
    by (simp add: trim_def rtrim_Nil_iff ltrim_def)
qed

lemma dropWhile_id: "(xs = [] \<or> \<not> P (hd xs)) \<Longrightarrow> dropWhile P xs = xs"
  by (cases xs) auto

lemma rtrim_append: "\<exists>t. s = rtrim s @ t \<and> (\<forall>c \<in> set t. is_ws c)"
proof -
  have "s = rev (dropWhile is_ws (rev s)) @ rev (takeWhile is_ws (rev s))"
    by (metis rev_append rev_rev_ident takeWhile_dropWhile_id)
  moreover have "\<forall>c \<in> set (rev (takeWhile is_ws (rev s))). is_ws c"
    using set_takeWhileD by fastforce
  ultimately show ?thesis unfolding rtrim_def by blast
qed

lemma rtrim_last: "rtrim s \<noteq> [] \<Longrightarrow> \<not> is_ws (last (rtrim s))"
  by (simp add: rtrim_def last_rev hd_dropWhile)

lemma ltrim_hd: "ltrim s \<noteq> [] \<Longrightarrow> \<not> is_ws (hd (ltrim s))"
  by (simp add: ltrim_def hd_dropWhile)

lemma trim_hd: "trim s \<noteq> [] \<Longrightarrow> \<not> is_ws (hd (trim s))"
proof -
  assume ne: "trim s \<noteq> []"
  obtain t where t: "ltrim s = trim s @ t"
    using rtrim_append [of "ltrim s"] unfolding trim_def by blast
  with ne have "hd (ltrim s) = hd (trim s)" "ltrim s \<noteq> []" by auto
  with ltrim_hd [of s] show ?thesis by simp
qed

lemma trim_last: "trim s \<noteq> [] \<Longrightarrow> \<not> is_ws (last (trim s))"
  unfolding trim_def by (rule rtrim_last)

lemma trim_id: "s \<noteq> [] \<Longrightarrow> \<not> is_ws (hd s) \<Longrightarrow> \<not> is_ws (last s) \<Longrightarrow> trim s = s"
  by (simp add: trim_def ltrim_def rtrim_def dropWhile_id hd_rev)

lemma trim_idem [simp]: "trim (trim s) = trim s"
  by (cases "trim s = []") (simp_all add: trim_id trim_hd trim_last, simp add: trim_def ltrim_def rtrim_def)

lemma trim_no_ws: "\<forall>c \<in> set s. \<not> is_ws c \<Longrightarrow> trim s = s"
  by (cases "s = []") (simp_all add: trim_id, simp add: trim_def ltrim_def rtrim_def)

section \<open>Slices and searches\<close>

text \<open>
  \<open>s.substring(a, b)\<close> clamps both indices to the length and exchanges them when
  they are in the wrong order; \<open>s.substr(a, n)\<close> counts a negative start from the
  end; \<open>s.slice(a, b)\<close> counts both negative indices from the end.
\<close>

definition clamp_index :: "'a list \<Rightarrow> int \<Rightarrow> nat" where
  "clamp_index s i = nat (max 0 (min i (int (length s))))"

definition substring :: "string \<Rightarrow> int \<Rightarrow> int \<Rightarrow> string" where
  "substring s a b =
     (let x = clamp_index s a; y = clamp_index s b
      in take (max x y - min x y) (drop (min x y) s))"

definition slice_index :: "'a list \<Rightarrow> int \<Rightarrow> nat" where
  "slice_index s i = clamp_index s (if i < 0 then int (length s) + i else i)"

definition slice :: "'a list \<Rightarrow> int \<Rightarrow> int \<Rightarrow> 'a list" where
  "slice s a b = take (slice_index s b - slice_index s a) (drop (slice_index s a) s)"

definition slice_from :: "'a list \<Rightarrow> int \<Rightarrow> 'a list" where
  "slice_from s a = drop (slice_index s a) s"

definition substr :: "string \<Rightarrow> int \<Rightarrow> int \<Rightarrow> string" where
  "substr s a n = take (nat n) (drop (slice_index s a) s)"

definition substr_from :: "string \<Rightarrow> int \<Rightarrow> string" where
  "substr_from s a = drop (slice_index s a) s"

definition char_at :: "string \<Rightarrow> nat \<Rightarrow> string" where
  "char_at s i = (if i < length s then [s ! i] else [])"

definition starts_at :: "string \<Rightarrow> string \<Rightarrow> nat \<Rightarrow> bool" where
  "starts_at s p k \<longleftrightarrow> k + length p \<le> length s \<and> take (length p) (drop k s) = p"

text \<open>
  The first position from \<open>k\<close> on at which \<open>p\<close> occurs, with \<open>n\<close> positions left
  to look at; and the last one at or before \<open>k\<close>.
\<close>

fun find_up :: "string \<Rightarrow> string \<Rightarrow> nat \<Rightarrow> nat \<Rightarrow> nat option" where
  "find_up s p k 0 = (if starts_at s p k then Some k else None)"
| "find_up s p k (Suc n) = (if starts_at s p k then Some k else find_up s p (Suc k) n)"

fun find_down :: "string \<Rightarrow> string \<Rightarrow> nat \<Rightarrow> nat option" where
  "find_down s p 0 = (if starts_at s p 0 then Some 0 else None)"
| "find_down s p (Suc k) = (if starts_at s p (Suc k) then Some (Suc k) else find_down s p k)"

definition pos_or_minus1 :: "nat option \<Rightarrow> int" where
  "pos_or_minus1 r = (case r of None \<Rightarrow> -1 | Some k \<Rightarrow> int k)"

definition index_of_from :: "string \<Rightarrow> string \<Rightarrow> int \<Rightarrow> int" where
  "index_of_from s p i =
     pos_or_minus1 (find_up s p (clamp_index s i) (length s - clamp_index s i))"

definition index_of :: "string \<Rightarrow> string \<Rightarrow> int" where
  "index_of s p = index_of_from s p 0"

definition last_index_of_from :: "string \<Rightarrow> string \<Rightarrow> int \<Rightarrow> int" where
  "last_index_of_from s p i = pos_or_minus1 (find_down s p (clamp_index s i))"

definition last_index_of :: "string \<Rightarrow> string \<Rightarrow> int" where
  "last_index_of s p = last_index_of_from s p (int (length s))"

lemma clamp_index_le [simp]: "clamp_index s i \<le> length s"
  by (auto simp: clamp_index_def)

lemma clamp_index_nat [simp]: "k \<le> length s \<Longrightarrow> clamp_index s (int k) = k"
  by (simp add: clamp_index_def)

lemma clamp_index_0 [simp]: "clamp_index s 0 = 0"
  by (simp add: clamp_index_def)

lemma slice_index_nat: "slice_index xs (int i) = min i (length xs)"
  by (auto simp: slice_index_def clamp_index_def min_def nat_int)

lemma slice_nat: "slice xs (int i) (int j) = take (j - i) (drop i xs)"
  by (cases "j \<le> length xs"; cases "i \<le> length xs")
    (simp_all add: slice_def slice_index_nat)

lemma substr_nat: "substr s (int i) (int n) = take n (drop i s)"
  by (cases "i \<le> length s") (simp_all add: substr_def slice_index_nat)

lemma substr_from_nat: "substr_from s (int i) = drop i s"
  by (cases "i \<le> length s") (simp_all add: substr_from_def slice_index_nat)

lemma find_up_Some:
  "find_up s p k n = Some j \<longleftrightarrow>
     k \<le> j \<and> j \<le> k + n \<and> starts_at s p j \<and> (\<forall>i. k \<le> i \<and> i < j \<longrightarrow> \<not> starts_at s p i)"
proof (induction n arbitrary: k)
  case 0
  show ?case by (auto simp: le_less)
next
  case (Suc n)
  show ?case
  proof (cases "starts_at s p k")
    case True
    then show ?thesis by (auto simp: le_less)
  next
    case False
    have "find_up s p k (Suc n) = find_up s p (Suc k) n" using False by simp
    moreover have "(\<forall>i. k \<le> i \<and> i < j \<longrightarrow> \<not> starts_at s p i) \<longleftrightarrow>
        (\<forall>i. Suc k \<le> i \<and> i < j \<longrightarrow> \<not> starts_at s p i)"
      using False by (metis Suc_leD le_antisym not_less_eq_eq)
    moreover have "starts_at s p j \<Longrightarrow> k \<le> j \<longleftrightarrow> Suc k \<le> j"
      using False by (metis Suc_leD le_antisym not_less_eq_eq)
    ultimately show ?thesis using Suc.IH [of "Suc k"] by auto
  qed
qed

lemma find_up_None:
  "find_up s p k n = None \<longleftrightarrow> (\<forall>i. k \<le> i \<and> i \<le> k + n \<longrightarrow> \<not> starts_at s p i)"
proof (induction n arbitrary: k)
  case 0
  show ?case by auto
next
  case (Suc n)
  show ?case
    using Suc.IH [of "Suc k"]
    by (auto, metis Suc_leI le_neq_implies_less le_refl trans_le_add1)
qed

lemma find_down_Some:
  "find_down s p k = Some j \<longleftrightarrow>
     j \<le> k \<and> starts_at s p j \<and> (\<forall>i. j < i \<and> i \<le> k \<longrightarrow> \<not> starts_at s p i)"
proof (induction k)
  case 0
  show ?case by auto
next
  case (Suc k)
  then show ?case by (auto simp: le_Suc_eq)
qed

lemma find_down_None: "find_down s p k = None \<longleftrightarrow> (\<forall>i \<le> k. \<not> starts_at s p i)"
  by (induction k) (auto simp: le_Suc_eq)

lemma starts_at_bound: "starts_at s p k \<Longrightarrow> k \<le> length s"
  by (simp add: starts_at_def)

lemma index_of_from_nonneg [js_string]:
  "0 \<le> index_of_from s p i \<longleftrightarrow> (\<exists>k \<ge> clamp_index s i. starts_at s p k)"
  using find_up_None [of s p "clamp_index s i" "length s - clamp_index s i"]
  by (auto simp: index_of_from_def pos_or_minus1_def split: option.split
      dest: starts_at_bound find_up_Some [THEN iffD1])

lemma index_of_from_eq [js_string]:
  "index_of_from s p i = int k \<longleftrightarrow>
     clamp_index s i \<le> k \<and> starts_at s p k \<and>
     (\<forall>j. clamp_index s i \<le> j \<and> j < k \<longrightarrow> \<not> starts_at s p j)"
  using find_up_Some [of s p "clamp_index s i" "length s - clamp_index s i" k]
  by (auto simp: index_of_from_def pos_or_minus1_def split: option.split
      dest: starts_at_bound find_up_Some [THEN iffD1])

lemma index_of_from_ge: "-1 \<le> index_of_from s p i"
  by (auto simp: index_of_from_def pos_or_minus1_def split: option.split)

lemma index_of_from_le: "index_of_from s p i \<le> int (length s)"
  by (auto simp: index_of_from_def pos_or_minus1_def split: option.split
      dest!: find_up_Some [THEN iffD1] starts_at_bound)

lemma starts_at_char: "starts_at s [c] k \<longleftrightarrow> k < length s \<and> s ! k = c"
  by (auto simp: starts_at_def take_Suc hd_drop_conv_nth)

lemma index_of_char [js_string]: "index_of s [c] = -1 \<longleftrightarrow> c \<notin> set s"
proof -
  have "index_of s [c] = -1 \<longleftrightarrow> \<not> 0 \<le> index_of s [c]"
    using index_of_from_ge [of s "[c]" 0] unfolding index_of_def by linarith
  also have "\<dots> \<longleftrightarrow> \<not> (\<exists>k. starts_at s [c] k)"
    unfolding index_of_def index_of_from_nonneg by simp
  finally show ?thesis by (auto simp: starts_at_char in_set_conv_nth)
qed

section \<open>Splitting and joining\<close>

fun join :: "string \<Rightarrow> string list \<Rightarrow> string" where
  "join sep [] = []"
| "join sep [x] = x"
| "join sep (x # y # xs) = x @ sep @ join sep (y # xs)"

text \<open>\<open>s.split(c)\<close> for a separator of one character.\<close>

fun split_char :: "char \<Rightarrow> string \<Rightarrow> string list" where
  "split_char sep [] = [[]]"
| "split_char sep (c # cs) =
     (if c = sep then [] # split_char sep cs
      else (case split_char sep cs of [] \<Rightarrow> [[c]] | w # ws \<Rightarrow> (c # w) # ws))"

text \<open>\<open>s.split('')\<close>.\<close>

definition split_chars :: "string \<Rightarrow> string list" where
  "split_chars s = map (\<lambda>c. [c]) s"

lemma split_char_not_Nil [simp]: "split_char sep s \<noteq> []"
  by (cases s) (auto split: list.split)

lemma join_Cons: "xs \<noteq> [] \<Longrightarrow> join sep (x # xs) = x @ sep @ join sep xs"
  by (cases xs) auto

lemma split_char_Cons_other:
  "c \<noteq> sep \<Longrightarrow> split_char sep (c # cs) = (c # hd (split_char sep cs)) # tl (split_char sep cs)"
  by (simp split: list.split)

lemma join_Cons_char: "join sep ((c # w) # ws) = c # join sep (w # ws)"
  by (cases ws) auto

lemma join_split_char [js_string]: "join [sep] (split_char sep s) = s"
proof (induction s)
  case Nil
  show ?case by simp
next
  case (Cons c cs)
  show ?case
  proof (cases "c = sep")
    case True
    with Cons show ?thesis by (simp add: join_Cons)
  next
    case False
    have "join [sep] (split_char sep (c # cs)) =
        c # join [sep] (hd (split_char sep cs) # tl (split_char sep cs))"
      by (simp only: split_char_Cons_other [OF False] join_Cons_char)
    with Cons show ?thesis by simp
  qed
qed

lemma split_char_no_sep: "sep \<notin> set s \<Longrightarrow> split_char sep s = [s]"
  by (induction s) auto

lemma split_char_append:
  "sep \<notin> set w \<Longrightarrow> split_char sep (w @ sep # s) = w # split_char sep s"
  by (induction w) auto

lemma split_char_join [js_string]:
  "ws \<noteq> [] \<Longrightarrow> \<forall>w \<in> set ws. sep \<notin> set w \<Longrightarrow> split_char sep (join [sep] ws) = ws"
  by (induction "[sep]" ws rule: join.induct)
    (auto simp: split_char_no_sep split_char_append)

lemma split_char_parts: "w \<in> set (split_char sep s) \<Longrightarrow> sep \<notin> set w"
proof (induction s arbitrary: w)
  case Nil
  then show ?case by simp
next
  case (Cons c cs)
  then show ?case
    by (cases "split_char sep cs") (auto split: if_splits)
qed

section \<open>Numerals\<close>

definition digit_val :: "char \<Rightarrow> nat" where
  "digit_val c = of_char c - 48"

definition digit_char :: "nat \<Rightarrow> char" where
  "digit_char n = char_of (48 + n)"

definition dec_val :: "string \<Rightarrow> nat" where
  "dec_val s = foldl (\<lambda>n c. 10 * n + digit_val c) 0 s"

text \<open>\<open>n.toString()\<close> for a natural number and for an integer.\<close>

fun nat_to_string :: "nat \<Rightarrow> string" where
  "nat_to_string n =
     (if n < 10 then [digit_char n]
      else nat_to_string (n div 10) @ [digit_char (n mod 10)])"

declare nat_to_string.simps [simp del]

definition int_to_string :: "int \<Rightarrow> string" where
  "int_to_string i = (if i < 0 then ''-'' @ nat_to_string (nat (- i)) else nat_to_string (nat i))"

lemma digit_char_val: "n < 10 \<Longrightarrow> digit_val (digit_char n) = n"
  by (simp add: digit_val_def digit_char_def)

lemma is_digit_digit_char: "n < 10 \<Longrightarrow> is_digit (digit_char n)"
  by (simp add: is_digit_def digit_char_def)

lemma dec_val_snoc: "dec_val (s @ [c]) = 10 * dec_val s + digit_val c"
  by (simp add: dec_val_def)

lemma dec_val_Nil [simp]: "dec_val [] = 0"
  by (simp add: dec_val_def)

lemma dec_val_nat_to_string [js_number]: "dec_val (nat_to_string n) = n"
proof (induction n rule: nat_to_string.induct)
  case (1 n)
  show ?case
  proof (cases "n < 10")
    case True
    then show ?thesis
      by (simp add: nat_to_string.simps dec_val_def digit_char_val)
  next
    case False
    have "nat_to_string n = nat_to_string (n div 10) @ [digit_char (n mod 10)]"
      using False by (simp add: nat_to_string.simps [of n])
    with 1 False show ?thesis by (simp add: dec_val_snoc digit_char_val)
  qed
qed

lemma nat_to_string_digits: "c \<in> set (nat_to_string n) \<Longrightarrow> is_digit c"
proof (induction n rule: nat_to_string.induct)
  case (1 n)
  then show ?case
    by (cases "n < 10") (auto simp: nat_to_string.simps [of n] is_digit_digit_char)
qed

lemma nat_to_string_not_Nil [simp]: "nat_to_string n \<noteq> []"
  by (subst nat_to_string.simps) simp

lemma nat_to_string_inj: "nat_to_string m = nat_to_string n \<longleftrightarrow> m = n"
  by (metis dec_val_nat_to_string)

lemma digit_char_0: "digit_char 0 = CHR ''0''"
  by code_simp

lemma takeWhile_all: "\<forall>c \<in> set s. P c \<Longrightarrow> takeWhile P s = s"
  by simp

lemma dropWhile_all: "\<forall>c \<in> set s. P c \<Longrightarrow> dropWhile P s = []"
  by simp

text \<open>
  \<open>parseInt(s)\<close>, base ten: leading white space, an optional sign, then the
  longest run of digits; \<open>None\<close> is NaN.
\<close>

definition parse_int :: "string \<Rightarrow> int option" where
  "parse_int s =
     (let t = ltrim s;
          neg = (t \<noteq> [] \<and> hd t = CHR ''-'');
          u = (if t \<noteq> [] \<and> (hd t = CHR ''-'' \<or> hd t = CHR ''+'') then tl t else t);
          ds = takeWhile is_digit u
      in if ds = [] then None
         else Some (if neg then - int (dec_val ds) else int (dec_val ds)))"

lemma digit_not_sign: "is_digit c \<Longrightarrow> c \<noteq> CHR ''-'' \<and> c \<noteq> CHR ''+'' \<and> c \<noteq> CHR ''.''"
  by (auto simp: is_digit_def)

lemma ltrim_digits: "\<forall>c \<in> set s. is_digit c \<Longrightarrow> ltrim s = s"
  by (cases s) (auto simp: ltrim_def digit_not_ws)

lemma trim_digits: "\<forall>c \<in> set s. is_digit c \<Longrightarrow> trim s = s"
  by (rule trim_no_ws) (auto simp: digit_not_ws)

lemma parse_int_digits [js_number]:
  "s \<noteq> [] \<Longrightarrow> \<forall>c \<in> set s. is_digit c \<Longrightarrow> parse_int s = Some (int (dec_val s))"
proof -
  assume ne: "s \<noteq> []" and dg: "\<forall>c \<in> set s. is_digit c"
  have "hd s \<in> set s" using ne by simp
  with dg have "hd s \<noteq> CHR ''-''" "hd s \<noteq> CHR ''+''" using digit_not_sign by blast+
  then show ?thesis using ne dg by (simp add: parse_int_def ltrim_digits takeWhile_all Let_def)
qed

text \<open>
  The number a string is converted to when it is compared with a number:
  white space is cut off, the empty string is 0, a hexadecimal literal and a
  decimal literal with optional sign, fraction and exponent are read, and
  anything else is NaN, for which every comparison is false.
\<close>

datatype js_num = NaN | NegInf | Fin real | PosInf

fun js_less :: "js_num \<Rightarrow> js_num \<Rightarrow> bool" where
  "js_less NaN _ = False"
| "js_less _ NaN = False"
| "js_less NegInf b = (b \<noteq> NegInf)"
| "js_less (Fin x) NegInf = False"
| "js_less (Fin x) (Fin y) = (x < y)"
| "js_less (Fin x) PosInf = True"
| "js_less PosInf b = False"

definition is_hex :: "char \<Rightarrow> bool" where
  "is_hex c \<longleftrightarrow> is_digit c \<or>
     (97 :: nat) \<le> of_char c \<and> of_char c \<le> (102 :: nat) \<or>
     (65 :: nat) \<le> of_char c \<and> of_char c \<le> (70 :: nat)"

definition hex_digit_val :: "char \<Rightarrow> nat" where
  "hex_digit_val c =
     (if is_digit c then digit_val c
      else if is_lower c then of_char c - 87 else of_char c - 55)"

definition hex_val :: "string \<Rightarrow> nat" where
  "hex_val s = foldl (\<lambda>n c. 16 * n + hex_digit_val c) 0 s"

definition exponent_part :: "string \<Rightarrow> int option" where
  "exponent_part s =
     (if s = [] then Some 0
      else if hd s = CHR ''e'' \<or> hd s = CHR ''E'' then
        (let t = tl s;
             neg = (t \<noteq> [] \<and> hd t = CHR ''-'');
             ds = (if t \<noteq> [] \<and> (hd t = CHR ''-'' \<or> hd t = CHR ''+'') then tl t else t)
         in if ds \<noteq> [] \<and> list_all is_digit ds
            then Some (if neg then - int (dec_val ds) else int (dec_val ds)) else None)
      else None)"

definition unsigned_number :: "string \<Rightarrow> js_num" where
  "unsigned_number s =
     (if s = ''Infinity'' then PosInf
      else
        let ip = takeWhile is_digit s; r = dropWhile is_digit s;
            dot = (r \<noteq> [] \<and> hd r = CHR ''.'');
            fp = (if dot then takeWhile is_digit (tl r) else []);
            rest = (if dot then dropWhile is_digit (tl r) else r)
        in if ip = [] \<and> fp = [] then NaN
           else (case exponent_part rest of
                   None \<Rightarrow> NaN
                 | Some e \<Rightarrow> Fin (real (dec_val (ip @ fp)) * 10 powi (e - int (length fp)))))"

definition js_neg :: "js_num \<Rightarrow> js_num" where
  "js_neg n = (case n of NaN \<Rightarrow> NaN | NegInf \<Rightarrow> PosInf | Fin x \<Rightarrow> Fin (- x) | PosInf \<Rightarrow> NegInf)"

definition to_number :: "string \<Rightarrow> js_num" where
  "to_number s =
     (let t = trim s in
      if t = [] then Fin 0
      else if (take 2 t = ''0x'' \<or> take 2 t = ''0X'') \<and> drop 2 t \<noteq> [] \<and> list_all is_hex (drop 2 t)
        then Fin (real (hex_val (drop 2 t)))
      else if hd t = CHR ''-'' then js_neg (unsigned_number (tl t))
      else if hd t = CHR ''+'' then unsigned_number (tl t)
      else unsigned_number t)"

lemma unsigned_number_digits:
  assumes "s \<noteq> []" and "\<forall>c \<in> set s. is_digit c"
  shows "unsigned_number s = Fin (real (dec_val s))"
proof -
  have "s \<noteq> ''Infinity''" using assms(2) by (auto simp: is_digit_def)
  then show ?thesis using assms
    by (simp add: unsigned_number_def exponent_part_def takeWhile_all dropWhile_all)
qed

lemma to_number_digits [js_number]:
  assumes "s \<noteq> []" and dg: "\<forall>c \<in> set s. is_digit c"
  shows "to_number s = Fin (real (dec_val s))"
proof -
  have "hd s \<in> set s" using assms by simp
  then have sg: "hd s \<noteq> CHR ''-''" "hd s \<noteq> CHR ''+''" using dg digit_not_sign by blast+
  have "\<not> is_digit CHR ''x''" "\<not> is_digit CHR ''X''" by (simp_all add: is_digit_def)
  moreover have "set (take 2 s) \<subseteq> set s" by (rule set_take_subset)
  ultimately have "take 2 s \<noteq> ''0x''" "take 2 s \<noteq> ''0X''" using dg by auto
  with sg assms show ?thesis
    by (simp add: to_number_def trim_digits unsigned_number_digits)
qed

end
