(* ===== verification/JsRegex.thy ===== *)
theory JsRegex
  imports JsPrelude
begin

text \<open>
  Regular expressions as the scripts write them, anchored at both ends
  (\<open>/^...$/\<close>): their abstract syntax, the language they denote and an
  executable matcher by derivatives, with the proof that the two agree.  A
  character class is a predicate, so that \<open>[^@\s]\<close> is written as it stands.
\<close>

datatype re =
    Void
  | Eps
  | Cls "char \<Rightarrow> bool"
  | Seq re re
  | Alt re re
  | Star re

definition Plus :: "re \<Rightarrow> re" where
  "Plus r = Seq r (Star r)"

definition Opt :: "re \<Rightarrow> re" where
  "Opt r = Alt Eps r"

definition Ch :: "char \<Rightarrow> re" where
  "Ch c = Cls (\<lambda>x. x = c)"

fun Lit :: "string \<Rightarrow> re" where
  "Lit [] = Eps"
| "Lit (c # cs) = Seq (Ch c) (Lit cs)"

inductive_set star :: "string set \<Rightarrow> string set" for A where
  star_Nil: "[] \<in> star A"
| star_append: "u \<in> A \<Longrightarrow> v \<in> star A \<Longrightarrow> u @ v \<in> star A"

fun lang :: "re \<Rightarrow> string set" where
  "lang Void = {}"
| "lang Eps = {[]}"
| "lang (Cls P) = {[c] | c. P c}"
| "lang (Seq r s) = {u @ v | u v. u \<in> lang r \<and> v \<in> lang s}"
| "lang (Alt r s) = lang r \<union> lang s"
| "lang (Star r) = star (lang r)"

fun nullable :: "re \<Rightarrow> bool" where
  "nullable Void = False"
| "nullable Eps = True"
| "nullable (Cls P) = False"
| "nullable (Seq r s) = (nullable r \<and> nullable s)"
| "nullable (Alt r s) = (nullable r \<or> nullable s)"
| "nullable (Star r) = True"

fun deriv :: "char \<Rightarrow> re \<Rightarrow> re" where
  "deriv c Void = Void"
| "deriv c Eps = Void"
| "deriv c (Cls P) = (if P c then Eps else Void)"
| "deriv c (Seq r s) =
     (if nullable r then Alt (Seq (deriv c r) s) (deriv c s) else Seq (deriv c r) s)"
| "deriv c (Alt r s) = Alt (deriv c r) (deriv c s)"
| "deriv c (Star r) = Seq (deriv c r) (Star r)"

fun re_match :: "re \<Rightarrow> string \<Rightarrow> bool" where
  "re_match r [] = nullable r"
| "re_match r (c # cs) = re_match (deriv c r) cs"

section \<open>The matcher decides the language\<close>

lemma nullable_lang: "nullable r \<longleftrightarrow> [] \<in> lang r"
  by (induction r) (auto intro: star.intros)

lemma star_Cons_iff:
  "c # w \<in> star A \<longleftrightarrow> (\<exists>u v. w = u @ v \<and> c # u \<in> A \<and> v \<in> star A)"
proof
  show "c # w \<in> star A \<Longrightarrow> \<exists>u v. w = u @ v \<and> c # u \<in> A \<and> v \<in> star A"
  proof (induction "c # w" rule: star.induct)
    case (star_append u v)
    then show ?case by (cases u) auto
  qed
  show "\<exists>u v. w = u @ v \<and> c # u \<in> A \<and> v \<in> star A \<Longrightarrow> c # w \<in> star A"
    using star.star_append by fastforce
qed

lemma Seq_Cons_iff:
  "c # w \<in> lang (Seq r s) \<longleftrightarrow>
     (\<exists>u v. w = u @ v \<and> c # u \<in> lang r \<and> v \<in> lang s) \<or> [] \<in> lang r \<and> c # w \<in> lang s"
  by (auto simp: Cons_eq_append_conv)

lemma deriv_lang: "w \<in> lang (deriv c r) \<longleftrightarrow> c # w \<in> lang r"
proof (induction r arbitrary: w)
  case (Seq r s)
  have "w \<in> lang (Seq (deriv c r) s) \<longleftrightarrow> (\<exists>u v. w = u @ v \<and> c # u \<in> lang r \<and> v \<in> lang s)"
    using Seq.IH(1) by auto
  then show ?case
    unfolding Seq_Cons_iff using Seq.IH(2) by (auto simp: nullable_lang)
next
  case (Star r)
  then show ?case by (auto simp: star_Cons_iff)
qed auto

lemma re_match_lang: "re_match r s \<longleftrightarrow> s \<in> lang r"
  by (induction s arbitrary: r) (simp_all add: nullable_lang deriv_lang)

section \<open>Languages of the usual shapes\<close>

lemma star_Cls: "star {[c] | c. P c} = {s. \<forall>c \<in> set s. P c}"
proof (intro set_eqI iffI)
  fix s
  show "s \<in> star {[c] | c. P c} \<Longrightarrow> s \<in> {s. \<forall>c \<in> set s. P c}"
    by (induction rule: star.induct) auto
  show "s \<in> {s. \<forall>c \<in> set s. P c} \<Longrightarrow> s \<in> star {[c] | c. P c}"
  proof (induction s)
    case Nil
    show ?case by (rule star_Nil)
  next
    case (Cons c cs)
    then show ?case using star_append [of "[c]" "{[c] | c. P c}" cs] by simp
  qed
qed

lemma lang_Star_Cls [simp]: "lang (Star (Cls P)) = {s. \<forall>c \<in> set s. P c}"
  by (simp add: star_Cls)

lemma lang_Plus_Cls [simp]: "lang (Plus (Cls P)) = {s. s \<noteq> [] \<and> (\<forall>c \<in> set s. P c)}"
proof (intro set_eqI)
  fix s
  have "s \<in> lang (Plus (Cls P)) \<longleftrightarrow> (\<exists>c v. s = [c] @ v \<and> P c \<and> (\<forall>x \<in> set v. P x))"
    by (simp add: Plus_def star_Cls del: append_Cons append_Nil) blast
  then show "s \<in> lang (Plus (Cls P)) \<longleftrightarrow> s \<in> {s. s \<noteq> [] \<and> (\<forall>c \<in> set s. P c)}"
    by (cases s) auto
qed

lemma lang_Ch [simp]: "lang (Ch c) = {[c]}"
  by (simp add: Ch_def)

lemma lang_Lit [simp]: "lang (Lit s) = {s}"
  by (induction s) auto

lemma lang_Opt [simp]: "lang (Opt r) = insert [] (lang r)"
  by (auto simp: Opt_def)

lemma Seq_lang_iff: "s \<in> lang (Seq r t) \<longleftrightarrow> (\<exists>u v. s = u @ v \<and> u \<in> lang r \<and> v \<in> lang t)"
  by auto

lemma star_concat: "s \<in> star A \<longleftrightarrow> (\<exists>ws. s = concat ws \<and> set ws \<subseteq> A)"
proof
  show "s \<in> star A \<Longrightarrow> \<exists>ws. s = concat ws \<and> set ws \<subseteq> A"
  proof (induction rule: star.induct)
    case star_Nil
    show ?case by (rule exI [of _ "[]"]) simp
  next
    case (star_append u v)
    then obtain ws where "v = concat ws" "set ws \<subseteq> A" by blast
    with star_append show ?case by (intro exI [of _ "u # ws"]) simp
  qed
  have "set ws \<subseteq> A \<Longrightarrow> concat ws \<in> star A" for ws
    by (induction ws) (auto intro: star.intros)
  then show "\<exists>ws. s = concat ws \<and> set ws \<subseteq> A \<Longrightarrow> s \<in> star A" by blast
qed

lemma Plus_concat:
  "s \<in> lang (Plus r) \<longleftrightarrow> (\<exists>ws. ws \<noteq> [] \<and> s = concat ws \<and> set ws \<subseteq> lang r)"
proof
  assume "s \<in> lang (Plus r)"
  then obtain u ws where "s = u @ concat ws" "u \<in> lang r" "set ws \<subseteq> lang r"
    by (auto simp: Plus_def star_concat)
  then show "\<exists>ws. ws \<noteq> [] \<and> s = concat ws \<and> set ws \<subseteq> lang r"
    by (intro exI [of _ "u # ws"]) simp
next
  assume "\<exists>ws. ws \<noteq> [] \<and> s = concat ws \<and> set ws \<subseteq> lang r"
  then obtain u ws where "s = u @ concat ws" "u \<in> lang r" "set ws \<subseteq> lang r"
    by (metis concat.simps(2) insert_subset list.exhaust list.simps(15))
  then show "s \<in> lang (Plus r)" by (auto simp: Plus_def star_concat)
qed

end
