(* ===== verification/FormChecks.thy ===== *)
theory FormChecks
  imports JsRegex "HOL-Library.Monad_Syntax"
begin

text \<open>
  The field checks of \<open>application.js\<close>: \<open>validates_presence\<close>,
  \<open>validates_length\<close>, \<open>validates_confirmation\<close>, \<open>validates_number\<close>,
  \<open>validates_expires\<close>, \<open>validates_email\<close> and \<open>validates_value\<close>.  They share
  the global variables \<open>temp\<close>, the error text collected so far, and \<open>val\<close>.
  Their common contract is the locale \<open>field_check\<close>.
\<close>

section \<open>The page\<close>

text \<open>
  The globals the checks write and the elements of the document they reach by
  identifier: \<open>inner_html\<close> is undefined where \<open>getElementById\<close> finds nothing.
\<close>

record page =
  temp :: string
  val :: bool
  inner_html :: "elem_id \<rightharpoonup> string"
  css_padding :: "elem_id \<rightharpoonup> string"

text \<open>
  A form maps the names of its inputs to their values.  An operation that reads
  a property of a missing element dies with a TypeError, which is \<open>None\<close>.
\<close>

type_synonym form = "string \<rightharpoonup> string"
type_synonym 'a handler = "page \<Rightarrow> ('a \<times> page) option"

definition set_html :: "elem_id \<Rightarrow> string \<Rightarrow> page \<Rightarrow> page option" where
  "set_html i s p =
     (case inner_html p i of
        None \<Rightarrow> None
      | Some _ \<Rightarrow> Some (p\<lparr>inner_html := (inner_html p)(i \<mapsto> s)\<rparr>))"

text \<open>\<open>if (div) div.innerHTML = s\<close>.\<close>

definition set_html_if_present :: "elem_id \<Rightarrow> string \<Rightarrow> page \<Rightarrow> page" where
  "set_html_if_present i s p = (case set_html i s p of None \<Rightarrow> p | Some p' \<Rightarrow> p')"

text \<open>\<open>$j("#i").css("padding", "4")\<close>: nothing happens when no element has the identifier.\<close>

definition css_pad :: "elem_id \<Rightarrow> page \<Rightarrow> page" where
  "css_pad i p =
     (if inner_html p i = None then p
      else p\<lparr>css_padding := (css_padding p)(i \<mapsto> ''4'')\<rparr>)"

text \<open>\<open>jQuery.trim\<close>: both ends of the replacement \<open>/^\s+|\s+$/g\<close>.\<close>

definition jq_trim :: "string \<Rightarrow> string" where
  "jq_trim text = trim text"

section \<open>The checks\<close>

definition validates_presence :: "string option \<Rightarrow> string \<Rightarrow> bool handler" where
  "validates_presence fld message p = do {
     v \<leftarrow> fld;
     let fld_value = jq_trim v;
     (if length fld_value = 0
      then Some (False, p\<lparr>temp := temp p @ message @ '' can't be blank. <br>''\<rparr>)
      else Some (True, p)) }"

definition validates_length ::
  "string option \<Rightarrow> nat \<Rightarrow> nat \<Rightarrow> string \<Rightarrow> bool handler" where
  "validates_length fld min_length max_length message p = do {
     v \<leftarrow> fld;
     let fld_value = jq_trim v;
     (if (length fld_value < min_length \<or> length fld_value > max_length)
          \<and> length fld_value \<noteq> 0
      then Some (False, p\<lparr>temp := temp p @ message @ ''<br>''\<rparr>)
      else Some (True, p)) }"

definition validates_confirmation :: "string option \<Rightarrow> string option \<Rightarrow> bool handler" where
  "validates_confirmation fld1 fld2 p = do {
     v1 \<leftarrow> fld1;
     v2 \<leftarrow> fld2;
     let fld1_value = jq_trim v1;
     let fld2_value = jq_trim v2;
     (if fld1_value \<noteq> fld2_value \<and> length fld1_value \<noteq> 0 \<and> length fld2_value \<noteq> 0
          \<and> length fld1_value \<ge> 6 \<and> length fld2_value \<ge> 6
      then Some (False, p\<lparr>temp := temp p @ ''doesn't match confirmation. <br>''\<rparr>)
      else Some (True, p)) }"

text \<open>The scan of \<open>validates_number\<close>: stop at the first character not in the list.\<close>

fun scan_number :: "string list \<Rightarrow> bool" where
  "scan_number [] = True"
| "scan_number (c # cs) = (if index_of ''0123456789'' c = -1 then False else scan_number cs)"

definition validates_number :: "string option \<Rightarrow> string \<Rightarrow> bool handler" where
  "validates_number fld message p = do {
     v \<leftarrow> fld;
     let fld_value = split_chars (jq_trim v);
     (if scan_number fld_value
      then Some (True, p\<lparr>val := True\<rparr>)
      else Some (False, p\<lparr>temp := temp p @ message @ '' is not a valid number.<br>'',
                          val := False\<rparr>)) }"

text \<open>\<open>/^\d+$/\<close>.\<close>

definition seconds_re :: re where
  "seconds_re = Plus (Cls is_digit)"

definition validates_expires :: "string option \<Rightarrow> string \<Rightarrow> bool handler" where
  "validates_expires fld message p = do {
     v \<leftarrow> fld;
     let fld_value = jq_trim v;
     (if (to_lower_case fld_value = ''off'' \<or> re_match seconds_re fld_value) \<or> fld_value = []
      then Some (True, p)
      else Some (False, p\<lparr>temp := temp p @
             '' Possible value for expires is no. of seconds or off<br>''\<rparr>)) }"

text \<open>\<open>/^([^@\s]+)@((?:[-a-z0-9]+\.)+[a-z]{2,})$/i\<close>.\<close>

definition domain_char :: "char \<Rightarrow> bool" where
  "domain_char c \<longleftrightarrow> c = CHR ''-'' \<or> is_alpha c \<or> is_digit c"

definition email_re :: re where
  "email_re =
     Seq (Plus (Cls (\<lambda>c. c \<noteq> CHR ''@'' \<and> \<not> is_ws c)))
       (Seq (Ch CHR ''@'')
         (Seq (Plus (Seq (Plus (Cls domain_char)) (Ch CHR ''.'')))
           (Seq (Cls is_alpha) (Plus (Cls is_alpha)))))"

definition validates_email :: "string \<Rightarrow> string \<Rightarrow> bool handler" where
  "validates_email fld0 message p =
     (let fld = jq_trim fld0
      in if length fld \<noteq> 0 \<and> \<not> re_match email_re fld
         then Some (False, p\<lparr>temp := temp p @ message @ '' is Invalid.<br>''\<rparr>)
         else Some (True, p))"

definition validates_value ::
  "string option \<Rightarrow> nat \<Rightarrow> nat \<Rightarrow> string \<Rightarrow> bool handler" where
  "validates_value fld min_range max_range message p = do {
     v \<leftarrow> fld;
     let fld_value = jq_trim v;
     (if (js_less (to_number fld_value) (Fin (real min_range))
          \<or> js_less (Fin (real max_range)) (to_number fld_value))
          \<and> length fld_value \<noteq> 0
      then Some (False, p\<lparr>temp := temp p @ message @ '' should be a number between ''
             @ nat_to_string min_range @ '' and '' @ nat_to_string max_range @ ''<br>''\<rparr>)
      else Some (True, p)) }"

text \<open>
  The loop of \<open>validate_smtp\<close> and \<open>validate_sendmail\<close> over the recipients,
  numbered from \<open>i + 1\<close>.
\<close>

fun validates_recipients :: "string list \<Rightarrow> nat \<Rightarrow> page \<Rightarrow> page option" where
  "validates_recipients [] i p = Some p"
| "validates_recipients (e # es) i p = do {
     (_, p) \<leftarrow> validates_email e (''Recipients Email Addresse '' @ nat_to_string (i + 1)) p;
     validates_recipients es (i + 1) p }"

section \<open>What the checks accept\<close>

definition filled :: "string \<Rightarrow> bool" where
  "filled v \<longleftrightarrow> trim v \<noteq> []"

definition all_digits :: "string \<Rightarrow> bool" where
  "all_digits v \<longleftrightarrow> (\<forall>c \<in> set (trim v). is_digit c)"

definition length_ok :: "nat \<Rightarrow> nat \<Rightarrow> string \<Rightarrow> bool" where
  "length_ok lo hi v \<longleftrightarrow> trim v = [] \<or> lo \<le> length (trim v) \<and> length (trim v) \<le> hi"

definition value_ok :: "nat \<Rightarrow> nat \<Rightarrow> string \<Rightarrow> bool" where
  "value_ok lo hi v \<longleftrightarrow>
     trim v = [] \<or>
     \<not> js_less (to_number (trim v)) (Fin (real lo)) \<and> \<not> js_less (Fin (real hi)) (to_number (trim v))"

definition expires_ok :: "string \<Rightarrow> bool" where
  "expires_ok v \<longleftrightarrow>
     trim v = [] \<or> to_lower_case (trim v) = ''off'' \<or> all_digits v"

definition confirmed :: "string \<Rightarrow> string \<Rightarrow> bool" where
  "confirmed v w \<longleftrightarrow> trim v = trim w \<or> length (trim v) < 6 \<or> length (trim w) < 6"

text \<open>
  An address: a non-empty local part without \<open>@\<close> and white space, at least one
  label of letters, digits and hyphens, each followed by a dot, and a top level
  of at least two letters.
\<close>

definition email_shape :: "string \<Rightarrow> bool" where
  "email_shape s \<longleftrightarrow>
     (\<exists>local labels tld.
        s = local @ ''@'' @ concat (map (\<lambda>l. l @ ''.'') labels) @ tld \<and>
        local \<noteq> [] \<and> (\<forall>c \<in> set local. c \<noteq> CHR ''@'' \<and> \<not> is_ws c) \<and>
        labels \<noteq> [] \<and> (\<forall>l \<in> set labels. l \<noteq> [] \<and> (\<forall>c \<in> set l. domain_char c)) \<and>
        2 \<le> length tld \<and> (\<forall>c \<in> set tld. is_alpha c))"

definition email_ok :: "string \<Rightarrow> bool" where
  "email_ok s \<longleftrightarrow> trim s = [] \<or> email_shape (trim s)"

lemma scan_number_iff: "scan_number (split_chars s) \<longleftrightarrow> (\<forall>c \<in> set s. is_digit c)"
proof -
  have "index_of ''0123456789'' [c] = -1 \<longleftrightarrow> \<not> is_digit c" for c
    by (simp only: index_of_char is_digit_set)
  then show ?thesis unfolding split_chars_def by (induction s) auto
qed

lemma seconds_re_iff: "re_match seconds_re s \<longleftrightarrow> s \<noteq> [] \<and> (\<forall>c \<in> set s. is_digit c)"
  by (simp add: re_match_lang seconds_re_def)

lemma labels_lang:
  "(\<exists>ws. ws \<noteq> [] \<and> s = concat ws \<and> set ws \<subseteq> lang (Seq (Plus (Cls P)) (Ch c))) \<longleftrightarrow>
   (\<exists>ls. ls \<noteq> [] \<and> s = concat (map (\<lambda>l. l @ [c]) ls) \<and>
         (\<forall>l \<in> set ls. l \<noteq> [] \<and> (\<forall>x \<in> set l. P x)))" (is "?L \<longleftrightarrow> ?R")
proof
  assume ?L
  then obtain ws where ws: "ws \<noteq> []" "s = concat ws"
    "\<forall>w \<in> set ws. \<exists>l. w = l @ [c] \<and> l \<noteq> [] \<and> (\<forall>x \<in> set l. P x)"
    by (auto simp: subset_iff)
  then have "map (\<lambda>w. butlast w @ [c]) ws = ws"
    by (intro map_idI, force)
  moreover have "\<forall>l \<in> set (map butlast ws). l \<noteq> [] \<and> (\<forall>x \<in> set l. P x)"
    using ws(3) by fastforce
  ultimately show ?R using ws by (intro exI [of _ "map butlast ws"]) (simp add: comp_def)
next
  assume ?R
  then obtain ls where "ls \<noteq> []" "s = concat (map (\<lambda>l. l @ [c]) ls)"
    "\<forall>l \<in> set ls. l \<noteq> [] \<and> (\<forall>x \<in> set l. P x)" by blast
  then show ?L by (intro exI [of _ "map (\<lambda>l. l @ [c]) ls"]) auto
qed

lemma alpha2_lang:
  "s \<in> lang (Seq (Cls is_alpha) (Plus (Cls is_alpha))) \<longleftrightarrow>
     2 \<le> length s \<and> (\<forall>c \<in> set s. is_alpha c)"
proof (cases s)
  case (Cons c cs)
  have "s \<in> lang (Seq (Cls is_alpha) (Plus (Cls is_alpha))) \<longleftrightarrow>
      is_alpha c \<and> cs \<in> lang (Plus (Cls is_alpha))"
    using Cons by (simp del: lang_Plus_Cls, metis append_Cons append_Nil list.inject)
  then show ?thesis using Cons by (cases cs) auto
qed (auto simp del: lang_Plus_Cls)

lemma at_lang:
  "s \<in> lang (Seq a (Seq (Ch c) (Seq b d))) \<longleftrightarrow>
     (\<exists>u v w. s = u @ [c] @ v @ w \<and> u \<in> lang a \<and> v \<in> lang b \<and> w \<in> lang d)"
  unfolding Seq_lang_iff lang_Ch singleton_iff by blast

lemma email_re_iff: "re_match email_re s \<longleftrightarrow> email_shape s"
proof -
  let ?dom = "Plus (Seq (Plus (Cls domain_char)) (Ch CHR ''.''))"
  have "re_match email_re s \<longleftrightarrow>
      (\<exists>local d tld. s = local @ ''@'' @ d @ tld \<and>
         local \<noteq> [] \<and> (\<forall>c \<in> set local. c \<noteq> CHR ''@'' \<and> \<not> is_ws c) \<and>
         d \<in> lang ?dom \<and> tld \<in> lang (Seq (Cls is_alpha) (Plus (Cls is_alpha))))"
    by (simp only: re_match_lang email_re_def at_lang lang_Plus_Cls mem_Collect_eq conj_assoc append.simps)
  also have "\<dots> \<longleftrightarrow> email_shape s"
  proof
    assume "\<exists>local d tld. s = local @ ''@'' @ d @ tld \<and>
         local \<noteq> [] \<and> (\<forall>c \<in> set local. c \<noteq> CHR ''@'' \<and> \<not> is_ws c) \<and>
         d \<in> lang ?dom \<and> tld \<in> lang (Seq (Cls is_alpha) (Plus (Cls is_alpha)))"
    then obtain local d tld ls where "s = local @ ''@'' @ d @ tld" "local \<noteq> []"
      "\<forall>c \<in> set local. c \<noteq> CHR ''@'' \<and> \<not> is_ws c" "2 \<le> length tld" "\<forall>c \<in> set tld. is_alpha c"
      "ls \<noteq> []" "d = concat (map (\<lambda>l. l @ ''.'') ls)"
      "\<forall>l \<in> set ls. l \<noteq> [] \<and> (\<forall>c \<in> set l. domain_char c)"
      unfolding Plus_concat [of _ "Seq _ _"] labels_lang alpha2_lang by metis
    then show "email_shape s" unfolding email_shape_def by metis
  next
    assume "email_shape s"
    then obtain local ls tld where "s = local @ ''@'' @ concat (map (\<lambda>l. l @ ''.'') ls) @ tld"
      "local \<noteq> []" "\<forall>c \<in> set local. c \<noteq> CHR ''@'' \<and> \<not> is_ws c" "2 \<le> length tld"
      "\<forall>c \<in> set tld. is_alpha c" "ls \<noteq> []"
      "\<forall>l \<in> set ls. l \<noteq> [] \<and> (\<forall>c \<in> set l. domain_char c)"
      unfolding email_shape_def by metis
    then show "\<exists>local d tld. s = local @ ''@'' @ d @ tld \<and>
         local \<noteq> [] \<and> (\<forall>c \<in> set local. c \<noteq> CHR ''@'' \<and> \<not> is_ws c) \<and>
         d \<in> lang ?dom \<and> tld \<in> lang (Seq (Cls is_alpha) (Plus (Cls is_alpha)))"
      unfolding Plus_concat [of _ "Seq _ _"] labels_lang alpha2_lang by metis
  qed
  finally show ?thesis .
qed

lemma value_ok_digits:
  assumes "filled v" and "all_digits v"
  shows "value_ok lo hi v \<longleftrightarrow> lo \<le> dec_val (trim v) \<and> dec_val (trim v) \<le> hi"
  using assms by (auto simp: value_ok_def filled_def all_digits_def to_number_digits)

section \<open>The contract of a check\<close>

text \<open>
  A check looks at its arguments only, answers whether it accepts them, appends
  its report to \<open>temp\<close> exactly when it does not, and leaves the document alone.
  \<open>effect\<close> is what a check does to the other globals.  The handlers of some forms
  compare the length of the collected text with 4, so a check whose reports are
  longer than that has a contract of its own, \<open>long_check\<close>.
\<close>

locale field_check =
  fixes check :: "'f \<Rightarrow> bool handler"
    and accepts :: "'f \<Rightarrow> bool"
    and report :: "'f \<Rightarrow> string"
    and effect :: "'f \<Rightarrow> page \<Rightarrow> page"
  assumes check_eq: "check f p = Some (accepts f,
      (effect f p)\<lparr>temp := temp p @ (if accepts f then [] else report f)\<rparr>)"
    and report_nonempty: "report f \<noteq> []"
    and effect_html: "inner_html (effect f p) = inner_html p"
    and effect_css: "css_padding (effect f p) = css_padding p"
begin

lemma check_total: "check f p \<noteq> None"
  by (simp add: check_eq)

lemma check_frame:
  "check f p = Some (b, p') \<Longrightarrow>
     b = accepts f \<and> inner_html p' = inner_html p \<and> css_padding p' = css_padding p"
  by (auto simp: check_eq effect_html effect_css)

lemma check_silent_iff: "check f p = Some (b, p') \<Longrightarrow> temp p' = temp p \<longleftrightarrow> b"
  using report_nonempty [of f] by (auto simp: check_eq)

text \<open>A run of checks, each one made whatever the ones before it said.\<close>

lemma checks_run:
  "\<exists>p'. foldl (\<lambda>q f. Option.bind q (\<lambda>p. map_option snd (check f p))) (Some p) fs = Some p' \<and>
     temp p' = temp p @ concat (map (\<lambda>f. if accepts f then [] else report f) fs) \<and>
     inner_html p' = inner_html p \<and> css_padding p' = css_padding p"
proof (induction fs arbitrary: p)
  case Nil
  show ?case by simp
next
  case (Cons f fs)
  let ?q = "(effect f p)\<lparr>temp := temp p @ (if accepts f then [] else report f)\<rparr>"
  from Cons [of ?q] show ?case by (auto simp: check_eq effect_html effect_css)
qed

lemma reports_empty_iff:
  "concat (map (\<lambda>f. if accepts f then [] else report f) fs) = [] \<longleftrightarrow> (\<forall>f \<in> set fs. accepts f)"
  using report_nonempty by (auto split: if_splits)

end

locale long_check = field_check +
  assumes report_long: "4 < length (report f)"
begin

lemma reports_short_iff:
  "length (concat (map (\<lambda>f. if accepts f then [] else report f) fs)) \<le> 4 \<longleftrightarrow>
     (\<forall>f \<in> set fs. accepts f)"
proof (induction fs)
  case Nil
  show ?case by simp
next
  case (Cons f fs)
  then show ?case using report_long [of f] by (auto intro: ccontr)
qed

end

interpretation presence: long_check
  "\<lambda>(v, m). validates_presence (Some v) m" "\<lambda>(v, m). filled v"
  "\<lambda>(v, m). m @ '' can't be blank. <br>''" "\<lambda>_ p. p"
  by unfold_locales (auto simp: validates_presence_def filled_def jq_trim_def Let_def split: if_splits)

interpretation len: field_check
  "\<lambda>(v, lo, hi, m). validates_length (Some v) lo hi m" "\<lambda>(v, lo, hi, m). length_ok lo hi v"
  "\<lambda>(v, lo, hi, m). m @ ''<br>''" "\<lambda>_ p. p"
  by unfold_locales (auto simp: validates_length_def length_ok_def jq_trim_def Let_def split: if_splits)

interpretation confirmation: long_check
  "\<lambda>(v, w). validates_confirmation (Some v) (Some w)" "\<lambda>(v, w). confirmed v w"
  "\<lambda>_. ''doesn't match confirmation. <br>''" "\<lambda>_ p. p"
  by unfold_locales (auto simp: validates_confirmation_def confirmed_def jq_trim_def Let_def split: if_splits)

interpretation number: long_check
  "\<lambda>(v, m). validates_number (Some v) m" "\<lambda>(v, m). all_digits v"
  "\<lambda>(v, m). m @ '' is not a valid number.<br>''" "\<lambda>(v, m) p. p\<lparr>val := all_digits v\<rparr>"
  by unfold_locales (auto simp: validates_number_def scan_number_iff all_digits_def jq_trim_def Let_def split: if_splits)

interpretation expires: long_check
  "\<lambda>(v, m). validates_expires (Some v) m" "\<lambda>(v, m). expires_ok v"
  "\<lambda>_. '' Possible value for expires is no. of seconds or off<br>''" "\<lambda>_ p. p"
  by unfold_locales
    (auto simp: validates_expires_def expires_ok_def seconds_re_iff all_digits_def jq_trim_def Let_def split: if_splits)

interpretation email: long_check
  "\<lambda>(e, m). validates_email e m" "\<lambda>(e, m). email_ok e"
  "\<lambda>(e, m). m @ '' is Invalid.<br>''" "\<lambda>_ p. p"
  by unfold_locales (auto simp: validates_email_def email_ok_def email_re_iff jq_trim_def Let_def split: if_splits)

interpretation range: long_check
  "\<lambda>(v, lo, hi, m). validates_value (Some v) lo hi m" "\<lambda>(v, lo, hi, m). value_ok lo hi v"
  "\<lambda>(v, lo, hi, m). m @ '' should be a number between '' @ nat_to_string lo @ '' and ''
      @ nat_to_string hi @ ''<br>''" "\<lambda>_ p. p"
  by unfold_locales (auto simp: validates_value_def value_ok_def jq_trim_def Let_def split: if_splits)

end
