(* ===== verification/AdminForms.thy ===== *)
theory AdminForms
  imports FormChecks
begin

text \<open>
  The submit handlers of the administration panel's forms in
  \<open>application.js\<close>: each clears \<open>temp\<close>, runs its checks in the order of the
  script, shows the collected text and says whether the form may be sent.
\<close>

section \<open>The handlers\<close>

definition clear_temp :: "page \<Rightarrow> page" where
  "clear_temp p = p\<lparr>temp := []\<rparr>"

text \<open>\<open>if (b) check\<close>, whose answer is dropped.\<close>

definition check_if :: "bool \<Rightarrow> bool handler \<Rightarrow> page \<Rightarrow> page option" where
  "check_if b c p = (if b then map_option snd (c p) else Some p)"

definition validate_user :: "form \<Rightarrow> bool handler" where
  "validate_user frm p = do {
     name \<leftarrow> frm ''user_name'';
     password \<leftarrow> frm ''user_password'';
     (if length name = 0 \<and> length password = 0
      then do {
        p \<leftarrow> set_html ''error_div'' ''Username/Password can't be blank.'' p;
        Some (False, p) }
      else do {
        (rv, p) \<leftarrow> (if length name = 0
           then do {
             p \<leftarrow> set_html ''error_div'' ''Username can't be blank.'' p;
             Some (False, p) }
           else Some (True, p));
        (if length password = 0
         then do {
           p \<leftarrow> set_html ''error_div'' ''Password can't be blank.'' p;
           Some (False, p) }
         else Some (rv, p)) }) }"

definition validate_feedback :: "form \<Rightarrow> bool handler" where
  "validate_feedback frm p = do {
     let p = clear_temp (css_pad ''error_div'' p);
     (_, p) \<leftarrow> validates_presence (frm ''feedback_name'') ''Name'' p;
     (ok, p) \<leftarrow> validates_presence (frm ''feedback_email'') ''Email Address'' p;
     email \<leftarrow> frm ''feedback_email'';
     p \<leftarrow> check_if ok (validates_email email ''Email Address'') p;
     (_, p) \<leftarrow> validates_presence (frm ''feedback_message'') ''Message'' p;
     let p = set_html_if_present ''error_div'' (temp p) p;
     Some (\<not> length (temp p) > 4, p) }"

definition validate_report_bug :: "form \<Rightarrow> bool handler" where
  "validate_report_bug frm p = do {
     let p = clear_temp (css_pad ''error_div'' p);
     (_, p) \<leftarrow> validates_presence (frm ''report_bug_name'') ''Name'' p;
     (ok, p) \<leftarrow> validates_presence (frm ''report_bug_email'') ''Email Address'' p;
     email \<leftarrow> frm ''report_bug_email'';
     p \<leftarrow> check_if ok (validates_email email ''Email Address'') p;
     (_, p) \<leftarrow> validates_presence (frm ''report_bug_subject'') ''Subject'' p;
     (_, p) \<leftarrow> validates_presence (frm ''report_bug_description'') ''Description'' p;
     let p = set_html_if_present ''error_div'' (temp p) p;
     Some (\<not> length (temp p) > 4, p) }"

definition validate_expire_by_type :: "form \<Rightarrow> bool handler" where
  "validate_expire_by_type frm p = do {
     let p = clear_temp (css_pad ''error_div_expire_by_type'' p);
     (_, p) \<leftarrow> validates_presence (frm ''data_ext'') ''File Extension'' p;
     (ok, p) \<leftarrow> validates_presence (frm ''data_expires'') ''Expires Time'' p;
     p \<leftarrow> check_if ok (validates_number (frm ''data_expires'') ''Expires Time'') p;
     let p = set_html_if_present ''error_div_expire_by_type'' (temp p) p;
     Some (\<not> length (temp p) > 4, p) }"

definition bullet :: string where
  "bullet = ''&nbsp;&nbsp;&nbsp;&nbsp; &#8226 ''"

text \<open>
  The two worker fields of \<open>validate_application\<close>: the number of errors to add
  to \<open>count\<close>.  The range check words its label differently.
\<close>

definition validate_worker_field ::
  "string option \<Rightarrow> string \<Rightarrow> string \<Rightarrow> nat handler" where
  "validate_worker_field fld label range_label p = do {
     (ok, p) \<leftarrow> validates_presence fld label p;
     (if ok then do {
        (ok, p) \<leftarrow> validates_number fld label p;
        (if ok then do {
           (ok, p) \<leftarrow> validates_value fld 1 20 range_label p;
           Some (if \<not> ok then 1 else 0, p) }
         else Some (1, p)) }
      else Some (1, p)) }"

text \<open>\<open>val = validates_presence(...); if (val == false) count++\<close>.\<close>

definition count_presence :: "string option \<Rightarrow> string \<Rightarrow> nat \<Rightarrow> nat handler" where
  "count_presence fld label count p = do {
     (ok, p) \<leftarrow> validates_presence fld label p;
     let p = p\<lparr>val := ok\<rparr>;
     Some (if val p = False then count + 1 else count, p) }"

definition show_count :: "nat \<Rightarrow> string \<Rightarrow> page \<Rightarrow> page option" where
  "show_count count noun p =
     set_html ''error_div''
       ((''<h2> '' @ nat_to_string count @ noun
         @ '' prohibited this application specification from being saved</h2> There were problems with following fields'')
        @ ''<br><br>'' @ temp p) p"

text \<open>The checks of \<open>validate_application\<close>, up to the point where \<open>count\<close> is inspected.\<close>

definition application_checks :: "form \<Rightarrow> nat handler" where
  "application_checks frm p = do {
     let p = clear_temp (css_pad ''error_div'' p);
     let p = p\<lparr>val := True\<rparr>;
     (count, p) \<leftarrow> count_presence (frm ''application_specification_name'')
        (bullet @ ''Application Name'') 0 p;
     (count, p) \<leftarrow> count_presence (frm ''application_specification_resolver'')
        (bullet @ ''Application Resolver'') count p;
     (count, p) \<leftarrow> count_presence (frm ''application_specification_path'')
        (bullet @ ''Application Path'') count p;
     (count, p) \<leftarrow> count_presence (frm ''application_specification_run_as_user'')
        (bullet @ ''Application RunAsUser'') count p;
     (count, p) \<leftarrow> count_presence (frm ''application_specification_environment'')
        (bullet @ ''Application Environment'') count p;
     (n, p) \<leftarrow> validate_worker_field (frm ''application_specification_min_worker'')
        (bullet @ ''Minimum Number of Workers'') (bullet @ ''Minimum Number of workers'') p;
     let count = count + n;
     (n, p) \<leftarrow> validate_worker_field (frm ''application_specification_max_worker'')
        (bullet @ ''Maximum Number of Workers'') (bullet @ ''Maximum Number of workers'') p;
     Some (count + n, p) }"

definition validate_application :: "form \<Rightarrow> bool handler" where
  "validate_application frm p = do {
     (count, p) \<leftarrow> application_checks frm p;
     p \<leftarrow> (if count > 1 then do {
            p \<leftarrow> show_count count '' errors'' p;
            Some (p\<lparr>val := False\<rparr>) } else Some p);
     p \<leftarrow> (if count = 1 then do {
            p \<leftarrow> show_count count '' error'' p;
            Some (p\<lparr>val := False\<rparr>) } else Some p);
     Some (val p, p) }"

definition validate_password :: "form \<Rightarrow> bool handler" where
  "validate_password frm p = do {
     let p = clear_temp (css_pad ''error_div'' p);
     (_, p) \<leftarrow> validates_presence (frm ''password_old'') ''Old password'' p;
     (ok, p) \<leftarrow> validates_presence (frm ''password_new'') ''New password'' p;
     p \<leftarrow> check_if ok (validates_length (frm ''password_new'') 6 20
            ''New password is too short (minimum is 6 characters)'') p;
     (ok, p) \<leftarrow> validates_presence (frm ''password_confirm'') ''Confirm password'' p;
     p \<leftarrow> check_if ok (validates_length (frm ''password_confirm'') 6 20
            ''Confirm password is too short (minimum is 6 characters)'') p;
     (_, p) \<leftarrow> validates_confirmation (frm ''password_new'') (frm ''password_confirm'') p;
     (if length (temp p) > 0
      then do {
        p \<leftarrow> set_html ''error_div'' (temp p) p;
        Some (False, p) }
      else Some (True, p)) }"

definition validate_headers_expire :: "form \<Rightarrow> elem_id \<Rightarrow> string \<Rightarrow> bool handler" where
  "validate_headers_expire frm div_id old_data_value p = do {
     let p = clear_temp p;
     (ok, p) \<leftarrow> validates_presence (frm ''data_value'') ''Expires'' p;
     p \<leftarrow> check_if ok (validates_expires (frm ''data_value'') ''Expires'') p;
     (if length (temp p) > 0
      then do {
        p \<leftarrow> set_html div_id
               (old_data_value @ ''<span style='color:red;display:inline;'> '' @ temp p @ ''</span>'') p;
        Some (False, p) }
      else Some (True, p)) }"

text \<open>Presence, then number, then range: the nested \<open>if\<close>s of the port fields.\<close>

definition check_number_field ::
  "string option \<Rightarrow> nat \<Rightarrow> nat \<Rightarrow> string \<Rightarrow> page \<Rightarrow> page option" where
  "check_number_field fld lo hi label p = do {
     (ok, p) \<leftarrow> validates_presence fld label p;
     (if ok then do {
        (ok, p) \<leftarrow> validates_number fld label p;
        check_if ok (validates_value fld lo hi label) p }
      else Some p) }"

definition validate_smtp :: "form \<Rightarrow> bool handler" where
  "validate_smtp frm p = do {
     let p = clear_temp (css_pad ''error_div_smtp_form'' p);
     (_, p) \<leftarrow> validates_presence (frm ''smtp_address'') ''SMTP Server'' p;
     (_, p) \<leftarrow> validates_presence (frm ''smtp_domain'') ''SMTP Domain'' p;
     (_, p) \<leftarrow> validates_presence (frm ''smtp_user_name'') ''SMTP Username'' p;
     (ok, p) \<leftarrow> validates_presence (frm ''smtp_from'') ''Senders Email Address'' p;
     sender \<leftarrow> frm ''smtp_from'';
     p \<leftarrow> check_if ok (validates_email sender ''Senders Email Address'') p;
     p \<leftarrow> check_number_field (frm ''smtp_port'') 1 65535 ''SMTP Port'' p;
     (_, p) \<leftarrow> validates_presence (frm ''smtp_authentication'') ''SMTP Authentication'' p;
     (_, p) \<leftarrow> validates_presence (frm ''smtp_password'') ''SMTP Password'' p;
     (ok, p) \<leftarrow> validates_presence (frm ''smtp_recipients'') ''Recipients Email Addresses'' p;
     recipients \<leftarrow> frm ''smtp_recipients'';
     p \<leftarrow> (if ok then validates_recipients (split_char (CHR '','') recipients) 0 p else Some p);
     let p = set_html_if_present ''error_div_smtp_form'' (temp p) p;
     Some (\<not> length (temp p) > 0, p) }"

definition validate_sendmail :: "form \<Rightarrow> bool handler" where
  "validate_sendmail frm p = do {
     let p = clear_temp (css_pad ''error_div_sendmail_form'' p);
     (_, p) \<leftarrow> validates_presence (frm ''sendmail_location'') ''Sendmail Location'' p;
     (ok, p) \<leftarrow> validates_presence (frm ''sendmail_from'') ''Sender's Email Address'' p;
     sender \<leftarrow> frm ''sendmail_from'';
     p \<leftarrow> check_if ok (validates_email sender ''Sender's Email Address'') p;
     (ok, p) \<leftarrow> validates_presence (frm ''sendmail_recipients'') ''Recipient Email Addresses'' p;
     recipients \<leftarrow> frm ''sendmail_recipients'';
     p \<leftarrow> (if ok then validates_recipients (split_char (CHR '','') recipients) 0 p else Some p);
     let p = set_html_if_present ''error_div_sendmail_form'' (temp p) p;
     Some (\<not> length (temp p) > 0, p) }"

definition validate_server_specification :: "form \<Rightarrow> elem_id \<Rightarrow> string \<Rightarrow> bool handler" where
  "validate_server_specification frm div_id old_data_value p = do {
     let p = clear_temp p;
     let data_value = frm ''data_value'';
     p \<leftarrow> (if \<not> div_id = ''log_div'' then
            if div_id = ''min_pro_div'' then check_number_field data_value 1 20 ''Minimum Workers'' p
            else if div_id = ''max_pro_div'' then check_number_field data_value 1 20 ''Maximum Workers'' p
            else if div_id = ''port_div'' then check_number_field data_value 1 65535 ''Port Number'' p
            else if div_id = ''ssl_port_div'' then check_number_field data_value 1 65535 ''SSL Port Number'' p
            else if div_id = ''certificate_div''
              then map_option snd (validates_presence data_value ''Certificate Path'' p)
            else if div_id = ''key_div''
              then map_option snd (validates_presence data_value ''Key Path'' p)
            else Some p
          else Some p);
     (if length (temp p) > 0
      then do {
        p \<leftarrow> set_html div_id
               (old_data_value @ '' <span style='color:red;display:inline'>'' @ temp p @ ''</span>'') p;
        Some (False, p) }
      else Some (True, p)) }"

definition validate_ssl :: "form \<Rightarrow> bool handler" where
  "validate_ssl frm p = do {
     let p = clear_temp p;
     p \<leftarrow> check_number_field (frm ''ssl_port'') 1 65535 ''SMTP Port'' p;
     (_, p) \<leftarrow> validates_presence (frm ''ssl_certificate_path'') ''SSL Certificate Path'' p;
     (_, p) \<leftarrow> validates_presence (frm ''ssl_key_path'') ''SSL Key Path'' p;
     let p = set_html_if_present ''error_div_ssl_form'' (temp p) p;
     Some (\<not> length (temp p) > 0, p) }"

section \<open>What the handlers compute\<close>

definition number_ok :: "nat \<Rightarrow> nat \<Rightarrow> string \<Rightarrow> bool" where
  "number_ok lo hi v \<longleftrightarrow>
     filled v \<and> all_digits v \<and> lo \<le> dec_val (trim v) \<and> dec_val (trim v) \<le> hi"

definition presence_report :: "string \<Rightarrow> string \<Rightarrow> string" where
  "presence_report v l = (if filled v then [] else l @ '' can't be blank. <br>'')"

definition email_report :: "string \<Rightarrow> string \<Rightarrow> string" where
  "email_report e l = (if email_ok e then [] else l @ '' is Invalid.<br>'')"

definition digits_report :: "string \<Rightarrow> string \<Rightarrow> string" where
  "digits_report v l = (if all_digits v then [] else l @ '' is not a valid number.<br>'')"

definition range_report :: "nat \<Rightarrow> nat \<Rightarrow> string \<Rightarrow> string \<Rightarrow> string" where
  "range_report lo hi v l = (if value_ok lo hi v then []
     else l @ '' should be a number between '' @ nat_to_string lo @ '' and ''
          @ nat_to_string hi @ ''<br>'')"

definition length_report :: "nat \<Rightarrow> nat \<Rightarrow> string \<Rightarrow> string \<Rightarrow> string" where
  "length_report lo hi v l = (if length_ok lo hi v then [] else l @ ''<br>'')"

definition confirm_report :: "string \<Rightarrow> string \<Rightarrow> string" where
  "confirm_report v w = (if confirmed v w then [] else ''doesn't match confirmation. <br>'')"

definition expires_report :: "string \<Rightarrow> string" where
  "expires_report v = (if expires_ok v then []
     else '' Possible value for expires is no. of seconds or off<br>'')"

definition number_report :: "nat \<Rightarrow> nat \<Rightarrow> string \<Rightarrow> string \<Rightarrow> string \<Rightarrow> string" where
  "number_report lo hi v l rl =
     presence_report v l @
     (if filled v then digits_report v l @ (if all_digits v then range_report lo hi v rl else [])
      else [])"

definition recipients_report :: "string list \<Rightarrow> nat \<Rightarrow> string" where
  "recipients_report es i =
     concat (map (\<lambda>(e, j). email_report e (''Recipients Email Addresse '' @ nat_to_string (j + 1)))
       (zip es [i..<i + length es]))"

lemma presence_eq [simp]:
  "validates_presence (Some v) l p = Some (filled v, p\<lparr>temp := temp p @ presence_report v l\<rparr>)"
  using presence.check_eq [of "(v, l)" p] by (simp add: presence_report_def)

lemma email_eq [simp]:
  "validates_email e l p = Some (email_ok e, p\<lparr>temp := temp p @ email_report e l\<rparr>)"
  using email.check_eq [of "(e, l)" p] by (simp add: email_report_def)

lemma number_eq [simp]:
  "validates_number (Some v) l p =
     Some (all_digits v, p\<lparr>temp := temp p @ digits_report v l, val := all_digits v\<rparr>)"
  using number.check_eq [of "(v, l)" p] by (simp add: digits_report_def)

lemma range_eq [simp]:
  "validates_value (Some v) lo hi l p =
     Some (value_ok lo hi v, p\<lparr>temp := temp p @ range_report lo hi v l\<rparr>)"
  using range.check_eq [of "(v, lo, hi, l)" p] by (simp add: range_report_def)

lemma length_eq [simp]:
  "validates_length (Some v) lo hi l p =
     Some (length_ok lo hi v, p\<lparr>temp := temp p @ length_report lo hi v l\<rparr>)"
  using len.check_eq [of "(v, lo, hi, l)" p] by (simp add: length_report_def)

lemma confirmation_eq [simp]:
  "validates_confirmation (Some v) (Some w) p =
     Some (confirmed v w, p\<lparr>temp := temp p @ confirm_report v w\<rparr>)"
  using confirmation.check_eq [of "(v, w)" p] by (simp add: confirm_report_def)

lemma expires_eq [simp]:
  "validates_expires (Some v) l p =
     Some (expires_ok v, p\<lparr>temp := temp p @ expires_report v\<rparr>)"
  using expires.check_eq [of "(v, l)" p] by (simp add: expires_report_def)

lemma recipients_eq [simp]:
  "validates_recipients es i p = Some (p\<lparr>temp := temp p @ recipients_report es i\<rparr>)"
proof (induction es arbitrary: i p)
  case Nil
  show ?case by (simp add: recipients_report_def)
next
  case (Cons e es)
  have "[i..<i + length (e # es)] = i # [Suc i..<Suc i + length es]"
    by (subst upt_conv_Cons) (simp_all del: upt_Suc)
  then have "recipients_report (e # es) i =
      email_report e (''Recipients Email Addresse '' @ nat_to_string (i + 1)) @
      recipients_report es (Suc i)"
    by (simp add: recipients_report_def)
  with Cons show ?case by simp
qed

text \<open>Each report is empty exactly when its check accepts; otherwise it is longer than 4.\<close>

lemma presence_report_Nil [simp]: "presence_report v l = [] \<longleftrightarrow> filled v"
  by (simp add: presence_report_def)

lemma email_report_Nil [simp]: "email_report e l = [] \<longleftrightarrow> email_ok e"
  by (simp add: email_report_def)

lemma digits_report_Nil [simp]: "digits_report v l = [] \<longleftrightarrow> all_digits v"
  by (simp add: digits_report_def)

lemma range_report_Nil [simp]: "range_report lo hi v l = [] \<longleftrightarrow> value_ok lo hi v"
  by (simp add: range_report_def)

lemma length_report_Nil [simp]: "length_report lo hi v l = [] \<longleftrightarrow> length_ok lo hi v"
  by (simp add: length_report_def)

lemma confirm_report_Nil [simp]: "confirm_report v w = [] \<longleftrightarrow> confirmed v w"
  by (simp add: confirm_report_def)

lemma expires_report_Nil [simp]: "expires_report v = [] \<longleftrightarrow> expires_ok v"
  by (simp add: expires_report_def)

lemma number_report_Nil [simp]: "number_report lo hi v l rl = [] \<longleftrightarrow> number_ok lo hi v"
  by (auto simp: number_report_def number_ok_def value_ok_digits)

lemma recipients_report_Nil [simp]:
  "recipients_report es i = [] \<longleftrightarrow> (\<forall>e \<in> set es. email_ok e)"
proof -
  have "(\<forall>x \<in> set (zip es [i..<i + length es]). email_ok (fst x)) \<longleftrightarrow> (\<forall>e \<in> set es. email_ok e)"
  proof -
    have "fst ` set (zip es [i..<i + length es]) = set es"
      by (simp flip: set_map add: map_fst_zip)
    then show ?thesis by (simp flip: ball_simps(9))
  qed
  then show ?thesis by (auto simp: recipients_report_def split_beta)
qed

lemma report_long:
  "\<not> filled v \<Longrightarrow> 4 < length (presence_report v l)"
  "\<not> email_ok e \<Longrightarrow> 4 < length (email_report e l)"
  "\<not> all_digits v \<Longrightarrow> 4 < length (digits_report v l)"
  by (simp_all add: presence_report_def email_report_def digits_report_def)

lemma number_field_eq [simp]:
  "check_number_field (Some v) lo hi l p =
     Some (p\<lparr>temp := temp p @ number_report lo hi v l l,
             val := (if filled v then all_digits v else val p)\<rparr>)"
  by (simp add: check_number_field_def check_if_def number_report_def)

lemma worker_field_eq [simp]:
  "validate_worker_field (Some v) l rl p =
     Some (if number_ok 1 20 v then 0 else 1,
           p\<lparr>temp := temp p @ number_report 1 20 v l rl,
             val := (if filled v then all_digits v else val p)\<rparr>)"
  by (auto simp: validate_worker_field_def number_report_def number_ok_def value_ok_digits)

lemma check_if_simps [simp]:
  "check_if b (validates_email e l) p =
     Some (p\<lparr>temp := temp p @ (if b then email_report e l else [])\<rparr>)"
  "check_if b (validates_length (Some v) lo hi l) p =
     Some (p\<lparr>temp := temp p @ (if b then length_report lo hi v l else [])\<rparr>)"
  "check_if b (validates_expires (Some v) l) p =
     Some (p\<lparr>temp := temp p @ (if b then expires_report v else [])\<rparr>)"
  "check_if b (validates_number (Some v) l) p =
     Some (p\<lparr>temp := temp p @ (if b then digits_report v l else []),
             val := (if b then all_digits v else val p)\<rparr>)"
  by (simp_all add: check_if_def)

lemma recipients_if [simp]:
  "(if b then validates_recipients es i p else Some p) =
     Some (p\<lparr>temp := temp p @ (if b then recipients_report es i else [])\<rparr>)"
  by simp

lemma if_report_Nil [simp]: "(if b then r else []) = [] \<longleftrightarrow> (b \<longrightarrow> r = [])"
  by simp

lemma count_presence_eq [simp]:
  "count_presence (Some v) l n p =
     Some (n + (if filled v then 0 else 1),
           p\<lparr>temp := temp p @ presence_report v l, val := filled v\<rparr>)"
  by (simp add: count_presence_def)

lemma set_html_Some [simp]:
  "inner_html p i = Some h \<Longrightarrow> set_html i s p = Some (p\<lparr>inner_html := (inner_html p)(i \<mapsto> s)\<rparr>)"
  by (simp add: set_html_def)

lemma clear_css_simps [simp]:
  "temp (clear_temp p) = []"
  "inner_html (clear_temp p) = inner_html p"
  "css_padding (clear_temp p) = css_padding p"
  "val (clear_temp p) = val p"
  "inner_html (css_pad i p) = inner_html p"
  "temp (css_pad i p) = temp p"
  by (simp_all add: clear_temp_def css_pad_def)

lemma set_html_if_present_simps [simp]:
  "temp (set_html_if_present i s p) = temp p"
  "inner_html (set_html_if_present i s p) =
     (if inner_html p i = None then inner_html p else (inner_html p)(i \<mapsto> s))"
  by (auto simp: set_html_if_present_def set_html_def split: option.split)

lemma length_pos_iff: "0 < length s \<longleftrightarrow> s \<noteq> []"
  by simp

section \<open>Which forms are sent\<close>

text \<open>
  The fields of the application form in the order of the script, and which of
  them are in order.
\<close>

definition application_fields :: "string list" where
  "application_fields =
     [''application_specification_name'', ''application_specification_resolver'',
      ''application_specification_path'', ''application_specification_run_as_user'',
      ''application_specification_environment'', ''application_specification_min_worker'',
      ''application_specification_max_worker'']"

definition application_field_ok :: "string \<Rightarrow> string \<Rightarrow> bool" where
  "application_field_ok f v \<longleftrightarrow>
     (if f \<in> {''application_specification_min_worker'', ''application_specification_max_worker''}
      then number_ok 1 20 v else filled v)"

definition bad_fields :: "form \<Rightarrow> string list" where
  "bad_fields frm = filter (\<lambda>f. \<not> application_field_ok f (the (frm f))) application_fields"

definition has_fields :: "form \<Rightarrow> string list \<Rightarrow> bool" where
  "has_fields frm fs \<longleftrightarrow> list_all (\<lambda>f. frm f \<noteq> None) fs"

lemma has_fieldsD: "has_fields frm fs \<Longrightarrow> f \<in> set fs \<Longrightarrow> frm f = Some (the (frm f))"
  by (auto simp: has_fields_def list_all_iff)

lemma has_fields_Cons [simp]:
  "has_fields frm (f # fs) \<longleftrightarrow> (\<exists>v. frm f = Some v) \<and> has_fields frm fs"
  by (auto simp: has_fields_def)

lemma has_fields_Nil [simp]: "has_fields frm []"
  by (simp add: has_fields_def)

lemma length_filter_sum: "length (filter P xs) = (\<Sum>x\<leftarrow>xs. if P x then 1 else 0)"
  by (induction xs) auto

lemma if_not_P_swap: "(if \<not> b then x else y) = (if b then y else x)"
  by simp

lemma application_checks_eq:
  assumes "has_fields frm application_fields"
  shows "\<exists>q. application_checks frm p = Some (length (bad_fields frm), q) \<and>
     inner_html q = inner_html p \<and> (bad_fields frm = [] \<longrightarrow> val q)"
proof -
  from assms obtain v1 v2 v3 v4 v5 v6 v7 where v:
    "frm ''application_specification_name'' = Some v1"
    "frm ''application_specification_resolver'' = Some v2"
    "frm ''application_specification_path'' = Some v3"
    "frm ''application_specification_run_as_user'' = Some v4"
    "frm ''application_specification_environment'' = Some v5"
    "frm ''application_specification_min_worker'' = Some v6"
    "frm ''application_specification_max_worker'' = Some v7"
    by (auto simp: application_fields_def)
  have n: "length (bad_fields frm) =
     (if filled v1 then 0 else 1) + (if filled v2 then 0 else 1) + (if filled v3 then 0 else 1) +
     (if filled v4 then 0 else 1) + (if filled v5 then 0 else 1) +
     (if number_ok 1 20 v6 then 0 else 1) + (if number_ok 1 20 v7 then 0 else 1)"
    unfolding bad_fields_def length_filter_sum using v
    by (simp add: application_fields_def application_field_ok_def add.assoc if_not_P_swap
        split del: if_split)
  have "bad_fields frm = [] \<Longrightarrow> filled v7 \<and> all_digits v7"
    using v by (auto simp: bad_fields_def application_fields_def application_field_ok_def
        number_ok_def split: if_splits)
  then show ?thesis
    unfolding n by (simp add: application_checks_def v add.assoc Let_def split del: if_split)
qed

definition server_value_ok :: "elem_id \<Rightarrow> string \<Rightarrow> bool" where
  "server_value_ok div_id v \<longleftrightarrow>
     (if div_id \<in> {''min_pro_div'', ''max_pro_div''} then number_ok 1 20 v
      else if div_id \<in> {''port_div'', ''ssl_port_div''} then number_ok 1 65535 v
      else if div_id \<in> {''certificate_div'', ''key_div''} then filled v
      else True)"

definition smtp_ok :: "form \<Rightarrow> bool" where
  "smtp_ok frm \<longleftrightarrow>
     (\<forall>f \<in> {''smtp_address'', ''smtp_domain'', ''smtp_user_name'', ''smtp_from'',
           ''smtp_authentication'', ''smtp_password'', ''smtp_recipients''}. filled (the (frm f))) \<and>
     email_ok (the (frm ''smtp_from'')) \<and>
     number_ok 1 65535 (the (frm ''smtp_port'')) \<and>
     (\<forall>e \<in> set (split_char (CHR '','') (the (frm ''smtp_recipients''))). email_ok e)"

text \<open>
  C1. On a page with the error element and a form with all its inputs, the handler of the
  application form terminates without an error; it lets the form through exactly when every
  field is filled in and both worker counts are numbers between 1 and 20; and otherwise the
  error element shows how many fields are wrong, in the right grammatical number, followed by
  the reports, while the rest of the document is unchanged.
\<close>

theorem validate_application_decides:
  assumes "has_fields frm application_fields" and "inner_html p ''error_div'' = Some h"
  shows "\<exists>p'. validate_application frm p = Some (bad_fields frm = [], p') \<and>
     inner_html p' =
       (if bad_fields frm = [] then inner_html p
        else (inner_html p)(''error_div'' \<mapsto>
          ''<h2> '' @ nat_to_string (length (bad_fields frm))
          @ (if length (bad_fields frm) = 1 then '' error'' else '' errors'')
          @ '' prohibited this application specification from being saved</h2> There were problems with following fields''
          @ ''<br><br>'' @ temp p'))"
proof -
  from application_checks_eq [OF assms(1)] obtain q where q:
    "application_checks frm p = Some (length (bad_fields frm), q)" "inner_html q = inner_html p"
    "bad_fields frm = [] \<longrightarrow> val q" by blast
  consider "bad_fields frm = []" | "length (bad_fields frm) = 1" | "length (bad_fields frm) > 1"
    by (cases "bad_fields frm") auto
  then show ?thesis
    by cases (use q assms(2) in \<open>auto simp: validate_application_def show_count_def\<close>)
qed

definition sample_application :: form where
  "sample_application = map_of
     [(''application_specification_name'', ''blog''), (''application_specification_resolver'', ''/blog''),
      (''application_specification_path'', ''/srv/blog''), (''application_specification_run_as_user'', '' ''),
      (''application_specification_environment'', ''production''),
      (''application_specification_min_worker'', ''21''), (''application_specification_max_worker'', ''8'')]"

definition sample_page :: page where
  "sample_page = \<lparr>temp = [], val = False, inner_html = [''error_div'' \<mapsto> [], ''min_pro_div'' \<mapsto> ''4''],
     css_padding = Map.empty\<rparr>"

lemma bad_sample: "bad_fields sample_application =
    [''application_specification_run_as_user'', ''application_specification_min_worker'']"
  by code_simp

theorem validate_application_decides_witness:
  "\<exists>p'. validate_application sample_application sample_page = Some (False, p') \<and>
     inner_html p' ''error_div'' = Some (''<h2> 2 errors''
       @ '' prohibited this application specification from being saved</h2> There were problems with following fields''
       @ ''<br><br>'' @ temp p')"
proof -
  have "has_fields sample_application application_fields" by code_simp
  moreover have "inner_html sample_page ''error_div'' = Some []"
    by (simp add: sample_page_def)
  moreover have "nat_to_string (Suc (Suc 0)) = ''2''" by code_simp
  ultimately show ?thesis
    using validate_application_decides [of sample_application sample_page "[]"]
    by (auto simp: bad_sample)
qed

text \<open>
  The handler of the inline server settings accepts a value exactly when it is allowed for
  the setting: worker counts between 1 and 20, ports between 1 and 65535, non-blank paths, any
  log level.  A rejected value is replaced on the page by the old one with the reports, in the
  element of that setting only; an accepted one leaves the document as it is.
\<close>

theorem validate_server_specification_decides:
  assumes "frm ''data_value'' = Some v" and "inner_html p div_id = Some h"
  shows "\<exists>p'. validate_server_specification frm div_id old p = Some (server_value_ok div_id v, p') \<and>
     (server_value_ok div_id v \<longrightarrow> temp p' = [] \<and> inner_html p' = inner_html p) \<and>
     (\<not> server_value_ok div_id v \<longrightarrow> temp p' \<noteq> [] \<and>
        inner_html p' = (inner_html p)(div_id \<mapsto>
          old @ '' <span style='color:red;display:inline'>'' @ temp p' @ ''</span>''))"
proof -
  consider "div_id = ''min_pro_div''" | "div_id = ''max_pro_div''" | "div_id = ''port_div''"
    | "div_id = ''ssl_port_div''" | "div_id = ''certificate_div''" | "div_id = ''key_div''"
    | "div_id \<notin> {''min_pro_div'', ''max_pro_div'', ''port_div'', ''ssl_port_div'',
        ''certificate_div'', ''key_div''}"
    unfolding insert_iff empty_iff by argo
  then show ?thesis
    by cases (use assms in \<open>simp_all add: validate_server_specification_def server_value_ok_def Let_def\<close>)
qed

theorem validate_server_specification_decides_witness:
  "\<exists>p'. validate_server_specification [''data_value'' \<mapsto> ''21''] ''min_pro_div'' ''4'' sample_page
     = Some (False, p')"
proof -
  have a: "[''data_value'' \<mapsto> ''21''] ''data_value'' = Some ''21''" by simp
  have b: "inner_html sample_page ''min_pro_div'' = Some ''4''" by (simp add: sample_page_def)
  have no: "server_value_ok ''min_pro_div'' ''21'' = False" by code_simp
  show ?thesis
    using validate_server_specification_decides [of "[''data_value'' \<mapsto> ''21'']", OF a b, of "''4''"]
    unfolding no
    by (elim exE conjE) (rule exI)
qed

text \<open>
  The mail form is sent exactly when every field is filled in, the port is a number between
  1 and 65535, the sender and every comma separated recipient are addresses (or blank, for a
  recipient); the form's error element, where the page has one, then shows the reports.
\<close>

theorem validate_smtp_decides:
  assumes "has_fields frm [''smtp_address'', ''smtp_domain'', ''smtp_user_name'', ''smtp_from'',
    ''smtp_port'', ''smtp_authentication'', ''smtp_password'', ''smtp_recipients'']"
  shows "\<exists>p'. validate_smtp frm p = Some (smtp_ok frm, p') \<and> (temp p' = [] \<longleftrightarrow> smtp_ok frm) \<and>
     inner_html p' = (if inner_html p ''error_div_smtp_form'' = None then inner_html p
        else (inner_html p)(''error_div_smtp_form'' \<mapsto> temp p'))"
proof -
  from assms obtain v1 v2 v3 v4 v5 v6 v7 v8 where v:
    "frm ''smtp_address'' = Some v1" "frm ''smtp_domain'' = Some v2" "frm ''smtp_user_name'' = Some v3"
    "frm ''smtp_from'' = Some v4" "frm ''smtp_port'' = Some v5" "frm ''smtp_authentication'' = Some v6"
    "frm ''smtp_password'' = Some v7" "frm ''smtp_recipients'' = Some v8"
    by auto
  have "smtp_ok frm \<longleftrightarrow> filled v1 \<and> filled v2 \<and> filled v3 \<and> filled v4 \<and> email_ok v4 \<and>
      number_ok 1 65535 v5 \<and> filled v6 \<and> filled v7 \<and> filled v8 \<and>
      (\<forall>e \<in> set (split_char (CHR '','') v8). email_ok e)"
    using v by (simp add: smtp_ok_def) blast
  then show ?thesis by (simp add: validate_smtp_def v Let_def split del: if_split) auto
qed

definition sample_smtp :: form where
  "sample_smtp = map_of
     [(''smtp_address'', ''mail.example.com''), (''smtp_domain'', ''example.com''),
      (''smtp_user_name'', ''joe''), (''smtp_from'', ''joe@example.com''), (''smtp_port'', ''25''),
      (''smtp_authentication'', ''plain''), (''smtp_password'', ''secret''),
      (''smtp_recipients'', ''ann@example.com,bob@example'')]"

theorem validate_smtp_decides_witness:
  "\<exists>p'. validate_smtp sample_smtp sample_page = Some (False, p')"
proof -
  have f: "has_fields sample_smtp [''smtp_address'', ''smtp_domain'', ''smtp_user_name'', ''smtp_from'',
    ''smtp_port'', ''smtp_authentication'', ''smtp_password'', ''smtp_recipients'']"
    by code_simp
  have "(trim ''bob@example'' = [] \<or> re_match email_re (trim ''bob@example'')) = False"
    by code_simp
  then have "\<not> email_ok ''bob@example''" unfolding email_ok_def email_re_iff by iprover
  moreover have "''bob@example'' \<in> set (split_char (CHR '','') (the (sample_smtp ''smtp_recipients'')))"
    by code_simp
  ultimately have "\<not> smtp_ok sample_smtp" unfolding smtp_ok_def by blast
  with validate_smtp_decides [OF f, of sample_page] show ?thesis by auto
qed

text \<open>
  C2. The password form is sent exactly when the old password is filled in and the new one and
  its confirmation are equal and have between 6 and 20 characters, surrounding white space not
  counted; a rejected form shows the reports, and the two passwords must be equal even when the
  handler has no report about their lengths to make.
\<close>

theorem validate_password_decides:
  assumes "frm ''password_old'' = Some old" and "frm ''password_new'' = Some new"
    and "frm ''password_confirm'' = Some conf" and "inner_html p ''error_div'' = Some h"
  shows "\<exists>p'. validate_password frm p =
       Some (filled old \<and> 6 \<le> length (trim new) \<and> length (trim new) \<le> 20 \<and> trim new = trim conf, p') \<and>
     inner_html p' = (if temp p' = [] then inner_html p
        else (inner_html p)(''error_div'' \<mapsto> temp p'))"
proof -
  have "filled old \<and> 6 \<le> length (trim new) \<and> length (trim new) \<le> 20 \<and> trim new = trim conf \<longleftrightarrow>
      filled old \<and> filled new \<and> length_ok 6 20 new \<and> filled conf \<and> length_ok 6 20 conf \<and> confirmed new conf"
    by (auto simp: filled_def length_ok_def confirmed_def)
  then show ?thesis using assms
    by (simp add: validate_password_def Let_def split del: if_split) auto
qed

theorem validate_password_decides_witness:
  "\<exists>p'. validate_password (map_of [(''password_old'', ''old''), (''password_new'', ''secret1''),
      (''password_confirm'', ''secret2'')]) sample_page = Some (False, p')"
  using validate_password_decides [of "map_of [(''password_old'', ''old''), (''password_new'', ''secret1''),
      (''password_confirm'', ''secret2'')]" "''old''" "''secret1''" "''secret2''" sample_page "[]"]
  by (auto simp: sample_page_def trim_no_ws is_ws_def)

end
