(* ===== verification/AdminPanel.thy ===== *)
theory AdminPanel
  imports JsRegex "HOL-Library.Monad_Syntax"
begin

text \<open>
  The page scripts of \<open>application.js\<close> other than form validation: the help
  popup, the list of analytics choices, the Flash version test, the busy
  indicator, the labels and requests of the time slider, the click handler
  installed by \<open>window.onload\<close>, and the check boxes of the exception list.
\<close>

section \<open>The help popup\<close>

record popup =
  content :: string
  class_names :: "string list"
  visible :: bool
  left :: int
  top :: int

text \<open>The global \<open>str\<close> is undeclared until a known identifier assigns it.\<close>

record help_state =
  str :: "string option"
  dummy_div :: popup

record mouse_position =
  client_x :: int
  client_y :: int

record scroll_state =
  body_left :: int
  body_top :: int
  doc_left :: int
  doc_top :: int

definition help_texts :: "(string \<times> string) list" where
  "help_texts =
     [(''resolver'',
       ''Please enter '/' if you would like to run this application on the root domain. e.g. http://yourserver:port/. Else please enter the relevant base URI with which you would like to access this specific application, e.g. '/app1' if you want the application to be accessible via http://yourserver:port/app1.<br/><br/>If you would like to set a virtual host for your application e.g. www.company1.com, please specify it here. You can also host this application on a particular subdomain e.g. app1.company1.com.<br/><br/>Wildcard '*' can also be used in defining the virtual host name, but it should only be used either at the start or the end. Prefix the virtual host name with tilde(~), if a wildcard is used in defining it. e.g. (i) ~*.server.com  (ii) ~www.server.*  (iii) ~*.server.* ''),
      (''path'',
       ''Please enter the complete path for your web application root directory: e.g. /home/someuser/webapps/app1.''),
      (''runasuser'',
       ''Please enter the name of the user with whose privileges you would like to run this application. (root can be dangerous!). This user should have all the necessary permissions to get your web application working properly. (e.g. write access on required files and directories etc).''),
      (''analytics'',
       ''Set this to enabled if you would like to get detailed numbers about the run time performance of this application. This number gathering adds a very small overhead on your application. (Typically it adds < 3ms of additional processing time to the request).''),
      (''minworker'',
       ''Default minimum number of worker processes that should run for any deployed application. Multiple worker instances help in processing a higher number of concurrent user requests simultaneously.<br/>(This value can be overridden for a specific application while deploying it.)''),
      (''maxworker'',
       ''Default maximum number of worker processes that should run for any deployed application. Multiple worker instances help in processing a higher number of concurrent user requests simultaneously.<br/>(This value can be overridden for a specific application while deploying it.)''),
      (''most'',
       ''<b>Most Time Consuming URLs : </b>URLs whose response generation took the maximum cumulative time for the specified duration. These could be the prime candidate for optimizations.''),
      (''hits'',
       ''<b>URL Hits : </b>The hit count for the URLs of the application for the specified duration.''),
      (''slowest'',
       ''<b>Slowest URLs : </b>URLs whose 'average' time for the response generation was maximum. These are the slowest part of the application, out of all those accessed in the specified duration.''),
      (''db'',
       ''<b>Database Consuming URLs : </b>URLs whose code spends the maximum time in the database ORM layer.''),
      (''port'',
       ''<b>Port   : </b>Application server port number.''),
      (''log_level'',
       ''Set the default logging level for the server and it's deployed applications. (INFO/WARN/SEVERE/FATAL). The logs are available in /var/log/webroar.''),
      (''ssl_port'',
       ''Secure Sockets Layer(SSL) authentication port number.''),
      (''ssl_certificate'',
       ''Complete path to the SSL certificate file. e.g. /home/smartuser/ssl-cert/certificate.crt''),
      (''ssl_key'',
       ''Complete path to the SSL key file. e.g. /home/smartuser/ssl-cert/mymachine.key''),
      (''remaining_time'',
       ''<b>Remaining Time </b>covers time spent in executing filters, called actions (statements other than database calls), user defined methods in model, session management by framework etc. ''),
      (''access_log'',
       ''Set access log to enabled to capture all HTTP requests to the server. The log is available in /var/log/webroar.''),
      (''type'',
       ''In case you are deploying a rack compliant application (merb, sinatra, mack etc), please do create a config.ru file in it's root directory. Please refer the README or the user guide for more details.''),
      (''app_minworker'',
       ''Please enter the minimum number of worker processes that should run for this deployed application. Multiple worker instances help in processing a higher number of concurrent user requests simultaneously. The server would always ensure at least these many worker processes run for this application.''),
      (''app_maxworker'',
       ''Please enter the maximum number of worker processes that should run for this deployed application. Multiple worker instances help in processing a higher number of concurrent user requests simultaneously. The server would ensure that maximum only these many worker processes run for this application.''),
      (''mail'',
       ''Configure email settings to receive notifications from the server about the status of the deployed applications. WebROaR can use either SMTP or Sendmail to send these emails.''),
      (''smtp_server'',
       ''Host name or IP address of the SMTP Server.''),
      (''smtp_domain'',
       ''Hosting domain of your sender email account. e.g. gmail.com.''),
      (''smtp_authentication'',
       ''Authentication type of the SMTP account (login/plain/cram-md5/ntlm-spa/digest-md5).''),
      (''smtp_username'',
       ''Username of the email account e.g. smartuser.''),
      (''smtp_password'',
       ''Password of the email account.''),
      (''smtp_recipients_id'',
       ''Comma separated list of email addresses to whom WebROaR should send notification emails about the deployed applications status.''),
      (''sendmail_recipients_id'',
       ''Comma separated list of email addresses to whom WebROaR should send notification emails about the deployed applications status.''),
      (''sendmail_location'',
       ''Location of the sendmail agent e.g. /usr/sbin/sendmail''),
      (''headers'',
       ''It allows adding or changing the Expires and Cache-Control in the response headers for static assets (e.g. *.js, *.gif etc).''),
      (''expires'',
       ''Expires header for all static assets (optional) (default is 'off'). Possible value for expires is off or no. of seconds.''),
      (''expires_by_type'',
       ''Specific expires header for specific file types.''),
      (''expires_by_type_ext'',
       ''File extensions separated by comma (e.g png, jpg, gif).''),
      (''expires_by_type_expires_value'',
       ''Expires value in no. of seconds.''),
      (''exception_class'',
       ''Exception falls into given Exception Class would not be notified and it will be listed in Permanently Ignored list.'')]"

definition getX :: "mouse_position \<Rightarrow> scroll_state \<Rightarrow> int" where
  "getX event d = client_x event + body_left d + doc_left d"

definition getY :: "mouse_position \<Rightarrow> scroll_state \<Rightarrow> int" where
  "getY event d = client_y event + body_top d + doc_top d"

definition close_link :: string where
  \<open>close_link =
     ''<div class='text_align_right'><a href=# onClick="$('dummy_div').hide(); return false;">Close</a></div>''\<close>

text \<open>\<open>None\<close> is the ReferenceError of reading \<open>str\<close> before anything assigned it.\<close>

definition addHelp ::
  "string \<Rightarrow> mouse_position \<Rightarrow> scroll_state \<Rightarrow> help_state \<Rightarrow> help_state option" where
  "addHelp ident event d st =
     (let s0 = (case map_of help_texts ident of None \<Rightarrow> str st | Some t \<Rightarrow> Some t)
      in case s0 of
           None \<Rightarrow> None
         | Some t \<Rightarrow>
             let s = t @ close_link; x = getX event d; y = getY event d;
                 x = (if x > 550 then 550 else x)
             in Some (st\<lparr>str := Some s,
                  dummy_div := (dummy_div st)\<lparr>content := s,
                    class_names := remdups (class_names (dummy_div st) @ [''popup_container'', ''font_size_12'']),
                    visible := True, left := x, top := y\<rparr>\<rparr>))"

section \<open>Analytics choices and busy indicator\<close>

definition disableAnalytics :: "string \<Rightarrow> string list \<Rightarrow> string list" where
  "disableAnalytics type options =
     (if type = ''Rails'' then [''Disabled'', ''Enabled''] else [''Disabled''])"

type_synonym displays = "elem_id \<rightharpoonup> string"

definition set_display :: "elem_id \<Rightarrow> string \<Rightarrow> displays \<Rightarrow> displays option" where
  "set_display i v d = (case d i of None \<Rightarrow> None | Some _ \<Rightarrow> Some (d(i \<mapsto> v)))"

definition show_busy_div :: "displays \<Rightarrow> displays option" where
  "show_busy_div d = do {
     d \<leftarrow> set_display ''loading_progress1'' ''block'' d;
     set_display ''loading_progress'' ''block'' d }"

definition hide_busy_div :: "displays \<Rightarrow> displays option" where
  "hide_busy_div d = do {
     d \<leftarrow> set_display ''loading_progress'' ''none'' d;
     set_display ''loading_progress1'' ''none'' d }"

section \<open>The Flash version test\<close>

text \<open>
  What the browser offers: \<open>activex6\<close> is the outcome of creating the version 6
  object (\<open>None\<close> when the constructor throws, otherwise whether its property can
  be set), \<open>activex\<close> the version string of the current object if there is one,
  \<open>plugin\<close> the description of an enabled plugin.
\<close>

record flash_env =
  activex6 :: "bool option"
  activex :: "string option"
  plugin :: "string option"

text \<open>\<open>s.replace(/\D+/g, ',')\<close>.\<close>

fun commas :: "string \<Rightarrow> string" where
  "commas [] = []"
| "commas [c] = (if is_digit c then [c] else '','')"
| "commas (c # d # cs) =
     (if is_digit c then c # commas (d # cs)
      else if is_digit d then CHR '','' # commas (d # cs)
      else commas (d # cs))"

text \<open>\<open>s.match(/^,?(.+),?$/)[1]\<close>; \<open>None\<close> when there is no match.\<close>

definition version_group :: "string \<Rightarrow> string option" where
  "version_group s =
     (if s = [] then None
      else if hd s = CHR '','' \<and> tl s \<noteq> [] then Some (tl s) else Some s)"

definition getFlashVersion :: "flash_env \<Rightarrow> string" where
  "getFlashVersion env =
     (let from_plugin = (case Option.bind (plugin env) (version_group \<circ> commas) of
            None \<Rightarrow> ''0,0,0'' | Some v \<Rightarrow> v)
      in if activex6 env = Some False then ''6,0,0''
         else case Option.bind (activex env) (version_group \<circ> commas) of
                None \<Rightarrow> from_plugin
              | Some v \<Rightarrow> v)"

text \<open>The alert shown, if any.\<close>

definition checkFlashPlayer :: "flash_env \<Rightarrow> string option" where
  "checkFlashPlayer env =
     (let version = hd (split_char (CHR '','') (getFlashVersion env))
      in if to_number version = Fin 0
         then Some ''Please install Flash Player plugin to view the graphs on this page.''
         else None)"

section \<open>The time slider's labels and requests\<close>

type_synonym labels = "elem_id \<Rightarrow> string"

definition setToolTip :: "int \<Rightarrow> int \<Rightarrow> string \<Rightarrow> labels \<Rightarrow> labels" where
  "setToolTip start_time end_time count ls =
     (let a1 = ''#'' @ count @ ''1''; a2 = ''#'' @ count @ ''2''
      in if start_time \<le> 0 \<and> start_time = end_time
         then ls(a1 := int_to_string start_time @ '':00'', a2 := int_to_string end_time @ '':00'')
         else if start_time = end_time
         then ls(a1 := int_to_string (start_time - 1) @ '':59'', a2 := int_to_string (end_time - 1) @ '':59'')
         else ls(a1 := int_to_string start_time @ '':00'', a2 := int_to_string (end_time - 1) @ '':59''))"

record ajax_update =
  success_id :: elem_id
  failure_id :: elem_id
  url :: string

definition graph_paths :: "(string \<times> string \<times> bool) list" where
  "graph_paths =
     [(''server_cpu_usage_graph'', ''get_server_cpu_usage_graph'', False),
      (''server_memory_usage_graph'', ''get_server_memory_usage_graph'', False),
      (''percentage_db_usage_graph'', ''percentage_time_spent_in_db_layer'', True),
      (''avg_res_time_graph'', ''average_response_graph'', True),
      (''app_throughput_graph'', ''peak_requests_graph'', True),
      (''app_cpu_usage_graph'', ''percentage_cpu_usage_graph'', True),
      (''app_memory_usage_graph'', ''memory_usage_graph'', True)]"

text \<open>\<open>date\<close> is the value of the date field; without one the script dies after the labels.\<close>

definition setValue ::
  "string option \<Rightarrow> int \<Rightarrow> int \<Rightarrow> string \<Rightarrow> string \<Rightarrow> string \<Rightarrow> labels \<Rightarrow>
   labels \<times> ajax_update list option" where
  "setValue date start_time end_time app_id graph_id count ls =
     (setToolTip start_time end_time count ls,
      map_option (\<lambda>graph_date.
        map (\<lambda>(g, path, per_app).
              \<lparr>success_id = g, failure_id = ''err_msg_div'',
               url = ''/admin-panel/graph/'' @ path @ ''?''
                 @ (if per_app then ''app_id='' @ app_id @ ''&'' else [])
                 @ ''date='' @ graph_date @ ''&start_time='' @ int_to_string start_time
                 @ ''&end_time='' @ int_to_string end_time\<rparr>)
          (filter (\<lambda>(g, _). graph_id = g) graph_paths)) date)"

section \<open>The click handler of \<open>window.onload\<close>\<close>

record click_target =
  innerHTML :: string
  href :: string
  is_input :: bool
  is_select :: bool
  is_pagination_link :: bool

text \<open>
  Whether the popup is visible afterwards, the request sent and whether the event is stopped.
  An absent \<open>href\<close> attribute is the empty string, which is as false as the missing one.
\<close>

definition on_click :: "click_target \<Rightarrow> bool \<Rightarrow> bool \<times> string option \<times> bool" where
  "on_click element popup_visible =
     (let visible' =
        (if innerHTML element \<noteq> ''Help'' \<and>
            (href element \<noteq> [] \<or> is_input element \<or> is_select element)
         then False else popup_visible)
      in if is_pagination_link element then (visible', Some (href element), True)
         else (visible', None, False))"

section \<open>The check boxes of the exception list\<close>

text \<open>
  \<open>document.form_exception_list.exception_ids_\<close> is undefined without a box, the
  box itself when there is one, and a node list otherwise.
\<close>

datatype boxes = NoBox | OneBox bool | ManyBoxes "bool list"

record exception_list =
  boxes :: boxes
  check_all :: bool

fun all_checked_loop :: "bool list \<Rightarrow> bool \<Rightarrow> bool" where
  "all_checked_loop [] check = check"
| "all_checked_loop (b # bs) check = (if b then all_checked_loop bs True else False)"

text \<open>\<open>None\<close> is the TypeError of reading \<open>length\<close> of undefined.\<close>

definition uncheckMain :: "bool \<Rightarrow> exception_list \<Rightarrow> exception_list option" where
  "uncheckMain element_checked s =
     (if \<not> element_checked then Some (s\<lparr>check_all := False\<rparr>)
      else case boxes s of
             NoBox \<Rightarrow> None
           | OneBox b \<Rightarrow> Some (s\<lparr>check_all := (if b then True else False)\<rparr>)
           | ManyBoxes bs \<Rightarrow> Some (s\<lparr>check_all := all_checked_loop bs False\<rparr>))"

definition checkAll :: "bool \<Rightarrow> exception_list \<Rightarrow> exception_list option" where
  "checkAll self_checked s =
     (case boxes s of
        NoBox \<Rightarrow> None
      | OneBox b \<Rightarrow> Some (s\<lparr>boxes := OneBox self_checked\<rparr>)
      | ManyBoxes bs \<Rightarrow> Some (s\<lparr>boxes := ManyBoxes (map (\<lambda>_. self_checked) bs)\<rparr>))"

text \<open>The answer and the alert, with the user's reply to a confirmation as \<open>confirm\<close>.\<close>

definition no_selection :: "bool \<times> string option" where
  "no_selection = (False, Some ''No exception selected...!'')"

definition checkMarked :: "(string \<Rightarrow> bool) \<Rightarrow> string \<Rightarrow> boxes \<Rightarrow> bool \<times> string option" where
  "checkMarked confirm arg bs =
     (let ask = (confirm (''Are you sure to '' @ arg @ '' selected exception(s)?''), None)
      in case bs of
           NoBox \<Rightarrow> no_selection
         | OneBox b \<Rightarrow> (if b then ask else no_selection)
         | ManyBoxes l \<Rightarrow> (if list_ex (\<lambda>b. b) l then ask else no_selection))"

section \<open>The check boxes stay in step\<close>

definition toggle_box :: "nat \<Rightarrow> exception_list \<Rightarrow> exception_list" where
  "toggle_box i s = s\<lparr>boxes := (case boxes s of
      NoBox \<Rightarrow> NoBox
    | OneBox b \<Rightarrow> OneBox (\<not> b)
    | ManyBoxes bs \<Rightarrow> ManyBoxes (bs[i := \<not> bs ! i]))\<rparr>"

definition box_state :: "nat \<Rightarrow> exception_list \<Rightarrow> bool option" where
  "box_state i s = (case boxes s of
      NoBox \<Rightarrow> None
    | OneBox b \<Rightarrow> if i = 0 then Some b else None
    | ManyBoxes bs \<Rightarrow> if i < length bs then Some (bs ! i) else None)"

text \<open>
  A click: the browser flips the box and then runs its handler, \<open>uncheckMain\<close> for
  a box of the list and \<open>checkAll\<close> for the box in the table head.
\<close>

inductive list_step :: "exception_list \<Rightarrow> exception_list \<Rightarrow> bool" where
  click_box: "box_state i s = Some b \<Longrightarrow> uncheckMain (\<not> b) (toggle_box i s) = Some t \<Longrightarrow> list_step s t"
| click_main: "checkAll (\<not> check_all s) (s\<lparr>check_all := \<not> check_all s\<rparr>) = Some t \<Longrightarrow> list_step s t"

inductive_cases list_stepE: "list_step s t"

definition fresh_list :: "exception_list \<Rightarrow> bool" where
  "fresh_list s \<longleftrightarrow> \<not> check_all s \<and>
     (case boxes s of NoBox \<Rightarrow> True | OneBox b \<Rightarrow> \<not> b
      | ManyBoxes bs \<Rightarrow> bs \<noteq> [] \<and> list_all (\<lambda>b. \<not> b) bs)"

inductive list_reachable :: "exception_list \<Rightarrow> bool" where
  fresh: "fresh_list s \<Longrightarrow> list_reachable s"
| step: "list_reachable s \<Longrightarrow> list_step s t \<Longrightarrow> list_reachable t"

definition all_boxes :: "boxes \<Rightarrow> bool" where
  "all_boxes bs = (case bs of NoBox \<Rightarrow> False | OneBox b \<Rightarrow> b | ManyBoxes l \<Rightarrow> list_all (\<lambda>b. b) l)"

definition list_inv :: "exception_list \<Rightarrow> bool" where
  "list_inv s \<longleftrightarrow> boxes s \<noteq> ManyBoxes [] \<and> (boxes s \<noteq> NoBox \<longrightarrow> check_all s = all_boxes (boxes s))"

lemma all_checked_loop_iff:
  "all_checked_loop bs check \<longleftrightarrow> (if bs = [] then check else list_all (\<lambda>b. b) bs)"
  by (induction bs arbitrary: check) auto

lemma list_all_const: "list_all (\<lambda>b. b) (map (\<lambda>_. v) bs) \<longleftrightarrow> bs = [] \<or> v"
  by (cases bs) (auto simp: list_all_iff)

lemma list_step_inv: "list_step s t \<Longrightarrow> list_inv s \<Longrightarrow> list_inv t"
proof (induction rule: list_step.induct)
  case (click_box i s b t)
  show ?case
  proof (cases "boxes s")
    case (ManyBoxes bs)
    then have i: "i < length bs" and b: "b = bs ! i"
      using click_box by (auto simp: box_state_def split: if_splits)
    have "\<not> list_all (\<lambda>b. b) (bs[i := False])"
      using i by (auto simp: list_all_length intro!: exI [of _ i])
    then show ?thesis using click_box ManyBoxes i b
      by (auto simp: uncheckMain_def toggle_box_def all_checked_loop_iff list_inv_def all_boxes_def
          split: if_splits)
  qed (use click_box in \<open>auto simp: box_state_def uncheckMain_def toggle_box_def list_inv_def
      all_boxes_def split: if_splits\<close>)
next
  case (click_main s t)
  then show ?case
    by (cases "boxes s") (auto simp: checkAll_def list_inv_def all_boxes_def list_all_const)
qed

lemma list_reachable_inv: "list_reachable s \<Longrightarrow> list_inv s"
proof (induction rule: list_reachable.induct)
  case (fresh s)
  then show ?case
    by (cases "boxes s") (auto simp: fresh_list_def list_inv_def all_boxes_def list_all_length)
next
  case (step s t)
  then show ?case by (blast intro: list_step_inv)
qed

text \<open>
  C3. However the user clicks the boxes of the exception list and the box in its head, the box
  in the head is ticked exactly when every exception is.
\<close>

theorem exception_boxes_in_step:
  assumes "list_reachable s" and "boxes s \<noteq> NoBox"
  shows "check_all s \<longleftrightarrow> all_boxes (boxes s)"
  using list_reachable_inv [OF assms(1)] assms(2) by (simp add: list_inv_def)

definition list_example :: exception_list where
  "list_example = \<lparr>boxes = ManyBoxes [False, True], check_all = False\<rparr>"

theorem exception_boxes_in_step_witness:
  "list_reachable list_example \<and> (check_all list_example \<longleftrightarrow> all_boxes (boxes list_example))"
proof -
  let ?s = "\<lparr>boxes = ManyBoxes [False, False], check_all = False\<rparr>"
  have "list_reachable ?s" by (rule fresh) (simp add: fresh_list_def)
  moreover have "list_step ?s list_example"
    by (rule click_box [of 1 _ False])
      (simp_all add: box_state_def toggle_box_def uncheckMain_def list_example_def)
  ultimately have "list_reachable list_example" by (rule step)
  then show ?thesis using exception_boxes_in_step [of list_example] by (simp add: list_example_def)
qed

section \<open>Labels, popup and plugin test\<close>

text \<open>
  C4. For every selection the slider can hold, from 0 to 24 hours with the start not after the
  end, the two labels are times of day, hour 0 to 23 and minute 0 or 59, and the left one is
  not later than the right one; no other label changes.
\<close>

theorem setToolTip_times:
  assumes "0 \<le> s" and "s \<le> e" and "e \<le> 24"
  shows "\<exists>h1 m1 h2 m2. setToolTip s e count ls =
      ls(''#'' @ count @ ''1'' := int_to_string h1 @ m1, ''#'' @ count @ ''2'' := int_to_string h2 @ m2) \<and>
    0 \<le> h1 \<and> h1 \<le> h2 \<and> h2 \<le> 23 \<and> {m1, m2} \<subseteq> {'':00'', '':59''} \<and>
    (h1 = h2 \<longrightarrow> m1 = '':00'' \<or> m2 = '':59'')"
proof -
  consider "s = 0 \<and> e = 0" | "0 < s \<and> s = e" | "s < e" using assms by linarith
  then show ?thesis
  proof cases
    case 1
    then show ?thesis
      by (intro exI [of _ 0] exI [of _ "'':00''"]) (simp add: setToolTip_def Let_def)
  next
    case 2
    then show ?thesis using assms
      by (intro exI [of _ "s - 1"] exI [of _ "'':59''"]) (simp add: setToolTip_def Let_def)
  next
    case 3
    then show ?thesis using assms
      by (intro exI [of _ s] exI [of _ "'':00''"] exI [of _ "e - 1"] exI [of _ "'':59''"])
        (simp add: setToolTip_def Let_def)
  qed
qed

theorem setToolTip_times_witness:
  "\<exists>h1 m1 h2 m2. setToolTip 9 17 ''first'' (\<lambda>_. []) =
      (\<lambda>_. [])(''#first1'' := int_to_string h1 @ m1, ''#first2'' := int_to_string h2 @ m2) \<and>
    0 \<le> h1 \<and> h1 \<le> h2 \<and> h2 \<le> 23 \<and> {m1, m2} \<subseteq> {'':00'', '':59''} \<and>
    (h1 = h2 \<longrightarrow> m1 = '':00'' \<or> m2 = '':59'')"
  using setToolTip_times [of 9 17 "''first''" "\<lambda>_. []"] by simp

lemma commas_digit: "is_digit c \<Longrightarrow> commas (c # cs) = c # commas cs"
  by (cases cs) auto

lemma commas_other:
  "\<not> is_digit c \<Longrightarrow> commas (c # cs) = CHR '','' # commas (dropWhile (\<lambda>x. \<not> is_digit x) cs)"
  by (induction cs arbitrary: c) auto

lemma comma_not_digit: "\<not> is_digit (CHR '','')"
  by (simp add: is_digit_def)

lemma major_commas: "hd (split_char (CHR '','') (commas s)) = takeWhile is_digit s"
proof (induction s)
  case Nil
  show ?case by simp
next
  case (Cons c cs)
  show ?case
  proof (cases "is_digit c")
    case True
    then have "c \<noteq> CHR '',''" using comma_not_digit by blast
    with True Cons show ?thesis
      by (simp add: commas_digit split_char_Cons_other del: split_char.simps)
  next
    case False
    then show ?thesis by (simp add: commas_other)
  qed
qed

definition first_number :: "string \<Rightarrow> string" where
  "first_number d = takeWhile is_digit (dropWhile (\<lambda>c. \<not> is_digit c) d)"

lemma version_major:
  assumes "list_ex is_digit d"
  obtains v where "version_group (commas d) = Some v"
    and "hd (split_char (CHR '','') v) = first_number d"
proof (cases d)
  case Nil
  with assms show ?thesis by simp
next
  case (Cons c cs)
  show ?thesis
  proof (cases "is_digit c")
    case True
    then have "c \<noteq> CHR '',''" using comma_not_digit by blast
    with True have "version_group (commas d) = Some (commas d)"
      by (simp add: Cons commas_digit version_group_def)
    with True show ?thesis using that [of "commas d"]
      by (simp add: Cons major_commas first_number_def)
  next
    case False
    let ?r = "dropWhile (\<lambda>x. \<not> is_digit x) cs"
    from False assms have "?r \<noteq> []" by (auto simp: Cons list_ex_iff)
    then have "is_digit (hd ?r)" "?r \<noteq> []" using hd_dropWhile by blast+
    then have "commas ?r \<noteq> []" by (cases ?r) (simp_all add: commas_digit)
    with False have "version_group (commas d) = Some (commas ?r)"
      by (simp add: Cons commas_other version_group_def)
    with False show ?thesis using that [of "commas ?r"]
      by (simp add: Cons major_commas first_number_def)
  qed
qed

lemma first_number_digits:
  "list_ex is_digit d \<Longrightarrow> first_number d \<noteq> [] \<and> (\<forall>c \<in> set (first_number d). is_digit c)"
proof -
  assume "list_ex is_digit d"
  then have ne: "dropWhile (\<lambda>c. \<not> is_digit c) d \<noteq> []" by (auto simp: list_ex_iff)
  then have "is_digit (hd (dropWhile (\<lambda>c. \<not> is_digit c) d))" using hd_dropWhile by blast
  with ne show ?thesis
    by (cases "dropWhile (\<lambda>c. \<not> is_digit c) d") (auto simp: first_number_def dest: set_takeWhileD)
qed

text \<open>
  In a browser without ActiveX the page asks for the Flash player exactly when the first
  number in the description of the installed plugin is zero, and always when there is no
  plugin.
\<close>

theorem checkFlashPlayer_plugin:
  assumes "activex6 env = None" and "activex env = None"
    and "\<And>d. plugin env = Some d \<Longrightarrow> list_ex is_digit d"
  shows "checkFlashPlayer env \<noteq> None \<longleftrightarrow>
     (case plugin env of None \<Rightarrow> True | Some d \<Rightarrow> dec_val (first_number d) = 0)"
proof (cases "plugin env")
  case None
  have "hd (split_char (CHR '','') ''0,0,0'') = ''0''" by code_simp
  moreover have "to_number ''0'' = Fin 0"
    by (simp add: to_number_digits is_digit_def dec_val_def digit_val_def)
  ultimately show ?thesis using assms None
    by (simp add: checkFlashPlayer_def getFlashVersion_def Let_def del: split_char.simps)
next
  case (Some d)
  with assms(3) have d: "list_ex is_digit d" by blast
  obtain v where v: "version_group (commas d) = Some v"
    "hd (split_char (CHR '','') v) = first_number d"
    using version_major [OF d] by blast
  have "getFlashVersion env = v" using assms Some v(1) by (simp add: getFlashVersion_def Let_def)
  with v(2) first_number_digits [OF d] show ?thesis
    by (simp add: checkFlashPlayer_def Some to_number_digits)
qed

theorem checkFlashPlayer_plugin_witness:
  "checkFlashPlayer \<lparr>activex6 = None, activex = None, plugin = Some ''Flash 9.0 r31''\<rparr> = None"
proof -
  have "first_number ''Flash 9.0 r31'' = ''9''" "list_ex is_digit ''Flash 9.0 r31''" by code_simp+
  moreover have "dec_val ''9'' = 9" by (simp add: dec_val_def digit_val_def)
  ultimately show ?thesis
    using checkFlashPlayer_plugin [of "\<lparr>activex6 = None, activex = None, plugin = Some ''Flash 9.0 r31''\<rparr>"]
    by simp
qed

end
