(* ===== verification/ProtoEnumerable.thy ===== *)
theory ProtoEnumerable
  imports JsPrelude
begin

text \<open>
  \<open>Enumerable\<close> of \<open>prototype.js\<close>.  A collection is what its \<open>_each\<close> hands to
  the iterator, one value after the other; \<open>each\<close> numbers the values and stops
  at the exception \<open>$break\<close>.  Every other method is \<open>each\<close> with an iterator
  that updates local variables, which are the state \<open>'s\<close> below.  The interface a
  collection class has to provide is the locale \<open>enumerable\<close>.
\<close>

section \<open>\<open>each\<close>\<close>

text \<open>What one call of an iterator does: return, \<open>throw $break\<close>, throw something else.\<close>

datatype ('e, 's) flow = Next 's | Break 's | Raise 'e 's

datatype ('e, 's) outcome = Done 's | Failed 'e 's

fun each_from ::
  "nat \<Rightarrow> ('s \<Rightarrow> 'a \<Rightarrow> nat \<Rightarrow> ('e, 's) flow) \<Rightarrow> 's \<Rightarrow> 'a list \<Rightarrow> ('e, 's) outcome" where
  "each_from index iterator s [] = Done s"
| "each_from index iterator s (value # rest) =
     (case iterator s value index of
        Next s' \<Rightarrow> each_from (index + 1) iterator s' rest
      | Break s' \<Rightarrow> Done s'
      | Raise e s' \<Rightarrow> Failed e s')"

definition each ::
  "('s \<Rightarrow> 'a \<Rightarrow> nat \<Rightarrow> ('e, 's) flow) \<Rightarrow> 's \<Rightarrow> 'a list \<Rightarrow> ('e, 's) outcome" where
  "each iterator s xs = each_from 0 iterator s xs"

text \<open>\<open>each\<close> with an iterator that throws nothing but \<open>$break\<close>: the variables at the end.\<close>

definition loop_from ::
  "nat \<Rightarrow> ('s \<Rightarrow> 'a \<Rightarrow> nat \<Rightarrow> (unit, 's) flow) \<Rightarrow> 's \<Rightarrow> 'a list \<Rightarrow> 's" where
  "loop_from i iterator s xs = (case each_from i iterator s xs of Done t \<Rightarrow> t | Failed _ t \<Rightarrow> t)"

definition loop ::
  "('s \<Rightarrow> 'a \<Rightarrow> nat \<Rightarrow> (unit, 's) flow) \<Rightarrow> 's \<Rightarrow> 'a list \<Rightarrow> 's" where
  "loop iterator s xs = loop_from 0 iterator s xs"

lemma loop_from_simps [simp]:
  "loop_from i it s [] = s"
  "loop_from i it s (x # xs) =
     (case it s x i of Next t \<Rightarrow> loop_from (i + 1) it t xs | Break t \<Rightarrow> t | Raise _ t \<Rightarrow> t)"
  by (auto simp: loop_from_def split: flow.split)

section \<open>The methods\<close>

definition enum_all :: "('a \<Rightarrow> nat \<Rightarrow> bool) \<Rightarrow> 'a list \<Rightarrow> bool" where
  "enum_all iterator =
     loop (\<lambda>result value index.
       let result = (result \<and> iterator value index)
       in if \<not> result then Break result else Next result) True"

definition any :: "('a \<Rightarrow> nat \<Rightarrow> bool) \<Rightarrow> 'a list \<Rightarrow> bool" where
  "any iterator =
     loop (\<lambda>result value index. if iterator value index then Break True else Next False) False"

definition collect :: "('a \<Rightarrow> nat \<Rightarrow> 'b) \<Rightarrow> 'a list \<Rightarrow> 'b list" where
  "collect iterator = loop (\<lambda>results value index. Next (results @ [iterator value index])) []"

text \<open>\<open>None\<close> is the undefined result of a search that finds nothing.\<close>

definition detect :: "('a \<Rightarrow> nat \<Rightarrow> bool) \<Rightarrow> 'a list \<Rightarrow> 'a option" where
  "detect iterator =
     loop (\<lambda>result value index. if iterator value index then Break (Some value) else Next result) None"

definition findAll :: "('a \<Rightarrow> nat \<Rightarrow> bool) \<Rightarrow> 'a list \<Rightarrow> 'a list" where
  "findAll iterator =
     loop (\<lambda>results value index. if iterator value index then Next (results @ [value]) else Next results) []"

text \<open>\<open>matches\<close> is \<open>filter.match\<close>, the test of the regular expression.\<close>

definition grep :: "('a \<Rightarrow> bool) \<Rightarrow> ('a \<Rightarrow> nat \<Rightarrow> 'b) \<Rightarrow> 'a list \<Rightarrow> 'b list" where
  "grep matches iterator =
     loop (\<lambda>results value index.
       if matches value then Next (results @ [iterator value index]) else Next results) []"

definition inject :: "'m \<Rightarrow> ('m \<Rightarrow> 'a \<Rightarrow> nat \<Rightarrow> 'm) \<Rightarrow> 'a list \<Rightarrow> 'm" where
  "inject memo iterator = loop (\<lambda>memo value index. Next (iterator memo value index)) memo"

definition invoke :: "('a \<Rightarrow> 'b) \<Rightarrow> 'a list \<Rightarrow> 'b list" where
  "invoke method = collect (\<lambda>value _. method value)"

definition enum_max :: "('a \<Rightarrow> nat \<Rightarrow> 'b :: linorder) \<Rightarrow> 'a list \<Rightarrow> 'b option" where
  "enum_max iterator =
     loop (\<lambda>result value index.
       let v = iterator value index
       in case result of None \<Rightarrow> Next (Some v)
          | Some r \<Rightarrow> if v \<ge> r then Next (Some v) else Next result) None"

definition enum_min :: "('a \<Rightarrow> nat \<Rightarrow> 'b :: linorder) \<Rightarrow> 'a list \<Rightarrow> 'b option" where
  "enum_min iterator =
     loop (\<lambda>result value index.
       let v = iterator value index
       in case result of None \<Rightarrow> Next (Some v)
          | Some r \<Rightarrow> if v < r then Next (Some v) else Next result) None"

definition enum_partition :: "('a \<Rightarrow> nat \<Rightarrow> bool) \<Rightarrow> 'a list \<Rightarrow> 'a list \<times> 'a list" where
  "enum_partition iterator =
     loop (\<lambda>(trues, falses) value index.
       if iterator value index then Next (trues @ [value], falses) else Next (trues, falses @ [value]))
     ([], [])"

definition pluck :: "('a \<Rightarrow> 'b) \<Rightarrow> 'a list \<Rightarrow> 'b list" where
  "pluck property = loop (\<lambda>results value _. Next (results @ [property value])) []"

definition reject :: "('a \<Rightarrow> nat \<Rightarrow> bool) \<Rightarrow> 'a list \<Rightarrow> 'a list" where
  "reject iterator =
     loop (\<lambda>results value index. if \<not> iterator value index then Next (results @ [value]) else Next results) []"

text \<open>\<open>Array.sort\<close> with the comparison of the criteria, which keeps equal ones in order.\<close>

definition sortBy :: "('a \<Rightarrow> nat \<Rightarrow> 'b :: linorder) \<Rightarrow> 'a list \<Rightarrow> 'a list" where
  "sortBy iterator xs =
     pluck fst (sort_key snd (collect (\<lambda>value index. (value, iterator value index)) xs))"

definition toArray :: "'a list \<Rightarrow> 'a list" where
  "toArray = collect (\<lambda>value _. value)"

definition enum_zip :: "('a option list \<Rightarrow> 'b) \<Rightarrow> 'a list list \<Rightarrow> 'a list \<Rightarrow> 'b list" where
  "enum_zip iterator args xs =
     (let collections = xs # map toArray args
      in collect (\<lambda>value index.
           iterator (pluck (\<lambda>c. if index < length c then Some (c ! index) else None) collections)) xs)"

definition enum_size :: "'a list \<Rightarrow> nat" where
  "enum_size xs = length (toArray xs)"

text \<open>
  The \<open>while\<close> loop of \<open>eachSlice\<close>; \<open>index\<close> is the value after the increment.
\<close>

function slices_from :: "nat \<Rightarrow> 'a list \<Rightarrow> nat \<Rightarrow> 'a list list" where
  "slices_from number array index =
     (if number \<ge> 1 \<and> index < length array
      then slice array (int index) (int (index + number)) # slices_from number array (index + number)
      else [])"
  by pat_completeness auto
termination
  by (relation "measure (\<lambda>(number, array, index). length array - index)") auto

declare slices_from.simps [simp del]

text \<open>
  With a number below 1 the array itself is returned, without calling the
  iterator: the two results have different types, \<open>Inl\<close> and \<open>Inr\<close>.
\<close>

definition eachSlice :: "int \<Rightarrow> ('a list \<Rightarrow> nat \<Rightarrow> 'b) \<Rightarrow> 'a list \<Rightarrow> 'a list + 'b list" where
  "eachSlice number iterator xs =
     (let array = toArray xs
      in if number < 1 then Inl array
         else Inr (collect iterator (slices_from (nat number) array 0)))"

fun pad_to :: "nat \<Rightarrow> 'a \<Rightarrow> 'a list \<Rightarrow> 'a list" where
  "pad_to 0 fill sl = sl"
| "pad_to (Suc n) fill sl = pad_to n fill (sl @ [fill])"

definition inGroupsOf :: "int \<Rightarrow> 'a \<Rightarrow> 'a list \<Rightarrow> 'a list + 'a list list" where
  "inGroupsOf number fillWith xs =
     eachSlice number (\<lambda>sl _. pad_to (nat number - length sl) fillWith sl) xs"

section \<open>What the methods compute\<close>

lemma loop_Nil [simp]: "loop it s [] = s"
  by (simp add: loop_def)

lemma loop_push:
  "loop_from i (\<lambda>rs x k. if P x k then Next (rs @ [f x k]) else Next rs) rs xs =
     rs @ map (\<lambda>(x, k). f x k) (filter (\<lambda>(x, k). P x k) (zip xs [i..<i + length xs]))"
proof (induction xs arbitrary: i rs)
  case Nil
  show ?case by simp
next
  case (Cons x xs)
  have "[i..<i + length (x # xs)] = i # [i + 1..<i + 1 + length xs]"
    by (subst upt_conv_Cons) (simp_all del: upt_Suc)
  with Cons show ?case by (simp del: upt_Suc)
qed

lemma loop_push_all:
  "loop_from i (\<lambda>rs x k. Next (rs @ [f x k])) rs xs =
     rs @ map (\<lambda>(x, k). f x k) (zip xs [i..<i + length xs])"
  using loop_push [of i "\<lambda>_ _. True" f rs xs] by simp

lemma collect_eq: "collect f xs = map (\<lambda>(x, k). f x k) (zip xs [0..<length xs])"
  by (simp add: collect_def loop_def loop_push_all)

lemma map_fst_zip_upt: "map (\<lambda>(x, k). f x) (zip xs [i..<i + length xs]) = map f xs"
  by (rule nth_equalityI) simp_all

lemma collect_simple [simp]: "collect (\<lambda>x _. f x) xs = map f xs"
  using map_fst_zip_upt [of f xs 0] by (simp add: collect_eq)

lemma length_collect [simp]: "length (collect f xs) = length xs"
  by (simp add: collect_eq)

lemma nth_collect: "i < length xs \<Longrightarrow> collect f xs ! i = f (xs ! i) i"
  by (simp add: collect_eq)

lemma filter_zip_upt:
  "map fst (filter (\<lambda>(x, k). P x) (zip xs [i..<i + length xs])) = filter P xs"
proof (induction xs arbitrary: i)
  case Nil
  show ?case by simp
next
  case (Cons x xs)
  have "[i..<i + length (x # xs)] = i # [Suc i..<Suc i + length xs]"
    by (subst upt_conv_Cons) (simp_all del: upt_Suc)
  with Cons [of "Suc i"] show ?case by (simp del: upt_Suc)
qed

lemma findAll_eq: "findAll P xs = map fst (filter (\<lambda>(x, k). P x k) (zip xs [0..<length xs]))"
proof -
  have "(\<lambda>(x, k :: nat). x) = (fst :: 'a \<times> nat \<Rightarrow> 'a)" by auto
  then show ?thesis using loop_push [of 0 P "\<lambda>x _. x" "[]" xs]
    by (simp add: findAll_def loop_def)
qed

lemma findAll_simple [simp]: "findAll (\<lambda>x _. P x) xs = filter P xs"
  using filter_zip_upt [of P xs 0] by (simp add: findAll_eq)

lemma reject_simple [simp]: "reject (\<lambda>x _. P x) xs = filter (\<lambda>x. \<not> P x) xs"
proof -
  have "reject (\<lambda>x _. P x) = findAll (\<lambda>x _. \<not> P x)"
    by (rule ext) (simp add: reject_def findAll_def)
  then show ?thesis by simp
qed

lemma pluck_eq [simp]: "pluck f xs = map f xs"
  unfolding pluck_def loop_def loop_push_all using map_fst_zip_upt [of f xs 0] by simp

lemma grep_simple [simp]: "grep P (\<lambda>x _. f x) xs = map f (filter P xs)"
proof -
  have "grep P (\<lambda>x _. f x) xs = map (\<lambda>(x, k). f x) (filter (\<lambda>(x, k). P x) (zip xs [0..<length xs]))"
    using loop_push [of 0 "\<lambda>x _. P x" "\<lambda>x _. f x" "[]" xs] by (simp add: grep_def loop_def)
  also have "\<dots> = map f (map fst (filter (\<lambda>(x, k). P x) (zip xs [0..<0 + length xs])))"
    by (simp add: split_beta)
  finally show ?thesis by (simp only: filter_zip_upt)
qed

lemma toArray_eq [simp]: "toArray xs = xs"
  by (simp add: toArray_def)

lemma inject_simple: "inject m (\<lambda>m x _. f m x) xs = foldl f m xs"
proof -
  have "loop_from i (\<lambda>m x _. Next (f m x)) m xs = foldl f m xs" for i
    by (induction xs arbitrary: i m) auto
  then show ?thesis by (simp add: inject_def loop_def)
qed

lemma all_eq: "enum_all P xs \<longleftrightarrow> (\<forall>i < length xs. P (xs ! i) i)"
proof -
  have "loop_from k (\<lambda>r x i. let r = (r \<and> P x i) in if \<not> r then Break r else Next r) True xs
      \<longleftrightarrow> (\<forall>i < length xs. P (xs ! i) (k + i))" for k
  proof (induction xs arbitrary: k)
    case (Cons x xs)
    then show ?case by (simp add: Let_def All_less_Suc2 cong: if_cong)
  qed simp
  from this [of 0] show ?thesis by (simp add: enum_all_def loop_def)
qed

lemma any_eq: "any P xs \<longleftrightarrow> (\<exists>i < length xs. P (xs ! i) i)"
proof -
  have "loop_from k (\<lambda>r x i. if P x i then Break True else Next False) False xs
      \<longleftrightarrow> (\<exists>i < length xs. P (xs ! i) (k + i))" for k
  proof (induction xs arbitrary: k)
    case (Cons x xs)
    then show ?case by (simp add: Ex_less_Suc2)
  qed simp
  from this [of 0] show ?thesis by (simp add: any_def loop_def)
qed

lemma any_simple [simp]: "any (\<lambda>x _. P x) xs \<longleftrightarrow> (\<exists>x \<in> set xs. P x)"
  unfolding any_eq by (metis in_set_conv_nth)

lemma all_simple [simp]: "enum_all (\<lambda>x _. P x) xs \<longleftrightarrow> (\<forall>x \<in> set xs. P x)"
  unfolding all_eq by (metis in_set_conv_nth)

lemma detect_simple [simp]: "detect (\<lambda>x _. P x) xs = find P xs"
proof -
  have "loop_from i (\<lambda>r x _. if P x then Break (Some x) else Next r) None xs = find P xs" for i
    by (induction xs arbitrary: i) auto
  then show ?thesis by (simp add: detect_def loop_def)
qed

lemma partition_simple: "enum_partition (\<lambda>x _. P x) xs = (filter P xs, filter (\<lambda>x. \<not> P x) xs)"
proof -
  have "loop_from i (\<lambda>(ts, fs) x _. if P x then Next (ts @ [x], fs) else Next (ts, fs @ [x])) (ts, fs) xs
      = (ts @ filter P xs, fs @ filter (\<lambda>x. \<not> P x) xs)" for i ts fs
    by (induction xs arbitrary: i ts fs) auto
  then show ?thesis by (simp add: enum_partition_def loop_def)
qed

lemma max_Max_insert:
  "finite S \<Longrightarrow> m \<le> v \<Longrightarrow> max m (Max (insert v S)) = Max (insert v S)"
  "finite S \<Longrightarrow> v < m \<Longrightarrow> max m (Max (insert v S)) = Max (insert m S)"
  by (cases "S = {}"; auto simp: max_def)+

lemma min_Min_insert:
  "finite S \<Longrightarrow> v < m \<Longrightarrow> min m (Min (insert v S)) = Min (insert v S)"
  "finite S \<Longrightarrow> m \<le> v \<Longrightarrow> min m (Min (insert v S)) = Min (insert m S)"
  by (cases "S = {}"; auto simp: min_def)+

lemma max_eq: "enum_max (\<lambda>x _. f x) xs = (if xs = [] then None else Some (Max (f ` set xs)))"
proof -
  have some: "loop_from i (\<lambda>r x _. let v = f x in case r of None \<Rightarrow> Next (Some v)
        | Some m \<Rightarrow> if v \<ge> m then Next (Some v) else Next r) (Some m) zs = Some (Max (insert m (f ` set zs)))"
    for i m zs
    by (induction zs arbitrary: i m) (auto simp: Let_def max_Max_insert not_le)
  show ?thesis
  proof (cases xs)
    case (Cons y ys)
    have "enum_max (\<lambda>x _. f x) xs = loop_from 1 (\<lambda>r x _. let v = f x in case r of None \<Rightarrow> Next (Some v)
        | Some m \<Rightarrow> if v \<ge> m then Next (Some v) else Next r) (Some (f y)) ys"
      by (simp add: Cons enum_max_def loop_def Let_def)
    also have "\<dots> = Some (Max (insert (f y) (f ` set ys)))" by (rule some)
    finally show ?thesis by (simp add: Cons)
  qed (simp add: enum_max_def)
qed

lemma min_eq: "enum_min (\<lambda>x _. f x) xs = (if xs = [] then None else Some (Min (f ` set xs)))"
proof -
  have some: "loop_from i (\<lambda>r x _. let v = f x in case r of None \<Rightarrow> Next (Some v)
        | Some m \<Rightarrow> if v < m then Next (Some v) else Next r) (Some m) zs = Some (Min (insert m (f ` set zs)))"
    for i m zs
    by (induction zs arbitrary: i m) (auto simp: Let_def min_Min_insert not_less)
  show ?thesis
  proof (cases xs)
    case (Cons y ys)
    have "enum_min (\<lambda>x _. f x) xs = loop_from 1 (\<lambda>r x _. let v = f x in case r of None \<Rightarrow> Next (Some v)
        | Some m \<Rightarrow> if v < m then Next (Some v) else Next r) (Some (f y)) ys"
      by (simp add: Cons enum_min_def loop_def Let_def)
    also have "\<dots> = Some (Min (insert (f y) (f ` set ys)))" by (rule some)
    finally show ?thesis by (simp add: Cons)
  qed (simp add: enum_min_def)
qed

lemma slices_from_step:
  "number \<ge> 1 \<Longrightarrow> index < length array \<Longrightarrow>
     slices_from number array index =
       take number (drop index array) # slices_from number array (index + number)"
  using slice_nat [of array index "index + number"]
  by (simp add: slices_from.simps [of number array index])

lemma slices_from_stop: "length array \<le> index \<Longrightarrow> slices_from number array index = []"
  by (simp add: slices_from.simps)

lemma concat_slices: "number \<ge> 1 \<Longrightarrow> concat (slices_from number array index) = drop index array"
proof (induction number array index rule: slices_from.induct)
  case (1 number array index)
  show ?case
  proof (cases "index < length array")
    case True
    with 1 have "concat (slices_from number array index) =
        take number (drop index array) @ drop (index + number) array"
      by (simp add: slices_from_step)
    then show ?thesis by (metis add.commute append_take_drop_id drop_drop)
  qed (simp add: slices_from_stop)
qed

lemma slices_length:
  "number \<ge> 1 \<Longrightarrow> i < length (slices_from number array index) \<Longrightarrow>
     length (slices_from number array index ! i) = min number (length array - (index + i * number))
     \<and> index + i * number < length array"
proof (induction number array index arbitrary: i rule: slices_from.induct)
  case (1 number array index)
  show ?case
  proof (cases "index < length array")
    case True
    show ?thesis
    proof (cases i)
      case 0
      with True 1 show ?thesis by (simp add: slices_from_step min.commute)
    next
      case (Suc j)
      with True 1 have "j < length (slices_from number array (index + number))"
        by (simp add: slices_from_step)
      with True 1 Suc show ?thesis by (simp add: slices_from_step algebra_simps)
    qed
  qed (use 1 in \<open>simp add: slices_from_stop\<close>)
qed

lemma pad_to_eq: "pad_to n fill sl = sl @ replicate n fill"
  by (induction n arbitrary: sl) (simp_all add: replicate_append_same [symmetric])

section \<open>The interface of a collection class\<close>

text \<open>
  A class mixes \<open>Enumerable\<close> in by providing \<open>_each\<close>, here the list of values it
  passes on.  \<open>inv\<close> is the invariant of the class and \<open>elems\<close> the sequence the
  object stands for.
\<close>

locale enumerable =
  fixes each_values :: "'c \<Rightarrow> 'a list"
    and inv :: "'c \<Rightarrow> bool"
    and elems :: "'c \<Rightarrow> 'a list"
  assumes each_elems: "inv c \<Longrightarrow> each_values c = elems c"
begin

lemma to_array_elems: "inv c \<Longrightarrow> toArray (each_values c) = elems c"
  by (simp add: each_elems)

lemma size_elems: "inv c \<Longrightarrow> enum_size (each_values c) = length (elems c)"
  by (simp add: enum_size_def each_elems)

lemma map_elems: "inv c \<Longrightarrow> collect (\<lambda>x _. f x) (each_values c) = map f (elems c)"
  by (simp add: each_elems)

lemma inject_elems: "inv c \<Longrightarrow> inject m (\<lambda>m x _. f m x) (each_values c) = foldl f m (elems c)"
  by (simp add: inject_simple each_elems)

lemma detect_elems: "inv c \<Longrightarrow> detect (\<lambda>x _. P x) (each_values c) = find P (elems c)"
  by (simp add: each_elems)

lemma partition_sizes:
  "inv c \<Longrightarrow> enum_partition (\<lambda>x _. P x) (each_values c) = (ts, fs) \<Longrightarrow>
     length ts + length fs = length (elems c)"
  by (auto simp: partition_simple each_elems sum_length_filter_compl)

end

text \<open>
  \<open>inGroupsOf(n, fill)\<close> with \<open>n\<close> at least 1 cuts the collection into groups of exactly
  \<open>n\<close> values: together they are the collection in order, followed by fewer than \<open>n\<close> copies of
  the filler.
\<close>

theorem inGroupsOf_groups:
  assumes "1 \<le> n"
  shows "\<exists>groups k. inGroupsOf n fill xs = Inr groups \<and> (\<forall>g \<in> set groups. int (length g) = n) \<and>
     int k < n \<and> concat groups = xs @ replicate k fill"
proof -
  let ?n = "nat n" and ?sl = "slices_from (nat n) xs 0"
  have n: "1 \<le> ?n" using assms by simp
  define pad where "pad sl = sl @ replicate (?n - length sl) fill" for sl
  have eq: "inGroupsOf n fill xs = Inr (map pad ?sl)"
    using assms by (simp add: inGroupsOf_def eachSlice_def Let_def pad_to_eq pad_def)
  have len: "\<forall>g \<in> set (map pad ?sl). int (length g) = n"
  proof
    fix g assume "g \<in> set (map pad ?sl)"
    then obtain i where "i < length ?sl" "g = pad (?sl ! i)" by (auto simp: in_set_conv_nth)
    with slices_length [OF n this(1)] assms show "int (length g) = n" by (simp add: pad_def)
  qed
  have full: "i < length ?sl \<Longrightarrow> Suc i \<noteq> length ?sl \<Longrightarrow> length (?sl ! i) = ?n" for i
  proof -
    assume i: "i < length ?sl" "Suc i \<noteq> length ?sl"
    then have "Suc i < length ?sl" by simp
    from slices_length [OF n this] have "?n + i * ?n < length xs" by simp
    then have "?n \<le> length xs - i * ?n" by linarith
    with slices_length [OF n i(1)] show ?thesis by simp
  qed
  have front: "map pad (butlast ?sl) = butlast ?sl"
  proof (rule map_idI)
    fix sl assume "sl \<in> set (butlast ?sl)"
    then obtain i where i: "i < length ?sl - 1" "sl = ?sl ! i"
      by (auto simp: in_set_conv_nth nth_butlast)
    with full [of i] show "pad sl = sl" by (simp add: pad_def)
  qed
  show ?thesis
  proof (cases "?sl = []")
    case True
    with eq assms concat_slices [OF n, of xs 0] show ?thesis by auto
  next
    case False
    have "concat (map pad ?sl) = concat (map pad (butlast ?sl @ [last ?sl]))"
      using False by simp
    also have "\<dots> = concat (butlast ?sl @ [last ?sl]) @ replicate (?n - length (last ?sl)) fill"
      by (simp add: front pad_def del: append_butlast_last_id)
    also have "concat (butlast ?sl @ [last ?sl]) = xs"
      using False concat_slices [OF n, of xs 0] by simp
    finally have c: "concat (map pad ?sl) = xs @ replicate (?n - length (last ?sl)) fill" .
    have "last ?sl = ?sl ! (length ?sl - 1)" using False by (rule last_conv_nth)
    with slices_length [OF n, of "length ?sl - 1" xs 0] False have "0 < length (last ?sl)"
      using n by auto
    then have "?n - length (last ?sl) < ?n" using n by simp
    then have "int (?n - length (last ?sl)) < n" by linarith
    with eq len c show ?thesis by blast
  qed
qed

theorem inGroupsOf_groups_witness:
  "\<exists>groups k. inGroupsOf 2 0 [1, 2, 3 :: int] = Inr groups \<and> (\<forall>g \<in> set groups. int (length g) = 2) \<and>
     int k < 2 \<and> concat groups = [1, 2, 3] @ replicate k 0"
  using inGroupsOf_groups [of 2 0 "[1, 2, 3 :: int]"] by simp

text \<open>
  \<open>each\<close> calls the iterator on the values in order with their positions until a call
  throws: \<open>$break\<close> ends the loop normally and any other exception leaves it, in both cases with
  the state that call left, and no later value is visited.
\<close>

theorem each_stops_at_first_throw:
  assumes "n < length xs"
    and "\<And>i. i < n \<Longrightarrow> it (st i) (xs ! i) i = Next (st (i + 1))"
    and "\<And>t. it (st n) (xs ! n) n \<noteq> Next t"
  shows "each it (st 0) xs =
    (case it (st n) (xs ! n) n of Break t \<Rightarrow> Done t | Raise e t \<Rightarrow> Failed e t | Next t \<Rightarrow> Done t)"
proof -
  have "each_from k it (st k) (drop k xs) = each_from n it (st n) (drop n xs)" if "k \<le> n" for k
    using that
  proof (induction "n - k" arbitrary: k)
    case (Suc d)
    then have k: "k < n" by simp
    then have "drop k xs = xs ! k # drop (k + 1) xs"
      using assms(1) by (simp add: Cons_nth_drop_Suc)
    with assms(2) [OF k] have "each_from k it (st k) (drop k xs) =
        each_from (k + 1) it (st (k + 1)) (drop (k + 1) xs)" by simp
    with Suc k show ?case by simp
  qed simp
  from this [of 0] have "each it (st 0) xs = each_from n it (st n) (drop n xs)"
    by (simp add: each_def)
  moreover have "drop n xs = xs ! n # drop (n + 1) xs"
    using assms(1) by (simp add: Cons_nth_drop_Suc)
  ultimately show ?thesis using assms(3) by (simp split: flow.split)
qed

theorem each_stops_at_first_throw_witness:
  "each (\<lambda>s (v :: nat) i. if v = 7 then Raise ''stop'' s else Next (s + v)) 0 [3, 7, 5]
     = Failed ''stop'' 3"
  using each_stops_at_first_throw [of 1 "[3, 7, 5]"
      "\<lambda>s (v :: nat) i. if v = 7 then Raise ''stop'' s else Next (s + v)" "\<lambda>i. if i = 0 then 0 else 3"]
  by simp

end
