(* ===== verification/ProtoString.thy ===== *)
theory ProtoString
  imports JsPrelude "HOL-Library.Monad_Syntax" "HOL-Library.Sublist"
begin

text \<open>
  The extensions of \<open>String\<close> and \<open>Number\<close> of \<open>prototype.js\<close>: \<open>gsub\<close> and the
  methods built on it, tag and script stripping, HTML escaping, inflections,
  \<open>inspect\<close> and the JSON test.  A string is a list of the characters 0 to 255.
  A regular expression of the source is a matcher: the function that finds its
  leftmost match.  The interface of a matcher is the locale \<open>pattern\<close>.
\<close>

section \<open>Matches and \<open>gsub\<close>\<close>

text \<open>
  The result of \<open>match\<close>: its index and its groups; group 0 is the matched text.
\<close>

record rmatch =
  m_index :: nat
  m_text :: string
  m_groups :: "string list"

type_synonym matcher = "string \<Rightarrow> rmatch option"

text \<open>
  The leftmost match of an expression that does not look back: \<open>here\<close> is the match
  at the front of a string, its length and its groups.
\<close>

fun search :: "(string \<Rightarrow> (nat \<times> string list) option) \<Rightarrow> nat \<Rightarrow> string \<Rightarrow> rmatch option" where
  "search here i s =
     (case here s of
        Some (n, gs) \<Rightarrow> Some \<lparr>m_index = i, m_text = take n s, m_groups = gs\<rparr>
      | None \<Rightarrow> (case s of [] \<Rightarrow> None | c # r \<Rightarrow> search here (i + 1) r))"

declare search.simps [simp del]

text \<open>
  The loop of \<open>gsub\<close>.  It does not end on an expression that matches the empty
  text, so not returning is \<open>None\<close>.  The replacement function may keep a state,
  as the one of \<open>sub\<close> does.
\<close>

partial_function (option) gsub_loop ::
  "matcher \<Rightarrow> ('s \<Rightarrow> rmatch \<Rightarrow> string \<times> 's) \<Rightarrow> 's \<Rightarrow> string \<Rightarrow> string \<Rightarrow> (string \<times> 's) option" where
  "gsub_loop pat replacement st result source =
     (if length source > 0
      then (case pat source of
              Some m \<Rightarrow>
                gsub_loop pat replacement (snd (replacement st m))
                  (result @ take (m_index m) source @ fst (replacement st m))
                  (drop (m_index m + length (m_text m)) source)
            | None \<Rightarrow> Some (result @ source, st))
      else Some (result, st))"

declare gsub_loop.simps [code]

definition gsub :: "string \<Rightarrow> matcher \<Rightarrow> (rmatch \<Rightarrow> string) \<Rightarrow> string option" where
  "gsub self pat replacement =
     map_option fst (gsub_loop pat (\<lambda>_ m. (replacement m, ())) () [] self)"

text \<open>\<open>count\<close> is decremented before it is compared with 0.\<close>

definition sub :: "string \<Rightarrow> matcher \<Rightarrow> (rmatch \<Rightarrow> string) \<Rightarrow> int \<Rightarrow> string option" where
  "sub self pat replacement count =
     map_option fst (gsub_loop pat
       (\<lambda>c m. let c = c - 1 in if c < 0 then (m_text m, c) else (replacement m, c)) count [] self)"

text \<open>\<open>scan\<close> returns the string and has called the iterator with each match.\<close>

definition scan :: "string \<Rightarrow> matcher \<Rightarrow> (string \<times> rmatch list) option" where
  "scan self pat =
     map_option (\<lambda>(_, ms). (self, ms)) (gsub_loop pat (\<lambda>ms m. ([], ms @ [m])) [] [] self)"

text \<open>The contract of a matcher: the match is a nonempty part of the source.\<close>

locale pattern =
  fixes pat :: matcher
  assumes inside: "pat s = Some m \<Longrightarrow> m_index m + length (m_text m) \<le> length s"
    and matched: "pat s = Some m \<Longrightarrow> m_text m = take (length (m_text m)) (drop (m_index m) s)"
    and nonempty: "pat s = Some m \<Longrightarrow> m_text m \<noteq> []"
begin

lemma shrinks:
  "pat s = Some m \<Longrightarrow> length (drop (m_index m + length (m_text m)) s) < length s"
  using inside [of s m] nonempty [of s m] by (cases "m_text m") auto

lemma gsub_loop_returns: "\<exists>t st'. gsub_loop pat rep st res s = Some (res @ t, st')"
proof (induction s arbitrary: st res rule: length_induct)
  case (1 s)
  show ?case
  proof (cases "pat s")
    case None
    then show ?thesis by (subst gsub_loop.simps) simp
  next
    case (Some m)
    from 1 [rule_format, OF shrinks [OF Some],
        of "snd (rep st m)" "res @ take (m_index m) s @ fst (rep st m)"] Some
    show ?thesis by (subst gsub_loop.simps) auto
  qed
qed

lemma gsub_returns: "\<exists>t. gsub s pat rep = Some t"
  using gsub_loop_returns [of "\<lambda>_ m. (rep m, ())" "()" "[]" s] by (auto simp: gsub_def)

lemma gsub_loop_same:
  assumes "\<And>st m. fst (rep st m) = m_text m"
  shows "\<exists>st'. gsub_loop pat rep st res s = Some (res @ s, st')"
proof (induction s arbitrary: st res rule: length_induct)
  case (1 s)
  show ?case
  proof (cases "pat s")
    case None
    then show ?thesis by (subst gsub_loop.simps) simp
  next
    case (Some m)
    let ?d = "drop (m_index m + length (m_text m)) s"
    have split: "take (m_index m) s @ m_text m @ ?d = s"
      using matched [OF Some] by (metis add.commute append_take_drop_id drop_drop)
    from 1 [rule_format, OF shrinks [OF Some],
        of "snd (rep st m)" "res @ take (m_index m) s @ fst (rep st m)"]
    obtain st' where "gsub_loop pat rep (snd (rep st m)) (res @ take (m_index m) s @ fst (rep st m)) ?d
        = Some (res @ take (m_index m) s @ m_text m @ ?d, st')"
      using assms by auto
    moreover have "s \<noteq> []" using nonempty [OF Some] matched [OF Some] by (cases s) auto
    ultimately show ?thesis using Some split by (subst gsub_loop.simps) auto
  qed
qed

lemma gsub_text: "gsub s pat m_text = Some s"
  using gsub_loop_same [of "\<lambda>_ m. (m_text m, ())" "()" "[]" s] by (auto simp: gsub_def)

lemma sub_returns: "\<exists>t. sub s pat rep count = Some t"
  using gsub_loop_returns [of _ count "[]" s] by (fastforce simp: sub_def)

lemma scan_returns: "\<exists>ms. scan s pat = Some (s, ms)"
  using gsub_loop_returns [of "\<lambda>ms m. ([], ms @ [m])" "[]" "[]" s] by (auto simp: scan_def)

lemma gsub_no_match: "pat s = None \<Longrightarrow> gsub s pat rep = Some s"
  by (simp add: gsub_def gsub_loop.simps)

end

text \<open>Expressions that do not look back give the contract once their match at the front is sound.\<close>

locale anchored =
  fixes here :: "string \<Rightarrow> (nat \<times> string list) option"
  assumes front: "here s = Some (n, gs) \<Longrightarrow> 0 < n \<and> n \<le> length s"

lemma search_shift:
  "search here (i + k) s = map_option (\<lambda>m. m\<lparr>m_index := m_index m + k\<rparr>) (search here i s)"
proof (induction s arbitrary: i)
  case Nil
  show ?case
    by (simp add: search.simps [of here i] search.simps [of here "i + k"] split: option.split)
next
  case (Cons c s)
  from Cons [of "i + 1"] show ?case
    by (simp add: search.simps [of here i] search.simps [of here "i + k"] add.commute add.left_commute
        split: option.split)
qed

lemma search_Some:
  "search here i s = Some m \<Longrightarrow>
     \<exists>k n gs. m_index m = i + k \<and> k \<le> length s \<and> here (drop k s) = Some (n, gs) \<and>
       m_text m = take n (drop k s) \<and> m_groups m = gs \<and> (\<forall>j < k. here (drop j s) = None)"
proof (induction s arbitrary: i)
  case Nil
  then show ?case
    by (auto simp: search.simps [of here i] split: option.splits)
next
  case (Cons c s)
  show ?case
  proof (cases "here (c # s)")
    case None
    with Cons.prems have "search here (i + 1) s = Some m"
      by (simp add: search.simps [of here i])
    from Cons.IH [OF this] obtain k n gs where
      k: "m_index m = i + 1 + k" "k \<le> length s" "here (drop k s) = Some (n, gs)"
        "m_text m = take n (drop k s)" "m_groups m = gs" "\<forall>j < k. here (drop j s) = None" by blast
    have "\<forall>j < Suc k. here (drop j (c # s)) = None" using k(6) None by (simp add: All_less_Suc2)
    with k show ?thesis by (intro exI [of _ "Suc k"] exI [of _ n] exI [of _ gs]) simp
  next
    case (Some a)
    with Cons.prems show ?thesis
      by (cases a) (auto simp: search.simps [of here i])
  qed
qed

lemma search_None: "search here i s = None \<longleftrightarrow> (\<forall>j \<le> length s. here (drop j s) = None)"
proof (induction s arbitrary: i)
  case Nil
  show ?case by (simp add: search.simps [of here i] split: option.splits)
next
  case (Cons c s)
  have "(\<forall>j \<le> length (c # s). here (drop j (c # s)) = None) \<longleftrightarrow>
      here (c # s) = None \<and> (\<forall>j \<le> length s. here (drop j s) = None)"
    using All_less_Suc2 [of "Suc (length s)" "\<lambda>j. here (drop j (c # s)) = None"]
    by (simp add: less_Suc_eq_le)
  with Cons show ?case by (simp add: search.simps [of here i] split: option.splits)
qed

sublocale anchored \<subseteq> pattern "search here 0"
proof
  fix s m assume m: "search here 0 s = Some m"
  from search_Some [OF this] obtain k n gs where
    k: "m_index m = k" "here (drop k s) = Some (n, gs)" "m_text m = take n (drop k s)" by auto
  from front [OF k(2)] have n: "0 < n" "n \<le> length s - k" by auto
  show "m_index m + length (m_text m) \<le> length s" using k n by simp
  show "m_text m = take (length (m_text m)) (drop (m_index m) s)" using k n by simp
  show "m_text m \<noteq> []" using k n by auto
qed

context anchored
begin

lemma here_Nil: "here [] = None"
  using front [of "[]"] by (cases "here []") auto

lemma gsub_here:
  "(\<exists>t. gsub s (search here 0) rep = Some t) \<and> gsub s (search here 0) m_text = Some s"
  by (simp add: gsub_returns gsub_text)

text \<open>One step of the loop at the front of the source.\<close>

lemma gsub_loop_step:
  assumes "\<And>st m k. rep st (m\<lparr>m_index := k\<rparr>) = rep st m"
  shows "gsub_loop (search here 0) rep st res (c # r) =
    (case here (c # r) of
       None \<Rightarrow> gsub_loop (search here 0) rep st (res @ [c]) r
     | Some (n, gs) \<Rightarrow>
         let m = \<lparr>m_index = 0, m_text = take n (c # r), m_groups = gs\<rparr>
         in gsub_loop (search here 0) rep (snd (rep st m)) (res @ fst (rep st m)) (drop n (c # r)))"
proof (cases "here (c # r)")
  case None
  have sh: "search here 0 (c # r) = map_option (\<lambda>m. m\<lparr>m_index := m_index m + 1\<rparr>) (search here 0 r)"
    using None search_shift [of here 0 1 r] by (simp add: search.simps [of here 0 "c # r"])
  show ?thesis
  proof (cases "search here 0 r")
    case None': None
    then show ?thesis using None sh
      by (simp add: gsub_loop.simps [of _ _ _ _ "c # r"] gsub_loop.simps [of _ _ _ _ r])
  next
    case (Some m)
    then have "r \<noteq> []" using here_Nil by (auto simp: search.simps)
    then show ?thesis using None sh Some assms
      by (simp add: gsub_loop.simps [of _ _ _ _ "c # r"] gsub_loop.simps [of _ _ _ _ r])
  qed
next
  case (Some a)
  obtain n gs where a: "a = (n, gs)" by (cases a)
  with Some front have "n \<le> length (c # r)" by blast
  with Some a show ?thesis
    by (simp add: gsub_loop.simps [of _ _ _ _ "c # r"] search.simps [of here 0 "c # r"] Let_def min_absorb2)
qed

end

lemma gsub_loop_Nil [simp]: "gsub_loop pat rep st res [] = Some (res, st)"
  by (simp add: gsub_loop.simps)

section \<open>\<open>replace\<close> with a global expression\<close>

text \<open>Only for expressions that do not match the empty text.\<close>

function replace_all ::
  "(string \<Rightarrow> (nat \<times> string list) option) \<Rightarrow> (string list \<Rightarrow> string) \<Rightarrow> string \<Rightarrow> string" where
  "replace_all here f [] = []"
| "replace_all here f (c # r) =
     (case here (c # r) of
        Some (n, gs) \<Rightarrow>
          if n > 0 then f gs @ replace_all here f (drop n (c # r)) else c # replace_all here f r
      | None \<Rightarrow> c # replace_all here f r)"
  by pat_completeness auto
termination
  by (relation "measure (\<lambda>(here, f, s). length s)") auto

text \<open>The matches of a global expression, as \<open>match\<close> returns them; only the groups are kept.\<close>

function match_all ::
  "(string \<Rightarrow> (nat \<times> string list) option) \<Rightarrow> string \<Rightarrow> string list list" where
  "match_all here [] = []"
| "match_all here (c # r) =
     (case here (c # r) of
        Some (n, gs) \<Rightarrow>
          if n > 0 then gs # match_all here (drop n (c # r)) else match_all here r
      | None \<Rightarrow> match_all here r)"
  by pat_completeness auto
termination
  by (relation "measure (\<lambda>(here, s). length s)") auto

text \<open>A character class and a literal text.\<close>

fun one_of :: "(char \<Rightarrow> bool) \<Rightarrow> string \<Rightarrow> (nat \<times> string list) option" where
  "one_of P [] = None"
| "one_of P (c # r) = (if P c then Some (1, [[c]]) else None)"

definition literal :: "string \<Rightarrow> string \<Rightarrow> (nat \<times> string list) option" where
  "literal p s = (if take (length p) s = p then Some (length p, []) else None)"

lemma replace_all_one_of:
  "replace_all (one_of P) f s = concat (map (\<lambda>c. if P c then f [[c]] else [c]) s)"
  by (induction s) auto

interpretation class_pattern: anchored "one_of P" for P
proof
  fix s n gs assume "one_of P s = Some (n, gs)"
  then show "0 < n \<and> n \<le> length s" by (cases s) (auto split: if_splits)
qed

lemma gsub_class:
  assumes "\<And>m k. rep (m\<lparr>m_index := k\<rparr>) = rep m"
  shows "gsub s (search (one_of P) 0) rep =
    Some (concat (map (\<lambda>c. if P c then rep \<lparr>m_index = 0, m_text = [c], m_groups = [[c]]\<rparr> else [c]) s))"
proof -
  have "gsub_loop (search (one_of P) 0) (\<lambda>_ m. (rep m, ())) () res s =
    Some (res @ concat (map (\<lambda>c. if P c then rep \<lparr>m_index = 0, m_text = [c], m_groups = [[c]]\<rparr> else [c]) s), ())"
    for res
  proof (induction s arbitrary: res)
    case (Cons c s)
    then show ?case
      by (subst class_pattern.gsub_loop_step) (simp_all add: assms Let_def)
  qed simp
  from this [of "[]"] show ?thesis by (simp add: gsub_def)
qed

section \<open>Numbers\<close>

definition radix_digit :: "nat \<Rightarrow> char" where
  "radix_digit d = char_of (if d < 10 then 48 + d else 87 + d)"

function nat_to_radix :: "nat \<Rightarrow> nat \<Rightarrow> string" where
  "nat_to_radix r n =
     (if n < r \<or> r < 2 then [radix_digit n] else nat_to_radix r (n div r) @ [radix_digit (n mod r)])"
  by pat_completeness auto
termination
  by (relation "measure snd") auto

declare nat_to_radix.simps [simp del]

definition int_to_radix :: "nat \<Rightarrow> int \<Rightarrow> string" where
  "int_to_radix r i = (if i < 0 then ''-'' @ nat_to_radix r (nat (- i)) else nat_to_radix r (nat i))"

text \<open>\<open>String.times\<close>: an array of \<open>count + 1\<close> empty places, joined.\<close>

definition times :: "string \<Rightarrow> int \<Rightarrow> string" where
  "times self count = (if count < 1 then [] else join self (replicate (nat (count + 1)) []))"

definition toPaddedString :: "int \<Rightarrow> nat \<Rightarrow> nat \<Rightarrow> string" where
  "toPaddedString self len radix =
     (let str = int_to_radix (if radix = 0 then 10 else radix) self
      in times ''0'' (int len - int (length str)) @ str)"

definition toColorPart :: "int \<Rightarrow> string" where
  "toColorPart self = toPaddedString self 2 16"

definition succ :: "int \<Rightarrow> int" where
  "succ self = self + 1"

section \<open>The methods of \<open>String\<close>\<close>

text \<open>A missing argument is \<open>None\<close>; a length of 0 counts as missing.\<close>

definition truncate :: "string \<Rightarrow> int \<Rightarrow> string option \<Rightarrow> string" where
  "truncate self len truncation =
     (let len = (if len = 0 then 30 else len);
          truncation = (case truncation of None \<Rightarrow> ''...'' | Some t \<Rightarrow> t)
      in if int (length self) > len
         then slice self 0 (len - int (length truncation)) @ truncation else self)"

definition strip :: "string \<Rightarrow> string" where
  "strip self = rtrim (ltrim self)"

text \<open>\<open>/<\/?[^>]+>/\<close>: the optional slash is one of the characters that are not \<open>>\<close>.\<close>

fun tag_here :: "string \<Rightarrow> (nat \<times> string list) option" where
  "tag_here [] = None"
| "tag_here (c # r) =
     (let t = takeWhile (\<lambda>d. d \<noteq> CHR ''>'') r
      in if c = CHR ''<'' \<and> t \<noteq> [] \<and> length t < length r then Some (length t + 2, []) else None)"

definition stripTags :: "string \<Rightarrow> string" where
  "stripTags self = replace_all tag_here (\<lambda>_. []) self"

text \<open>\<open>Prototype.ScriptFragment\<close>, case insensitive; the group is the script.\<close>

definition script_here :: "string \<Rightarrow> (nat \<times> string list) option" where
  "script_here s =
     (if to_lower_case (take 7 s) = ''<script''
      then let r = drop 7 s; a = takeWhile (\<lambda>d. d \<noteq> CHR ''>'') r
           in if length a < length r
              then let body = drop (length a + 1) r; k = index_of (to_lower_case body) ''</script>''
                   in if k = -1 then None
                      else Some (7 + length a + 1 + nat k + 9, [take (nat k) body])
              else None
      else None)"

definition stripScripts :: "string \<Rightarrow> string" where
  "stripScripts self = replace_all script_here (\<lambda>_. []) self"

definition extractScripts :: "string \<Rightarrow> string list" where
  "extractScripts self = map hd (match_all script_here self)"

text \<open>The versions for WebKit and Internet Explorer, which do not go through the document.\<close>

definition escapeHTML :: "string \<Rightarrow> string" where
  "escapeHTML self =
     replace_all (literal ''>'') (\<lambda>_. ''&gt;'')
       (replace_all (literal ''<'') (\<lambda>_. ''&lt;'')
         (replace_all (literal ''&'') (\<lambda>_. ''&amp;'') self))"

definition unescapeHTML :: "string \<Rightarrow> string" where
  "unescapeHTML self =
     replace_all (literal ''&gt;'') (\<lambda>_. ''>'')
       (replace_all (literal ''&lt;'') (\<lambda>_. ''<'')
         (replace_all (literal ''&amp;'') (\<lambda>_. ''&'') (stripTags self)))"

definition capitalize :: "string \<Rightarrow> string" where
  "capitalize self = to_upper_case (char_at self 0) @ to_lower_case (substring self 1 (int (length self)))"

definition upcase_first :: "string \<Rightarrow> string" where
  "upcase_first part = to_upper_case (char_at part 0) @ substring part 1 (int (length part))"

definition camelize :: "string \<Rightarrow> string" where
  "camelize self =
     (let parts = split_char CHR ''-'' self
      in if length parts = 1 then parts ! 0
         else let camelized = (if char_at self 0 = ''-'' then upcase_first (parts ! 0) else parts ! 0)
              in foldl (\<lambda>c i. c @ upcase_first (parts ! i)) camelized [1..<length parts])"

text \<open>\<open>/([A-Z]+)([A-Z][a-z])/\<close>: the longest run of capitals, less the one before the small letter.\<close>

definition acronym_here :: "string \<Rightarrow> (nat \<times> string list) option" where
  "acronym_here s =
     (let run = takeWhile is_upper s; k = length run
      in if k \<ge> 2 \<and> k < length s \<and> is_lower (s ! k)
         then Some (k + 1, [take (k - 1) s, take 2 (drop (k - 1) s)]) else None)"

text \<open>\<open>/([a-z\d])([A-Z])/\<close>\<close>

fun hump_here :: "string \<Rightarrow> (nat \<times> string list) option" where
  "hump_here (c # d # r) =
     (if (is_lower c \<or> is_digit c) \<and> is_upper d then Some (2, [[c], [d]]) else None)"
| "hump_here s = None"

definition underscore :: "string \<Rightarrow> string option" where
  "underscore self = do {
     s1 \<leftarrow> gsub self (search (literal ''::'') 0) (\<lambda>_. ''/'');
     s2 \<leftarrow> gsub s1 (search acronym_here 0) (\<lambda>m. m_groups m ! 0 @ ''_'' @ m_groups m ! 1);
     s3 \<leftarrow> gsub s2 (search hump_here 0) (\<lambda>m. m_groups m ! 0 @ ''_'' @ m_groups m ! 1);
     s4 \<leftarrow> gsub s3 (search (one_of (\<lambda>c. c = CHR ''-'')) 0) (\<lambda>_. ''_'');
     Some (to_lower_case s4) }"

definition dasherize :: "string \<Rightarrow> string option" where
  "dasherize self = gsub self (search (one_of (\<lambda>c. c = CHR ''_'')) 0) (\<lambda>_. ''-'')"

definition specialChar :: "char \<Rightarrow> string option" where
  "specialChar c =
     (if c = CHR 0x08 then Some [CHR 0x5C, CHR ''b'']
      else if c = CHR 0x09 then Some [CHR 0x5C, CHR ''t'']
      else if c = CHR 0x0A then Some [CHR 0x5C, CHR ''n'']
      else if c = CHR 0x0C then Some [CHR 0x5C, CHR ''f'']
      else if c = CHR 0x0D then Some [CHR 0x5C, CHR ''r'']
      else if c = CHR 0x5C then Some [CHR 0x5C, CHR 0x5C]
      else None)"

definition control_or_backslash :: "char \<Rightarrow> bool" where
  "control_or_backslash c \<longleftrightarrow> of_char c \<le> (31 :: nat) \<or> c = CHR 0x5C"

definition escape_char :: "char \<Rightarrow> string" where
  "escape_char c =
     (case specialChar c of Some t \<Rightarrow> t
      | None \<Rightarrow> [CHR 0x5C, CHR ''u'', CHR ''0'', CHR ''0''] @ toPaddedString (of_char c) 2 16)"

definition str_inspect :: "string \<Rightarrow> bool \<Rightarrow> string option" where
  "str_inspect self useDoubleQuotes = do {
     escapedString \<leftarrow> gsub self (search (one_of control_or_backslash) 0) (\<lambda>m. escape_char (hd (m_text m)));
     Some (if useDoubleQuotes
       then [CHR 0x22] @ replace_all (literal [CHR 0x22]) (\<lambda>_. [CHR 0x5C, CHR 0x22]) escapedString @ [CHR 0x22]
       else [CHR 0x27] @ replace_all (literal [CHR 0x27]) (\<lambda>_. [CHR 0x5C, CHR 0x27]) escapedString @ [CHR 0x27]) }"

definition str_toJSON :: "string \<Rightarrow> string option" where
  "str_toJSON self = str_inspect self True"

definition blank :: "string \<Rightarrow> bool" where
  "blank self = list_all is_ws self"

definition line_end :: "char \<Rightarrow> bool" where
  "line_end c \<longleftrightarrow> c = CHR 0x0A \<or> c = CHR 0x0D"

text \<open>The two replacements of \<open>isJSON\<close>: \<open>/\\./\<close> and a string literal.\<close>

fun escape_here :: "string \<Rightarrow> (nat \<times> string list) option" where
  "escape_here (c # d # r) = (if c = CHR 0x5C \<and> \<not> line_end d then Some (2, []) else None)"
| "escape_here s = None"

definition plain_in_string :: "char \<Rightarrow> bool" where
  "plain_in_string c \<longleftrightarrow> c \<noteq> CHR 0x22 \<and> c \<noteq> CHR 0x5C \<and> \<not> line_end c"

fun string_here :: "string \<Rightarrow> (nat \<times> string list) option" where
  "string_here [] = None"
| "string_here (c # r) =
     (let t = takeWhile plain_in_string r
      in if c = CHR 0x22 \<and> length t < length r \<and> r ! length t = CHR 0x22
         then Some (length t + 2, []) else None)"

definition json_char :: "char \<Rightarrow> bool" where
  "json_char c \<longleftrightarrow>
     c \<in> set '',:{}[].-+Eaefln '' \<or> is_digit c \<or> line_end c \<or> c = CHR 0x09 \<or>
     (114 :: nat) \<le> of_char c \<and> of_char c \<le> (117 :: nat)"

definition isJSON :: "string \<Rightarrow> bool" where
  "isJSON self =
     (if blank self then False
      else list_all json_char
        (replace_all string_here (\<lambda>_. []) (replace_all escape_here (\<lambda>_. ''@'') self)))"

text \<open>
  \<open>Prototype.JSONFilter\<close>, \<open>/^\/\*-secure-([\s\S]*)\*\/\s*$/\<close>: its two ends; the
  match is the whole text.
\<close>

definition secure_json :: matcher where
  "secure_json s =
     (let t = rtrim s
      in if take 10 s = ''/*-secure-'' \<and> length t \<ge> 12 \<and> drop (length t - 2) t = ''*/''
         then Some \<lparr>m_index = 0, m_text = s, m_groups = [take (length t - 12) (drop 10 s)]\<rparr>
         else None)"

definition unfilterJSON :: "string \<Rightarrow> string option" where
  "unfilterJSON self = sub self secure_json (\<lambda>m. m_groups m ! 0) 1"

text \<open>\<open>eval\<close> is the interpreter's: the exception or the value.\<close>

definition evalJSON :: "(string \<Rightarrow> 'e + 'v) \<Rightarrow> bool \<Rightarrow> string \<Rightarrow> (string + 'v) option" where
  "evalJSON eval sanitize self = do {
     json \<leftarrow> unfilterJSON self;
     text \<leftarrow> str_inspect self False;
     let err = ''Badly formed JSON string: '' @ text;
     Some (if \<not> sanitize \<or> isJSON json
       then (case eval (''('' @ json @ '')'') of Inr v \<Rightarrow> Inr v | Inl _ \<Rightarrow> Inl err)
       else Inl err) }"

definition str_include :: "string \<Rightarrow> string \<Rightarrow> bool" where
  "str_include self pat \<longleftrightarrow> index_of self pat > -1"

definition startsWith :: "string \<Rightarrow> string \<Rightarrow> bool" where
  "startsWith self pat \<longleftrightarrow> index_of self pat = 0"

definition endsWith :: "string \<Rightarrow> string \<Rightarrow> bool" where
  "endsWith self pat \<longleftrightarrow>
     (let d = int (length self) - int (length pat) in d \<ge> 0 \<and> last_index_of self pat = d)"

definition str_empty :: "string \<Rightarrow> bool" where
  "str_empty self \<longleftrightarrow> self = []"

definition str_toArray :: "string \<Rightarrow> string list" where
  "str_toArray self = map (\<lambda>c. [c]) self"

section \<open>The matchers keep their contract\<close>

lemma literal_front: "p \<noteq> [] \<Longrightarrow> literal p s = Some (n, gs) \<Longrightarrow> 0 < n \<and> n \<le> length s"
  by (auto simp: literal_def split: if_splits)

interpretation colons: anchored "literal ''::''"
  by unfold_locales (rule literal_front, simp_all)

interpretation acronym: anchored acronym_here
  by unfold_locales (auto simp: acronym_here_def Let_def split: if_splits)

lemma hump_here_Some: "hump_here s = Some (n, gs) \<Longrightarrow> n = 2 \<and> 2 \<le> length s"
  by (cases s rule: hump_here.cases) (auto split: if_splits)

interpretation hump: anchored hump_here
  by unfold_locales (auto dest: hump_here_Some)

lemma rtrim_prefix: "rtrim s = take (length (rtrim s)) s"
  by (metis append_eq_conv_conj rtrim_append)

interpretation secure: pattern secure_json
proof
  fix s m assume m: "secure_json s = Some m"
  then have t: "m_index m = 0" "m_text m = s" "12 \<le> length (rtrim s)"
    by (auto simp: secure_json_def Let_def split: if_splits)
  from this(3) have "s \<noteq> []" by (auto simp: rtrim_def)
  with t show "m_text m \<noteq> []" "m_index m + length (m_text m) \<le> length s"
    "m_text m = take (length (m_text m)) (drop (m_index m) s)" by auto
qed

section \<open>Numbers in base 16\<close>

lemma radix_digit_hex: "d < 16 \<Longrightarrow> is_hex (radix_digit d) \<and> hex_digit_val (radix_digit d) = d"
  by (auto simp: radix_digit_def is_hex_def hex_digit_val_def is_digit_def digit_val_def is_lower_def)

lemma radix_small: "n < 16 \<Longrightarrow> nat_to_radix 16 n = [radix_digit n]"
  by (simp add: nat_to_radix.simps)

lemma radix_byte: "16 \<le> n \<Longrightarrow> n < 256 \<Longrightarrow> nat_to_radix 16 n = [radix_digit (n div 16), radix_digit (n mod 16)]"
  by (simp add: nat_to_radix.simps [of 16 n] radix_small)

lemma radix_digit_0: "radix_digit 0 = CHR ''0''"
  by (simp add: radix_digit_def char_of_eq_iff)

lemma toPaddedString_byte:
  assumes "n < 256"
  shows "toPaddedString (int n) 2 16 = [radix_digit (n div 16), radix_digit (n mod 16)]"
proof (cases "n < 16")
  case True
  then show ?thesis
    by (simp add: toPaddedString_def int_to_radix_def radix_small times_def radix_digit_0 numeral_2_eq_2)
next
  case False
  with assms show ?thesis
    by (simp add: toPaddedString_def int_to_radix_def radix_byte times_def)
qed

section \<open>\<open>inspect\<close>\<close>

lemma replace_all_literal_char:
  "replace_all (literal [q]) f s = concat (map (\<lambda>c. if c = q then f [] else [c]) s)"
  by (induction s) (auto simp: literal_def)

lemma replace_all_literal_skip: "q \<notin> set s \<Longrightarrow> replace_all (literal [q]) f s = s"
  by (induction s) (auto simp: literal_def)

text \<open>What \<open>toJSON\<close> puts for one character of a string.\<close>

definition json_escape :: "char \<Rightarrow> string" where
  "json_escape c =
     (if control_or_backslash c then escape_char c
      else if c = CHR 0x22 then [CHR 0x5C, CHR 0x22] else [c])"

lemma escape_char_byte:
  "escape_char c = (case specialChar c of Some t \<Rightarrow> t
     | None \<Rightarrow> [CHR 0x5C, CHR ''u'', CHR ''0'', CHR ''0'',
                radix_digit (of_char c div 16), radix_digit (of_char c mod 16)])"
  using toPaddedString_byte [OF of_char_less_256 [of c]]
  by (simp add: escape_char_def of_nat_of_char split: option.split)

lemma hex_no_quote: "is_hex d \<Longrightarrow> d \<noteq> CHR 0x22 \<and> d \<noteq> CHR 0x5C \<and> \<not> line_end d"
  by (auto simp: is_hex_def is_digit_def line_end_def)

lemma byte_digits:
  "is_hex (radix_digit (of_char c div 16))" "is_hex (radix_digit (of_char c mod 16))"
  "hex_digit_val (radix_digit (of_char c div 16)) = of_char c div 16"
  "hex_digit_val (radix_digit (of_char c mod 16)) = of_char c mod 16"
  using of_char_less_256 [of c] by (simp_all add: radix_digit_hex less_mult_imp_div_less)

lemma escape_char_no_quote: "CHR 0x22 \<notin> set (escape_char c)"
  using hex_no_quote [OF byte_digits(1), of c] hex_no_quote [OF byte_digits(2), of c]
  by (auto simp: escape_char_byte specialChar_def)

lemma str_toJSON_eq: "str_toJSON s = Some ([CHR 0x22] @ concat (map json_escape s) @ [CHR 0x22])"
proof -
  have skip: "q \<notin> set t \<Longrightarrow> concat (map (\<lambda>c. if c = q then x else [c]) t) = t" for q x and t :: string
    by (induction t) auto
  have "concat (map (\<lambda>c. if c = CHR 0x22 then [CHR 0x5C, CHR 0x22] else [c])
      (if control_or_backslash c then escape_char c else [c])) = json_escape c" for c
    using skip [OF escape_char_no_quote] by (simp add: json_escape_def)
  then have "replace_all (literal [CHR 0x22]) (\<lambda>_. [CHR 0x5C, CHR 0x22])
      (concat (map (\<lambda>c. if control_or_backslash c then escape_char c else [c]) s)) = concat (map json_escape s)"
    unfolding replace_all_literal_char by (induction s) simp_all
  then show ?thesis
    by (simp add: str_toJSON_def str_inspect_def gsub_class cong: if_cong)
qed

text \<open>The value of a JSON string literal, as the grammar of JSON defines it.\<close>

fun json_simple :: "char \<Rightarrow> char option" where
  "json_simple c =
     (if c = CHR ''b'' then Some CHR 0x08 else if c = CHR ''t'' then Some CHR 0x09
      else if c = CHR ''n'' then Some CHR 0x0A else if c = CHR ''f'' then Some CHR 0x0C
      else if c = CHR ''r'' then Some CHR 0x0D
      else if c = CHR 0x22 \<or> c = CHR 0x5C \<or> c = CHR ''/'' then Some c else None)"

fun json_body :: "string \<Rightarrow> string option" where
  "json_body [] = None"
| "json_body (c # r) =
     (if c = CHR 0x22 then (if r = [] then Some [] else None)
      else if c = CHR 0x5C then
        (case r of
           [] \<Rightarrow> None
         | d # r2 \<Rightarrow>
             if d = CHR ''u'' then
               (case r2 of
                  h1 # h2 # h3 # h4 # r3 \<Rightarrow>
                    if list_all is_hex [h1, h2, h3, h4] \<and> hex_val [h1, h2, h3, h4] < 256
                    then map_option ((#) (char_of (hex_val [h1, h2, h3, h4]))) (json_body r3)
                    else None
                | _ \<Rightarrow> None)
             else (case json_simple d of None \<Rightarrow> None | Some e \<Rightarrow> map_option ((#) e) (json_body r2)))
      else if of_char c \<le> (31 :: nat) then None
      else map_option ((#) c) (json_body r))"

definition json_string_value :: "string \<Rightarrow> string option" where
  "json_string_value t = (case t of [] \<Rightarrow> None | c # r \<Rightarrow> if c = CHR 0x22 then json_body r else None)"

lemma hex_0: "is_hex CHR ''0''" "hex_digit_val CHR ''0'' = 0"
  by (simp_all add: is_hex_def is_digit_def hex_digit_val_def digit_val_def)

lemma json_body_escape: "json_body (json_escape c @ r) = map_option ((#) c) (json_body r)"
proof (cases "control_or_backslash c")
  case True
  show ?thesis
  proof (cases "specialChar c")
    case None
    have v: "hex_val [CHR ''0'', CHR ''0'', radix_digit (of_char c div 16), radix_digit (of_char c mod 16)]
        = of_char c"
      by (simp add: hex_val_def hex_0 byte_digits)
    then show ?thesis
      using None True by (simp add: json_escape_def escape_char_byte byte_digits hex_0 of_char_less_256)
  next
    case (Some t)
    then show ?thesis using True
      by (auto simp: json_escape_def escape_char_def specialChar_def split: if_splits)
  qed
next
  case False
  then show ?thesis by (auto simp: json_escape_def control_or_backslash_def)
qed

lemma json_string_value_toJSON:
  "json_string_value ([CHR 0x22] @ concat (map json_escape s) @ [CHR 0x22]) = Some s"
proof -
  have "json_body (concat (map json_escape s) @ [CHR 0x22]) = Some s"
    by (induction s) (simp_all add: json_body_escape)
  then show ?thesis by (simp add: json_string_value_def)
qed

text \<open>What \<open>isJSON\<close> tests of a text that is not blank.\<close>

definition json_residue :: "string \<Rightarrow> string" where
  "json_residue s = replace_all string_here (\<lambda>_. []) (replace_all escape_here (\<lambda>_. ''@'') s)"

lemma escape_here_other: "c \<noteq> CHR 0x5C \<Longrightarrow> escape_here (c # r) = None"
  by (cases r) auto

lemma replace_escape_plain:
  "CHR 0x5C \<notin> set t \<Longrightarrow>
     replace_all escape_here (\<lambda>_. ''@'') (t @ r) = t @ replace_all escape_here (\<lambda>_. ''@'') r"
  by (induction t) (auto simp: escape_here_other)

lemma replace_escape_json:
  "\<exists>t. list_all plain_in_string t \<and>
     replace_all escape_here (\<lambda>_. ''@'') (json_escape c @ r) = t @ replace_all escape_here (\<lambda>_. ''@'') r"
proof (cases "control_or_backslash c")
  case True
  show ?thesis
  proof (cases "specialChar c")
    case None
    let ?h = "[CHR ''0'', CHR ''0'', radix_digit (of_char c div 16), radix_digit (of_char c mod 16)]"
    have h: "list_all plain_in_string ?h" "CHR 0x5C \<notin> set ?h"
      using hex_no_quote [OF byte_digits(1), of c] hex_no_quote [OF byte_digits(2), of c]
      by (auto simp: plain_in_string_def line_end_def)
    have "replace_all escape_here (\<lambda>_. ''@'') (json_escape c @ r) =
        CHR ''@'' # replace_all escape_here (\<lambda>_. ''@'') (?h @ r)"
      using None True by (simp add: json_escape_def escape_char_byte line_end_def del: append.simps)
        (simp add: line_end_def)
    then show ?thesis using h replace_escape_plain [OF h(2), of r]
      by (intro exI [of _ "CHR ''@'' # ?h"]) (simp add: plain_in_string_def line_end_def)
  next
    case (Some t)
    then have "replace_all escape_here (\<lambda>_. ''@'') (json_escape c @ r) =
        ''@'' @ replace_all escape_here (\<lambda>_. ''@'') r"
      using True by (auto simp: json_escape_def escape_char_def specialChar_def line_end_def split: if_splits)
    then show ?thesis
      by (intro exI [of _ "''@''"]) (simp add: plain_in_string_def line_end_def)
  qed
next
  case False
  show ?thesis
  proof (cases "c = CHR 0x22")
    case True
    with False have "replace_all escape_here (\<lambda>_. ''@'') (json_escape c @ r) =
        ''@'' @ replace_all escape_here (\<lambda>_. ''@'') r"
      by (simp add: json_escape_def line_end_def)
    then show ?thesis
      by (intro exI [of _ "''@''"]) (simp add: plain_in_string_def line_end_def)
  next
    case other: False
    have "plain_in_string c"
      using False other by (auto simp: plain_in_string_def control_or_backslash_def line_end_def)
    with False other show ?thesis
      by (intro exI [of _ "[c]"])
        (auto simp: json_escape_def control_or_backslash_def escape_here_other)
  qed
qed

lemma replace_escape_json_all:
  "\<exists>t. list_all plain_in_string t \<and>
     replace_all escape_here (\<lambda>_. ''@'') (concat (map json_escape s) @ r) =
       t @ replace_all escape_here (\<lambda>_. ''@'') r"
proof (induction s)
  case (Cons c s)
  then obtain t where t: "list_all plain_in_string t"
    "replace_all escape_here (\<lambda>_. ''@'') (concat (map json_escape s) @ r) =
       t @ replace_all escape_here (\<lambda>_. ''@'') r" by blast
  from replace_escape_json [of c "concat (map json_escape s) @ r"] obtain u where
    "list_all plain_in_string u"
    "replace_all escape_here (\<lambda>_. ''@'') (json_escape c @ concat (map json_escape s) @ r) =
       u @ replace_all escape_here (\<lambda>_. ''@'') (concat (map json_escape s) @ r)" by blast
  with t show ?case by (intro exI [of _ "u @ t"]) simp
qed (auto intro: exI [of _ "[]"])

lemma replace_string_literal:
  "list_all plain_in_string t \<Longrightarrow>
     replace_all string_here f (CHR 0x22 # t @ CHR 0x22 # r) = f [] @ replace_all string_here f r"
proof -
  assume t: "list_all plain_in_string t"
  then have "takeWhile plain_in_string (t @ CHR 0x22 # r) = t"
    by (simp add: takeWhile_append list_all_iff plain_in_string_def)
  then show ?thesis by (simp add: Let_def nth_append)
qed

lemma json_residue_string:
  "json_residue ([CHR 0x22] @ concat (map json_escape s) @ [CHR 0x22] @ r) = json_residue r"
proof -
  from replace_escape_json_all [of s "CHR 0x22 # r"] obtain t where
    "list_all plain_in_string t"
    "replace_all escape_here (\<lambda>_. ''@'') (concat (map json_escape s) @ CHR 0x22 # r) =
       t @ CHR 0x22 # replace_all escape_here (\<lambda>_. ''@'') r" by (auto simp: escape_here_other)
  moreover have "replace_all escape_here (\<lambda>_. ''@'') (CHR 0x22 # u) =
      CHR 0x22 # replace_all escape_here (\<lambda>_. ''@'') u" for u
    by (simp add: escape_here_other)
  ultimately show ?thesis
    by (simp add: json_residue_def replace_string_literal del: replace_all.simps(2))
qed

lemma json_char_excludes: "\<not> json_char CHR 0x5C" "\<not> json_char CHR 0x22"
  by code_simp+

lemma json_residue_plain:
  "\<forall>c \<in> set t. json_char c \<Longrightarrow> json_residue (t @ r) = t @ json_residue r"
proof (induction t)
  case (Cons c t)
  then have "c \<noteq> CHR 0x5C" "c \<noteq> CHR 0x22" using json_char_excludes by auto
  with Cons show ?case by (simp add: json_residue_def escape_here_other)
qed simp

lemma json_residue_Nil [simp]: "json_residue [] = []"
  by (simp add: json_residue_def)

lemma isJSON_eq: "isJSON s \<longleftrightarrow> \<not> blank s \<and> list_all json_char (json_residue s)"
  by (simp add: isJSON_def json_residue_def)

lemma not_blank: "c \<in> set s \<Longrightarrow> \<not> is_ws c \<Longrightarrow> \<not> blank s"
  by (auto simp: blank_def list_all_iff)

section \<open>Tags\<close>

lemma takeWhile_shorter: "length (takeWhile P r) < length r \<longleftrightarrow> \<not> (\<forall>d \<in> set r. P d)"
proof -
  have "length r = length (takeWhile P r) + length (dropWhile P r)"
    by (metis length_append takeWhile_dropWhile_id)
  then have "length (takeWhile P r) < length r \<longleftrightarrow> dropWhile P r \<noteq> []" by simp
  then show ?thesis by (simp add: dropWhile_eq_Nil_conv)
qed

lemma tag_here_None:
  "tag_here (c # r) = None \<longleftrightarrow> c \<noteq> CHR ''<'' \<or> CHR ''>'' \<notin> set r \<or> (r \<noteq> [] \<and> hd r = CHR ''>'')"
  by (cases r) (auto simp: Let_def takeWhile_shorter)

lemma tag_here_Some: "tag_here (c # r) = Some (n, gs) \<Longrightarrow> c = CHR ''<'' \<and> 2 < n \<and> n \<le> length r + 1"
  by (auto simp: Let_def Suc_leI split: if_splits)

declare tag_here.simps(2) [simp del]

text \<open>No tag starts anywhere in a text.\<close>

definition tag_free :: "string \<Rightarrow> bool" where
  "tag_free s \<longleftrightarrow> (\<forall>i. tag_here (drop i s) = None)"

lemma tag_free_Cons: "tag_free (c # s) \<longleftrightarrow> tag_here (c # s) = None \<and> tag_free s"
proof -
  have "(\<forall>i. P (drop i (c # s))) \<longleftrightarrow> P (c # s) \<and> (\<forall>i. P (drop i s))" for P :: "string \<Rightarrow> bool"
    by (metis drop0 drop_Suc_Cons not0_implies_Suc)
  then show ?thesis by (simp add: tag_free_def)
qed

lemma stripTags_Cons:
  "stripTags (c # r) =
     (case tag_here (c # r) of None \<Rightarrow> c # stripTags r | Some (n, _) \<Rightarrow> stripTags (drop n (c # r)))"
  using tag_here_Some [of c r]
  by (auto simp: stripTags_def split: option.split)

lemma stripTags_keeps_no_gt: "CHR ''>'' \<notin> set s \<Longrightarrow> stripTags s = s"
  by (induction s) (auto simp: stripTags_Cons stripTags_def [of "[]"] tag_here_None [THEN iffD2])

lemma stripTags_front: "stripTags (CHR ''>'' # r) = CHR ''>'' # stripTags r"
  by (simp add: stripTags_Cons tag_here_None [THEN iffD2])

lemma stripTags_tag_free: "tag_free (stripTags s)"
proof (induction s rule: length_induct)
  case (1 s)
  show ?case
  proof (cases s)
    case Nil
    then show ?thesis by (simp add: stripTags_def tag_free_def)
  next
    case (Cons c r)
    show ?thesis
    proof (cases "tag_here (c # r)")
      case None
      then have "c \<noteq> CHR ''<'' \<or> CHR ''>'' \<notin> set r \<or> (\<exists>q. r = CHR ''>'' # q)"
        by (cases r) (auto simp: tag_here_None)
      then have "tag_here (c # stripTags r) = None"
        by (auto simp: tag_here_None stripTags_keeps_no_gt stripTags_front)
      with None Cons 1 show ?thesis
        by (simp add: stripTags_Cons tag_free_Cons)
    next
      case (Some a)
      then obtain n gs where a: "tag_here (c # r) = Some (n, gs)" by (cases a) auto
      have "length (drop n (c # r)) < length s" using tag_here_Some [OF a] Cons by simp
      with 1 have "tag_free (stripTags (drop n (c # r)))" by blast
      with a Cons show ?thesis by (simp add: stripTags_Cons drop_Cons')
    qed
  qed
qed

section \<open>HTML escaping\<close>

definition html_escape :: "char \<Rightarrow> string" where
  "html_escape c =
     (if c = CHR ''&'' then ''&amp;'' else if c = CHR ''<'' then ''&lt;''
      else if c = CHR ''>'' then ''&gt;'' else [c])"

lemma escapeHTML_eq: "escapeHTML s = concat (map html_escape s)"
proof -
  have "escapeHTML (c # s) = html_escape c @ escapeHTML s" for c s
    unfolding escapeHTML_def replace_all_literal_char by (simp add: html_escape_def)
  then show ?thesis by (induction s) (simp_all add: escapeHTML_def)
qed

lemma escapeHTML_no_brackets: "c \<in> set (escapeHTML s) \<Longrightarrow> c \<noteq> CHR ''<'' \<and> c \<noteq> CHR ''>''"
  by (auto simp: escapeHTML_eq html_escape_def split: if_splits)

text \<open>The text once \<open>&amp;\<close> is undone: the ampersand itself is bare again.\<close>

definition html_escape1 :: "char \<Rightarrow> string" where
  "html_escape1 c = (if c = CHR ''&'' then ''&'' else html_escape c)"

lemma unescape_amp:
  "replace_all (literal ''&amp;'') (\<lambda>_. ''&'') (concat (map html_escape s)) = concat (map html_escape1 s)"
proof (induction s)
  case (Cons c s)
  have "replace_all (literal ''&amp;'') (\<lambda>_. ''&'') (html_escape c @ r) =
      html_escape1 c @ replace_all (literal ''&amp;'') (\<lambda>_. ''&'') r" for r
    by (auto simp: html_escape_def html_escape1_def literal_def)
  with Cons show ?case by simp
qed simp

text \<open>An entity at the front of such a text is one that was written in the source.\<close>

lemma chars_front:
  assumes e: "\<And>c. h c = [c] \<or> hd (h c) = CHR ''&'' \<and> h c \<noteq> []"
    and "take 3 (concat (map h s)) = [x, y, z]"
    and "x \<noteq> CHR ''&''" "y \<noteq> CHR ''&''" "z \<noteq> CHR ''&''"
  shows "take 3 s = [x, y, z]"
proof -
  have step: "concat (map h u) = d # w \<Longrightarrow> d \<noteq> CHR ''&'' \<Longrightarrow>
      \<exists>v. u = d # v \<and> concat (map h v) = w" for u d w
  proof (cases u)
    case (Cons a list)
    assume "concat (map h u) = d # w" "d \<noteq> CHR ''&''"
    with Cons e [of a] show ?thesis by (cases "h a") auto
  qed simp
  from assms(2) obtain w where w: "concat (map h s) = x # y # z # w"
    by (metis append_Cons append_Nil append_take_drop_id)
  from step [OF w] assms(3) obtain v where v: "s = x # v" "concat (map h v) = y # z # w"
    by auto
  from step [OF v(2)] assms(4) obtain v2 where v2: "v = y # v2" "concat (map h v2) = z # w"
    by auto
  from step [OF v2(2)] assms(5) v v2 show ?thesis by auto
qed

lemma entity_front:
  "take 3 (concat (map html_escape1 s)) = [x, y, z] \<Longrightarrow>
     x \<noteq> CHR ''&'' \<Longrightarrow> y \<noteq> CHR ''&'' \<Longrightarrow> z \<noteq> CHR ''&'' \<Longrightarrow> take 3 s = [x, y, z]"
  by (rule chars_front) (auto simp: html_escape1_def html_escape_def)

text \<open>Undoing one entity in a text in which it was written nowhere.\<close>

lemma literal_amp: "literal (CHR ''&'' # t) (CHR ''&'' # r) = (if take (length t) r = t then Some (length t + 1, []) else None)"
  by (simp add: literal_def)

lemma literal_other: "c \<noteq> CHR ''&'' \<Longrightarrow> literal (CHR ''&'' # t) (c # r) = None"
  by (simp add: literal_def)

lemma unescape_lt:
  assumes "\<not> sublist ''&lt;'' s"
  shows "replace_all (literal ''&lt;'') (\<lambda>_. ''<'') (concat (map html_escape1 s)) =
    concat (map (\<lambda>c. if c = CHR ''<'' then [c] else html_escape1 c) s)"
  using assms
proof (induction s)
  case (Cons c s)
  have amp: "html_escape1 CHR ''&'' = ''&''" by (simp add: html_escape1_def)
  have ih: "\<not> sublist ''&lt;'' s" using Cons.prems by (auto simp: sublist_Cons_right)
  show ?case
  proof (cases "c = CHR ''&''")
    case True
    have "take 3 (concat (map html_escape1 s)) \<noteq> ''lt;''"
    proof
      assume "take 3 (concat (map html_escape1 s)) = ''lt;''"
      then have "take 3 s = ''lt;''" by (rule entity_front) simp_all
      then have "prefix ''&lt;'' (c # s)" using True by (metis Cons_prefix_Cons take_is_prefix)
      with Cons.prems show False by (auto intro: prefix_imp_sublist)
    qed
    with True Cons.IH [OF ih] amp show ?thesis
      by (simp add: literal_amp numeral_3_eq_3)
  next
    case False
    have "replace_all (literal ''&lt;'') (\<lambda>_. ''<'') (html_escape1 c @ r) =
        (if c = CHR ''<'' then [c] else html_escape1 c) @ replace_all (literal ''&lt;'') (\<lambda>_. ''<'') r" for r
      using False by (auto simp: html_escape1_def html_escape_def literal_def)
    with Cons.IH [OF ih] show ?thesis by simp
  qed
qed simp

lemma unescape_gt:
  assumes "\<not> sublist ''&gt;'' s"
  shows "replace_all (literal ''&gt;'') (\<lambda>_. ''>'')
    (concat (map (\<lambda>c. if c = CHR ''<'' then [c] else html_escape1 c) s)) = s"
  using assms
proof (induction s)
  case (Cons c s)
  let ?h = "\<lambda>c. if c = CHR ''<'' then [c] else html_escape1 c"
  have amp: "html_escape1 CHR ''&'' = ''&''" by (simp add: html_escape1_def)
  have ih: "\<not> sublist ''&gt;'' s" using Cons.prems by (auto simp: sublist_Cons_right)
  show ?case
  proof (cases "c = CHR ''&''")
    case True
    have "take 3 (concat (map ?h s)) \<noteq> ''gt;''"
    proof
      assume t: "take 3 (concat (map ?h s)) = ''gt;''"
      have e: "?h c = [c] \<or> hd (?h c) = CHR ''&'' \<and> ?h c \<noteq> []" for c
        by (simp add: html_escape1_def html_escape_def)
      have "take 3 s = ''gt;''"
        using t by (rule chars_front [of ?h, OF e]) simp_all
      then have "prefix ''&gt;'' (c # s)" using True by (metis Cons_prefix_Cons take_is_prefix)
      with Cons.prems show False by (auto intro: prefix_imp_sublist)
    qed
    with True Cons.IH [OF ih] amp show ?thesis
      by (simp add: literal_amp numeral_3_eq_3)
  next
    case False
    have "replace_all (literal ''&gt;'') (\<lambda>_. ''>'') (?h c @ r) =
        c # replace_all (literal ''&gt;'') (\<lambda>_. ''>'') r" for r
      using False by (auto simp: html_escape1_def html_escape_def literal_def)
    with Cons.IH [OF ih] show ?thesis by simp
  qed
qed simp

section \<open>Prefixes, suffixes and parts\<close>

lemma starts_at_prefix: "starts_at s p k \<longleftrightarrow> k + length p \<le> length s \<and> prefix p (drop k s)"
  by (auto simp: starts_at_def prefix_def) (metis append_take_drop_id)

lemma startsWith_prefix: "startsWith s p \<longleftrightarrow> prefix p s"
  using index_of_from_eq [of s p 0 0]
  by (auto simp: startsWith_def index_of_def starts_at_prefix dest: prefix_length_le)

lemma str_include_sublist: "str_include s p \<longleftrightarrow> sublist p s"
proof -
  have "str_include s p \<longleftrightarrow> 0 \<le> index_of_from s p 0"
    by (simp add: str_include_def index_of_def) linarith
  also have "\<dots> \<longleftrightarrow> (\<exists>k. starts_at s p k)" by (simp add: index_of_from_nonneg)
  also have "\<dots> \<longleftrightarrow> sublist p s"
  proof
    assume "\<exists>k. starts_at s p k"
    then obtain k z where "drop k s = p @ z" by (auto simp: starts_at_prefix prefix_def)
    then have "s = take k s @ p @ z" by (metis append_take_drop_id)
    then show "sublist p s" by (auto simp: sublist_def)
  next
    assume "sublist p s"
    then obtain a b where "s = a @ p @ b" by (auto simp: sublist_def)
    then have "starts_at s p (length a)" by (simp add: starts_at_def)
    then show "\<exists>k. starts_at s p k" ..
  qed
  finally show ?thesis .
qed

lemma endsWith_suffix: "endsWith s p \<longleftrightarrow> suffix p s"
proof (cases "length p \<le> length s")
  case True
  let ?d = "length s - length p"
  have "endsWith s p \<longleftrightarrow> find_down s p (length s) = Some ?d"
    using True by (auto simp: endsWith_def Let_def last_index_of_def last_index_of_from_def pos_or_minus1_def
        split: option.split)
  also have "\<dots> \<longleftrightarrow> starts_at s p ?d"
    using True by (auto simp: find_down_Some starts_at_def)
  also have "\<dots> \<longleftrightarrow> drop ?d s = p" using True by (simp add: starts_at_def)
  also have "\<dots> \<longleftrightarrow> suffix p s" using True
    by (metis append_take_drop_id suffixI suffix_drop suffix_same_cases length_drop diff_diff_cancel suffix_def append_eq_append_conv)
  finally show ?thesis .
next
  case False
  then show ?thesis by (auto simp: endsWith_def dest: suffix_length_le)
qed

section \<open>Results\<close>

lemma truncate_eq:
  assumes "0 < len" and "int (length t) \<le> len"
  shows "truncate s len (Some t) = (if int (length s) > len then take (nat len - length t) s @ t else s)"
proof -
  have "slice_index s 0 = 0" by (simp add: slice_index_def)
  moreover have "slice_index s (len - int (length t)) = min (nat len - length t) (length s)"
    using assms by (auto simp: slice_index_def clamp_index_def min_def)
  ultimately show ?thesis using assms by (simp add: truncate_def slice_def Let_def)
qed

lemma underscore_returns: "\<exists>t. underscore s = Some t"
proof -
  obtain s1 where "gsub s (search (literal ''::'') 0) (\<lambda>_. ''/'') = Some s1"
    using colons.gsub_returns by blast
  moreover obtain s2 where
    "gsub s1 (search acronym_here 0) (\<lambda>m. m_groups m ! 0 @ ''_'' @ m_groups m ! 1) = Some s2"
    using acronym.gsub_returns by blast
  moreover obtain s3 where
    "gsub s2 (search hump_here 0) (\<lambda>m. m_groups m ! 0 @ ''_'' @ m_groups m ! 1) = Some s3"
    using hump.gsub_returns by blast
  ultimately show ?thesis by (simp add: underscore_def gsub_class)
qed

lemma dasherize_eq: "dasherize s = Some (map (\<lambda>c. if c = CHR ''_'' then CHR ''-'' else c) s)"
proof -
  have "concat (map (\<lambda>c. if c = CHR ''_'' then ''-'' else [c]) s) =
      map (\<lambda>c. if c = CHR ''_'' then CHR ''-'' else c) s" by (induction s) auto
  then show ?thesis by (simp add: dasherize_def gsub_class)
qed

lemma evalJSON_refuses:
  assumes "unfilterJSON s = Some json" and "\<not> isJSON json"
  shows "\<exists>err. evalJSON ev True s = Some (Inl err)"
  using assms by (auto simp: evalJSON_def str_inspect_def gsub_class)

lemma gsub_loop_empty_match:
  assumes "gsub_loop pat rep st res s = Some y"
  shows "\<not> (s \<noteq> [] \<and> (\<exists>m. pat s = Some m \<and> m_index m = 0 \<and> m_text m = []))"
  using assms
proof (rule gsub_loop.raw_induct [where P = "\<lambda>pat rep st res s y.
    \<not> (s \<noteq> [] \<and> (\<exists>m. pat s = Some m \<and> m_index m = 0 \<and> m_text m = []))", rotated])
  fix f pat rep st res s y
  assume IH: "\<And>pat rep st res s y. f pat rep st res s = Some y \<Longrightarrow>
      \<not> (s \<noteq> [] \<and> (\<exists>m. pat s = Some m \<and> m_index m = 0 \<and> m_text m = []))"
    and eq: "(if length s > 0 then (case pat s of
         Some m \<Rightarrow> f pat rep (snd (rep st m)) (res @ take (m_index m) s @ fst (rep st m))
           (drop (m_index m + length (m_text m)) s)
       | None \<Rightarrow> Some (res @ s, st)) else Some (res, st)) = Some y"
  show "\<not> (s \<noteq> [] \<and> (\<exists>m. pat s = Some m \<and> m_index m = 0 \<and> m_text m = []))"
  proof
    assume "s \<noteq> [] \<and> (\<exists>m. pat s = Some m \<and> m_index m = 0 \<and> m_text m = [])"
    then obtain m where m: "s \<noteq> []" "pat s = Some m" "m_index m = 0" "m_text m = []" by blast
    with eq have "f pat rep (snd (rep st m)) (res @ fst (rep st m)) s = Some y" by simp
    from IH [OF this] m show False by blast
  qed
qed

text \<open>
  C5. \<open>gsub\<close> returns for every string and every replacement when the expression matches no
  empty text, and with the identity as replacement it returns the string unchanged.
\<close>

theorem gsub_total:
  assumes "\<And>s n gs. here s = Some (n, gs) \<Longrightarrow> 0 < n \<and> n \<le> length s"
  shows "(\<exists>t. gsub s (search here 0) rep = Some t) \<and> gsub s (search here 0) m_text = Some s"
proof -
  from assms have "anchored here" by unfold_locales
  then show ?thesis by (rule anchored.gsub_here)
qed

theorem gsub_total_witness:
  "(\<exists>t. gsub ''foo'' (search (one_of is_lower) 0) (\<lambda>m. ''x'' @ m_text m) = Some t) \<and>
     gsub ''foo'' (search (one_of is_lower) 0) m_text = Some ''foo''"
  using gsub_total [of "one_of is_lower" "''foo''" "\<lambda>m. ''x'' @ m_text m", OF class_pattern.front] by simp

text \<open>
  \<open>gsub\<close> never returns when the expression matches the empty text at the front of a source
  that is not empty: the loop cuts nothing off the source.
\<close>

theorem gsub_empty_match_diverges:
  assumes "pat s = Some m" and "m_index m = 0" and "m_text m = []" and "s \<noteq> []"
  shows "gsub s pat rep = None"
  using gsub_loop_empty_match [of pat _ _ _ s] assms
  by (cases "gsub_loop pat (\<lambda>_ m. (rep m, ())) () [] s") (auto simp: gsub_def)

theorem gsub_empty_match_diverges_witness:
  "gsub ''ab'' (search (literal []) 0) (\<lambda>_. ''-'') = None"
  by (rule gsub_empty_match_diverges [where m = "\<lparr>m_index = 0, m_text = [], m_groups = []\<rparr>"])
    (simp_all add: search.simps literal_def)

text \<open>
  C6. \<open>toJSON\<close> of a string returns a text that \<open>isJSON\<close> accepts and that is, by the grammar of
  JSON, a string literal for exactly the string it was made from.
\<close>

theorem toJSON_string_roundtrip:
  "\<exists>t. str_toJSON s = Some t \<and> isJSON t \<and> json_string_value t = Some s"
proof -
  let ?t = "[CHR 0x22] @ concat (map json_escape s) @ [CHR 0x22]"
  have "\<not> blank ?t" by (rule not_blank [of "CHR 0x22"]) (simp_all add: is_ws_def)
  moreover have "json_residue ?t = []" using json_residue_string [of s "[]"] by simp
  ultimately have "isJSON ?t" by (simp add: isJSON_eq)
  with str_toJSON_eq json_string_value_toJSON show ?thesis by blast
qed

text \<open>
  C7. No tag is left in the result of \<open>stripTags\<close>: at no position does the expression for a
  tag match, also not across the places where tags were cut out.
\<close>

theorem stripTags_leaves_no_tag: "tag_here (drop i (stripTags s)) = None"
  using stripTags_tag_free [of s] by (simp add: tag_free_def)

text \<open>
  Escaping leaves no angle bracket, and \<open>unescapeHTML\<close> undoes \<open>escapeHTML\<close> on every text
  in which neither \<open>&lt;\<close> nor \<open>&gt;\<close> is already written.
\<close>

theorem unescapeHTML_escapeHTML:
  assumes "\<not> sublist ''&lt;'' s" and "\<not> sublist ''&gt;'' s"
  shows "CHR ''<'' \<notin> set (escapeHTML s) \<and> CHR ''>'' \<notin> set (escapeHTML s) \<and>
    unescapeHTML (escapeHTML s) = s"
proof -
  have no: "CHR ''<'' \<notin> set (escapeHTML s)" "CHR ''>'' \<notin> set (escapeHTML s)"
    using escapeHTML_no_brackets by blast+
  then have "stripTags (escapeHTML s) = concat (map html_escape s)"
    by (simp add: stripTags_keeps_no_gt escapeHTML_eq)
  with assms no show ?thesis
    by (simp add: unescapeHTML_def unescape_amp unescape_lt unescape_gt)
qed

theorem unescapeHTML_escapeHTML_witness:
  "CHR ''<'' \<notin> set (escapeHTML ''a<b&c'') \<and> CHR ''>'' \<notin> set (escapeHTML ''a<b&c'') \<and>
    unescapeHTML (escapeHTML ''a<b&c'') = ''a<b&c''"
  by (rule unescapeHTML_escapeHTML) (simp_all add: sublist_Cons_right)

text \<open>
  \<open>unescapeHTML\<close> undoes the ampersand first, so that an entity written in the text is undone twice.
\<close>

lemma unescapeHTML_not_inverse: "unescapeHTML (escapeHTML ''&lt;'') = ''<''"
  by code_simp

end
