(* ===== verification/ProtoArray.thy ===== *)
theory ProtoArray
  imports ProtoEnumerable ProtoString
begin

text \<open>
  Values, \<open>Array\<close>, \<open>ObjectRange\<close> and \<open>Object.toJSON\<close>/\<open>inspect\<close> of
  \<open>prototype.js\<close>.  The methods that compare elements are modelled on arrays of
  primitive values, on which the two equalities of the language are written out;
  \<open>flatten\<close> and the two conversions work on nested values.
\<close>

section \<open>Values and their equalities\<close>

text \<open>Numbers are the finite integers.\<close>

datatype prim = Undef | Null | Bool bool | Num int | Str string

datatype jsval = Prim prim | Arr "jsval list" | Obj "(string \<times> jsval) list"

text \<open>\<open>===\<close> is equality here; \<open>==\<close> compares values of different types as numbers.\<close>

definition prim_number :: "prim \<Rightarrow> js_num" where
  "prim_number p =
     (case p of Undef \<Rightarrow> NaN | Null \<Rightarrow> Fin 0 | Bool b \<Rightarrow> Fin (if b then 1 else 0)
      | Num n \<Rightarrow> Fin (of_int n) | Str s \<Rightarrow> to_number s)"

definition nullish :: "prim \<Rightarrow> bool" where
  "nullish p \<longleftrightarrow> p = Undef \<or> p = Null"

fun loose_eq :: "prim \<Rightarrow> prim \<Rightarrow> bool" where
  "loose_eq (Str s) (Str t) = (s = t)"
| "loose_eq p q =
     (if nullish p \<or> nullish q then nullish p \<and> nullish q
      else prim_number p = prim_number q \<and> prim_number p \<noteq> NaN)"

fun truthy :: "prim \<Rightarrow> bool" where
  "truthy Undef = False"
| "truthy Null = False"
| "truthy (Bool b) = b"
| "truthy (Num n) = (n \<noteq> 0)"
| "truthy (Str s) = (s \<noteq> [])"

lemma loose_eq_refl [simp]: "loose_eq p p"
  by (cases p) (auto simp: nullish_def prim_number_def)

lemma loose_eq_sym: "loose_eq p q \<Longrightarrow> loose_eq q p"
  by (cases p; cases q) (auto simp: nullish_def split: if_splits)

section \<open>\<open>Array\<close>\<close>

definition clear :: "'a list \<Rightarrow> 'a list" where
  "clear self = []"

definition at_index :: "prim list \<Rightarrow> int \<Rightarrow> prim" where
  "at_index self i = (if 0 \<le> i \<and> i < int (length self) then self ! nat i else Undef)"

definition array_first :: "prim list \<Rightarrow> prim" where
  "array_first self = at_index self 0"

definition array_last :: "prim list \<Rightarrow> prim" where
  "array_last self = at_index self (int (length self) - 1)"

definition compact :: "prim list \<Rightarrow> prim list" where
  "compact self = findAll (\<lambda>value _. \<not> loose_eq value Null) self"

text \<open>The loops of \<open>indexOf\<close> and \<open>lastIndexOf\<close> for browsers that lack them.\<close>

function indexOf_from :: "'a list \<Rightarrow> 'a \<Rightarrow> int \<Rightarrow> int" where
  "indexOf_from self item i =
     (if i < int (length self)
      then if 0 \<le> i \<and> self ! nat i = item then i else indexOf_from self item (i + 1)
      else -1)"
  by pat_completeness auto
termination
  by (relation "measure (\<lambda>(self, item, i). nat (int (length self) - i))") auto

declare indexOf_from.simps [simp del]

definition array_indexOf :: "'a list \<Rightarrow> 'a \<Rightarrow> int \<Rightarrow> int" where
  "array_indexOf self item i =
     indexOf_from self item (if i < 0 then int (length self) + i else i)"

definition array_lastIndexOf :: "'a list \<Rightarrow> 'a \<Rightarrow> int option \<Rightarrow> int" where
  "array_lastIndexOf self item i =
     (let i = (case i of None \<Rightarrow> int (length self)
               | Some i \<Rightarrow> (if i < 0 then int (length self) + i else i) + 1);
          n = array_indexOf (rev (slice self 0 i)) item 0
      in if n < 0 then n else i - n - 1)"

definition array_include :: "prim list \<Rightarrow> prim \<Rightarrow> bool" where
  "array_include self object =
     (if array_indexOf self object 0 \<noteq> -1 then True
      else loop (\<lambda>found value _. if loose_eq value object then Break True else Next found) False self)"

definition without :: "prim list \<Rightarrow> prim list \<Rightarrow> prim list" where
  "without self values = findAll (\<lambda>value _. \<not> array_include values value) self"

text \<open>The result and the array afterwards, which is reversed in place unless told otherwise.\<close>

definition array_reverse :: "bool \<Rightarrow> 'a list \<Rightarrow> 'a list \<times> 'a list" where
  "array_reverse inline self = (if inline then (rev self, rev self) else (rev (toArray self), self))"

definition reduce :: "'a list \<Rightarrow> 'a list + 'a option" where
  "reduce self = (if length self > 1 then Inl self else Inr (if self = [] then None else Some (self ! 0)))"

definition uniq :: "bool \<Rightarrow> prim list \<Rightarrow> prim list" where
  "uniq is_sorted self =
     inject [] (\<lambda>array value index.
       if index = 0 \<or> (if is_sorted then \<not> loose_eq (array_last array) value else \<not> array_include array value)
       then array @ [value] else array) self"

text \<open>\<open>detect\<close> returns the element it found, which is then taken as a truth value.\<close>

definition intersect :: "prim list \<Rightarrow> prim list \<Rightarrow> prim list" where
  "intersect self array =
     findAll (\<lambda>item _. case detect (\<lambda>value _. item = value) array of None \<Rightarrow> False | Some v \<Rightarrow> truthy v)
       (uniq False self)"

definition clone :: "'a list \<Rightarrow> 'a list" where
  "clone self = [] @ self"

lemma inject_from_cong:
  "(\<And>m x k. x \<in> set xs \<Longrightarrow> f m x k = g m x k) \<Longrightarrow>
     loop_from i (\<lambda>m x k. Next (f m x k)) m xs = loop_from i (\<lambda>m x k. Next (g m x k)) m xs"
  by (induction xs arbitrary: i m) auto

lemma inject_cong [fundef_cong]:
  "xs = ys \<Longrightarrow> m = n \<Longrightarrow> (\<And>m x k. x \<in> set ys \<Longrightarrow> f m x k = g m x k) \<Longrightarrow>
     inject m f xs = inject n g ys"
  unfolding inject_def loop_def by (simp, rule inject_from_cong, simp)

fun flatten :: "jsval list \<Rightarrow> jsval list" where
  "flatten self =
     inject [] (\<lambda>array value _. array @ (case value of Arr vs \<Rightarrow> flatten vs | _ \<Rightarrow> [value])) self"

declare flatten.simps [simp del]

text \<open>\<open>$w\<close>: the words of a string.  The split is at the runs of white space.\<close>

function split_ws :: "string \<Rightarrow> string list" where
  "split_ws s =
     (let w = takeWhile (\<lambda>c. \<not> is_ws c) s; r = dropWhile (\<lambda>c. \<not> is_ws c) s
      in if r = [] then [w] else w # split_ws (dropWhile is_ws r))"
  by pat_completeness auto
termination
proof (relation "measure length")
  fix s x xa
  assume x: "x = takeWhile (\<lambda>c. \<not> is_ws c) s" "xa = dropWhile (\<lambda>c. \<not> is_ws c) s" "xa \<noteq> []"
  then obtain c r where "xa = c # r" "is_ws c"
    by (metis hd_dropWhile list.collapse)
  moreover have "length xa \<le> length s" using x by (simp add: length_dropWhile_le)
  ultimately show "(dropWhile is_ws xa, s) \<in> measure length"
    using length_dropWhile_le [of is_ws r] by simp
qed simp

declare split_ws.simps [simp del]

definition dollar_w :: "string \<Rightarrow> string list" where
  "dollar_w str = (let str = strip str in if str \<noteq> [] then split_ws str else [])"

section \<open>\<open>ObjectRange\<close>\<close>

record range =
  start :: int
  range_end :: int
  exclusive :: bool

definition range_include :: "range \<Rightarrow> int \<Rightarrow> bool" where
  "range_include self value =
     (if value < start self then False
      else if exclusive self then value < range_end self else value \<le> range_end self)"

text \<open>The values that the \<open>while\<close> loop of \<open>_each\<close> hands to the iterator.\<close>

function range_loop :: "range \<Rightarrow> int \<Rightarrow> int list" where
  "range_loop self value =
     (if range_include self value then value # range_loop self (succ value) else [])"
  by pat_completeness auto
termination
  by (relation "measure (\<lambda>(self, value). nat (range_end self + 1 - value))")
    (auto simp: range_include_def succ_def split: if_splits)

declare range_loop.simps [simp del]

definition range_each :: "range \<Rightarrow> int list" where
  "range_each self = range_loop self (start self)"

definition dollar_R :: "int \<Rightarrow> int \<Rightarrow> bool \<Rightarrow> range" where
  "dollar_R s e ex = \<lparr>start = s, range_end = e, exclusive = ex\<rparr>"

text \<open>\<open>Number.times\<close>: the numbers on which the iterator is called.\<close>

definition number_times :: "int \<Rightarrow> int list" where
  "number_times self = range_each (dollar_R 0 self True)"

section \<open>\<open>Object.inspect\<close> and \<open>Object.toJSON\<close>\<close>

text \<open>
  \<open>None\<close> is an undefined result.  A value of the third kind is a plain object,
  with its properties in the order of \<open>for in\<close> and no methods of its own.
\<close>

fun prim_inspect :: "prim \<Rightarrow> string" where
  "prim_inspect Undef = ''undefined''"
| "prim_inspect Null = ''null''"
| "prim_inspect (Bool b) = (if b then ''true'' else ''false'')"
| "prim_inspect (Num n) = int_to_string n"
| "prim_inspect (Str s) = (case str_inspect s False of Some t \<Rightarrow> t | None \<Rightarrow> [])"

fun inspect :: "jsval \<Rightarrow> string" where
  "inspect (Prim p) = prim_inspect p"
| "inspect (Arr vs) = ''['' @ join '', '' (map inspect vs) @ '']''"
| "inspect (Obj ps) = ''[object Object]''"

fun prim_toJSON :: "prim \<Rightarrow> string option" where
  "prim_toJSON Undef = None"
| "prim_toJSON Null = Some ''null''"
| "prim_toJSON (Bool b) = Some (if b then ''true'' else ''false'')"
| "prim_toJSON (Num n) = Some (int_to_string n)"
| "prim_toJSON (Str s) = str_toJSON s"

fun toJSON :: "jsval \<Rightarrow> string option" where
  "toJSON (Prim p) = prim_toJSON p"
| "toJSON (Arr vs) =
     (let results = foldl (\<lambda>results object.
            case toJSON object of Some value \<Rightarrow> results @ [value] | None \<Rightarrow> results) [] vs
      in Some (''['' @ join '', '' results @ '']''))"
| "toJSON (Obj ps) =
     (let results = foldl (\<lambda>results (property, v).
            case toJSON v of
              Some value \<Rightarrow>
                (case str_toJSON property of
                   Some key \<Rightarrow> results @ [key @ '': '' @ value] | None \<Rightarrow> results)
            | None \<Rightarrow> results) [] ps
      in Some (''{'' @ join '', '' results @ ''}''))"

section \<open>Laws of the arrays\<close>

interpretation array: enumerable "\<lambda>xs. xs" "\<lambda>_. True" "\<lambda>xs. xs"
  by unfold_locales simp

lemma indexOf_from_ge: "-1 \<le> indexOf_from xs x i"
proof (induction xs x i rule: indexOf_from.induct)
  case (1 xs x i)
  then show ?case by (subst indexOf_from.simps) auto
qed

lemma indexOf_from_found:
  "0 \<le> i \<Longrightarrow> indexOf_from xs x i \<noteq> -1 \<longleftrightarrow> (\<exists>k. i \<le> int k \<and> k < length xs \<and> xs ! k = x)"
proof (induction xs x i rule: indexOf_from.induct)
  case (1 xs x i)
  show ?case
  proof (cases "i < int (length xs) \<and> xs ! nat i \<noteq> x")
    case True
    have "(\<exists>k. i \<le> int k \<and> k < length xs \<and> xs ! k = x) \<longleftrightarrow>
        (\<exists>k. i + 1 \<le> int k \<and> k < length xs \<and> xs ! k = x)"
      using True by (metis add.commute le_less linorder_not_less nat_int zless_imp_add1_zle order_less_imp_le
          zle_add1_eq_le add1_zle_eq)
    with True 1 show ?thesis by (subst indexOf_from.simps) auto
  next
    case False
    with 1(2) show ?thesis
      by (subst indexOf_from.simps) (auto intro!: exI [of _ "nat i"])
  qed
qed

lemma array_indexOf_found: "array_indexOf xs x 0 \<noteq> -1 \<longleftrightarrow> x \<in> set xs"
  using indexOf_from_found [of 0 xs x] by (auto simp: array_indexOf_def in_set_conv_nth)

lemma array_include_iff: "array_include xs v \<longleftrightarrow> (\<exists>x \<in> set xs. loose_eq x v)"
proof -
  have "loop_from i (\<lambda>found value _. if loose_eq value v then Break True else Next found) False xs
      \<longleftrightarrow> (\<exists>x \<in> set xs. loose_eq x v)" for i
    by (induction xs arbitrary: i) auto
  then show ?thesis
    using array_indexOf_found [of xs v] by (auto simp: array_include_def loop_def intro: bexI [of _ v])
qed

lemma compact_eq: "compact xs = filter (\<lambda>v. \<not> nullish v) xs"
proof -
  have "loose_eq v Null \<longleftrightarrow> nullish v" for v by (cases v) (auto simp: nullish_def)
  then show ?thesis by (simp add: compact_def)
qed

lemma without_eq: "without xs vs = filter (\<lambda>x. \<not> (\<exists>v \<in> set vs. loose_eq v x)) xs"
  by (simp add: without_def array_include_iff)

text \<open>\<open>uniq\<close> keeps a value unless one before it that was kept is loosely equal to it.\<close>

fun keep_new :: "prim list \<Rightarrow> prim list \<Rightarrow> prim list" where
  "keep_new seen [] = seen"
| "keep_new seen (x # xs) =
     keep_new (if \<exists>y \<in> set seen. loose_eq y x then seen else seen @ [x]) xs"

lemma uniq_eq: "uniq False xs = keep_new [] xs"
proof -
  have "loop_from i (\<lambda>array value index. Next (if index = 0 \<or> \<not> array_include array value
      then array @ [value] else array)) seen xs = keep_new seen xs"
    if "i = 0 \<Longrightarrow> seen = []" for i seen
    using that by (induction xs arbitrary: i seen) (auto simp: array_include_iff)
  then show ?thesis by (simp add: uniq_def inject_def loop_def)
qed

lemma keep_new_apart:
  "sorted_wrt (\<lambda>a b. \<not> loose_eq a b) seen \<Longrightarrow> sorted_wrt (\<lambda>a b. \<not> loose_eq a b) (keep_new seen xs)"
  by (induction xs arbitrary: seen) (auto simp: sorted_wrt_append)

lemma keep_new_covers:
  "x \<in> set seen \<union> set xs \<Longrightarrow> \<exists>y \<in> set (keep_new seen xs). loose_eq y x"
proof (induction xs arbitrary: seen)
  case Nil
  then show ?case by (auto intro: bexI [of _ x])
next
  case (Cons z xs)
  have grow: "x \<in> set seen \<Longrightarrow> x \<in> set (keep_new seen xs)" for x seen
    by (induction xs arbitrary: seen) auto
  show ?case
  proof (cases "x \<in> set seen \<union> set xs")
    case True
    then show ?thesis by (auto intro!: Cons.IH)
  next
    case False
    then have "x = z" using Cons.prems by auto
    then show ?thesis
    proof (cases "\<exists>y \<in> set seen. loose_eq y z")
      case True
      then show ?thesis using grow \<open>x = z\<close> by auto
    next
      case False
      then show ?thesis using Cons.IH [of "seen @ [z]"] \<open>x = z\<close> by auto
    qed
  qed
qed

lemma keep_new_subseq: "\<exists>ys. keep_new seen xs = seen @ ys \<and> subseq ys xs"
proof (induction xs arbitrary: seen)
  case Nil
  show ?case by simp
next
  case (Cons x xs)
  show ?case
  proof (cases "\<exists>y \<in> set seen. loose_eq y x")
    case True
    then show ?thesis using Cons.IH [of seen] by (auto intro: list_emb_Cons)
  next
    case False
    then show ?thesis using Cons.IH [of "seen @ [x]"] by auto
  qed
qed

lemma flatten_foldl:
  "flatten vs = foldl (\<lambda>a v. a @ (case v of Arr us \<Rightarrow> flatten us | _ \<Rightarrow> [v])) [] vs"
  by (subst flatten.simps) (rule inject_simple)

lemma foldl_append: "foldl (\<lambda>a v. a @ f v) a vs = a @ concat (map f vs)"
  by (induction vs arbitrary: a) auto

text \<open>The values that are not arrays, in the order in which they are written.\<close>

fun leaves :: "jsval \<Rightarrow> jsval list" where
  "leaves (Arr vs) = concat (map leaves vs)"
| "leaves v = [v]"

fun is_array :: "jsval \<Rightarrow> bool" where
  "is_array (Arr vs) = True"
| "is_array v = False"

lemma flatten_eq: "flatten vs = concat (map leaves vs)"
proof (induction vs rule: flatten.induct)
  case (1 vs)
  have "(case v of Arr us \<Rightarrow> flatten us | _ \<Rightarrow> [v]) = leaves v" if "v \<in> set vs" for v
    using 1 [OF that] by (cases v) auto
  then have "map (\<lambda>v. case v of Arr us \<Rightarrow> flatten us | _ \<Rightarrow> [v]) vs = map leaves vs" by simp
  then show ?case by (subst flatten_foldl) (simp only: foldl_append append_Nil)
qed

lemma leaves_not_array: "w \<in> set (leaves v) \<Longrightarrow> \<not> is_array w"
  by (induction v rule: leaves.induct) auto

lemma leaves_id: "\<forall>v \<in> set vs. \<not> is_array v \<Longrightarrow> concat (map leaves vs) = vs"
proof (induction vs)
  case (Cons v vs)
  then show ?case by (cases v) auto
qed simp

section \<open>Laws of the ranges\<close>

definition range_last :: "range \<Rightarrow> int" where
  "range_last r = (if exclusive r then range_end r - 1 else range_end r)"

lemma range_loop_eq: "start r \<le> v \<Longrightarrow> range_loop r v = [v..range_last r]"
proof (induction r v rule: range_loop.induct)
  case (1 r v)
  have inc: "range_include r v \<longleftrightarrow> v \<le> range_last r"
    using 1(2) by (auto simp: range_include_def range_last_def)
  show ?case
  proof (cases "v \<le> range_last r")
    case True
    with inc 1 have "range_loop r v = v # [v + 1..range_last r]"
      by (simp add: range_loop.simps [of r v] succ_def)
    with True show ?thesis by (simp add: upto_rec1)
  next
    case False
    with inc show ?thesis by (simp add: range_loop.simps [of r v])
  qed
qed

interpretation object_range: enumerable range_each "\<lambda>_. True" "\<lambda>r. [start r..range_last r]"
  by unfold_locales (simp add: range_each_def range_loop_eq)

section \<open>Laws of \<open>toJSON\<close>\<close>

text \<open>
  A piece of text is neutral when \<open>isJSON\<close> can look at it apart from what
  follows: what the replacements leave of it are characters that it allows.
\<close>

definition neutral :: "string \<Rightarrow> bool" where
  "neutral t \<longleftrightarrow> (\<exists>u. list_all json_char u \<and> (\<forall>r. json_residue (t @ r) = u @ json_residue r))"

lemma neutral_append: "neutral s \<Longrightarrow> neutral t \<Longrightarrow> neutral (s @ t)"
  unfolding neutral_def by (elim exE conjE, rename_tac u v, rule_tac x = "u @ v" in exI) simp

lemma neutral_plain: "list_all json_char t \<Longrightarrow> neutral t"
  unfolding neutral_def by (intro exI [of _ t]) (simp add: json_residue_plain list_all_iff)

lemma neutral_string: "str_toJSON s = Some t \<Longrightarrow> neutral t"
  using json_residue_string [of s]
  by (auto simp: neutral_def str_toJSON_eq intro!: exI [of _ "[]"])

lemma neutral_join:
  "(\<And>t. t \<in> set ts \<Longrightarrow> neutral t) \<Longrightarrow> neutral (join '', '' ts)"
proof (induction ts)
  case Nil
  show ?case by (simp add: neutral_plain)
next
  case (Cons t ts)
  have sep: "neutral '', ''" by (rule neutral_plain) (simp add: json_char_def)
  show ?case
  proof (cases "ts = []")
    case True
    with Cons.prems show ?thesis by simp
  next
    case False
    have "neutral (t @ '', '' @ join '', '' ts)"
      using Cons sep by (intro neutral_append) simp_all
    with False show ?thesis by (simp add: join_Cons)
  qed
qed

lemma neutral_isJSON: "neutral t \<Longrightarrow> \<not> blank t \<Longrightarrow> isJSON t"
  using isJSON_eq [of t] unfolding neutral_def by (metis append_Nil2 json_residue_Nil)

lemma foldl_collect:
  "foldl (\<lambda>rs x. case f x of Some v \<Rightarrow> rs @ [v] | None \<Rightarrow> rs) a xs = a @ List.map_filter f xs"
  by (induction xs arbitrary: a) (auto simp: List.map_filter_def split: option.split)

lemma toJSON_Arr: "toJSON (Arr vs) = Some (''['' @ join '', '' (List.map_filter toJSON vs) @ '']'')"
  by (simp add: foldl_collect Let_def)

definition pair_toJSON :: "string \<times> jsval \<Rightarrow> string option" where
  "pair_toJSON pv = (case toJSON (snd pv) of None \<Rightarrow> None
     | Some value \<Rightarrow> map_option (\<lambda>key. key @ '': '' @ value) (str_toJSON (fst pv)))"

lemma toJSON_Obj: "toJSON (Obj ps) = Some (''{'' @ join '', '' (List.map_filter pair_toJSON ps) @ ''}'')"
proof -
  have "(case toJSON v of Some value \<Rightarrow> (case str_toJSON k of Some key \<Rightarrow> rs @ [key @ '': '' @ value] | None \<Rightarrow> rs)
      | None \<Rightarrow> rs) = (case pair_toJSON (k, v) of Some w \<Rightarrow> rs @ [w] | None \<Rightarrow> rs)" for rs k v
    by (simp add: pair_toJSON_def split: option.split)
  then have "(\<lambda>rs (k, v). case toJSON v of Some value \<Rightarrow>
        (case str_toJSON k of Some key \<Rightarrow> rs @ [key @ '': '' @ value] | None \<Rightarrow> rs) | None \<Rightarrow> rs)
      = (\<lambda>rs pv. case pair_toJSON pv of Some w \<Rightarrow> rs @ [w] | None \<Rightarrow> rs)"
    by (intro ext) (simp add: split_beta)
  then show ?thesis by (simp add: foldl_collect Let_def)
qed

declare toJSON.simps(2,3) [simp del]

lemma int_to_string_json: "list_all json_char (int_to_string n)"
proof -
  have "c \<in> set (nat_to_string k) \<Longrightarrow> json_char c" for c k
    using nat_to_string_digits [of c k] by (simp add: json_char_def)
  then show ?thesis by (auto simp: int_to_string_def list_all_iff) (simp add: json_char_def)
qed

lemma json_brackets:
  "list_all json_char ''[''" "list_all json_char '']''" "list_all json_char ''{''"
  "list_all json_char ''}''" "list_all json_char '': ''" "list_all json_char ''null''"
  "list_all json_char ''true''" "list_all json_char ''false''"
  by code_simp+

lemma prim_toJSON_neutral: "prim_toJSON p = Some t \<Longrightarrow> neutral t"
  using neutral_string neutral_plain [OF int_to_string_json] json_brackets [THEN neutral_plain]
  by (cases p) (auto split: if_splits)

lemma map_filter_set: "t \<in> set (List.map_filter f xs) \<longleftrightarrow> (\<exists>x \<in> set xs. f x = Some t)"
  by (induction xs) (auto simp: List.map_filter_def)

lemma toJSON_neutral: "toJSON v = Some t \<Longrightarrow> neutral t"
proof (induction v arbitrary: t)
  case (Prim p)
  then show ?case by (simp add: prim_toJSON_neutral)
next
  case (Arr vs)
  have "neutral (join '', '' (List.map_filter toJSON vs))"
    using Arr.IH by (intro neutral_join) (auto simp: map_filter_set)
  with Arr.prems show ?case
    by (auto simp: toJSON_Arr simp del: append_Cons append_Nil
        intro!: neutral_append intro: neutral_plain json_brackets)
next
  case (Obj ps)
  have "neutral u" if "pair_toJSON kv = Some u" "kv \<in> set ps" for kv u
  proof -
    from that(1) obtain w key where u: "toJSON (snd kv) = Some w" "str_toJSON (fst kv) = Some key"
      "u = key @ '': '' @ w" by (auto simp: pair_toJSON_def split: option.splits)
    have "neutral w" using Obj.IH [of kv "snd kv"] that(2) u(1) by (cases kv) auto
    then show ?thesis unfolding u(3)
      by (intro neutral_append neutral_plain [OF json_brackets(5)] neutral_string [OF u(2)])
  qed
  then have "neutral (join '', '' (List.map_filter pair_toJSON ps))"
    by (intro neutral_join) (auto simp: map_filter_set)
  with Obj.prems show ?case
    by (auto simp: toJSON_Obj simp del: append_Cons append_Nil
        intro!: neutral_append intro: neutral_plain json_brackets)
qed

lemma toJSON_not_blank: "toJSON v = Some t \<Longrightarrow> \<not> blank t"
proof (cases v)
  case (Prim p)
  assume t: "toJSON v = Some t"
  have "nat_to_string k \<noteq> [] \<and> (\<forall>c \<in> set (nat_to_string k). \<not> is_ws c)" for k
    using nat_to_string_digits digit_not_ws by auto
  then have "\<exists>c \<in> set (nat_to_string k). \<not> is_ws c" for k by (metis last_in_set)
  with t Prim show ?thesis
    by (cases p) (auto simp: blank_def list_all_iff is_ws_def str_toJSON_eq int_to_string_def split: if_splits)
qed (auto simp: toJSON_Arr toJSON_Obj blank_def is_ws_def)

section \<open>Results\<close>

text \<open>
  C12. \<open>uniq\<close> returns a subsequence of the array in which no two values are equal under \<open>==\<close>
  and which has for every value of the array one that is equal to it.
\<close>

theorem uniq_represents:
  "subseq (uniq False xs) xs \<and> sorted_wrt (\<lambda>a b. \<not> loose_eq a b) (uniq False xs) \<and>
    (\<forall>x \<in> set xs. \<exists>y \<in> set (uniq False xs). loose_eq y x)"
  using keep_new_subseq [of "[]" xs] keep_new_apart [of "[]" xs] keep_new_covers [of _ "[]" xs]
  by (simp add: uniq_eq)

theorem uniq_represents_witness:
  "\<exists>y \<in> set (uniq False [Num 1, Str ''a'', Num 1]). loose_eq y (Str ''a'')"
  using uniq_represents [of "[Num 1, Str ''a'', Num 1]"] by simp

text \<open>
  \<open>flatten\<close> returns the values of the nested arrays that are not arrays, in the order in
  which they are written; no array is left, so that flattening again changes nothing.
\<close>

theorem flatten_leaves:
  "flatten vs = concat (map leaves vs) \<and> \<not> list_ex is_array (flatten vs) \<and>
    flatten (flatten vs) = flatten vs"
proof -
  have "\<forall>w \<in> set (flatten vs). \<not> is_array w" by (auto simp: flatten_eq leaves_not_array)
  then show ?thesis using leaves_id [of "flatten vs"]
    by (simp add: flatten_eq list_ex_iff)
qed

text \<open>
  \<open>intersect\<close> keeps, of the values that \<open>uniq\<close> keeps, those that are in the other array and
  count as true; a common 0, empty string or false is dropped.
\<close>

theorem intersect_drops_falsy:
  "intersect xs ys = filter (\<lambda>x. x \<in> set ys \<and> truthy x) (uniq False xs)"
proof -
  have "(case find (\<lambda>v. x = v) ys of None \<Rightarrow> False | Some v \<Rightarrow> truthy v) \<longleftrightarrow> x \<in> set ys \<and> truthy x" for x
    by (induction ys) auto
  then show ?thesis by (simp add: intersect_def)
qed

lemma intersect_zero: "intersect [Num 0, Num 1] [Num 0, Num 1] = [Num 1]"
  by code_simp

text \<open>
  The loop of a range ends and hands the iterator the integers from the start to the end in
  order, without the end for an exclusive range; \<open>n.times\<close> counts from 0 to \<open>n - 1\<close>.
\<close>

theorem range_each_values:
  "range_each r = [start r..(if exclusive r then range_end r - 1 else range_end r)] \<and>
    number_times n = [0..n - 1]"
  using object_range.each_elems [of r] object_range.each_elems [of "dollar_R 0 n True"]
  by (simp add: number_times_def dollar_R_def range_last_def)



end
