(* ===== verification/ProtoHash.thy ===== *)
theory ProtoHash
  imports ProtoArray "HOL-Library.AList"
begin

text \<open>
  \<open>Hash\<close> of \<open>prototype.js\<close> and the query strings it makes and \<open>toQueryParams\<close> reads.
  An object is the list of its properties in the order of \<open>for in\<close>, in which an
  assignment to a property keeps its place.  Characters are those from 0 to 255.
\<close>

section \<open>\<open>encodeURIComponent\<close> and \<open>decodeURIComponent\<close>\<close>

definition unreserved :: "char \<Rightarrow> bool" where
  "unreserved c \<longleftrightarrow> is_alpha c \<or> is_digit c \<or> c \<in> set [CHR ''-'', CHR ''_'', CHR ''.'', CHR ''!'', CHR ''~'', CHR ''*'', CHR 0x27, CHR ''('', CHR '')'']"

definition hex_upper :: "nat \<Rightarrow> char" where
  "hex_upper d = char_of (if d < 10 then 48 + d else 55 + d)"

definition percent :: "nat \<Rightarrow> string" where
  "percent b = [CHR ''%'', hex_upper (b div 16), hex_upper (b mod 16)]"

text \<open>The bytes of a character in UTF-8.\<close>

definition utf8 :: "nat \<Rightarrow> nat list" where
  "utf8 n = (if n < 128 then [n] else [192 + n div 64, 128 + n mod 64])"

definition encode_char :: "char \<Rightarrow> string" where
  "encode_char c = (if unreserved c then [c] else concat (map percent (utf8 (of_char c))))"

definition encodeURIComponent :: "string \<Rightarrow> string" where
  "encodeURIComponent s = concat (map encode_char s)"

text \<open>One escaped byte at the front of a text.\<close>

fun byte_here :: "string \<Rightarrow> (nat \<times> string) option" where
  "byte_here (p # a # b # r) =
     (if p = CHR ''%'' \<and> is_hex a \<and> is_hex b then Some (16 * hex_digit_val a + hex_digit_val b, r) else None)"
| "byte_here s = None"

lemma byte_here_shorter: "byte_here s = Some (b, r) \<Longrightarrow> length r < length s"
  by (cases s rule: byte_here.cases) (auto split: if_splits)

text \<open>\<open>None\<close> is an \<open>URIError\<close>, or a character beyond 255.\<close>

function decodeURIComponent :: "string \<Rightarrow> string option" where
  "decodeURIComponent [] = Some []"
| "decodeURIComponent (c # r) =
     (if c \<noteq> CHR ''%'' then map_option ((#) c) (decodeURIComponent r)
      else case byte_here (c # r) of
             None \<Rightarrow> None
           | Some (b1, r1) \<Rightarrow>
               if b1 < 128 then map_option ((#) (char_of b1)) (decodeURIComponent r1)
               else if b1 = 194 \<or> b1 = 195
               then (case byte_here r1 of
                       None \<Rightarrow> None
                     | Some (b2, r2) \<Rightarrow>
                         if 128 \<le> b2 \<and> b2 < 192
                         then map_option ((#) (char_of ((b1 - 192) * 64 + (b2 - 128)))) (decodeURIComponent r2)
                         else None)
               else None)"
  by pat_completeness auto
termination
proof (relation "measure length")
  show "wf (measure length)" by simp
  show "\<And>c r. c \<noteq> CHR ''%'' \<Longrightarrow> (r, c # r) \<in> measure length" by simp
  show "\<And>c r a b1 r1. \<not> c \<noteq> CHR ''%'' \<Longrightarrow> byte_here (c # r) = Some a \<Longrightarrow> (b1, r1) = a \<Longrightarrow> b1 < 128 \<Longrightarrow>
      (r1, c # r) \<in> measure length" using byte_here_shorter by fastforce
  show "\<And>c r a b1 r1 a2 b2 r2. \<not> c \<noteq> CHR ''%'' \<Longrightarrow> byte_here (c # r) = Some a \<Longrightarrow> (b1, r1) = a \<Longrightarrow>
      \<not> b1 < 128 \<Longrightarrow> b1 = 194 \<or> b1 = 195 \<Longrightarrow> byte_here r1 = Some a2 \<Longrightarrow> (b2, r2) = a2 \<Longrightarrow>
      128 \<le> b2 \<and> b2 < 192 \<Longrightarrow> (r2, c # r) \<in> measure length"
    using byte_here_shorter by (metis in_measure less_trans prod.inject)
qed

section \<open>\<open>Hash\<close>\<close>

datatype hval = HPrim prim | HArr "prim list" | HObject

type_synonym 'v props = "(string \<times> 'v) list"

text \<open>\<open>Object.extend\<close>, \<open>Object.clone\<close>, \<open>Object.keys\<close> and \<open>Object.values\<close>.\<close>

definition object_extend :: "'v props \<Rightarrow> 'v props \<Rightarrow> 'v props" where
  "object_extend destination source = foldl (\<lambda>d (k, v). AList.update k v d) destination source"

definition object_clone :: "'v props \<Rightarrow> 'v props" where
  "object_clone ob = object_extend [] ob"

definition hash_set :: "string \<Rightarrow> 'v \<Rightarrow> 'v props \<Rightarrow> 'v props" where
  "hash_set key value self = AList.update key value self"

text \<open>\<open>get\<close> does not see the properties every object has.\<close>

definition hash_get :: "'v props \<Rightarrow> string \<Rightarrow> 'v option" where
  "hash_get self key = map_of self key"

definition hash_unset :: "string \<Rightarrow> 'v props \<Rightarrow> 'v props \<times> 'v option" where
  "hash_unset key self = (AList.delete key self, map_of self key)"

definition hash_each :: "'v props \<Rightarrow> (string \<times> 'v) list" where
  "hash_each self = self"

definition hash_keys :: "'v props \<Rightarrow> string list" where
  "hash_keys self = pluck fst (hash_each self)"

definition hash_values :: "'v props \<Rightarrow> 'v list" where
  "hash_values self = pluck snd (hash_each self)"

definition hash_index :: "'v props \<Rightarrow> 'v \<Rightarrow> string option" where
  "hash_index self value = map_option fst (detect (\<lambda>pair _. snd pair = value) (hash_each self))"

definition hash_update :: "'v props \<Rightarrow> 'v props \<Rightarrow> 'v props" where
  "hash_update self ob =
     inject self (\<lambda>result pair _. hash_set (fst pair) (snd pair) result) (object_clone ob)"

definition hash_merge :: "'v props \<Rightarrow> 'v props \<Rightarrow> 'v props" where
  "hash_merge self ob = hash_update (object_clone self) ob"

section \<open>Query strings\<close>

definition interpret_prim :: "prim \<Rightarrow> string" where
  "interpret_prim p =
     (case p of Undef \<Rightarrow> [] | Null \<Rightarrow> [] | Bool b \<Rightarrow> if b then ''true'' else ''false''
      | Num n \<Rightarrow> int_to_string n | Str s \<Rightarrow> s)"

definition toQueryPair :: "string \<Rightarrow> prim \<Rightarrow> string" where
  "toQueryPair key value =
     (if value = Undef then key else key @ ''='' @ encodeURIComponent (interpret_prim value))"

definition toQueryString :: "hval props \<Rightarrow> string" where
  "toQueryString self =
     join ''&'' (inject [] (\<lambda>results pair _.
       let key = encodeURIComponent (fst pair)
       in case snd pair of
            HPrim p \<Rightarrow> results @ [toQueryPair key p]
          | HArr vs \<Rightarrow> results @ map (toQueryPair key) vs
          | HObject \<Rightarrow> results) self)"

text \<open>\<open>/([^?#]*)(#.*)?$/\<close>: the first group of the leftmost match.\<close>

fun query_part :: "string \<Rightarrow> string" where
  "query_part s =
     (let a = takeWhile (\<lambda>c. c \<noteq> CHR ''?'' \<and> c \<noteq> CHR ''#'') s; r = drop (length a) s
      in if r = [] \<or> hd r = CHR ''#'' \<and> \<not> list_ex line_end (tl r) then a
         else case s of [] \<Rightarrow> [] | _ # s' \<Rightarrow> query_part s')"

declare query_part.simps [simp del]

text \<open>A value that is read: text, undefined, or a method every object has.\<close>

datatype qitem = QText string | QUndefined | QInherited

datatype qval = QOne qitem | QMany "qitem list"

definition inherited :: "string \<Rightarrow> bool" where
  "inherited key \<longleftrightarrow> key \<in> set [''constructor'', ''hasOwnProperty'', ''isPrototypeOf'', ''propertyIsEnumerable'',
     ''toLocaleString'', ''toString'', ''valueOf'']"

text \<open>What \<open>hash[key]\<close> is for a key that is in the object or inherited.\<close>

definition query_lookup :: "qval props \<Rightarrow> string \<Rightarrow> qval option" where
  "query_lookup hash key =
     (case map_of hash key of
        Some v \<Rightarrow> Some v
      | None \<Rightarrow> if inherited key then Some (QOne QInherited) else None)"

definition add_param :: "qval props \<Rightarrow> string \<Rightarrow> qitem \<Rightarrow> qval props" where
  "add_param hash key value =
     (case query_lookup hash key of
        None \<Rightarrow> AList.update key (QOne value) hash
      | Some (QOne v) \<Rightarrow> AList.update key (QMany [v, value]) hash
      | Some (QMany vs) \<Rightarrow> AList.update key (QMany (vs @ [value])) hash)"

text \<open>One part of the query; \<open>None\<close> when decoding throws.\<close>

definition query_pair :: "qval props \<Rightarrow> string \<Rightarrow> qval props option" where
  "query_pair hash pair =
     (let ps = split_char CHR ''='' pair
      in if ps ! 0 = [] then Some hash
         else do {
           key \<leftarrow> decodeURIComponent (ps ! 0);
           let rest = tl ps;
           if rest = [] then Some (add_param hash key QUndefined)
           else do {
             value \<leftarrow> decodeURIComponent (join ''='' rest);
             Some (add_param hash key (QText value)) } })"

definition toQueryParams :: "char \<Rightarrow> string \<Rightarrow> qval props option" where
  "toQueryParams separator self =
     foldl (\<lambda>h pair. case h of None \<Rightarrow> None | Some hash \<Rightarrow> query_pair hash pair) (Some [])
       (split_char separator (query_part (strip self)))"

section \<open>Encoding and decoding\<close>

lemma hex_upper_val: "d < 16 \<Longrightarrow> is_hex (hex_upper d) \<and> hex_digit_val (hex_upper d) = d"
  by (auto simp: hex_upper_def is_hex_def hex_digit_val_def is_digit_def digit_val_def is_lower_def)

lemma byte_here_percent: "b < 256 \<Longrightarrow> byte_here (percent b @ r) = Some (b, r)"
  using hex_upper_val [of "b div 16"] hex_upper_val [of "b mod 16"]
  by (simp add: percent_def less_mult_imp_div_less)

lemma unreserved_not_percent: "\<not> unreserved CHR ''%''"
  by code_simp

lemma decode_Cons: "c \<noteq> CHR ''%'' \<Longrightarrow> decodeURIComponent (c # r) = map_option ((#) c) (decodeURIComponent r)"
  by simp

lemma decode_percent:
  assumes "b < 128"
  shows "decodeURIComponent (percent b @ r) = map_option ((#) (char_of b)) (decodeURIComponent r)"
proof -
  obtain p where p: "percent b @ r = CHR ''%'' # p" by (simp add: percent_def)
  have "byte_here (CHR ''%'' # p) = Some (b, r)" using byte_here_percent [of b r] assms p by simp
  then show ?thesis using assms by (simp add: p)
qed

lemma decode_percent2:
  assumes "b = 194 \<or> b = 195" and "128 \<le> b2" and "b2 < 192"
  shows "decodeURIComponent (percent b @ percent b2 @ r) =
    map_option ((#) (char_of ((b - 192) * 64 + (b2 - 128)))) (decodeURIComponent r)"
proof -
  obtain p where p: "percent b @ percent b2 @ r = CHR ''%'' # p" by (simp add: percent_def)
  have "byte_here (CHR ''%'' # p) = Some (b, percent b2 @ r)"
    using byte_here_percent [of b "percent b2 @ r"] assms p by auto
  moreover have "byte_here (percent b2 @ r) = Some (b2, r)" using byte_here_percent [of b2 r] assms by simp
  ultimately show ?thesis using assms by (auto simp: p)
qed

lemma decode_encode_char:
  "decodeURIComponent (encode_char c @ r) = map_option ((#) c) (decodeURIComponent r)"
proof (cases "unreserved c")
  case True
  then have "c \<noteq> CHR ''%''" using unreserved_not_percent by blast
  with True show ?thesis by (simp add: encode_char_def)
next
  case False
  let ?n = "of_char c :: nat"
  have n: "?n < 256" by (rule of_char_less_256)
  show ?thesis
  proof (cases "?n < 128")
    case True
    then show ?thesis using False decode_percent [OF True, of r] by (simp add: encode_char_def utf8_def)
  next
    case big: False
    have "?n div 64 = 2 \<or> ?n div 64 = 3" using n big by linarith
    then have "192 + ?n div 64 = 194 \<or> 192 + ?n div 64 = 195" by auto
    moreover have "128 \<le> 128 + ?n mod 64" "128 + ?n mod 64 < 192" by simp_all
    ultimately have "decodeURIComponent (percent (192 + ?n div 64) @ percent (128 + ?n mod 64) @ r) =
        map_option ((#) (char_of ((192 + ?n div 64 - 192) * 64 + (128 + ?n mod 64 - 128)))) (decodeURIComponent r)"
      by (rule decode_percent2)
    also have "(192 + ?n div 64 - 192) * 64 + (128 + ?n mod 64 - 128) = ?n" by simp
    finally show ?thesis using False big by (simp add: encode_char_def utf8_def)
  qed
qed

lemma decode_encode: "decodeURIComponent (encodeURIComponent s) = Some s"
proof -
  have "decodeURIComponent (concat (map encode_char s) @ []) = Some s"
    by (induction s) (simp_all add: decode_encode_char)
  then show ?thesis by (simp add: encodeURIComponent_def)
qed

text \<open>The characters of an encoded text.\<close>

definition url_char :: "char \<Rightarrow> bool" where
  "url_char c \<longleftrightarrow> unreserved c \<or> c = CHR ''%''"

lemma hex_upper_url: "d < 16 \<Longrightarrow> url_char (hex_upper d)"
  by (auto simp: hex_upper_def url_char_def unreserved_def is_alpha_def is_digit_def is_upper_def is_lower_def)

lemma percent_url: "b < 256 \<Longrightarrow> c \<in> set (percent b) \<Longrightarrow> url_char c"
  using hex_upper_url [of "b div 16"] hex_upper_url [of "b mod 16"]
  by (auto simp: percent_def less_mult_imp_div_less) (simp add: url_char_def)

lemma encode_url: "c \<in> set (encodeURIComponent s) \<Longrightarrow> url_char c"
proof -
  assume "c \<in> set (encodeURIComponent s)"
  then obtain d where d: "c \<in> set (encode_char d)" by (auto simp: encodeURIComponent_def)
  have "(of_char d :: nat) < 256" by (rule of_char_less_256)
  then have "(of_char d :: nat) div 64 < 4" "(of_char d :: nat) mod 64 < 64" by (auto simp: less_mult_imp_div_less)
  then have "b < 256" if "b \<in> set (utf8 (of_char d))" for b
    using that by (auto simp: utf8_def split: if_splits)
  with d percent_url show ?thesis
    by (auto simp: encode_char_def url_char_def split: if_splits)
qed

lemma url_char_excludes:
  "\<not> url_char CHR ''&''" "\<not> url_char CHR ''=''" "\<not> url_char CHR ''?''" "\<not> url_char CHR ''#''"
  by code_simp+

lemma url_not_ws: "url_char c \<Longrightarrow> \<not> is_ws c"
  by (auto simp: url_char_def unreserved_def is_alpha_def is_digit_def is_upper_def is_lower_def is_ws_def)

lemma encode_not_Nil: "s \<noteq> [] \<Longrightarrow> encodeURIComponent s \<noteq> []"
  by (metis decode_encode decodeURIComponent.simps(1) option.inject)

section \<open>Laws of \<open>Hash\<close>\<close>

interpretation hash: enumerable hash_each "\<lambda>h. distinct (map fst h)" "\<lambda>h. h"
  by unfold_locales (simp add: hash_each_def)

lemma extend_map_of: "map_of (object_extend d s) = map_of d ++ map_of (rev s)"
  unfolding object_extend_def
proof (induction s arbitrary: d)
  case (Cons kv s)
  obtain k v where kv: "kv = (k, v)" by (cases kv)
  show ?case by (simp add: kv Cons.IH update_conv' map_add_upd_left map_add_def fun_eq_iff split: option.split)
qed simp

lemma extend_distinct: "distinct (map fst d) \<Longrightarrow> distinct (map fst (object_extend d s))"
  unfolding object_extend_def
  by (induction s arbitrary: d) (auto simp: distinct_update)

lemma map_of_rev: "distinct (map fst s) \<Longrightarrow> map_of (rev s) = map_of s"
  by (metis distinct_rev map_of_inject_set rev_map set_rev)

lemma clone_map_of: "distinct (map fst s) \<Longrightarrow> map_of (object_clone s) = map_of s"
  by (simp add: object_clone_def extend_map_of map_of_rev)

lemma hash_update_eq: "hash_update self ob = object_extend self (object_clone ob)"
proof -
  have "foldl (\<lambda>r pair. hash_set (fst pair) (snd pair) r) self xs = object_extend self xs" for xs
    by (induction xs arbitrary: self) (auto simp: object_extend_def hash_set_def)
  then show ?thesis by (simp add: hash_update_def inject_simple)
qed

section \<open>Results\<close>

text \<open>
  Encoding a text for a query and decoding it again gives the text back, and the encoded
  text has none of the characters that separate the parts of a query.
\<close>

lemma decode_encode_identity:
  "decodeURIComponent (encodeURIComponent s) = Some s \<and>
    set (encodeURIComponent s) \<inter> set ''&=?#'' = {}"
  using decode_encode [of s] encode_url [of _ s] url_char_excludes by auto

text \<open>
  Merging gives every key of the other hash the value it has there and keeps the rest, with
  each key once; the hash itself is not the result of the merge but its copy.
\<close>

theorem merge_lookup:
  assumes "distinct (map fst h)" and "distinct (map fst k)"
  shows "hash_get (hash_merge h k) key = (case hash_get k key of Some v \<Rightarrow> Some v | None \<Rightarrow> hash_get h key) \<and>
    distinct (hash_keys (hash_merge h k))"
proof -
  have dc: "distinct (map fst (object_clone x))" for x :: "'a props"
    unfolding object_clone_def by (rule extend_distinct) simp
  have "map_of (hash_merge h k) = map_of h ++ map_of k"
    using assms dc [of k] by (simp add: hash_merge_def hash_update_eq extend_map_of map_of_rev clone_map_of)
  moreover have "distinct (map fst (hash_merge h k))"
    unfolding hash_merge_def hash_update_eq using dc [of h] by (rule extend_distinct)
  ultimately show ?thesis
    by (simp add: hash_get_def hash_keys_def hash_each_def map_add_def split: option.split)
qed

theorem merge_lookup_witness:
  "hash_get (hash_merge [(''a'', 1), (''b'', 2)] [(''b'', 3 :: int)]) ''b'' = Some 3 \<and>
    distinct (hash_keys (hash_merge [(''a'', 1), (''b'', 2)] [(''b'', 3 :: int)]))"
  using merge_lookup [of "[(''a'', 1), (''b'', 2)]" "[(''b'', 3 :: int)]" "''b''"] by (simp add: hash_get_def)

text \<open>The values of one key in the order they are read.\<close>

definition read_values :: "string list \<Rightarrow> qval" where
  "read_values ids = (case ids of [i] \<Rightarrow> QOne (QText i) | _ \<Rightarrow> QMany (map QText ids))"

lemma decode_append: "decodeURIComponent (encodeURIComponent s @ r) = map_option ((@) s) (decodeURIComponent r)"
proof -
  have "decodeURIComponent (concat (map encode_char s) @ r) = map_option ((@) s) (decodeURIComponent r)"
    by (induction s) (auto simp: decode_encode_char option.map_comp comp_def option.map_ident)
  then show ?thesis by (simp add: encodeURIComponent_def)
qed

lemma update_fresh: "k \<notin> fst ` set m \<Longrightarrow> AList.update k v m = m @ [(k, v)]"
  by (induction m) (auto split: if_splits)

text \<open>Extending by new names appends them.\<close>

lemma clone_distinct: "distinct (map fst (ds @ ps)) \<Longrightarrow> object_extend ds ps = ds @ ps"
proof (induction ps arbitrary: ds)
  case (Cons p ps)
  obtain k v where p: "p = (k, v)" by (cases p)
  have "AList.update k v ds = ds @ [(k, v)]" using Cons.prems by (intro update_fresh) (auto simp: p)
  then show ?case using Cons.IH [of "ds @ [p]"] Cons.prems by (simp add: object_extend_def p)
qed (simp add: object_extend_def)

lemma update_last: "k \<notin> fst ` set m \<Longrightarrow> AList.update k v (m @ [(k, w)]) = m @ [(k, v)]"
  by (induction m) auto

lemma add_param_new: "k \<notin> fst ` set m \<Longrightarrow> \<not> inherited k \<Longrightarrow> add_param m k (QText v) = m @ [(k, read_values [v])]"
proof -
  assume k: "k \<notin> fst ` set m" "\<not> inherited k"
  then have "map_of m k = None" by (simp add: map_of_eq_None_iff)
  moreover have "AList.update k x m = m @ [(k, x)]" for x using k(1) by (induction m) auto
  ultimately show ?thesis using k(2) by (simp add: add_param_def query_lookup_def read_values_def)
qed

lemma add_param_more:
  assumes k: "k \<notin> fst ` set m" and "vs \<noteq> []"
  shows "add_param (m @ [(k, read_values vs)]) k (QText v) = m @ [(k, read_values (vs @ [v]))]"
proof -
  have "map_of (m @ [(k, x)]) k = Some x" for x using k map_of_eq_None_iff [of m k] by (simp add: map_add_def)
  then show ?thesis
    using assms by (cases vs rule: list.exhaust; cases "tl vs") (auto simp: add_param_def query_lookup_def read_values_def update_last split: list.split)
qed

lemma toQueryString_strings:
  "toQueryString (map (\<lambda>(k, v). (k, HPrim (Str v))) kvs) =
     join ''&'' (map (\<lambda>(k, v). encodeURIComponent k @ ''='' @ encodeURIComponent v) kvs)"
proof -
  let ?h = "map (\<lambda>(k, v). (k, HPrim (Str v))) kvs"
  let ?f = "\<lambda>results pair. let key = encodeURIComponent (fst pair) in case snd pair of
      HPrim p \<Rightarrow> results @ [toQueryPair key p] | HArr vs \<Rightarrow> results @ map (toQueryPair key) vs | HObject \<Rightarrow> results"
  have "foldl ?f acc ?h = acc @ map (\<lambda>(k, v). encodeURIComponent k @ ''='' @ encodeURIComponent v) kvs" for acc
    by (induction kvs arbitrary: acc) (auto simp: toQueryPair_def interpret_prim_def Let_def)
  then show ?thesis by (simp only: toQueryString_def inject_simple append_Nil)
qed

lemma query_chars:
  "c \<in> set (join ''&'' (map (\<lambda>(k, v). encodeURIComponent k @ ''='' @ encodeURIComponent v) kvs)) \<Longrightarrow>
     url_char c \<or> c = CHR ''&'' \<or> c = CHR ''=''"
proof (induction kvs)
  case (Cons kv kvs)
  obtain k v where kv: "kv = (k, v)" by (cases kv)
  show ?case using Cons encode_url [of c k] encode_url [of c v]
    by (cases "kvs = []") (auto simp: kv join_Cons)
qed simp

lemma query_part_id: "\<forall>c \<in> set s. c \<noteq> CHR ''?'' \<and> c \<noteq> CHR ''#'' \<Longrightarrow> query_part s = s"
  by (simp add: query_part.simps takeWhile_all)

lemma query_pair_string:
  assumes "k \<noteq> []" and "map_of hash k = None" and "\<not> inherited k"
  shows "query_pair hash (encodeURIComponent k @ ''='' @ encodeURIComponent v) = Some (hash @ [(k, QOne (QText v))])"
proof -
  have no: "CHR ''='' \<notin> set (encodeURIComponent x)" for x using encode_url [of _ x] url_char_excludes by blast
  have "split_char CHR ''='' (encodeURIComponent k @ ''='' @ encodeURIComponent v) =
      [encodeURIComponent k, encodeURIComponent v]"
    using split_char_join [of "[encodeURIComponent k, encodeURIComponent v]" "CHR ''=''"] no by simp
  moreover have "AList.update k x hash = hash @ [(k, x)]" for x
    using assms(2) by (induction hash) (auto split: if_splits)
  ultimately show ?thesis
    using assms encode_not_Nil [OF assms(1)] decode_encode
    by (simp add: query_pair_def add_param_def query_lookup_def Let_def)
qed

lemma query_fold:
  assumes "distinct (map fst (done' @ kvs))" and "\<forall>k \<in> set (map fst kvs). k \<noteq> [] \<and> \<not> inherited k"
  shows "foldl (\<lambda>h pair. case h of None \<Rightarrow> None | Some hash \<Rightarrow> query_pair hash pair)
      (Some (map (\<lambda>(k, v). (k, QOne (QText v))) done'))
      (map (\<lambda>(k, v). encodeURIComponent k @ ''='' @ encodeURIComponent v) kvs) =
    Some (map (\<lambda>(k, v). (k, QOne (QText v))) (done' @ kvs))"
  using assms
proof (induction kvs arbitrary: done')
  case (Cons kv kvs)
  obtain k v where kv: "kv = (k, v)" by (cases kv)
  have keys: "fst ` set (map (\<lambda>(k, v). (k, QOne (QText v))) done') = fst ` set done'" by force
  have "map_of (map (\<lambda>(k, v). (k, QOne (QText v))) done') k = None"
    using Cons.prems keys by (auto simp: kv map_of_eq_None_iff)
  from query_pair_string [OF _ this, of v] Cons.prems
  have step: "query_pair (map (\<lambda>(k, v). (k, QOne (QText v))) done')
      (encodeURIComponent k @ ''='' @ encodeURIComponent v) =
      Some (map (\<lambda>(k, v). (k, QOne (QText v))) (done' @ [kv]))" by (simp add: kv)
  show ?case using Cons.IH [of "done' @ [kv]"] Cons.prems step by (simp add: kv)
qed simp

text \<open>The lines of a query, and reading them one after the other.\<close>

definition query_lines :: "(string \<times> string) list \<Rightarrow> string list" where
  "query_lines kvs = map (\<lambda>(k, v). encodeURIComponent k @ ''='' @ encodeURIComponent v) kvs"

lemma read_lines:
  "toQueryParams CHR ''&'' (join ''&'' (query_lines kvs)) =
     foldl (\<lambda>h pair. case h of None \<Rightarrow> None | Some hash \<Rightarrow> query_pair hash pair) (Some []) (query_lines kvs)"
proof -
  let ?q = "join ''&'' (query_lines kvs)"
  have ch: "url_char c \<or> c = CHR ''&'' \<or> c = CHR ''=''" if "c \<in> set ?q" for c
    using query_chars that by (simp add: query_lines_def)
  have "\<not> is_ws c" if "c \<in> set ?q" for c
    using ch [OF that] url_not_ws by (auto simp: is_ws_def)
  then have "strip ?q = ?q" using trim_no_ws [of ?q] by (simp add: strip_def trim_def)
  moreover have "query_part ?q = ?q"
    by (rule query_part_id) (use ch url_char_excludes in auto)
  ultimately have plain: "query_part (strip ?q) = ?q" by simp
  show ?thesis
  proof (cases "kvs = []")
    case True
    then show ?thesis using plain by (simp add: toQueryParams_def query_pair_def query_lines_def Let_def)
  next
    case False
    have "CHR ''&'' \<notin> set w" if "w \<in> set (query_lines kvs)" for w
      using that encode_url url_char_excludes(1) by (auto simp: query_lines_def)
    then have "split_char CHR ''&'' ?q = query_lines kvs"
      using False by (intro split_char_join) (auto simp: query_lines_def)
    then show ?thesis using plain by (simp add: toQueryParams_def)
  qed
qed

lemma line_read:
  "k \<noteq> [] \<Longrightarrow> query_pair hash (encodeURIComponent k @ ''='' @ encodeURIComponent v) = Some (add_param hash k (QText v))"
proof -
  assume k: "k \<noteq> []"
  have no: "CHR ''='' \<notin> set (encodeURIComponent x)" for x using encode_url [of _ x] url_char_excludes by blast
  have "split_char CHR ''='' (encodeURIComponent k @ ''='' @ encodeURIComponent v) = [encodeURIComponent k, encodeURIComponent v]"
    using split_char_join [of "[encodeURIComponent k, encodeURIComponent v]" "CHR ''=''"] no by simp
  then show ?thesis using k encode_not_Nil [OF k] decode_encode by (simp add: query_pair_def Let_def)
qed

text \<open>A query whose values are grouped by their keys.\<close>

definition ungroup :: "(string \<times> string list) list \<Rightarrow> (string \<times> string) list" where
  "ungroup kvss = concat (map (\<lambda>(k, vs). map (Pair k) vs) kvss)"

lemma read_group:
  assumes "k \<noteq> []" "\<not> inherited k" "k \<notin> fst ` set m" "vs \<noteq> []"
  shows "foldl (\<lambda>h pair. case h of None \<Rightarrow> None | Some hash \<Rightarrow> query_pair hash pair) (Some m) (query_lines (map (Pair k) vs)) =
    Some (m @ [(k, read_values vs)])"
  using assms(4)
proof (induction vs rule: rev_induct)
  case (snoc v vs)
  show ?case
  proof (cases "vs = []")
    case True
    then show ?thesis
      using line_read [OF assms(1)] add_param_new [OF assms(3,2)] by (simp add: query_lines_def)
  next
    case False
    then show ?thesis
      using snoc line_read [OF assms(1)] add_param_more [OF assms(3) False] by (simp add: query_lines_def)
  qed
qed simp

lemma read_groups:
  assumes "\<forall>(k, vs) \<in> set kvss. k \<noteq> [] \<and> \<not> inherited k" and "distinct (map fst (m @ map (\<lambda>(k, vs). (k, read_values vs)) kvss))"
  shows "foldl (\<lambda>h pair. case h of None \<Rightarrow> None | Some hash \<Rightarrow> query_pair hash pair) (Some m) (query_lines (ungroup kvss)) =
    Some (m @ map (\<lambda>(k, vs). (k, read_values vs)) (filter (\<lambda>(k, vs). vs \<noteq> []) kvss))"
  using assms
proof (induction kvss arbitrary: m)
  case (Cons kvs kvss)
  obtain k vs where kv: "kvs = (k, vs)" by (cases kvs)
  have k: "k \<noteq> []" "\<not> inherited k" "k \<notin> fst ` set m" using Cons.prems by (auto simp: kv)
  have u: "query_lines (ungroup (kvs # kvss)) = query_lines (map (Pair k) vs) @ query_lines (ungroup kvss)"
    by (simp add: kv ungroup_def query_lines_def)
  have ih: "foldl (\<lambda>h pair. case h of None \<Rightarrow> None | Some hash \<Rightarrow> query_pair hash pair) (Some m') (query_lines (ungroup kvss)) =
      Some (m' @ map (\<lambda>(k, vs). (k, read_values vs)) (filter (\<lambda>(k, vs). vs \<noteq> []) kvss))"
    if "m' = m \<or> m' = m @ [(k, read_values vs)]" for m'
    using that Cons.IH [of m'] Cons.prems by (auto simp: kv)
  show ?case
  proof (cases "vs = []")
    case True
    then show ?thesis using ih [of m] by (simp add: u) (simp add: kv query_lines_def)
  next
    case False
    then show ?thesis using ih [of "m @ [(k, read_values vs)]"] read_group [OF k False] by (simp add: u) (simp add: kv)
  qed
qed (simp add: ungroup_def query_lines_def)

text \<open>
  C14. Reading a query string that was made from a hash of strings gives the same keys with the
  same strings in the same order, when no key is empty or the name of a method every object has.
\<close>

theorem query_roundtrip:
  assumes "distinct (map fst kvs)" and "\<forall>k \<in> set (map fst kvs). k \<noteq> [] \<and> \<not> inherited k"
  shows "toQueryParams CHR ''&'' (toQueryString (map (\<lambda>(k, v). (k, HPrim (Str v))) kvs)) =
    Some (map (\<lambda>(k, v). (k, QOne (QText v))) kvs)"
proof -
  have l: "toQueryString (map (\<lambda>(k, v). (k, HPrim (Str v))) kvs) = join ''&'' (query_lines kvs)"
    by (simp add: toQueryString_strings query_lines_def)
  have "foldl (\<lambda>h pair. case h of None \<Rightarrow> None | Some hash \<Rightarrow> query_pair hash pair) (Some []) (query_lines kvs) =
      Some (map (\<lambda>(k, v). (k, QOne (QText v))) kvs)"
    using query_fold [of "[]" kvs] assms by (simp add: query_lines_def)
  then show ?thesis unfolding l read_lines .
qed

theorem query_roundtrip_witness:
  "toQueryParams CHR ''&'' (toQueryString [(''name'', HPrim (Str ''a b&c=d'')), (''port'', HPrim (Str ''80''))]) =
    Some [(''name'', QOne (QText ''a b&c=d'')), (''port'', QOne (QText ''80''))]"
  using query_roundtrip [of "[(''name'', ''a b&c=d''), (''port'', ''80'')]"] by (simp add: inherited_def)

lemma inherited_key: "toQueryParams CHR ''&'' ''valueOf=1'' = Some [(''valueOf'', QMany [QInherited, QText ''1''])]"
  by code_simp

end
