(* ===== verification/JsNumber.thy ===== *)
theory JsNumber
  imports JsPrelude
begin

text \<open>
  Arithmetic on the numbers of the language.  A finite number is a real: the
  rounding of the 53 bit format is not modelled, infinities and \<open>NaN\<close> are.
\<close>

definition js_add :: "js_num \<Rightarrow> js_num \<Rightarrow> js_num" where
  "js_add a b =
     (case a of
        NaN \<Rightarrow> NaN
      | Fin x \<Rightarrow> (case b of Fin y \<Rightarrow> Fin (x + y) | _ \<Rightarrow> b)
      | PosInf \<Rightarrow> (if b = NaN \<or> b = NegInf then NaN else PosInf)
      | NegInf \<Rightarrow> (if b = NaN \<or> b = PosInf then NaN else NegInf))"

definition js_sub :: "js_num \<Rightarrow> js_num \<Rightarrow> js_num" where
  "js_sub a b = js_add a (js_neg b)"

text \<open>The sign of a number, and an infinity of a given sign.\<close>

definition js_sign :: "js_num \<Rightarrow> real" where
  "js_sign a = (case a of Fin x \<Rightarrow> sgn x | PosInf \<Rightarrow> 1 | NegInf \<Rightarrow> -1 | NaN \<Rightarrow> 0)"

definition js_inf :: "real \<Rightarrow> js_num" where
  "js_inf s = (if s > 0 then PosInf else if s < 0 then NegInf else NaN)"

definition js_mul :: "js_num \<Rightarrow> js_num \<Rightarrow> js_num" where
  "js_mul a b =
     (case (a, b) of
        (Fin x, Fin y) \<Rightarrow> Fin (x * y)
      | _ \<Rightarrow> if a = NaN \<or> b = NaN then NaN else js_inf (js_sign a * js_sign b))"

text \<open>Division by zero gives an infinity, or \<open>NaN\<close> for zero by zero; zero is not signed.\<close>

definition js_div :: "js_num \<Rightarrow> js_num \<Rightarrow> js_num" where
  "js_div a b =
     (case (a, b) of
        (Fin x, Fin y) \<Rightarrow> if y = 0 then js_inf x else Fin (x / y)
      | (Fin x, _) \<Rightarrow> if b = NaN then NaN else Fin 0
      | (_, Fin y) \<Rightarrow> if a = NaN then NaN else js_inf (js_sign a * (if y = 0 then 1 else sgn y))
      | _ \<Rightarrow> NaN)"

text \<open>The remainder \<open>%\<close> has the sign of the dividend.\<close>

definition js_trunc :: "real \<Rightarrow> int" where
  "js_trunc x = (if x < 0 then \<lceil>x\<rceil> else \<lfloor>x\<rfloor>)"

definition js_rem :: "js_num \<Rightarrow> js_num \<Rightarrow> js_num" where
  "js_rem a b =
     (case (a, b) of
        (Fin x, Fin y) \<Rightarrow> if y = 0 then NaN else Fin (x - y * of_int (js_trunc (x / y)))
      | (Fin x, _) \<Rightarrow> if b = NaN then NaN else Fin x
      | _ \<Rightarrow> NaN)"

definition js_eq :: "js_num \<Rightarrow> js_num \<Rightarrow> bool" where
  "js_eq a b \<longleftrightarrow> a = b \<and> a \<noteq> NaN"

definition js_abs :: "js_num \<Rightarrow> js_num" where
  "js_abs a = (case a of Fin x \<Rightarrow> Fin \<bar>x\<bar> | NaN \<Rightarrow> NaN | _ \<Rightarrow> PosInf)"

text \<open>\<open>parseFloat(x.toFixed(d))\<close>: to the nearest decimal with \<open>d\<close> digits, halves away from zero.\<close>

definition round_half_away :: "nat \<Rightarrow> real \<Rightarrow> real" where
  "round_half_away d x =
     (if x < 0 then - (of_int \<lfloor>- x * 10 ^ d + 1 / 2\<rfloor> / 10 ^ d) else of_int \<lfloor>x * 10 ^ d + 1 / 2\<rfloor> / 10 ^ d)"

definition js_toFixed :: "nat \<Rightarrow> js_num \<Rightarrow> js_num" where
  "js_toFixed d a = (case a of Fin x \<Rightarrow> Fin (round_half_away d x) | _ \<Rightarrow> a)"

lemma js_fin [simp]:
  "js_add (Fin x) (Fin y) = Fin (x + y)"
  "js_neg (Fin x) = Fin (- x)"
  "js_sub (Fin x) (Fin y) = Fin (x - y)"
  "js_mul (Fin x) (Fin y) = Fin (x * y)"
  "js_abs (Fin x) = Fin \<bar>x\<bar>"
  "js_eq (Fin x) (Fin y) \<longleftrightarrow> x = y"
  "y \<noteq> 0 \<Longrightarrow> js_div (Fin x) (Fin y) = Fin (x / y)"
  by (simp_all add: js_add_def js_sub_def js_neg_def js_mul_def js_abs_def js_eq_def js_div_def)

lemma round_half_away_int [simp]: "round_half_away d (of_int n) = of_int n"
proof -
  have "\<lfloor>of_int m * 10 ^ d + (1 :: real) / 2\<rfloor> = m * 10 ^ d" for m
  proof -
    have "of_int m * 10 ^ d + (1 :: real) / 2 = of_int (m * 10 ^ d) + 1 / 2" by simp
    then show ?thesis by (simp only: floor_add_int [symmetric] add.commute) simp
  qed
  from this [of n] this [of "- n"] show ?thesis by (simp add: round_half_away_def)
qed

lemma js_rem_fin:
  assumes "0 \<le> x" and "0 < y"
  shows "js_rem (Fin x) (Fin y) = Fin (x - y * of_int \<lfloor>x / y\<rfloor>)"
proof -
  have "\<not> x / y < 0" using divide_nonneg_pos [OF assms] by (simp only: not_less)
  then show ?thesis using assms(2) by (simp only: js_rem_def js_trunc_def if_False) simp
qed

lemma js_rem_bounds:
  assumes "0 \<le> x" and "0 < (y :: real)"
  shows "0 \<le> x - y * of_int \<lfloor>x / y\<rfloor>" "x - y * of_int \<lfloor>x / y\<rfloor> < y"
proof -
  have "y * of_int \<lfloor>x / y\<rfloor> \<le> y * (x / y)" using assms by (intro mult_left_mono) auto
  then show "0 \<le> x - y * of_int \<lfloor>x / y\<rfloor>" using assms by simp
  have "x / y < of_int \<lfloor>x / y\<rfloor> + 1" by linarith
  then have "y * (x / y) < y * (of_int \<lfloor>x / y\<rfloor> + 1)" using assms by (intro mult_strict_left_mono) auto
  then show "x - y * of_int \<lfloor>x / y\<rfloor> < y" using assms by (simp add: algebra_simps)
qed

end
