(* ===== verification/ProtoAjax.thy ===== *)
theory ProtoAjax
  imports ProtoHash JsNumber
begin

text \<open>
  \<open>Ajax\<close> and \<open>PeriodicalExecuter\<close> of \<open>prototype.js\<close>: the life of a request from the
  line it sends to its callbacks, the responders with the count of active requests,
  and the updaters.  The transport and the callbacks of the page are parameters: a
  callback is there or not, and returns or throws.
\<close>

section \<open>Responders\<close>

text \<open>The responder that counts the requests is registered by the library itself.\<close>

datatype responder = Counter | Other nat "string list"

record ajax =
  active :: int
  responders :: "responder list"
  ajax_log :: "string list"

definition initial_ajax :: ajax where
  "initial_ajax = \<lparr>active = 0, responders = [Counter], ajax_log = []\<rparr>"

definition responders_each :: "ajax \<Rightarrow> responder list" where
  "responders_each a = responders a"

definition responders_register :: "responder \<Rightarrow> ajax \<Rightarrow> ajax" where
  "responders_register r a = (if r \<in> set (responders a) then a else a\<lparr>responders := responders a @ [r]\<rparr>)"

definition responders_unregister :: "responder \<Rightarrow> ajax \<Rightarrow> ajax" where
  "responders_unregister r a = a\<lparr>responders := filter (\<lambda>x. x \<noteq> r) (responders a)\<rparr>"

text \<open>What one responder does for a callback; an exception it throws is dropped.\<close>

definition run_responder :: "string \<Rightarrow> ajax \<Rightarrow> responder \<Rightarrow> ajax" where
  "run_responder callback a r =
     (case r of
        Counter \<Rightarrow>
          if callback = ''onCreate'' then a\<lparr>active := active a + 1\<rparr>
          else if callback = ''onComplete'' then a\<lparr>active := active a - 1\<rparr>
          else a
      | Other i handled \<Rightarrow>
          if callback \<in> set handled then a\<lparr>ajax_log := ajax_log a @ [callback]\<rparr> else a)"

definition responders_dispatch :: "string \<Rightarrow> ajax \<Rightarrow> ajax" where
  "responders_dispatch callback a = foldl (run_responder callback) a (responders_each a)"

section \<open>The request line\<close>

datatype eval_js = EvalOff | EvalOn | EvalForce

text \<open>\<open>on\<close> gives for the name of a callback whether it is there, and then whether it throws.\<close>

record ajax_request_options =
  a_method :: string
  a_async :: bool
  a_params :: "hval props"
  a_postBody :: "string option"
  a_contentType :: string
  a_encoding :: string
  a_requestHeaders :: "(string \<times> string) list"
  a_on :: "string \<Rightarrow> bool option"
  a_evalJS :: eval_js
  a_evalJSON :: eval_js

definition ajax_base :: "ajax_request_options \<Rightarrow> ajax_request_options" where
  "ajax_base o' = o'\<lparr>a_method := to_lower_case (a_method o')\<rparr>"

record request_line =
  l_method :: string
  l_url :: string
  l_body :: "string option"

text \<open>The beginning of \<open>request\<close>; \<open>khtml\<close> is whether the browser is one of the KHTML family.\<close>

definition request_line_of :: "bool \<Rightarrow> ajax_request_options \<Rightarrow> string \<Rightarrow> request_line" where
  "request_line_of khtml o' url =
     (let simulated = a_method o' \<noteq> ''get'' \<and> a_method o' \<noteq> ''post'';
          params = (if simulated then hash_set ''_method'' (HPrim (Str (a_method o'))) (object_clone (a_params o'))
                    else object_clone (a_params o'));
          method = (if simulated then ''post'' else a_method o');
          q = toQueryString params;
          url' = (if q \<noteq> [] \<and> method = ''get'' then url @ (if str_include url ''?'' then ''&'' else ''?'') @ q else url);
          q' = (if q \<noteq> [] \<and> method \<noteq> ''get'' \<and> khtml then q @ ''&_='' else q)
      in \<lparr>l_method = method, l_url = url',
          l_body = (if method = ''post''
                    then Some (case a_postBody o' of None \<Rightarrow> q' | Some b \<Rightarrow> if b = [] then q' else b)
                    else None)\<rparr>)"

text \<open>
  \<open>setRequestHeaders\<close>; \<open>old_gecko\<close> is whether the browser is a Gecko from before 2005
  whose transport can override the MIME type.
\<close>

definition setRequestHeaders :: "bool \<Rightarrow> ajax_request_options \<Rightarrow> string \<Rightarrow> string props" where
  "setRequestHeaders old_gecko o' method =
     (let hs = [(''X-Requested-With'', ''XMLHttpRequest''), (''X-Prototype-Version'', ''1.6.0.3''),
                (''Accept'', ''text/javascript, text/html, application/xml, text/xml, */*'')];
          hs = (if method = ''post''
                then AList.update ''Content-type'' (a_contentType o' @
                       (if a_encoding o' \<noteq> [] then ''; charset='' @ a_encoding o' else [])) hs
                else hs);
          hs = (if method = ''post'' \<and> old_gecko then AList.update ''Connection'' ''close'' hs else hs)
      in object_extend hs (a_requestHeaders o'))"

section \<open>The life of a request\<close>

text \<open>
  \<open>rq_calls\<close> are the callbacks of the options that were called, \<open>rq_evaluated\<close> how often the
  response was evaluated; \<open>rq_deferred\<close> is whether the call for the state \<open>Loading\<close> waits,
  \<open>rq_attached\<close> whether the transport reports to the request.  \<open>rq_ready\<close> and \<open>rq_status\<close>
  are read off the transport, 0 when the status cannot be read.
\<close>

record request_state =
  rq_opt :: ajax_request_options
  rq_line :: request_line
  rq_complete :: bool
  rq_deferred :: bool
  rq_attached :: bool
  rq_sent :: bool
  rq_headers :: "string props"
  rq_calls :: "string list"
  rq_evaluated :: nat
  rq_ready :: nat
  rq_status :: nat
  rq_ajax :: ajax

text \<open>An exception leaves the request when the callback for exceptions throws one itself.\<close>

datatype rq_eff = ROk request_state | RThrown request_state

fun rq_after :: "rq_eff \<Rightarrow> request_state" where
  "rq_after (ROk s) = s"
| "rq_after (RThrown s) = s"

definition rbind :: "rq_eff \<Rightarrow> (request_state \<Rightarrow> rq_eff) \<Rightarrow> rq_eff" where
  "rbind r f = (case r of ROk s \<Rightarrow> f s | RThrown s \<Rightarrow> RThrown s)"

definition dispatch_all :: "string \<Rightarrow> request_state \<Rightarrow> request_state" where
  "dispatch_all name s = s\<lparr>rq_ajax := responders_dispatch name (rq_ajax s)\<rparr>"

text \<open>A callback of the page: the state, and whether it threw.\<close>

definition call_option :: "string \<Rightarrow> request_state \<Rightarrow> request_state \<times> bool" where
  "call_option name s =
     (case a_on (rq_opt s) name of
        None \<Rightarrow> (s, False)
      | Some throws \<Rightarrow> (s\<lparr>rq_calls := rq_calls s @ [name]\<rparr>, throws))"

definition dispatchException :: "request_state \<Rightarrow> rq_eff" where
  "dispatchException s =
     (let (s, throws) = call_option ''onException'' s
      in if throws then RThrown s else ROk (dispatch_all ''onException'' s))"

definition success :: "request_state \<Rightarrow> bool" where
  "success s \<longleftrightarrow> rq_status s = 0 \<or> 200 \<le> rq_status s \<and> rq_status s < 300"

text \<open>The callback for the status, or the one for success or failure.\<close>

definition outcome_callback :: "request_state \<Rightarrow> string" where
  "outcome_callback s =
     (let by_status = ''on'' @ nat_to_string (rq_status s)
      in if a_on (rq_opt s) by_status \<noteq> None then by_status
         else if success s then ''onSuccess'' else ''onFailure'')"

definition state_name :: "nat \<Rightarrow> string" where
  "state_name readyState =
     (if readyState < 5 then [''Uninitialized'', ''Loading'', ''Loaded'', ''Interactive'', ''Complete''] ! readyState
      else ''undefined'')"

text \<open>\<open>/^\s*(text|application)\/(x-)?(java|ecma)script(;.*)?\s*$/i\<close>\<close>

definition skip_prefix :: "string \<Rightarrow> string \<Rightarrow> string option" where
  "skip_prefix p s = (if take (length p) s = p then Some (drop (length p) s) else None)"

definition first_prefix :: "string list \<Rightarrow> string \<Rightarrow> string option" where
  "first_prefix ps s =
     foldr (\<lambda>p r. case skip_prefix p s of Some t \<Rightarrow> Some t | None \<Rightarrow> r) ps None"

definition script_type :: "string \<Rightarrow> bool" where
  "script_type contentType =
     (case first_prefix [''text/'', ''application/''] (ltrim (to_lower_case contentType)) of
        None \<Rightarrow> False
      | Some r1 \<Rightarrow>
          (case first_prefix [''javascript'', ''ecmascript'']
                  (case skip_prefix ''x-'' r1 of Some r \<Rightarrow> r | None \<Rightarrow> r1) of
             None \<Rightarrow> False
           | Some r2 \<Rightarrow>
               list_all is_ws r2 \<or>
               (case r2 of [] \<Rightarrow> True
                | c # u \<Rightarrow> c = CHR '';'' \<and> list_all is_ws (dropWhile (\<lambda>d. \<not> line_end d) u))))"

text \<open>\<open>/^\s*https?:\/\/[^\/]*/\<close>: the origin of an absolute address.\<close>

definition url_origin :: "string \<Rightarrow> string option" where
  "url_origin url =
     (let ws = takeWhile is_ws url
      in case first_prefix [''http://'', ''https://''] (ltrim url) of
           None \<Rightarrow> None
         | Some r \<Rightarrow> Some (ws @ take (length (ltrim url) - length r) (ltrim url) @ takeWhile (\<lambda>c. c \<noteq> CHR ''/'') r))"

definition isSameOrigin :: "string \<Rightarrow> string \<Rightarrow> string \<Rightarrow> string \<Rightarrow> bool" where
  "isSameOrigin protocol domain port url =
     (case url_origin url of
        None \<Rightarrow> True
      | Some m \<Rightarrow> m = protocol @ ''//'' @ domain @ (if port \<noteq> [] then '':'' @ port else []))"

text \<open>What the response brings: its headers and body, and what evaluating them does.\<close>

datatype json_header = NoJson | JsonOk | JsonBad | JsonMalformed

record reply =
  p_protocol :: string
  p_domain :: string
  p_port :: string
  p_ie :: bool
  p_contentType :: "string option"
  p_header_json :: json_header
  p_responseText :: string
  p_json_bad :: bool
  p_eval_throws :: bool

text \<open>
  \<open>_getHeaderJSON\<close>: a header that is no UTF-8 makes \<open>decodeURIComponent\<close> throw, outside
  of the \<open>try\<close>.
\<close>

definition getHeaderJSON :: "reply \<Rightarrow> request_state \<Rightarrow> rq_eff" where
  "getHeaderJSON p s =
     (case p_header_json p of
        NoJson \<Rightarrow> ROk s
      | JsonOk \<Rightarrow> ROk s
      | JsonBad \<Rightarrow> dispatchException s
      | JsonMalformed \<Rightarrow> RThrown s)"

definition getResponseJSON :: "reply \<Rightarrow> request_state \<Rightarrow> rq_eff" where
  "getResponseJSON p s =
     (let contentType = (case p_contentType p of None \<Rightarrow> [] | Some t \<Rightarrow> t)
      in if a_evalJSON (rq_opt s) = EvalOff \<or>
            (a_evalJSON (rq_opt s) \<noteq> EvalForce \<and> \<not> str_include contentType ''application/json'') \<or>
            blank (p_responseText p)
         then ROk s
         else if p_json_bad p then dispatchException s else ROk s)"

text \<open>The constructor of \<open>Ajax.Response\<close>, with what it does to the request.\<close>

definition new_response :: "reply \<Rightarrow> request_state \<Rightarrow> rq_eff" where
  "new_response p s =
     rbind (if rq_ready s > 2 \<and> \<not> p_ie p \<or> rq_ready s = 4 then getHeaderJSON p s else ROk s)
       (\<lambda>s. if rq_ready s = 4 then getResponseJSON p s else ROk s)"

definition evalResponse :: "reply \<Rightarrow> request_state \<Rightarrow> rq_eff" where
  "evalResponse p s =
     (let s = s\<lparr>rq_evaluated := rq_evaluated s + 1\<rparr>
      in if p_eval_throws p then dispatchException s else ROk s)"

definition should_eval :: "reply \<Rightarrow> request_state \<Rightarrow> bool" where
  "should_eval p s \<longleftrightarrow>
     a_evalJS (rq_opt s) = EvalForce \<or>
     a_evalJS (rq_opt s) = EvalOn \<and> isSameOrigin (p_protocol p) (p_domain p) (p_port p) (l_url (rq_line s)) \<and>
     (case p_contentType p of None \<Rightarrow> False | Some t \<Rightarrow> t \<noteq> [] \<and> script_type t)"

text \<open>The two parts of \<open>respondToReadyState\<close>.\<close>

definition respond_outcome :: "reply \<Rightarrow> request_state \<Rightarrow> rq_eff" where
  "respond_outcome p s =
     (let s = s\<lparr>rq_complete := True\<rparr>;
          (s, throws) = call_option (outcome_callback s) s
      in rbind (if throws then dispatchException s else ROk s)
           (\<lambda>s. if should_eval p s then evalResponse p s else ROk s))"

definition respond_state :: "string \<Rightarrow> request_state \<Rightarrow> rq_eff" where
  "respond_state name s =
     (let (s, throws) = call_option name s
      in if throws then dispatchException s else ROk (dispatch_all name s))"

definition respondToReadyState :: "reply \<Rightarrow> nat \<Rightarrow> request_state \<Rightarrow> rq_eff" where
  "respondToReadyState p readyState s =
     rbind (new_response p s)
       (\<lambda>s. rbind (if readyState = 4 then respond_outcome p s else ROk s)
         (\<lambda>s. rbind (respond_state (''on'' @ state_name readyState) s)
           (\<lambda>s. ROk (if readyState = 4 then s\<lparr>rq_attached := False\<rparr> else s))))"

definition onStateChange :: "reply \<Rightarrow> request_state \<Rightarrow> rq_eff" where
  "onStateChange p s =
     (if rq_ready s > 1 \<and> \<not> (rq_ready s = 4 \<and> rq_complete s)
      then respondToReadyState p (rq_ready s) s
      else ROk s)"

text \<open>
  What the transport does when it is used.  A synchronous \<open>send\<close> leaves the transport in the
  state \<open>t_ready\<close> with the status \<open>t_status\<close>.
\<close>

record transport =
  t_open_throws :: bool
  t_headers_throw :: bool
  t_send_throws :: bool
  t_overrideMimeType :: bool
  t_old_gecko :: bool
  t_ready :: nat
  t_status :: nat

text \<open>The body of the \<open>try\<close> of \<open>request\<close> after the transport is open.\<close>

definition transmit :: "reply \<Rightarrow> transport \<Rightarrow> request_state \<Rightarrow> rq_eff" where
  "transmit p t s =
     (let s = s\<lparr>rq_deferred := a_async (rq_opt s), rq_attached := True\<rparr>
      in if t_headers_throw t then dispatchException s
         else
           let s = s\<lparr>rq_headers := setRequestHeaders (t_overrideMimeType t \<and> t_old_gecko t)
                                    (rq_opt s) (l_method (rq_line s))\<rparr>
           in if t_send_throws t then dispatchException s
              else
                let s = s\<lparr>rq_sent := True\<rparr>
                in if \<not> a_async (rq_opt s) \<and> t_overrideMimeType t
                   then (case onStateChange p (s\<lparr>rq_ready := t_ready t, rq_status := t_status t\<rparr>) of
                           ROk s \<Rightarrow> ROk s
                         | RThrown s \<Rightarrow> dispatchException s)
                   else ROk s)"

definition send_request :: "reply \<Rightarrow> transport \<Rightarrow> request_state \<Rightarrow> rq_eff" where
  "send_request p t s =
     (let (s, throws) = call_option ''onCreate'' s
      in if throws then dispatchException s
         else
           let s = dispatch_all ''onCreate'' s
           in if t_open_throws t then dispatchException s else transmit p t s)"

definition new_request :: "bool \<Rightarrow> reply \<Rightarrow> transport \<Rightarrow> ajax_request_options \<Rightarrow> string \<Rightarrow> ajax \<Rightarrow> rq_eff" where
  "new_request khtml p t o' url a =
     (let o' = ajax_base o'
      in send_request p t
           \<lparr>rq_opt = o', rq_line = request_line_of khtml o' url, rq_complete = False,
            rq_deferred = False, rq_attached = False, rq_sent = False, rq_headers = [],
            rq_calls = [], rq_evaluated = 0, rq_ready = 0, rq_status = 0, rq_ajax = a\<rparr>)"

text \<open>
  What happens to a request later: the transport reports a change of its state, or the
  deferred call runs.  An exception that leaves a handler does not keep the later ones
  from running.
\<close>

datatype rq_event = Change nat nat | Deferred

definition request_event :: "reply \<Rightarrow> request_state \<Rightarrow> rq_event \<Rightarrow> request_state" where
  "request_event p s e =
     (case e of
        Change readyState status \<Rightarrow>
          let s = s\<lparr>rq_ready := readyState, rq_status := status\<rparr>
          in if rq_attached s then rq_after (onStateChange p s) else s
      | Deferred \<Rightarrow>
          if rq_deferred s then rq_after (respondToReadyState p 1 (s\<lparr>rq_deferred := False\<rparr>)) else s)"

definition request_events :: "reply \<Rightarrow> rq_event list \<Rightarrow> request_state \<Rightarrow> request_state" where
  "request_events p es s = foldl (request_event p) s es"

section \<open>Updaters\<close>

record receiver =
  u_success :: "nat option"
  u_failure :: "nat option"

datatype container = Element nat | Pair "nat option" "nat option"

definition updater_container :: "container \<Rightarrow> receiver" where
  "updater_container c =
     (case c of
        Element e \<Rightarrow> \<lparr>u_success = Some e, u_failure = Some e\<rparr>
      | Pair s f \<Rightarrow> \<lparr>u_success = s, u_failure = f\<rparr>)"

text \<open>The element that is updated and its new content.\<close>

definition updateContent :: "receiver \<Rightarrow> bool \<Rightarrow> bool \<Rightarrow> string \<Rightarrow> (nat \<times> string) option" where
  "updateContent rc ok evalScripts responseText =
     (let text = (if \<not> evalScripts then stripScripts responseText else responseText)
      in map_option (\<lambda>e. (e, text)) (if ok then u_success rc else u_failure rc))"

text \<open>
  A periodical updater: \<open>pu_updater\<close> is its last request, \<open>pu_live\<close> are the requests under
  way that still report to it, \<open>pu_timer\<close> is its last timer and \<open>pu_timers\<close> are those that
  run, each with its delay in seconds.
\<close>

record periodical =
  pu_frequency :: real
  pu_option_decay :: "real option"
  pu_decay :: real
  pu_lastText :: "string option"
  pu_updater :: nat
  pu_live :: "nat list"
  pu_timer :: nat
  pu_timers :: "(nat \<times> real) list"

definition pu_request :: "periodical \<Rightarrow> periodical" where
  "pu_request u = u\<lparr>pu_updater := pu_updater u + 1, pu_live := pu_live u @ [pu_updater u + 1]\<rparr>"

text \<open>An option that is 0 counts as missing.\<close>

definition option_or :: "real option \<Rightarrow> real \<Rightarrow> real" where
  "option_or v d = (case v of None \<Rightarrow> d | Some x \<Rightarrow> if x = 0 then d else x)"

definition periodical_start :: "periodical \<Rightarrow> periodical" where
  "periodical_start u = pu_request u"

definition periodical_init :: "real option \<Rightarrow> real option \<Rightarrow> periodical" where
  "periodical_init frequency decay =
     periodical_start
       \<lparr>pu_frequency = option_or frequency 2, pu_option_decay = decay, pu_decay = option_or decay 1,
        pu_lastText = None, pu_updater = 0, pu_live = [], pu_timer = 0, pu_timers = []\<rparr>"

definition next_decay :: "periodical \<Rightarrow> string \<Rightarrow> periodical" where
  "next_decay u text =
     (case pu_option_decay u of
        None \<Rightarrow> u
      | Some d \<Rightarrow>
          if d \<noteq> 0
          then u\<lparr>pu_decay := (if pu_lastText u = Some text then pu_decay u * d else 1),
                 pu_lastText := Some text\<rparr>
          else u)"

text \<open>The response of the request \<open>i\<close> has arrived.\<close>

definition updateComplete :: "nat \<Rightarrow> string \<Rightarrow> periodical \<Rightarrow> periodical" where
  "updateComplete i text u =
     (if i \<in> set (pu_live u)
      then let u = next_decay (u\<lparr>pu_live := remove1 i (pu_live u)\<rparr>) text
           in u\<lparr>pu_timer := pu_timer u + 1,
                pu_timers := pu_timers u @ [(pu_timer u + 1, pu_decay u * pu_frequency u)]\<rparr>
      else u)"

text \<open>The timer \<open>i\<close> fires.\<close>

definition periodical_onTimerEvent :: "nat \<Rightarrow> periodical \<Rightarrow> periodical" where
  "periodical_onTimerEvent i u =
     (if i \<in> fst ` set (pu_timers u)
      then pu_request (u\<lparr>pu_timers := filter (\<lambda>t. fst t \<noteq> i) (pu_timers u)\<rparr>)
      else u)"

text \<open>\<open>stop\<close> takes the callback off the last request and clears the last timer.\<close>

definition periodical_stop :: "periodical \<Rightarrow> periodical" where
  "periodical_stop u =
     u\<lparr>pu_live := filter (\<lambda>i. i \<noteq> pu_updater u) (pu_live u),
       pu_timers := filter (\<lambda>t. fst t \<noteq> pu_timer u) (pu_timers u)\<rparr>"

datatype pu_event = Arrived nat string | Fired nat

definition periodical_event :: "periodical \<Rightarrow> pu_event \<Rightarrow> periodical" where
  "periodical_event u e =
     (case e of Arrived i text \<Rightarrow> updateComplete i text u | Fired i \<Rightarrow> periodical_onTimerEvent i u)"

definition periodical_events :: "pu_event list \<Rightarrow> periodical \<Rightarrow> periodical" where
  "periodical_events es u = foldl periodical_event u es"

section \<open>\<open>PeriodicalExecuter\<close>\<close>

record executer =
  x_timer :: bool
  x_executing :: bool
  x_runs :: nat

definition executer_init :: executer where
  "executer_init = \<lparr>x_timer = True, x_executing = False, x_runs = 0\<rparr>"

definition executer_stop :: "executer \<Rightarrow> executer" where
  "executer_stop x = (if \<not> x_timer x then x else x\<lparr>x_timer := False\<rparr>)"

text \<open>
  \<open>callback\<close> is what the callback does to the executer and whether it throws; the flag is
  taken back in either case.
\<close>

definition executer_onTimerEvent :: "(executer \<Rightarrow> executer \<times> bool) \<Rightarrow> executer \<Rightarrow> executer \<times> bool" where
  "executer_onTimerEvent callback x =
     (if \<not> x_executing x
      then let (x, throws) = callback (x\<lparr>x_executing := True, x_runs := x_runs x + 1\<rparr>)
           in (x\<lparr>x_executing := False\<rparr>, throws)
      else (x, False))"

section \<open>Responders and the count of requests\<close>

text \<open>What the counting responder adds for a callback.\<close>

definition count_delta :: "string \<Rightarrow> int" where
  "count_delta callback =
     (if callback = ''onCreate'' then 1 else if callback = ''onComplete'' then - 1 else 0)"

lemma run_responder_frame [simp]: "responders (run_responder c a r) = responders a"
  by (simp add: run_responder_def split: responder.split)

lemma run_responder_active:
  "active (run_responder c a r) = active a + (if r = Counter then count_delta c else 0)"
  by (simp add: run_responder_def count_delta_def split: responder.split)

lemma foldl_responders:
  "responders (foldl (run_responder c) a rs) = responders a \<and>
   active (foldl (run_responder c) a rs) = active a + int (count_list rs Counter) * count_delta c"
  by (induction rs arbitrary: a) (simp_all add: run_responder_active algebra_simps)

lemma dispatch_responders [simp]: "responders (responders_dispatch c a) = responders a"
  by (simp add: responders_dispatch_def foldl_responders)

lemma count_once: "distinct rs \<Longrightarrow> x \<in> set rs \<Longrightarrow> count_list rs x = 1"
  by (induction rs) (auto simp: count_list_0_iff)

lemma dispatch_active:
  "active (responders_dispatch c a) = active a + int (count_list (responders a) Counter) * count_delta c"
  by (simp add: responders_dispatch_def responders_each_def foldl_responders)

lemma register_distinct: "distinct (responders a) \<Longrightarrow> distinct (responders (responders_register r a))"
  by (simp add: responders_register_def)

section \<open>What a step of a request leaves alone\<close>

definition completions :: "request_state \<Rightarrow> nat" where
  "completions s = count_list (rq_calls s) ''onComplete''"

text \<open>
  The part of the request that only the report of its completion changes: the options, the
  calls of \<open>onComplete\<close>, the responders and the count of active requests.
\<close>

definition frame_of :: "request_state \<Rightarrow> ajax_request_options \<times> nat \<times> responder list \<times> int" where
  "frame_of s = (rq_opt s, completions s, responders (rq_ajax s), active (rq_ajax s))"

definition wiring :: "request_state \<Rightarrow> bool \<times> bool \<times> nat" where
  "wiring s = (rq_complete s, rq_attached s, rq_ready s)"

lemmas frame_defs = frame_of_def wiring_def completions_def

lemma rbind_simps [simp]: "rbind (ROk s) f = f s" "rbind (RThrown s) f = RThrown s"
  by (simp_all add: rbind_def)

lemma call_option_frame:
  "call_option name s = (s', throws) \<Longrightarrow> name \<noteq> ''onComplete'' \<Longrightarrow> frame_of s' = frame_of s \<and> wiring s' = wiring s"
  by (auto simp: call_option_def frame_defs split: option.splits)

lemma dispatch_all_frame:
  "count_delta name = 0 \<Longrightarrow> frame_of (dispatch_all name s) = frame_of s \<and> wiring (dispatch_all name s) = wiring s"
  by (simp add: dispatch_all_def frame_defs dispatch_active)

lemma dispatchException_frame:
  "frame_of (rq_after (dispatchException s)) = frame_of s \<and> wiring (rq_after (dispatchException s)) = wiring s"
proof -
  obtain s' t where c: "call_option ''onException'' s = (s', t)" by fastforce
  have d: "count_delta ''onException'' = 0" by (simp add: count_delta_def)
  show ?thesis
    using call_option_frame [OF c] dispatch_all_frame [OF d, of s'] by (simp add: dispatchException_def c)
qed

text \<open>Nothing lets an exception out: the callback for exceptions does not throw, and the header is UTF-8.\<close>

definition quiet :: "reply \<Rightarrow> request_state \<Rightarrow> bool" where
  "quiet p s \<longleftrightarrow> a_on (rq_opt s) ''onException'' \<noteq> Some True \<and> p_header_json p \<noteq> JsonMalformed"

lemma dispatchException_ok: "quiet p s \<Longrightarrow> \<exists>s'. dispatchException s = ROk s'"
  by (auto simp: quiet_def dispatchException_def call_option_def split: option.split)

text \<open>
  \<open>neutral_step\<close>: an operation that keeps the frame and the wiring, and lets no exception out
  where none can.
\<close>

definition neutral_step :: "reply \<Rightarrow> request_state \<Rightarrow> rq_eff \<Rightarrow> bool" where
  "neutral_step p s r \<longleftrightarrow> frame_of (rq_after r) = frame_of s \<and> wiring (rq_after r) = wiring s \<and>
     (quiet p s \<longrightarrow> (\<exists>s'. r = ROk s'))"

lemma neutral_ok: "neutral_step p s (ROk s)"
  by (simp add: neutral_step_def)

lemma neutral_exception: "neutral_step p s (dispatchException s)"
  by (simp add: neutral_step_def dispatchException_frame dispatchException_ok)

lemma frame_quiet: "frame_of s' = frame_of s \<Longrightarrow> quiet p s' = quiet p s"
  by (simp add: frame_of_def quiet_def)

lemma neutral_bind:
  "neutral_step p s r \<Longrightarrow> (\<And>s'. neutral_step p s' (f s')) \<Longrightarrow> neutral_step p s (rbind r f)"
  by (cases r) (auto simp: neutral_step_def dest: frame_quiet)

lemma neutral_from:
  "frame_of s' = frame_of s \<Longrightarrow> wiring s' = wiring s \<Longrightarrow> neutral_step p s' r \<Longrightarrow> neutral_step p s r"
  by (auto simp: neutral_step_def dest: frame_quiet)

lemma neutral_header: "neutral_step p s (getHeaderJSON p s)"
  by (simp add: getHeaderJSON_def neutral_ok neutral_exception split: json_header.split)
     (simp add: neutral_step_def quiet_def)

lemma neutral_body: "neutral_step p s (getResponseJSON p s)"
  by (simp add: getResponseJSON_def neutral_ok neutral_exception Let_def)

lemma neutral_response: "neutral_step p s (new_response p s)"
  by (auto simp: new_response_def intro!: neutral_bind neutral_header neutral_body neutral_ok)

lemma neutral_eval: "neutral_step p s (evalResponse p s)"
proof -
  let ?t = "s\<lparr>rq_evaluated := rq_evaluated s + 1\<rparr>"
  have f: "frame_of ?t = frame_of s" "wiring ?t = wiring s" by (simp_all add: frame_defs)
  show ?thesis
    using neutral_from [OF f neutral_exception] neutral_from [OF f neutral_ok]
    by (simp add: evalResponse_def Let_def)
qed

lemma neutral_call:
  assumes "name \<noteq> ''onComplete''" and "call_option name s = (s', throws)"
    and "\<And>s'. neutral_step p s' (if throws then dispatchException s' else f s')"
  shows "neutral_step p s (if throws then dispatchException s' else f s')"
  using neutral_from assms call_option_frame by metis

text \<open>A callback named by a number is none of those the library names itself.\<close>

lemma outcome_not_complete: "outcome_callback s \<noteq> ''onComplete''"
proof -
  have "\<not> is_digit CHR ''C''" by (simp add: is_digit_def)
  then have "nat_to_string n \<noteq> ''Complete''" for n
    using nat_to_string_digits [of "CHR ''C''" n] by auto
  then show ?thesis by (simp add: outcome_callback_def Let_def)
qed

lemma neutral_outcome: "neutral_step p (s\<lparr>rq_complete := True\<rparr>) (respond_outcome p s)"
proof -
  let ?c = "s\<lparr>rq_complete := True\<rparr>"
  obtain s' t where c: "call_option (outcome_callback ?c) ?c = (s', t)" by fastforce
  have "neutral_step p ?c (if t then dispatchException s' else ROk s')"
    by (rule neutral_call [OF outcome_not_complete c]) (simp add: neutral_exception neutral_ok)
  then show ?thesis
    unfolding respond_outcome_def Let_def c prod.case
    by (rule neutral_bind) (simp add: neutral_eval neutral_ok)
qed

lemma neutral_state:
  assumes "count_delta name = 0" shows "neutral_step p s (respond_state name s)"
proof -
  obtain s' t where c: "call_option name s = (s', t)" by fastforce
  have n: "name \<noteq> ''onComplete''" using assms by (auto simp: count_delta_def)
  have "neutral_step p s' (ROk (dispatch_all name s'))" for s'
    using dispatch_all_frame [OF assms] by (simp add: neutral_step_def)
  then show ?thesis
    using neutral_call [OF n c, of p "\<lambda>s. ROk (dispatch_all name s)"]
    by (simp add: respond_state_def c neutral_exception)
qed

section \<open>The completion of a request\<close>

lemma wiring_simps:
  "wiring s = (c, a, r) \<longleftrightarrow> rq_complete s = c \<and> rq_attached s = a \<and> rq_ready s = r"
  by (auto simp: wiring_def)

text \<open>A state other than the last one changes nothing of the frame.\<close>

lemma state_delta: "readyState \<noteq> 4 \<Longrightarrow> count_delta (''on'' @ state_name readyState) = 0"
proof -
  assume "readyState \<noteq> 4"
  then have "readyState = 0 \<or> readyState = 1 \<or> readyState = 2 \<or> readyState = 3 \<or> readyState \<ge> 5" by arith
  then show ?thesis by (auto simp: state_name_def count_delta_def)
qed

lemma neutral_respond:
  assumes "readyState \<noteq> 4" shows "neutral_step p s (respondToReadyState p readyState s)"
proof -
  have "neutral_step p s' (respond_state (''on'' @ state_name readyState) s')" for s'
    by (rule neutral_state [OF state_delta [OF assms]])
  then show ?thesis
    unfolding respondToReadyState_def using assms
    by (auto intro!: neutral_bind neutral_response neutral_ok)
qed

text \<open>The last report: what it does to the calls and the count, and what it does to the handler.\<close>

definition complete_calls :: "ajax_request_options \<Rightarrow> nat" where
  "complete_calls o' = (if a_on o' ''onComplete'' = None then 0 else 1)"

definition complete_delta :: "ajax_request_options \<Rightarrow> responder list \<Rightarrow> int" where
  "complete_delta o' rs = (if a_on o' ''onComplete'' = Some True then 0 else - int (count_list rs Counter))"

lemma respond_state_complete:
  "frame_of (rq_after (respond_state ''onComplete'' s)) =
     (rq_opt s, completions s + complete_calls (rq_opt s), responders (rq_ajax s),
      active (rq_ajax s) + complete_delta (rq_opt s) (responders (rq_ajax s))) \<and>
   wiring (rq_after (respond_state ''onComplete'' s)) = wiring s \<and>
   (quiet p s \<longrightarrow> (\<exists>s'. respond_state ''onComplete'' s = ROk s'))"
proof -
  have d: "count_delta ''onComplete'' = - 1" by (simp add: count_delta_def)
  let ?t = "s\<lparr>rq_calls := rq_calls s @ [''onComplete'']\<rparr>"
  have q: "quiet p ?t = quiet p s" by (simp add: quiet_def)
  consider "a_on (rq_opt s) ''onComplete'' = None" | "a_on (rq_opt s) ''onComplete'' = Some False"
    | "a_on (rq_opt s) ''onComplete'' = Some True" by (cases "a_on (rq_opt s) ''onComplete''") auto
  then show ?thesis
    using dispatchException_frame [of ?t] dispatchException_ok [of p ?t] q
    by cases (auto simp: respond_state_def call_option_def dispatch_all_def frame_defs dispatch_active d
        complete_calls_def complete_delta_def)
qed

lemma rq_after_bind: "(\<And>s'. r = ROk s' \<Longrightarrow> P (rq_after (f s'))) \<Longrightarrow> (\<And>s'. r = RThrown s' \<Longrightarrow> P s') \<Longrightarrow> P (rq_after (rbind r f))"
  by (cases r) auto

lemma respond_complete_any:
  assumes "rq_ready s = 4" and "\<not> rq_complete s"
  shows "(let s' = rq_after (respondToReadyState p 4 s)
          in rq_opt s' = rq_opt s \<and> responders (rq_ajax s') = responders (rq_ajax s) \<and>
             completions s' \<le> completions s + (if rq_complete s' then 1 else 0))"
proof -
  have n1: "neutral_step p s (new_response p s)" by (rule neutral_response)
  have n2: "neutral_step p (u\<lparr>rq_complete := True\<rparr>) (respond_outcome p u)" for u by (rule neutral_outcome)
  have c1: "complete_calls u \<le> 1" for u by (simp add: complete_calls_def)
  have name: "''on'' @ state_name 4 = ''onComplete''" by (simp add: state_name_def)
  show ?thesis
    unfolding respondToReadyState_def name Let_def
    apply (rule rq_after_bind)
     apply simp
     apply (rule rq_after_bind)
      apply (rule rq_after_bind)
    subgoal for s1 s2 s3
      using n1 n2 [of s1] respond_state_complete [of s2 p] c1 [of "rq_opt s2"]
      by (simp add: neutral_step_def frame_of_def wiring_def completions_def)
    subgoal for s1 s2 s3
      using n1 n2 [of s1] respond_state_complete [of s2 p] c1 [of "rq_opt s2"]
      by (simp add: neutral_step_def frame_of_def wiring_def completions_def)
    subgoal for s1 s2
      using n1 n2 [of s1] by (simp add: neutral_step_def frame_of_def wiring_def completions_def)
    subgoal for s1
      using n1 assms by (simp add: neutral_step_def frame_of_def wiring_def completions_def)
    done
qed

lemma respond_complete_quiet:
  assumes "quiet p s"
  shows "\<exists>s'. respondToReadyState p 4 s = ROk s' \<and> rq_complete s' \<and> \<not> rq_attached s' \<and>
    frame_of s' = (rq_opt s, completions s + complete_calls (rq_opt s), responders (rq_ajax s),
      active (rq_ajax s) + complete_delta (rq_opt s) (responders (rq_ajax s)))"
proof -
  have name: "''on'' @ state_name 4 = ''onComplete''" by (simp add: state_name_def)
  obtain s1 where s1: "new_response p s = ROk s1" "frame_of s1 = frame_of s"
    using neutral_response [of p s] assms by (auto simp: neutral_step_def)
  let ?c = "s1\<lparr>rq_complete := True\<rparr>"
  have f1: "frame_of ?c = frame_of s" using s1 by (simp add: frame_defs)
  then have q1: "quiet p ?c" using frame_quiet assms by blast
  then obtain s2 where s2: "respond_outcome p s1 = ROk s2" "frame_of s2 = frame_of s" "wiring s2 = wiring ?c"
    using neutral_outcome [of p s1] f1 by (auto simp: neutral_step_def)
  then have q2: "quiet p s2" using frame_quiet assms by blast
  then obtain s3 where s3: "respond_state ''onComplete'' s2 = ROk s3" "wiring s3 = wiring s2"
    "frame_of s3 = (rq_opt s2, completions s2 + complete_calls (rq_opt s2), responders (rq_ajax s2),
      active (rq_ajax s2) + complete_delta (rq_opt s2) (responders (rq_ajax s2)))"
    using respond_state_complete [of s2 p] by auto
  show ?thesis
    using s1 s2 s3 unfolding respondToReadyState_def name by (auto simp: frame_defs)
qed

text \<open>The callback for the completion was called once at most, and only by a complete request.\<close>

definition once :: "request_state \<Rightarrow> bool" where
  "once s \<longleftrightarrow> completions s \<le> (if rq_complete s then 1 else 0)"

lemma neutral_once: "neutral_step p s r \<Longrightarrow> once s \<Longrightarrow> once (rq_after r)"
  by (simp add: neutral_step_def once_def frame_of_def wiring_def)

lemma once_update [simp]:
  "once (s\<lparr>rq_deferred := d\<rparr>) = once s" "once (s\<lparr>rq_attached := b\<rparr>) = once s"
  "once (s\<lparr>rq_headers := h\<rparr>) = once s" "once (s\<lparr>rq_sent := b\<rparr>) = once s"
  "once (s\<lparr>rq_ready := n\<rparr>) = once s" "once (s\<lparr>rq_status := n\<rparr>) = once s"
  "once (dispatch_all name s) = once s"
  by (simp_all add: once_def completions_def dispatch_all_def)

lemma once_change: "once s \<Longrightarrow> once (rq_after (onStateChange p s))"
proof -
  assume o: "once s"
  show ?thesis
  proof (cases "rq_ready s = 4")
    case True
    then show ?thesis
      using o respond_complete_any [of s p] by (auto simp: onStateChange_def once_def Let_def)
  next
    case False
    then show ?thesis
      using o neutral_once [OF neutral_respond [OF False]] by (simp add: onStateChange_def)
  qed
qed

lemma once_exception: "once s \<Longrightarrow> once (rq_after (dispatchException s))"
  by (rule neutral_once [OF neutral_exception])

lemma once_event: "once s \<Longrightarrow> once (request_event p s e)"
proof (cases e)
  case (Change n st)
  then show "once s \<Longrightarrow> ?thesis"
    using once_change [of "s\<lparr>rq_ready := n, rq_status := st\<rparr>" p] by (simp add: request_event_def Let_def)
next
  case Deferred
  have "neutral_step p t (respondToReadyState p 1 t)" for t by (rule neutral_respond) simp
  then have "once t \<Longrightarrow> once (rq_after (respondToReadyState p 1 t))" for t by (rule neutral_once)
  from this [of "s\<lparr>rq_deferred := False\<rparr>"] show "once s \<Longrightarrow> ?thesis"
    using Deferred by (simp add: request_event_def)
qed

lemma once_events: "once s \<Longrightarrow> once (request_events p es s)"
  by (induction es arbitrary: s) (simp_all add: request_events_def once_event)

lemma once_transmit: "once s \<Longrightarrow> once (rq_after (transmit p t s))"
  by (auto simp: transmit_def Let_def intro!: once_exception split: rq_eff.split)
     (metis once_change once_update rq_after.simps)+

lemma once_sent: "once s \<Longrightarrow> once (rq_after (send_request p t s))"
proof -
  assume o: "once s"
  obtain s' th where c: "call_option ''onCreate'' s = (s', th)" by fastforce
  have "once s'" using o call_option_frame [OF c] by (simp add: once_def frame_of_def wiring_def)
  then show ?thesis by (simp add: send_request_def c Let_def once_exception once_transmit)
qed

lemma once_new: "once (rq_after (new_request khtml p t o' url a))"
  unfolding new_request_def Let_def by (rule once_sent) (simp add: once_def completions_def)

text \<open>
  C16. However often the transport reports its states, and whatever the callbacks, the headers and
  the evaluation of the response throw, the page's \<open>onComplete\<close> is called at most once for a
  request.
\<close>

theorem complete_at_most_once:
  "count_list (rq_calls (request_events p es (rq_after (new_request khtml p t o' url a)))) ''onComplete'' \<le> 1"
  using once_events [OF once_new, of p es khtml p t o' url a]
  by (auto simp: once_def completions_def split: if_splits)

section \<open>The count of active requests\<close>

text \<open>The state of a request that was sent without an exception, \<open>n\<close> requests being active before it.\<close>

definition tracked :: "reply \<Rightarrow> ajax_request_options \<Rightarrow> responder list \<Rightarrow> int \<Rightarrow> request_state \<Rightarrow> bool" where
  "tracked p o' rs n s \<longleftrightarrow> quiet p s \<and> rq_opt s = o' \<and> responders (rq_ajax s) = rs \<and>
     (if rq_complete s
      then completions s = complete_calls o' \<and> active (rq_ajax s) = n + complete_delta o' rs
      else rq_attached s \<and> completions s = 0 \<and> active (rq_ajax s) = n)"

lemma tracked_update [simp]:
  "tracked p o' rs n (s\<lparr>rq_deferred := d\<rparr>) = tracked p o' rs n s"
  "tracked p o' rs n (s\<lparr>rq_headers := h\<rparr>) = tracked p o' rs n s"
  "tracked p o' rs n (s\<lparr>rq_sent := b\<rparr>) = tracked p o' rs n s"
  "tracked p o' rs n (s\<lparr>rq_ready := k\<rparr>) = tracked p o' rs n s"
  "tracked p o' rs n (s\<lparr>rq_status := k\<rparr>) = tracked p o' rs n s"
  by (simp_all add: tracked_def completions_def quiet_def)

lemma neutral_tracked: "neutral_step p s r \<Longrightarrow> tracked p o' rs n s \<Longrightarrow> tracked p o' rs n (rq_after r)"
  by (auto simp: neutral_step_def tracked_def frame_of_def wiring_def quiet_def)

lemma tracked_change:
  assumes "tracked p o' rs n s"
  shows "\<exists>s'. onStateChange p s = ROk s' \<and> tracked p o' rs n s' \<and> (rq_ready s = 4 \<longrightarrow> rq_complete s') \<and>
    (rq_complete s \<longrightarrow> rq_complete s')"
proof (cases "rq_ready s = 4")
  case True
  have q: "quiet p s" using assms by (simp add: tracked_def)
  obtain s' where s': "respondToReadyState p 4 s = ROk s'" "rq_complete s'" "\<not> rq_attached s'"
    "frame_of s' = (rq_opt s, completions s + complete_calls (rq_opt s), responders (rq_ajax s),
      active (rq_ajax s) + complete_delta (rq_opt s) (responders (rq_ajax s)))"
    using respond_complete_quiet [OF q] by blast
  show ?thesis
  proof (cases "rq_complete s")
    case c: True
    then have "onStateChange p s = ROk s" using True by (simp add: onStateChange_def)
    then show ?thesis using assms c by simp
  next
    case c: False
    then have "onStateChange p s = ROk s'" using True s'(1) by (simp add: onStateChange_def)
    moreover have "tracked p o' rs n s'" using assms c s' by (auto simp: tracked_def frame_of_def quiet_def)
    ultimately show ?thesis using s'(2) by simp
  qed
next
  case False
  have q: "quiet p s" using assms by (simp add: tracked_def)
  show ?thesis
    using neutral_respond [OF False, of p s] neutral_tracked [OF neutral_respond [OF False, of p s] assms] q assms False
    by (auto simp: onStateChange_def neutral_step_def wiring_def)
qed

lemma tracked_event:
  assumes "tracked p o' rs n s"
  shows "tracked p o' rs n (request_event p s e) \<and> (rq_complete s \<longrightarrow> rq_complete (request_event p s e)) \<and>
    (\<forall>st. e = Change 4 st \<longrightarrow> rq_complete (request_event p s e))"
proof (cases e)
  case (Change k st)
  let ?t = "s\<lparr>rq_ready := k, rq_status := st\<rparr>"
  have t: "tracked p o' rs n ?t" using assms by simp
  show ?thesis
    using tracked_change [OF t] t assms Change
    by (auto simp: request_event_def Let_def) (auto simp: tracked_def split: if_splits)
next
  case Deferred
  let ?t = "s\<lparr>rq_deferred := False\<rparr>"
  have t: "tracked p o' rs n ?t" using assms by simp
  have r: "neutral_step p ?t (respondToReadyState p 1 ?t)" by (rule neutral_respond) simp
  show ?thesis
    using neutral_tracked [OF r t] r assms Deferred by (simp add: request_event_def neutral_step_def wiring_def)
qed

lemma tracked_events:
  "tracked p o' rs n s \<Longrightarrow> tracked p o' rs n (request_events p es s) \<and>
    (rq_complete s \<or> (\<exists>st. Change 4 st \<in> set es) \<longrightarrow> rq_complete (request_events p es s))"
proof (induction es arbitrary: s)
  case (Cons e es)
  have "request_events p (e # es) s = request_events p es (request_event p s e)" by (simp add: request_events_def)
  then show ?case using Cons.IH [of "request_event p s e"] tracked_event [OF Cons.prems, of e] by auto
qed (simp add: request_events_def)

text \<open>A transport that can be opened, given its headers and sent.\<close>

definition works :: "transport \<Rightarrow> bool" where
  "works t \<longleftrightarrow> \<not> t_open_throws t \<and> \<not> t_headers_throw t \<and> \<not> t_send_throws t"

lemma tracked_transmit:
  assumes "works t" "quiet p s" "\<not> rq_complete s" "completions s = 0"
  shows "tracked p (rq_opt s) (responders (rq_ajax s)) (active (rq_ajax s)) (rq_after (transmit p t s))"
proof -
  define u where "u = s\<lparr>rq_deferred := a_async (rq_opt s), rq_attached := True,
    rq_headers := setRequestHeaders (t_overrideMimeType t \<and> t_old_gecko t) (rq_opt s) (l_method (rq_line s)),
    rq_sent := True\<rparr>"
  have u: "tracked p (rq_opt s) (responders (rq_ajax s)) (active (rq_ajax s)) u"
    using assms by (simp add: u_def tracked_def quiet_def completions_def)
  have v: "tracked p (rq_opt s) (responders (rq_ajax s)) (active (rq_ajax s))
      (u\<lparr>rq_ready := t_ready t, rq_status := t_status t\<rparr>)"
    using u by simp
  have "transmit p t s =
      (if \<not> a_async (rq_opt u) \<and> t_overrideMimeType t
       then (case onStateChange p (u\<lparr>rq_ready := t_ready t, rq_status := t_status t\<rparr>) of
               ROk s \<Rightarrow> ROk s | RThrown s \<Rightarrow> dispatchException s)
       else ROk u)"
    using assms(1) by (simp add: transmit_def works_def u_def Let_def)
  then show ?thesis using tracked_change [OF v] u by auto
qed

lemma tracked_new:
  assumes "works t" "p_header_json p \<noteq> JsonMalformed"
    and "a_on o' ''onException'' \<noteq> Some True" "a_on o' ''onCreate'' \<noteq> Some True"
  shows "tracked p (ajax_base o') (responders a) (active a + int (count_list (responders a) Counter))
    (rq_after (new_request khtml p t o' url a))"
proof -
  let ?o = "ajax_base o'"
  let ?s = "\<lparr>rq_opt = ?o, rq_line = request_line_of khtml ?o url, rq_complete = False,
            rq_deferred = False, rq_attached = False, rq_sent = False, rq_headers = [],
            rq_calls = [], rq_evaluated = 0, rq_ready = 0, rq_status = 0, rq_ajax = a\<rparr>"
  obtain s' th where c: "call_option ''onCreate'' ?s = (s', th)" by fastforce
  have d: "count_delta ''onCreate'' = 1" by (simp add: count_delta_def)
  have on: "a_on ?o = a_on o'" by (simp add: ajax_base_def)
  have th: "\<not> th" using c assms(4) by (auto simp: call_option_def on split: option.splits)
  let ?u = "dispatch_all ''onCreate'' s'"
  have u: "rq_opt ?u = ?o" "responders (rq_ajax ?u) = responders a" "\<not> rq_complete ?u" "completions ?u = 0"
    "active (rq_ajax ?u) = active a + int (count_list (responders a) Counter)"
    using call_option_frame [OF c]
    by (simp_all add: dispatch_all_def frame_of_def wiring_def completions_def dispatch_active d)
  have q: "quiet p ?u" using assms u(1) by (simp add: quiet_def on)
  have "new_request khtml p t o' url a = transmit p t ?u"
    using assms(1) c th by (simp add: new_request_def send_request_def Let_def works_def)
  then show ?thesis using tracked_transmit [OF assms(1) q u(3,4)] u by simp
qed

text \<open>
  C15. A request whose transport works and that reaches the state 4 calls the page's \<open>onComplete\<close>
  exactly once when there is one, and takes itself off the count of active requests again, unless
  \<open>onComplete\<close> throws: then the responders are skipped and the request is counted as active for
  good.
\<close>

theorem request_count_balanced:
  assumes "works t" and "p_header_json p \<noteq> JsonMalformed"
    and "a_on o' ''onException'' \<noteq> Some True" and "a_on o' ''onCreate'' \<noteq> Some True"
    and "distinct (responders a)" and "Counter \<in> set (responders a)" and "Change 4 st \<in> set es"
    and "s' = request_events p es (rq_after (new_request khtml p t o' url a))"
  shows "count_list (rq_calls s') ''onComplete'' = (if a_on o' ''onComplete'' = None then 0 else 1) \<and>
    active (rq_ajax s') = active a + (if a_on o' ''onComplete'' = Some True then 1 else 0)"
proof -
  have on: "a_on (ajax_base o') = a_on o'" by (simp add: ajax_base_def)
  have c: "count_list (responders a) Counter = 1" using assms(5,6) by (rule count_once)
  have "tracked p (ajax_base o') (responders a) (active a + 1) s' \<and> rq_complete s'"
    using tracked_events [OF tracked_new [OF assms(1-4), of a khtml url], of es] assms(7,8) c by auto
  then show ?thesis
    by (auto simp: tracked_def completions_def complete_calls_def complete_delta_def on c)
qed

definition sample_options :: "(string \<Rightarrow> bool option) \<Rightarrow> ajax_request_options" where
  "sample_options on = \<lparr>a_method = ''PUT'', a_async = True, a_params = [(''id'', HPrim (Str ''7''))], a_postBody = None,
     a_contentType = ''application/x-www-form-urlencoded'', a_encoding = ''UTF-8'', a_requestHeaders = [],
     a_on = on, a_evalJS = EvalOn, a_evalJSON = EvalOn\<rparr>"

definition sample_reply :: reply where
  "sample_reply = \<lparr>p_protocol = ''http:'', p_domain = ''localhost'', p_port = ''2000'', p_ie = False,
     p_contentType = Some ''text/html'', p_header_json = NoJson, p_responseText = [], p_json_bad = False,
     p_eval_throws = False\<rparr>"

definition sample_transport :: transport where
  "sample_transport = \<lparr>t_open_throws = False, t_headers_throw = False, t_send_throws = False,
     t_overrideMimeType = True, t_old_gecko = False, t_ready = 0, t_status = 0\<rparr>"

theorem request_count_balanced_witness:
  "active (rq_ajax (request_events sample_reply [Deferred, Change 2 200, Change 4 200, Change 4 200]
     (rq_after (new_request False sample_reply sample_transport
        (sample_options [''onComplete'' \<mapsto> True]) ''/hosts'' initial_ajax)))) = 1"
  using request_count_balanced [of sample_transport sample_reply "sample_options [''onComplete'' \<mapsto> True]"
      initial_ajax 200 "[Deferred, Change 2 200, Change 4 200, Change 4 200]"
      "request_events sample_reply [Deferred, Change 2 200, Change 4 200, Change 4 200]
     (rq_after (new_request False sample_reply sample_transport
        (sample_options [''onComplete'' \<mapsto> True]) ''/hosts'' initial_ajax))" False "''/hosts''"]
  by (simp add: works_def sample_transport_def sample_reply_def sample_options_def initial_ajax_def)

section \<open>The updaters\<close>

text \<open>
  A running updater waits for one response or for one timer, and for its last one, so that
  \<open>stop\<close> finds it.
\<close>

definition waiting :: "periodical \<Rightarrow> bool" where
  "waiting u \<longleftrightarrow> (pu_live u = [pu_updater u] \<and> pu_timers u = []) \<or>
     (pu_live u = [] \<and> (\<exists>d. pu_timers u = [(pu_timer u, d)]))"

definition idle :: "periodical \<Rightarrow> bool" where
  "idle u \<longleftrightarrow> pu_live u = [] \<and> pu_timers u = []"

lemma next_decay_frame [simp]:
  "pu_live (next_decay u tx) = pu_live u" "pu_timers (next_decay u tx) = pu_timers u"
  "pu_updater (next_decay u tx) = pu_updater u" "pu_timer (next_decay u tx) = pu_timer u"
  "pu_frequency (next_decay u tx) = pu_frequency u" "pu_option_decay (next_decay u tx) = pu_option_decay u"
  by (simp_all add: next_decay_def split: option.split)

lemma waiting_init: "waiting (periodical_init f d)"
  by (simp add: waiting_def periodical_init_def periodical_start_def pu_request_def)

lemma waiting_event: "waiting u \<Longrightarrow> waiting (periodical_event u e)"
  by (auto simp: waiting_def periodical_event_def updateComplete_def periodical_onTimerEvent_def pu_request_def
      Let_def split: pu_event.split)

lemma waiting_events: "waiting u \<Longrightarrow> waiting (periodical_events es u)"
  by (induction es arbitrary: u) (simp_all add: periodical_events_def waiting_event)

lemma idle_event: "idle u \<Longrightarrow> periodical_event u e = u"
  by (simp add: idle_def periodical_event_def updateComplete_def periodical_onTimerEvent_def split: pu_event.split)

lemma idle_events: "idle u \<Longrightarrow> periodical_events es u = u"
  by (induction es) (simp_all add: periodical_events_def idle_event)

lemma stop_idle: "waiting u \<Longrightarrow> idle (periodical_stop u)"
  by (auto simp: waiting_def idle_def periodical_stop_def)

text \<open>
  C17. An updater that was started once always waits for exactly one response or one timer, and
  \<open>stop\<close> ends it: whatever responses and timers come later, no request is made any more.
\<close>

theorem periodical_stops:
  "waiting (periodical_events es (periodical_init frequency decay)) \<and>
   periodical_events es' (periodical_stop (periodical_events es (periodical_init frequency decay))) =
     periodical_stop (periodical_events es (periodical_init frequency decay))"
  using waiting_events [OF waiting_init] idle_events [OF stop_idle] by blast

text \<open>The rounds of an updater: the response of its request arrives, and the timer it set fires.\<close>

definition round_of :: "periodical \<Rightarrow> string \<Rightarrow> periodical" where
  "round_of u tx =
     (let u = updateComplete (pu_updater u) tx u in periodical_onTimerEvent (pu_timer u) u)"

definition next_delay :: "periodical \<Rightarrow> string \<Rightarrow> real option" where
  "next_delay u tx = map_of (pu_timers (updateComplete (pu_updater u) tx u)) (pu_timer u + 1)"

definition asking :: "periodical \<Rightarrow> bool" where
  "asking u \<longleftrightarrow> pu_live u = [pu_updater u] \<and> pu_timers u = []"

lemma round_of_decay:
  "asking u \<Longrightarrow> pu_option_decay u = Some d \<Longrightarrow> d \<noteq> 0 \<Longrightarrow>
     asking (round_of u tx) \<and> pu_option_decay (round_of u tx) = Some d \<and>
     pu_frequency (round_of u tx) = pu_frequency u \<and> pu_lastText (round_of u tx) = Some tx \<and>
     pu_decay (round_of u tx) = (if pu_lastText u = Some tx then pu_decay u * d else 1)"
  by (simp add: asking_def round_of_def updateComplete_def periodical_onTimerEvent_def pu_request_def
      Let_def next_decay_def)

lemma next_delay_decay:
  "asking u \<Longrightarrow> pu_option_decay u = Some d \<Longrightarrow> d \<noteq> 0 \<Longrightarrow>
     next_delay u tx = Some ((if pu_lastText u = Some tx then pu_decay u * d else 1) * pu_frequency u)"
  by (simp add: asking_def next_delay_def updateComplete_def Let_def next_decay_def)

lemma rounds_decay:
  "asking u \<Longrightarrow> pu_option_decay u = Some d \<Longrightarrow> d \<noteq> 0 \<Longrightarrow> pu_lastText u = Some tx \<Longrightarrow>
     next_delay (foldl round_of u (replicate n tx)) tx = Some (pu_decay u * d ^ (n + 1) * pu_frequency u)"
proof (induction n arbitrary: u)
  case (Suc n)
  have r: "asking (round_of u tx) \<and> pu_option_decay (round_of u tx) = Some d \<and>
     pu_frequency (round_of u tx) = pu_frequency u \<and> pu_lastText (round_of u tx) = Some tx \<and>
     pu_decay (round_of u tx) = pu_decay u * d"
    using round_of_decay [OF Suc.prems(1-3), of tx] Suc.prems(4) by simp
  then show ?case using Suc.IH [of "round_of u tx"] Suc.prems(3) by (simp add: mult_ac)
qed (simp add: next_delay_decay)

lemma asking_rounds:
  assumes "asking u" and "pu_option_decay u = Some d" and "d \<noteq> 0"
  shows "asking (foldl round_of u ts) \<and> pu_option_decay (foldl round_of u ts) = Some d \<and>
    pu_frequency (foldl round_of u ts) = pu_frequency u \<and>
    (ts \<noteq> [] \<longrightarrow> pu_lastText (foldl round_of u ts) = Some (last ts))"
proof (induction ts rule: rev_induct)
  case (snoc x xs)
  then show ?case using round_of_decay [of "foldl round_of u xs" d x] assms(3) by simp
qed (use assms in simp)

text \<open>
  An updater with a decay sets its timer to the frequency after a response that differs from
  the one before, and to \<open>frequency * decay ^ n\<close> after \<open>n\<close> further equal ones, whatever came first.
\<close>

theorem periodical_decay:
  assumes "d \<noteq> 0" and "ts = [] \<or> last ts \<noteq> tx"
    and "u = foldl round_of (periodical_init frequency (Some d)) ts"
  shows "next_delay (foldl round_of u (replicate n tx)) tx = Some (d ^ n * option_or frequency 2)"
proof -
  let ?i = "periodical_init frequency (Some d)"
  have i: "asking ?i" "pu_option_decay ?i = Some d" "pu_frequency ?i = option_or frequency 2" "pu_lastText ?i = None"
    by (simp_all add: asking_def periodical_init_def periodical_start_def pu_request_def)
  have u: "asking u" "pu_option_decay u = Some d" "pu_frequency u = option_or frequency 2"
    using asking_rounds [OF i(1,2) assms(1), of ts] assms(3) i(3) by simp_all
  have ne: "pu_lastText u \<noteq> Some tx"
    using asking_rounds [OF i(1,2) assms(1), of ts] assms(2,3) i(4) by (cases "ts = []") auto
  show ?thesis
  proof (cases n)
    case 0
    then show ?thesis using next_delay_decay [OF u(1,2) assms(1), of tx] ne u(3) by simp
  next
    case (Suc m)
    have r: "asking (round_of u tx)" "pu_option_decay (round_of u tx) = Some d"
      "pu_frequency (round_of u tx) = option_or frequency 2" "pu_lastText (round_of u tx) = Some tx"
      "pu_decay (round_of u tx) = 1"
      using round_of_decay [OF u(1,2) assms(1), of tx] ne u(3) by simp_all
    show ?thesis using rounds_decay [OF r(1,2) assms(1) r(4), of m] r(3,5) Suc by simp
  qed
qed

theorem periodical_decay_witness:
  "next_delay (foldl round_of (foldl round_of (periodical_init (Some 5) (Some 2)) [''a'']) (replicate 3 ''b'')) ''b'' =
     Some 40"
  using periodical_decay [of 2 "[''a'']" "''b''" "foldl round_of (periodical_init (Some 5) (Some 2)) [''a'']" "Some 5" 3]
  by (simp add: option_or_def)

end
