(* ===== verification/UiMouse.thy ===== *)
theory UiMouse
  imports JsNumber "HOL-Library.Monad_Syntax"
begin

text \<open>
  \<open>ui.core.js\<close>: the mouse interaction of jQuery UI and the widget factory.  The
  mouse interaction is a state machine between the mouse events and four methods
  of the widget, its hooks; a hook that throws is \<open>None\<close>, and the exception
  leaves the handler.  What a widget has to provide is the locale
  \<open>immediate_client\<close>.
\<close>

section \<open>The mouse\<close>

text \<open>
  \<open>ev_cancel\<close> is whether the target or an ancestor matches the option \<open>cancel\<close>,
  \<open>ev_handled\<close> the mark \<open>originalEvent.mouseHandled\<close>.
\<close>

record mouse_event =
  ev_x :: real
  ev_y :: real
  ev_which :: nat
  ev_button :: nat
  ev_target :: nat
  ev_cancel :: bool
  ev_handled :: bool

text \<open>
  A pair of delegates bound to the document is a number; \<open>m_current\<close> is the pair
  of the fields \<open>_mouseMoveDelegate\<close> and \<open>_mouseUpDelegate\<close>.
\<close>

record 'w mouse =
  m_started :: bool
  m_down :: "mouse_event option"
  m_delay_met :: bool
  m_timers :: nat
  m_prevent_click :: bool
  m_current :: "nat option"
  m_bound :: "nat list"
  m_next :: nat
  m_widget :: 'w

record mouse_options =
  distance :: real
  delay :: nat
  msie :: bool

record 'w hooks =
  h_capture :: "'w \<Rightarrow> mouse_event \<Rightarrow> ('w \<times> bool) option"
  h_start :: "'w \<Rightarrow> mouse_event \<Rightarrow> ('w \<times> bool) option"
  h_drag :: "'w \<Rightarrow> mouse_event \<Rightarrow> 'w option"
  h_stop :: "'w \<Rightarrow> mouse_event \<Rightarrow> 'w option"

definition mouse_init :: "'w \<Rightarrow> 'w mouse" where
  "mouse_init w =
     \<lparr>m_started = False, m_down = None, m_delay_met = False, m_timers = 0, m_prevent_click = False,
      m_current = None, m_bound = [], m_next = 0, m_widget = w\<rparr>"

definition mouseDistanceMet :: "mouse_options \<Rightarrow> 'w mouse \<Rightarrow> mouse_event \<Rightarrow> bool" where
  "mouseDistanceMet o' m ev =
     (case m_down m of
        None \<Rightarrow> False
      | Some d \<Rightarrow> max \<bar>ev_x d - ev_x ev\<bar> \<bar>ev_y d - ev_y ev\<bar> \<ge> distance o')"

definition mouseDelayMet :: "'w mouse \<Rightarrow> bool" where
  "mouseDelayMet m = m_delay_met m"

definition unbind_current :: "'w mouse \<Rightarrow> 'w mouse" where
  "unbind_current m =
     (case m_current m of
        None \<Rightarrow> m\<lparr>m_bound := []\<rparr>
      | Some k \<Rightarrow> m\<lparr>m_bound := filter (\<lambda>d. d \<noteq> k) (m_bound m)\<rparr>)"

definition mouseUp :: "'w hooks \<Rightarrow> 'w mouse \<Rightarrow> mouse_event \<Rightarrow> 'w mouse option" where
  "mouseUp h m ev =
     (let m = unbind_current m
      in if m_started m
         then do {
           let m = m\<lparr>m_started := False,
             m_prevent_click := (case m_down m of None \<Rightarrow> False | Some d \<Rightarrow> ev_target ev = ev_target d)\<rparr>;
           w \<leftarrow> h_stop h (m_widget m) ev;
           Some (m\<lparr>m_widget := w\<rparr>) }
         else Some m)"

text \<open>The second component is whether the handler marks the event as handled.\<close>

definition mouseDown ::
  "mouse_options \<Rightarrow> 'w hooks \<Rightarrow> 'w mouse \<Rightarrow> mouse_event \<Rightarrow> ('w mouse \<times> bool) option" where
  "mouseDown o' h m ev =
     (if ev_handled ev then Some (m, False)
      else do {
        m \<leftarrow> (if m_started m then mouseUp h m ev else Some m);
        let m = m\<lparr>m_down := Some ev\<rparr>;
        if ev_which ev \<noteq> 1 \<or> ev_cancel ev then Some (m, False)
        else do {
          (w, captured) \<leftarrow> h_capture h (m_widget m) ev;
          let m = m\<lparr>m_widget := w\<rparr>;
          if \<not> captured then Some (m, False)
          else do {
            let m = m\<lparr>m_delay_met := (delay o' = 0)\<rparr>;
            let m = (if \<not> m_delay_met m then m\<lparr>m_timers := m_timers m + 1\<rparr> else m);
            (m, go) \<leftarrow>
              (if mouseDistanceMet o' m ev \<and> mouseDelayMet m
               then do {
                 (w, started) \<leftarrow> h_start h (m_widget m) ev;
                 Some (m\<lparr>m_widget := w, m_started := started\<rparr>, started) }
               else Some (m, True));
            if \<not> go then Some (m, False)
            else Some (m\<lparr>m_current := Some (m_next m), m_bound := m_bound m @ [m_next m],
                         m_next := m_next m + 1\<rparr>, True) } } })"

definition mouseMove ::
  "mouse_options \<Rightarrow> 'w hooks \<Rightarrow> 'w mouse \<Rightarrow> mouse_event \<Rightarrow> 'w mouse option" where
  "mouseMove o' h m ev =
     (if msie o' \<and> ev_button ev = 0 then mouseUp h m ev
      else if m_started m
      then do { w \<leftarrow> h_drag h (m_widget m) ev; Some (m\<lparr>m_widget := w\<rparr>) }
      else if mouseDistanceMet o' m ev \<and> mouseDelayMet m
      then (case m_down m of
              None \<Rightarrow> None
            | Some d \<Rightarrow> do {
                (w, started) \<leftarrow> h_start h (m_widget m) d;
                let m = m\<lparr>m_widget := w, m_started := started\<rparr>;
                if started
                then do { w \<leftarrow> h_drag h (m_widget m) ev; Some (m\<lparr>m_widget := w\<rparr>) }
                else mouseUp h m ev })
      else Some m)"

text \<open>The delay of \<open>_mouseDown\<close> is over.\<close>

definition mouseTimer :: "'w mouse \<Rightarrow> 'w mouse" where
  "mouseTimer m = (if m_timers m > 0 then m\<lparr>m_timers := m_timers m - 1, m_delay_met := True\<rparr> else m)"

text \<open>The click handler; the second component is whether the click is stopped.\<close>

definition mouseClick :: "'w mouse \<Rightarrow> 'w mouse \<times> bool" where
  "mouseClick m = (if m_prevent_click m then (m\<lparr>m_prevent_click := False\<rparr>, True) else (m, False))"

text \<open>
  An event at the document is passed to every pair of delegates that is bound;
  one that an earlier handler unbinds is not called any more.
\<close>

fun dispatch :: "('w mouse \<Rightarrow> 'w mouse option) \<Rightarrow> nat list \<Rightarrow> 'w mouse \<Rightarrow> 'w mouse option" where
  "dispatch f [] m = Some m"
| "dispatch f (k # ks) m =
     (if k \<in> set (m_bound m) then (case f m of None \<Rightarrow> None | Some m' \<Rightarrow> dispatch f ks m')
      else dispatch f ks m)"

datatype mouse_input =
    Down mouse_event
  | Move mouse_event
  | Up mouse_event
  | Timer
  | Click

definition mouse_input_step ::
  "mouse_options \<Rightarrow> 'w hooks \<Rightarrow> 'w mouse \<Rightarrow> mouse_input \<Rightarrow> 'w mouse option" where
  "mouse_input_step o' h m i =
     (case i of
        Down ev \<Rightarrow> map_option fst (mouseDown o' h m ev)
      | Move ev \<Rightarrow> dispatch (\<lambda>m. mouseMove o' h m ev) (m_bound m) m
      | Up ev \<Rightarrow> dispatch (\<lambda>m. mouseUp h m ev) (m_bound m) m
      | Timer \<Rightarrow> Some (mouseTimer m)
      | Click \<Rightarrow> Some (fst (mouseClick m)))"

fun mouse_run :: "mouse_options \<Rightarrow> 'w hooks \<Rightarrow> 'w mouse \<Rightarrow> mouse_input list \<Rightarrow> 'w mouse option" where
  "mouse_run o' h m [] = Some m"
| "mouse_run o' h m (i # is) =
     (case mouse_input_step o' h m i of None \<Rightarrow> None | Some m' \<Rightarrow> mouse_run o' h m' is)"

section \<open>The contract of a widget without distance and delay\<close>

text \<open>
  \<open>rest\<close> is the widget between two drags, \<open>captured\<close> after \<open>_mouseCapture\<close> and
  \<open>active\<close> during a drag.
\<close>

locale immediate_client =
  fixes o' :: mouse_options
    and h :: "'w hooks"
    and rest captured active :: "'w \<Rightarrow> bool"
  assumes no_distance: "distance o' \<le> 0"
    and no_delay: "delay o' = 0"
    and capture_law: "rest w \<Longrightarrow> \<exists>w' b. h_capture h w ev = Some (w', b) \<and> (if b then captured w' else rest w')"
    and start_law: "captured w \<Longrightarrow> \<exists>w'. h_start h w ev = Some (w', True) \<and> active w'"
    and drag_law: "active w \<Longrightarrow> \<exists>w'. h_drag h w ev = Some w' \<and> active w'"
    and stop_law: "active w \<Longrightarrow> \<exists>w'. h_stop h w ev = Some w' \<and> rest w'"
begin

text \<open>A drag is on exactly when one pair of delegates is bound.\<close>

definition drag_inv :: "'w mouse \<Rightarrow> bool" where
  "drag_inv m \<longleftrightarrow>
     (if m_started m then active (m_widget m) \<and> (\<exists>k. m_current m = Some k \<and> m_bound m = [k])
      else rest (m_widget m) \<and> m_bound m = [])"

lemma init_inv: "rest w \<Longrightarrow> drag_inv (mouse_init w)"
  by (simp add: drag_inv_def mouse_init_def)

lemma up_inv:
  assumes "drag_inv m"
  shows "\<exists>m'. mouseUp h m ev = Some m' \<and> drag_inv m' \<and> \<not> m_started m'"
proof (cases "m_started m")
  case True
  with assms obtain k where k: "active (m_widget m)" "m_current m = Some k" "m_bound m = [k]"
    by (auto simp: drag_inv_def)
  from stop_law [OF k(1), of ev] obtain w where "h_stop h (m_widget m) ev = Some w" "rest w" by blast
  with True k show ?thesis
    by (simp add: mouseUp_def unbind_current_def drag_inv_def Let_def)
next
  case False
  with assms show ?thesis
    by (auto simp: mouseUp_def unbind_current_def drag_inv_def Let_def split: option.split)
qed

lemma distance_met: "m_down m = Some ev \<Longrightarrow> mouseDistanceMet o' m ev"
  using no_distance by (simp add: mouseDistanceMet_def)

lemma drag_inv_down [simp]: "drag_inv (m\<lparr>m_down := d\<rparr>) = drag_inv m"
  by (simp add: drag_inv_def)

lemma down_from_rest:
  assumes "drag_inv m" and "\<not> m_started m"
  shows "\<exists>m'. map_option fst (mouseDown o' h m ev) = Some m' \<and> drag_inv m'"
proof (cases "ev_handled ev \<or> ev_which ev \<noteq> 1 \<or> ev_cancel ev")
  case True
  with assms show ?thesis by (auto simp: mouseDown_def)
next
  case False
  from assms have r: "rest (m_widget m)" "m_bound m = []" by (auto simp: drag_inv_def)
  from capture_law [OF r(1), of ev] obtain w b where
    w: "h_capture h (m_widget m) ev = Some (w, b)" "if b then captured w else rest w" by blast
  show ?thesis
  proof (cases b)
    case True
    with w have "captured w" by simp
    from start_law [OF this, of ev] obtain w' where "h_start h w ev = Some (w', True)" "active w'" by blast
    with False True assms w r no_delay show ?thesis
      by (simp add: mouseDown_def drag_inv_def distance_met mouseDelayMet_def)
  next
    case nb: False
    with False assms w r show ?thesis by (auto simp: mouseDown_def drag_inv_def)
  qed
qed

lemma down_inv: "drag_inv m \<Longrightarrow> \<exists>m'. map_option fst (mouseDown o' h m ev) = Some m' \<and> drag_inv m'"
proof (cases "m_started m \<and> \<not> ev_handled ev")
  case True
  assume inv: "drag_inv m"
  from up_inv [OF inv, of ev] obtain m1 where
    m1: "mouseUp h m ev = Some m1" "drag_inv m1" "\<not> m_started m1" by blast
  then have "mouseDown o' h m ev = mouseDown o' h m1 ev" using True by (simp add: mouseDown_def)
  with down_from_rest [OF m1(2,3)] show ?thesis by simp
next
  case False
  assume inv: "drag_inv m"
  then show ?thesis
  proof (cases "ev_handled ev")
    case True
    then show ?thesis using inv by (simp add: mouseDown_def)
  next
    case nh: False
    with False down_from_rest [OF inv] show ?thesis by blast
  qed
qed

lemma move_inv:
  assumes "drag_inv m" and "m_started m"
  shows "\<exists>m'. mouseMove o' h m ev = Some m' \<and> drag_inv m'"
proof (cases "msie o' \<and> ev_button ev = 0")
  case True
  then show ?thesis using up_inv [OF assms(1), of ev] by (auto simp: mouseMove_def)
next
  case False
  from assms have "active (m_widget m)" by (simp add: drag_inv_def)
  from drag_law [OF this, of ev] False assms show ?thesis
    by (auto simp: mouseMove_def drag_inv_def)
qed

lemma step_inv: "drag_inv m \<Longrightarrow> \<exists>m'. mouse_input_step o' h m i = Some m' \<and> drag_inv m'"
proof (cases i)
  case (Down ev)
  assume "drag_inv m"
  from down_inv [OF this, of ev] show ?thesis by (auto simp: Down mouse_input_step_def)
next
  case (Move ev)
  assume inv: "drag_inv m"
  show ?thesis
  proof (cases "m_started m")
    case True
    with inv obtain k where "m_bound m = [k]" by (auto simp: drag_inv_def)
    with move_inv [OF inv True, of ev] show ?thesis by (auto simp: Move mouse_input_step_def)
  next
    case False
    with inv show ?thesis by (auto simp: Move mouse_input_step_def drag_inv_def)
  qed
next
  case (Up ev)
  assume inv: "drag_inv m"
  show ?thesis
  proof (cases "m_started m")
    case True
    with inv obtain k where "m_bound m = [k]" by (auto simp: drag_inv_def)
    with up_inv [OF inv, of ev] show ?thesis by (auto simp: Up mouse_input_step_def)
  next
    case False
    with inv show ?thesis by (auto simp: Up mouse_input_step_def drag_inv_def)
  qed
qed (auto simp: mouse_input_step_def mouseTimer_def mouseClick_def drag_inv_def)

lemma run_inv: "drag_inv m \<Longrightarrow> \<exists>m'. mouse_run o' h m is = Some m' \<and> drag_inv m'"
proof (induction "is" arbitrary: m)
  case (Cons i "is")
  from step_inv [OF Cons.prems, of i] obtain m1 where "mouse_input_step o' h m i = Some m1" "drag_inv m1" by blast
  with Cons.IH show ?case by simp
qed simp

end

end
