(* ===== verification/UiWidget.thy ===== *)
theory UiWidget
  imports JsNumber "HOL-Library.Monad_Syntax"
begin

text \<open>
  \<open>ui.core.js\<close>: the helpers of \<open>$.ui\<close>, the plugin method that \<open>$.widget\<close> makes for a
  widget class, and the methods every widget has.  The methods of the class are
  a table; \<open>None\<close> of a call is an exception.
\<close>

section \<open>Helpers\<close>

definition isOverAxis :: "real \<Rightarrow> real \<Rightarrow> real \<Rightarrow> bool" where
  "isOverAxis x reference extent \<longleftrightarrow> x > reference \<and> x < reference + extent"

definition isOver :: "real \<Rightarrow> real \<Rightarrow> real \<Rightarrow> real \<Rightarrow> real \<Rightarrow> real \<Rightarrow> bool" where
  "isOver y x top' left' height width \<longleftrightarrow> isOverAxis y top' height \<and> isOverAxis x left' width"

text \<open>
  \<open>hasScroll\<close>: \<open>limit\<close> is the largest scroll position the browser lets the element
  have; the probe sets the position to 1 and back to 0.
\<close>

definition hasScroll :: "bool \<Rightarrow> nat \<Rightarrow> nat \<Rightarrow> nat \<times> bool" where
  "hasScroll overflow_hidden limit pos =
     (if overflow_hidden then (pos, False)
      else if pos > 0 then (pos, True)
      else let probed = min 1 limit in (0, probed > 0))"

definition keyCode :: "(string \<times> nat) list" where
  "keyCode =
     [(''BACKSPACE'', 8), (''CAPS_LOCK'', 20), (''COMMA'', 188), (''CONTROL'', 17), (''DELETE'', 46),
      (''DOWN'', 40), (''END'', 35), (''ENTER'', 13), (''ESCAPE'', 27), (''HOME'', 36), (''INSERT'', 45),
      (''LEFT'', 37), (''NUMPAD_ADD'', 107), (''NUMPAD_DECIMAL'', 110), (''NUMPAD_DIVIDE'', 111),
      (''NUMPAD_ENTER'', 108), (''NUMPAD_MULTIPLY'', 106), (''NUMPAD_SUBTRACT'', 109), (''PAGE_DOWN'', 34),
      (''PAGE_UP'', 33), (''PERIOD'', 190), (''RIGHT'', 39), (''SHIFT'', 16), (''SPACE'', 32), (''TAB'', 9),
      (''UP'', 38)]"

text \<open>\<open>$.ui.plugin\<close>: the functions registered under a name, each with the option that turns it on.\<close>

type_synonym 'f plugins = "string \<Rightarrow> (string \<times> 'f) list option"

definition plugin_add :: "'f plugins \<Rightarrow> string \<Rightarrow> (string \<times> 'f) list \<Rightarrow> 'f plugins" where
  "plugin_add plugins opt set' =
     foldl (\<lambda>p (i, f). p(i \<mapsto> (case p i of None \<Rightarrow> [] | Some l \<Rightarrow> l) @ [(opt, f)])) plugins set'"

text \<open>The functions that are called, in order.\<close>

definition plugin_call :: "'f plugins \<Rightarrow> bool \<Rightarrow> (string \<Rightarrow> bool) \<Rightarrow> string \<Rightarrow> 'f list" where
  "plugin_call plugins has_parent option_set name =
     (case plugins name of
        None \<Rightarrow> []
      | Some fs \<Rightarrow>
          if \<not> has_parent then []
          else map snd (filter (\<lambda>(opt, f). option_set opt) fs))"

section \<open>The plugin method\<close>

text \<open>\<open>/,?\s+/\<close> at the front of a string: its length.\<close>

definition separator_here :: "string \<Rightarrow> nat option" where
  "separator_here s =
     (let r = (if s \<noteq> [] \<and> hd s = CHR '','' then tl s else s);
          k = length (takeWhile is_ws r)
      in if k = 0 then None else Some (length s - length r + k))"

function split_methods :: "string \<Rightarrow> string \<Rightarrow> string list" where
  "split_methods acc [] = [acc]"
| "split_methods acc (c # r) =
     (case separator_here (c # r) of
        None \<Rightarrow> split_methods (acc @ [c]) r
      | Some n \<Rightarrow> if n = 0 then split_methods (acc @ [c]) r else acc # split_methods [] (drop n (c # r)))"
  by pat_completeness auto
termination
  by (relation "measure (\<lambda>(acc, s). length s)") auto

record ('w, 'o, 'a, 'r) widget_class =
  c_getter :: string
  c_getterSetter :: string
  c_construct :: "nat \<Rightarrow> 'o \<Rightarrow> 'w"
  c_methods :: "string \<Rightarrow> ('w \<Rightarrow> 'a list \<Rightarrow> 'w \<times> 'r) option"

definition is_getter :: "('w, 'o, 'a, 'r) widget_class \<Rightarrow> ('a \<Rightarrow> bool) \<Rightarrow> string \<Rightarrow> 'a list \<Rightarrow> bool" where
  "is_getter cls is_str method args \<longleftrightarrow>
     (let methods = split_methods [] (c_getter cls);
          methods = (if length args = 1 \<and> is_str (hd args)
                     then methods @ split_methods [] (c_getterSetter cls) else methods)
      in method \<in> set methods)"

datatype 'o plugin_arg = MethodCall string | InitWith 'o

datatype 'r plugin_result = Chain | Result 'r | Undefined

text \<open>The widget that \<open>$.data\<close> keeps for an element.\<close>

type_synonym 'w widget_data = "nat \<Rightarrow> 'w option"

definition plugin_each ::
  "('w, 'o, 'a, 'r) widget_class \<Rightarrow> 'o plugin_arg \<Rightarrow> 'a list \<Rightarrow> 'w widget_data \<Rightarrow> nat \<Rightarrow> 'w widget_data" where
  "plugin_each cls options args data element =
     (case (data element, options) of
        (None, InitWith o') \<Rightarrow> data(element \<mapsto> c_construct cls element o')
      | (Some w, MethodCall method) \<Rightarrow>
          (case c_methods cls method of
             None \<Rightarrow> data
           | Some f \<Rightarrow> data(element \<mapsto> fst (f w args)))
      | _ \<Rightarrow> data)"

definition plugin ::
  "('w, 'o, 'a, 'r) widget_class \<Rightarrow> ('a \<Rightarrow> bool) \<Rightarrow> nat list \<Rightarrow> 'o plugin_arg \<Rightarrow> 'a list \<Rightarrow>
     'w widget_data \<Rightarrow> ('w widget_data \<times> 'r plugin_result) option" where
  "plugin cls is_str elements options args data =
     (case options of
        MethodCall method \<Rightarrow>
          if take 1 method = ''_'' then Some (data, Chain)
          else if is_getter cls is_str method args
          then (case elements of
                  [] \<Rightarrow> None
                | e # _ \<Rightarrow>
                    (case data e of
                       None \<Rightarrow> Some (data, Undefined)
                     | Some w \<Rightarrow>
                         (case c_methods cls method of
                            None \<Rightarrow> None
                          | Some f \<Rightarrow> let (w', r) = f w args in Some (data(e \<mapsto> w'), Result r))))
          else Some (foldl (plugin_each cls options args) data elements, Chain)
      | InitWith o' \<Rightarrow> Some (foldl (plugin_each cls options args) data elements, Chain))"

section \<open>The methods of every widget\<close>

text \<open>
  \<open>'v\<close> are the values of options; \<open>w_log\<close> are the events triggered at the element, in order.
\<close>

record ('v, 'd) widget =
  w_namespace :: string
  w_name :: string
  w_prefix :: string
  w_options :: "string \<Rightarrow> 'v option"
  w_classes :: "string list"
  w_aria_disabled :: "'v option"
  w_data :: bool
  w_log :: "(string \<times> 'd) list"

definition widget_construct ::
  "string \<Rightarrow> string \<Rightarrow> string option \<Rightarrow> (string \<Rightarrow> 'v option) \<Rightarrow> (string \<Rightarrow> 'v option) \<Rightarrow>
     (string \<Rightarrow> 'v option) \<Rightarrow> (string \<Rightarrow> 'v option) \<Rightarrow> ('v, 'd) widget" where
  "widget_construct namespace name eventPrefix widget_defaults class_defaults metadata options =
     \<lparr>w_namespace = namespace, w_name = name,
      w_prefix = (case eventPrefix of None \<Rightarrow> name | Some p \<Rightarrow> if p = [] then name else p),
      w_options = widget_defaults ++ class_defaults ++ metadata ++ options,
      w_classes = [], w_aria_disabled = None, w_data = True, w_log = []\<rparr>"

definition widgetBaseClass :: "('v, 'd) widget \<Rightarrow> string" where
  "widgetBaseClass w = w_namespace w @ ''-'' @ w_name w"

definition disabled_classes :: "('v, 'd) widget \<Rightarrow> string list" where
  "disabled_classes w = [widgetBaseClass w @ ''-disabled'', w_namespace w @ ''-state-disabled'']"

definition add_classes :: "string list \<Rightarrow> string list \<Rightarrow> string list" where
  "add_classes cs old = foldl (\<lambda>l c. if c \<in> set l then l else l @ [c]) old cs"

definition remove_classes :: "string list \<Rightarrow> string list \<Rightarrow> string list" where
  "remove_classes cs old = filter (\<lambda>c. c \<notin> set cs) old"

definition widget_destroy :: "('v, 'd) widget \<Rightarrow> ('v, 'd) widget" where
  "widget_destroy w =
     w\<lparr>w_data := False, w_classes := remove_classes (disabled_classes w) (w_classes w), w_aria_disabled := None\<rparr>"

definition getData :: "('v, 'd) widget \<Rightarrow> string \<Rightarrow> 'v option" where
  "getData w key = w_options w key"

text \<open>\<open>truth\<close> is the truth value of an option.\<close>

definition setData :: "('v \<Rightarrow> bool) \<Rightarrow> ('v, 'd) widget \<Rightarrow> string \<Rightarrow> 'v \<Rightarrow> ('v, 'd) widget" where
  "setData truth w key value =
     (let w = w\<lparr>w_options := (w_options w)(key \<mapsto> value)\<rparr>
      in if key = ''disabled''
         then w\<lparr>w_classes := (if truth value then add_classes else remove_classes) (disabled_classes w) (w_classes w),
                w_aria_disabled := Some value\<rparr>
         else w)"

text \<open>\<open>option\<close> with a key, with a key and a value, and with an object.\<close>

datatype 'v option_call = GetOption string | SetOption string 'v | SetOptions "(string \<times> 'v) list"

definition option_method ::
  "('v \<Rightarrow> bool) \<Rightarrow> ('v, 'd) widget \<Rightarrow> 'v option_call \<Rightarrow> ('v, 'd) widget \<times> 'v option" where
  "option_method truth w call =
     (case call of
        GetOption key \<Rightarrow> (w, getData w key)
      | SetOption key value \<Rightarrow> (foldl (\<lambda>w (k, v). setData truth w k v) w [(key, value)], None)
      | SetOptions kvs \<Rightarrow> (foldl (\<lambda>w (k, v). setData truth w k v) w kvs, None))"

text \<open>\<open>tt\<close> and \<open>ff\<close> are the two truth values as options.\<close>

definition enable :: "('v \<Rightarrow> bool) \<Rightarrow> 'v \<Rightarrow> ('v, 'd) widget \<Rightarrow> ('v, 'd) widget" where
  "enable truth ff w = setData truth w ''disabled'' ff"

definition disable :: "('v \<Rightarrow> bool) \<Rightarrow> 'v \<Rightarrow> ('v, 'd) widget \<Rightarrow> ('v, 'd) widget" where
  "disable truth tt w = setData truth w ''disabled'' tt"

definition event_name :: "string \<Rightarrow> string \<Rightarrow> string" where
  "event_name prefix type = (if type = prefix then type else prefix @ type)"

text \<open>
  \<open>callback\<close> is the option of that name applied to the data, \<open>None\<close> when it is not a
  function, \<open>Some False\<close> when it returns \<open>false\<close>; \<open>prevented\<close> is whether a handler of the
  event prevents the default.
\<close>

definition trigger ::
  "(string \<Rightarrow> 'd \<Rightarrow> bool option) \<Rightarrow> (string \<Rightarrow> 'd \<Rightarrow> bool) \<Rightarrow> ('v, 'd) widget \<Rightarrow> string \<Rightarrow> 'd \<Rightarrow>
     ('v, 'd) widget \<times> bool" where
  "trigger callback prevented w type data =
     (let name = event_name (w_prefix w) type
      in (w\<lparr>w_log := w_log w @ [(name, data)]\<rparr>,
          \<not> (callback type data = Some False \<or> prevented name data)))"

section \<open>Laws\<close>

lemma set_add_classes: "set (add_classes cs old) = set cs \<union> set old"
  unfolding add_classes_def by (induction cs arbitrary: old) auto

lemma getData_setData: "getData (setData truth w k v) k' = (if k' = k then Some v else getData w k')"
  by (simp add: getData_def setData_def Let_def)

lemma plugin_each_other: "e' \<noteq> e \<Longrightarrow> plugin_each cls opt args data e e' = data e'"
  by (auto simp: plugin_each_def split: option.split plugin_arg.split)

lemma plugin_fold_other: "e' \<notin> set es \<Longrightarrow> foldl (plugin_each cls opt args) data es e' = data e'"
  by (induction es arbitrary: data) (auto simp: plugin_each_other)

lemma plugin_fold_init:
  "foldl (plugin_each cls (InitWith o') args) data es e =
     (case data e of Some w \<Rightarrow> Some w | None \<Rightarrow> if e \<in> set es then Some (c_construct cls e o') else None)"
proof (induction es arbitrary: data)
  case (Cons e2 es)
  then show ?case by (auto simp: plugin_each_def split: option.split)
qed (simp split: option.split)

text \<open>
  Calling the plugin with options makes a widget for each element that has none and leaves
  every existing widget as it is; calling it with the name of an internal method, one that
  starts with an underscore, changes nothing.
\<close>

theorem plugin_init_once:
  "plugin cls is_str es (InitWith o') args data =
     Some (\<lambda>e. case data e of Some w \<Rightarrow> Some w
             | None \<Rightarrow> if e \<in> set es then Some (c_construct cls e o') else None, Chain) \<and>
   plugin cls is_str es (MethodCall (CHR ''_'' # m)) args data = Some (data, Chain)"
  by (auto simp: plugin_def plugin_fold_init)

text \<open>
  Disabling and enabling a widget leaves the option, the classes and the attribute in step.
\<close>

lemma disable_enable:
  assumes "truth tt" and "\<not> truth ff"
  shows "set (disabled_classes w) \<subseteq> set (w_classes (disable truth tt w))"
    and "set (disabled_classes w) \<inter> set (w_classes (enable truth ff w)) = {}"
    and "getData (disable truth tt w) ''disabled'' = Some tt"
    and "w_aria_disabled (enable truth ff w) = Some ff"
  using assms
  by (auto simp: disable_def enable_def setData_def Let_def set_add_classes remove_classes_def
      disabled_classes_def widgetBaseClass_def getData_def)

end
