(* ===== verification/UiSlider.thy ===== *)
theory UiSlider
  imports UiMouse UiWidget
begin

text \<open>
  \<open>ui.slider.js\<close>, the slider with one or more handles that chooses the hours of a
  graph.  Its state is the record \<open>slider\<close>; the four methods \<open>_mouseCapture\<close>,
  \<open>_mouseStart\<close>, \<open>_mouseDrag\<close> and \<open>_mouseStop\<close> are the hooks of the mouse
  interaction of \<open>UiMouse\<close>.  The geometry of the page is a parameter.  An undefined
  number is \<open>NaN\<close>, which compares and computes as \<open>undefined\<close> does.
\<close>

section \<open>State\<close>

datatype range_option = RangeOff | RangeTrue | RangeMin | RangeMax

text \<open>The text of a handle: \<open>h:00\<close> and \<open>h:59\<close>.\<close>

datatype tooltip = Hour js_num | LastMinute js_num | NoTip

record handle =
  h_id :: string
  h_tip :: tooltip
  h_pos :: js_num
  h_active :: bool
  h_focus :: bool
  h_hover :: bool
  h_disabled :: bool

record ui_data =
  ui_value :: js_num
  ui_values :: "js_num list option"

record slider_options =
  opt_values :: "js_num list option"
  opt_value :: js_num
  opt_min :: real
  opt_max :: real
  opt_step :: real
  opt_range :: range_option
  opt_disabled :: bool
  opt_vertical :: bool
  opt_name :: string

record slider =
  s_opt :: slider_options
  s_vertical :: bool
  s_keySliding :: bool
  s_handleIndex :: "nat option"
  s_clickOffset :: "(real \<times> real) option"
  s_size :: "real \<times> real"
  s_offset :: "real \<times> real"
  s_handles :: "handle list"
  s_hasRange :: bool
  s_range_at :: js_num
  s_range_len :: js_num
  s_log :: "(string \<times> ui_data) list"

definition slider_defaults :: slider_options where
  "slider_defaults =
     \<lparr>opt_values = None, opt_value = Fin 0, opt_min = 0, opt_max = 100, opt_step = 1,
      opt_range = RangeOff, opt_disabled = False, opt_vertical = False, opt_name = []\<rparr>"

section \<open>Values\<close>

definition valueMin :: "slider \<Rightarrow> js_num" where
  "valueMin s = Fin (opt_min (s_opt s))"

definition valueMax :: "slider \<Rightarrow> js_num" where
  "valueMax s = Fin (opt_max (s_opt s))"

definition slider_step :: "slider \<Rightarrow> js_num" where
  "slider_step s = Fin (opt_step (s_opt s))"

definition has_values :: "slider \<Rightarrow> bool" where
  "has_values s = (case opt_values (s_opt s) of None \<Rightarrow> False | Some vs \<Rightarrow> vs \<noteq> [])"

definition clamp :: "slider \<Rightarrow> js_num \<Rightarrow> js_num" where
  "clamp s val =
     (let val = (if js_less val (valueMin s) then valueMin s else val)
      in if js_less (valueMax s) val then valueMax s else val)"

definition get_value :: "slider \<Rightarrow> js_num" where
  "get_value s = clamp s (opt_value (s_opt s))"

definition nth_value :: "slider \<Rightarrow> nat \<Rightarrow> js_num" where
  "nth_value s index =
     (case opt_values (s_opt s) of
        None \<Rightarrow> NaN
      | Some vs \<Rightarrow> if index < length vs then vs ! index else NaN)"

text \<open>\<open>values(index)\<close>\<close>

definition values_at :: "slider \<Rightarrow> nat \<Rightarrow> js_num" where
  "values_at s index = (if has_values s then clamp s (nth_value s index) else get_value s)"

definition detectOrientation :: "slider \<Rightarrow> slider" where
  "detectOrientation s = s\<lparr>s_vertical := opt_vertical (s_opt s)\<rparr>"

section \<open>Drawing\<close>

definition valPercent :: "slider \<Rightarrow> js_num \<Rightarrow> js_num" where
  "valPercent s v = js_mul (js_div (js_sub v (valueMin s)) (js_sub (valueMax s) (valueMin s))) (Fin 100)"

text \<open>
  \<open>_refreshValue\<close>.  The positions are those at the end of an animation; on the two
  orientations they are \<open>left\<close> and \<open>width\<close>, or \<open>bottom\<close> and \<open>height\<close>.
\<close>

definition refreshValue :: "slider \<Rightarrow> slider" where
  "refreshValue s =
     (if has_values s
      then let pcs = map (\<lambda>i. valPercent s (values_at s i)) [0..<length (s_handles s)];
               s1 = s\<lparr>s_handles := map (\<lambda>(h, p). h\<lparr>h_pos := p\<rparr>) (zip (s_handles s) pcs)\<rparr>
           in if opt_range (s_opt s) = RangeTrue
              then s1\<lparr>s_range_at := (if length pcs > 0 then pcs ! 0 else s_range_at s),
                      s_range_len := (if length pcs > 1 then js_sub (pcs ! 1) (pcs ! 0) else s_range_len s)\<rparr>
              else s1
      else let p = (if js_eq (valueMax s) (valueMin s) then Fin 0 else valPercent s (get_value s));
               s1 = s\<lparr>s_handles := (case s_handles s of [] \<Rightarrow> [] | h # hs \<Rightarrow> h\<lparr>h_pos := p\<rparr> # hs)\<rparr>
           in case opt_range (s_opt s) of
                RangeMin \<Rightarrow> s1\<lparr>s_range_len := p\<rparr>
              | RangeMax \<Rightarrow> s1\<lparr>s_range_len := js_sub (Fin 100) p\<rparr>
              | _ \<Rightarrow> s1)"

section \<open>Events\<close>

text \<open>\<open>cb\<close> is what \<open>_trigger\<close> returns: whether no callback returned false or prevented the default.\<close>

type_synonym callbacks = "string \<Rightarrow> ui_data \<Rightarrow> bool"

definition slider_trigger :: "callbacks \<Rightarrow> slider \<Rightarrow> string \<Rightarrow> ui_data \<Rightarrow> slider \<times> bool" where
  "slider_trigger cb s type data =
     (s\<lparr>s_log := s_log s @ [(event_name ''slide'' type, data)]\<rparr>, cb type data)"

definition uiHash :: "slider \<Rightarrow> nat \<Rightarrow> ui_data" where
  "uiHash s index =
     (if has_values s then \<lparr>ui_value = values_at s index, ui_values = opt_values (s_opt s)\<rparr>
      else \<lparr>ui_value = get_value s, ui_values = None\<rparr>)"

definition slider_start :: "callbacks \<Rightarrow> slider \<Rightarrow> nat \<Rightarrow> slider" where
  "slider_start cb s index = fst (slider_trigger cb s ''start'' (uiHash s index))"

definition slider_stop :: "callbacks \<Rightarrow> slider \<Rightarrow> nat \<Rightarrow> slider" where
  "slider_stop cb s index = fst (slider_trigger cb s ''stop'' (uiHash s index))"

definition slider_change :: "callbacks \<Rightarrow> slider \<Rightarrow> nat \<Rightarrow> slider" where
  "slider_change cb s index = fst (slider_trigger cb s ''change'' (uiHash s index))"

text \<open>Assignment to an element of an array, which grows when the index is beyond its end.\<close>

definition list_set :: "js_num list \<Rightarrow> nat \<Rightarrow> js_num \<Rightarrow> js_num list" where
  "list_set vs i v =
     (if i < length vs then vs[i := v] else vs @ replicate (i - length vs) NaN @ [v])"

definition set_nth_value :: "slider \<Rightarrow> nat \<Rightarrow> js_num \<Rightarrow> slider" where
  "set_nth_value s index v =
     s\<lparr>s_opt := (s_opt s)\<lparr>opt_values := map_option (\<lambda>vs. list_set vs index v) (opt_values (s_opt s))\<rparr>\<rparr>"

text \<open>\<open>values(index, newValue, animated, noPropagation)\<close> on a slider that has values.\<close>

definition slider_values_set :: "callbacks \<Rightarrow> slider \<Rightarrow> nat \<Rightarrow> js_num \<Rightarrow> bool \<Rightarrow> slider" where
  "slider_values_set cb s index newValue noPropagation =
     (let s = refreshValue (set_nth_value s index newValue)
      in if noPropagation then s else slider_change cb s index)"

datatype slider_option =
    SetDisabled bool
  | SetVertical bool
  | SetValue js_num
  | SetMin real
  | SetMax real
  | SetStep real
  | SetValues "js_num list option"

definition slider_store :: "slider \<Rightarrow> slider_option \<Rightarrow> slider" where
  "slider_store s opt =
     (case opt of
        SetDisabled b \<Rightarrow> s\<lparr>s_opt := (s_opt s)\<lparr>opt_disabled := b\<rparr>\<rparr>
      | SetVertical b \<Rightarrow> s\<lparr>s_opt := (s_opt s)\<lparr>opt_vertical := b\<rparr>\<rparr>
      | SetValue v \<Rightarrow> s\<lparr>s_opt := (s_opt s)\<lparr>opt_value := v\<rparr>\<rparr>
      | SetMin x \<Rightarrow> s\<lparr>s_opt := (s_opt s)\<lparr>opt_min := x\<rparr>\<rparr>
      | SetMax x \<Rightarrow> s\<lparr>s_opt := (s_opt s)\<lparr>opt_max := x\<rparr>\<rparr>
      | SetStep x \<Rightarrow> s\<lparr>s_opt := (s_opt s)\<lparr>opt_step := x\<rparr>\<rparr>
      | SetValues vs \<Rightarrow> s\<lparr>s_opt := (s_opt s)\<lparr>opt_values := vs\<rparr>\<rparr>)"

text \<open>The case of \<open>disabled\<close> runs on into the one of \<open>orientation\<close>.\<close>

definition slider_setData :: "slider \<Rightarrow> slider_option \<Rightarrow> slider" where
  "slider_setData s opt =
     (let s = slider_store s opt
      in case opt of
           SetDisabled b \<Rightarrow>
             refreshValue (detectOrientation
               (s\<lparr>s_handles := map (\<lambda>h. if b then h\<lparr>h_focus := False, h_hover := False, h_disabled := True\<rparr>
                                        else h\<lparr>h_disabled := False\<rparr>) (s_handles s)\<rparr>))
         | SetVertical _ \<Rightarrow> refreshValue (detectOrientation s)
         | SetValue _ \<Rightarrow> refreshValue s
         | _ \<Rightarrow> s)"

definition slider_value_set :: "callbacks \<Rightarrow> slider \<Rightarrow> js_num \<Rightarrow> slider" where
  "slider_value_set cb s newValue = slider_change cb (slider_setData s (SetValue newValue)) 0"

text \<open>A handle of a range slider is not moved past the other one.\<close>

definition limit_slide :: "slider \<Rightarrow> nat \<Rightarrow> js_num \<Rightarrow> js_num" where
  "limit_slide s index newVal =
     (let otherVal = values_at s (if index \<noteq> 0 then 0 else 1)
      in if map_option length (opt_values (s_opt s)) = Some 2 \<and> opt_range (s_opt s) = RangeTrue \<and>
            (index = 0 \<and> js_less otherVal newVal \<or> index = 1 \<and> js_less newVal otherVal)
         then otherVal else newVal)"

text \<open>
  \<open>_slide\<close>.  \<open>newValues\<close> is the array of the option itself, so the assignment to its
  element changes the option before the callback is asked.
\<close>

definition slider_slide :: "callbacks \<Rightarrow> slider \<Rightarrow> nat \<Rightarrow> js_num \<Rightarrow> slider" where
  "slider_slide cb s index newVal =
     (if has_values s
      then let newVal = limit_slide s index newVal
           in if \<not> js_eq newVal (values_at s index)
              then let s = set_nth_value s index newVal;
                       (s, allowed) = slider_trigger cb s ''slide''
                         \<lparr>ui_value = newVal, ui_values = opt_values (s_opt s)\<rparr>
                   in if allowed then slider_values_set cb s index newVal True else s
              else s
      else if \<not> js_eq newVal (get_value s)
           then let (s, allowed) = slider_trigger cb s ''slide'' \<lparr>ui_value = newVal, ui_values = None\<rparr>
                in if allowed then slider_setData s (SetValue newVal) else s
           else s)"

section \<open>Mouse\<close>

record handle_geometry =
  hg_left :: real
  hg_top :: real
  hg_width :: real
  hg_height :: real
  hg_borderTop :: real
  hg_borderBottom :: real
  hg_marginTop :: real

record geometry =
  g_size :: "real \<times> real"
  g_offset :: "real \<times> real"
  g_handle :: "nat \<Rightarrow> handle_geometry"
  g_on_handle :: "nat \<Rightarrow> bool"

definition pixelTotal :: "slider \<Rightarrow> real" where
  "pixelTotal s = (if s_vertical s then snd (s_size s) else fst (s_size s))"

definition pixelMouse :: "slider \<Rightarrow> real \<Rightarrow> real \<Rightarrow> real" where
  "pixelMouse s x y =
     (let click = (case s_clickOffset s of None \<Rightarrow> (0, 0) | Some c \<Rightarrow> c)
      in if s_vertical s then y - snd (s_offset s) - snd click else x - fst (s_offset s) - fst click)"

definition percentMouse :: "slider \<Rightarrow> real \<Rightarrow> real \<Rightarrow> js_num" where
  "percentMouse s pixel size' =
     (let p = js_div (Fin pixel) (Fin size');
          p = (if js_less (Fin 1) p then Fin 1 else p);
          p = (if js_less p (Fin 0) then Fin 0 else p)
      in if s_vertical s then js_sub (Fin 1) p else p)"

definition normValueFromMouse :: "slider \<Rightarrow> real \<Rightarrow> real \<Rightarrow> js_num" where
  "normValueFromMouse s x y =
     (let valueTotal = js_sub (valueMax s) (valueMin s);
          valueMouse = js_mul (percentMouse s (pixelMouse s x y) (pixelTotal s)) valueTotal;
          valueMouseModStep = js_rem valueMouse (slider_step s);
          normValue = js_sub (js_add (valueMin s) valueMouse) valueMouseModStep;
          normValue = (if js_less (js_div (slider_step s) (Fin 2)) valueMouseModStep
                       then js_add normValue (slider_step s) else normValue)
      in js_toFixed 5 normValue)"

text \<open>The handle at the least distance, the first one among equals.\<close>

definition closest_handle :: "slider \<Rightarrow> js_num \<Rightarrow> nat option" where
  "closest_handle s normValue =
     snd (foldl (\<lambda>(dist, index) i.
       let thisDistance = js_abs (js_sub normValue (values_at s i))
       in if js_less thisDistance dist then (thisDistance, Some i) else (dist, index))
       (js_add (js_sub (valueMax s) (valueMin s)) (Fin 1), None) [0..<length (s_handles s)])"

definition update_handle :: "nat \<Rightarrow> (handle \<Rightarrow> handle) \<Rightarrow> slider \<Rightarrow> slider" where
  "update_handle index f s =
     s\<lparr>s_handles := (if index < length (s_handles s)
                     then (s_handles s)[index := f (s_handles s ! index)] else s_handles s)\<rparr>"

text \<open>The focus handler of a handle.\<close>

definition focus_handle :: "nat \<Rightarrow> slider \<Rightarrow> slider" where
  "focus_handle index s =
     (if \<not> opt_disabled (s_opt s)
      then update_handle index (\<lambda>h. h\<lparr>h_focus := True\<rparr>)
             (s\<lparr>s_handles := map (\<lambda>h. h\<lparr>h_focus := False\<rparr>) (s_handles s)\<rparr>)
      else update_handle index (\<lambda>h. h\<lparr>h_focus := False\<rparr>) s)"

text \<open>
  The handle that \<open>_mouseCapture\<close> activates.  When no handle is close, or the
  workaround steps beyond the last one, there is none.
\<close>

definition capture_index :: "slider \<Rightarrow> js_num \<Rightarrow> nat option" where
  "capture_index s normValue =
     (case closest_handle s normValue of
        None \<Rightarrow> None
      | Some i \<Rightarrow>
          let index = (if opt_range (s_opt s) = RangeTrue \<and> js_eq (values_at s 1) (valueMin s)
                       then i + 1 else i)
          in if index \<ge> length (s_handles s) then None else Some index)"

definition activate_handle :: "geometry \<Rightarrow> callbacks \<Rightarrow> slider \<Rightarrow> mouse_event \<Rightarrow> nat \<Rightarrow> slider" where
  "activate_handle g cb s ev index =
     (let s = slider_start cb s index;
          s = s\<lparr>s_handleIndex := Some index\<rparr>;
          s = update_handle index (\<lambda>h. h\<lparr>h_active := True\<rparr>) s;
          s = focus_handle index s;
          hg = g_handle g index
      in s\<lparr>s_clickOffset :=
             Some (if \<not> g_on_handle g (ev_target ev) then (0, 0)
                   else (ev_x ev - hg_left hg - hg_width hg / 2,
                         ev_y ev - hg_top hg - hg_height hg / 2 - hg_borderTop hg
                           - hg_borderBottom hg + hg_marginTop hg))\<rparr>)"

definition mouseCapture :: "geometry \<Rightarrow> callbacks \<Rightarrow> slider \<Rightarrow> mouse_event \<Rightarrow> (slider \<times> bool) option" where
  "mouseCapture g cb s ev =
     (if opt_disabled (s_opt s) then Some (s, False)
      else
        let s = s\<lparr>s_size := g_size g, s_offset := g_offset g\<rparr>
        in case capture_index s (normValueFromMouse s (ev_x ev) (ev_y ev)) of
             None \<Rightarrow> None
           | Some index \<Rightarrow>
               let s = activate_handle g cb s ev index
               in Some (slider_slide cb s index (normValueFromMouse s (ev_x ev) (ev_y ev)), True))"

definition mouseStart :: "slider \<Rightarrow> mouse_event \<Rightarrow> (slider \<times> bool) option" where
  "mouseStart s ev = Some (s, True)"

text \<open>A drag without a handle index would store a value under the index \<open>null\<close>.\<close>

definition mouseDrag :: "callbacks \<Rightarrow> slider \<Rightarrow> mouse_event \<Rightarrow> slider option" where
  "mouseDrag cb s ev =
     (case s_handleIndex s of
        None \<Rightarrow> None
      | Some index \<Rightarrow> Some (slider_slide cb s index (normValueFromMouse s (ev_x ev) (ev_y ev))))"

definition mouseStop :: "callbacks \<Rightarrow> slider \<Rightarrow> mouse_event \<Rightarrow> slider option" where
  "mouseStop cb s ev =
     (case s_handleIndex s of
        None \<Rightarrow> None
      | Some index \<Rightarrow>
          let s = s\<lparr>s_handles := map (\<lambda>h. h\<lparr>h_active := False\<rparr>) (s_handles s)\<rparr>;
              s = slider_change cb (slider_stop cb s index) index
          in Some (s\<lparr>s_handleIndex := None, s_clickOffset := None\<rparr>))"

definition slider_hooks :: "geometry \<Rightarrow> callbacks \<Rightarrow> slider hooks" where
  "slider_hooks g cb =
     \<lparr>h_capture = mouseCapture g cb, h_start = mouseStart, h_drag = mouseDrag cb, h_stop = mouseStop cb\<rparr>"

text \<open>The defaults of \<open>distance\<close> and \<open>delay\<close>.\<close>

definition slider_mouse_options :: "bool \<Rightarrow> mouse_options" where
  "slider_mouse_options ie = \<lparr>distance = 0, delay = 0, msie = ie\<rparr>"

section \<open>Keyboard\<close>

datatype slider_key = HomeKey | EndKey | UpKey | RightKey | DownKey | LeftKey | OtherKey

definition key_of_code :: "nat \<Rightarrow> slider_key" where
  "key_of_code k =
     (if k = 36 then HomeKey else if k = 35 then EndKey else if k = 38 then UpKey
      else if k = 39 then RightKey else if k = 40 then DownKey else if k = 37 then LeftKey else OtherKey)"

text \<open>The first \<open>switch\<close> of the handler, and the new value of the second; \<open>None\<close> is the early return.\<close>

definition key_begin :: "callbacks \<Rightarrow> slider \<Rightarrow> nat \<Rightarrow> slider_key \<Rightarrow> slider" where
  "key_begin cb s index key =
     (if key \<noteq> OtherKey \<and> \<not> s_keySliding s
      then slider_start cb
             (update_handle index (\<lambda>h. h\<lparr>h_active := True\<rparr>) (s\<lparr>s_keySliding := True\<rparr>)) index
      else s)"

definition key_value :: "slider \<Rightarrow> nat \<Rightarrow> slider_key \<Rightarrow> js_num option" where
  "key_value s index key =
     (let curVal = (if has_values s then values_at s index else get_value s)
      in case key of
           HomeKey \<Rightarrow> Some (valueMin s)
         | EndKey \<Rightarrow> Some (valueMax s)
         | OtherKey \<Rightarrow> Some curVal
         | _ \<Rightarrow>
             if key = UpKey \<or> key = RightKey
             then if js_eq curVal (valueMax s) then None else Some (js_add curVal (slider_step s))
             else if js_eq curVal (valueMin s) then None else Some (js_sub curVal (slider_step s)))"

text \<open>The second component is the value returned, \<open>None\<close> for \<open>undefined\<close>.\<close>

definition slider_keydown :: "callbacks \<Rightarrow> slider \<Rightarrow> nat \<Rightarrow> nat \<Rightarrow> slider \<times> bool option" where
  "slider_keydown cb s index code =
     (let key = key_of_code code
      in if opt_disabled (s_opt s) then (s, None)
         else
           let s = key_begin cb s index key
           in case key_value s index key of
                None \<Rightarrow> (s, None)
              | Some newVal \<Rightarrow> (slider_slide cb s index newVal, Some (key = OtherKey)))"

definition slider_keyup :: "callbacks \<Rightarrow> slider \<Rightarrow> nat \<Rightarrow> slider" where
  "slider_keyup cb s index =
     (if s_keySliding s
      then update_handle index (\<lambda>h. h\<lparr>h_active := False\<rparr>)
             ((slider_change cb (slider_stop cb s index) index)\<lparr>s_keySliding := False\<rparr>)
      else s)"

definition slider_hover :: "slider \<Rightarrow> nat \<Rightarrow> bool \<Rightarrow> slider" where
  "slider_hover s index enter =
     (if enter then if \<not> opt_disabled (s_opt s) then update_handle index (\<lambda>h. h\<lparr>h_hover := True\<rparr>) s else s
      else update_handle index (\<lambda>h. h\<lparr>h_hover := False\<rparr>) s)"

section \<open>Making and removing a slider\<close>

definition new_handle :: "string \<Rightarrow> tooltip \<Rightarrow> handle" where
  "new_handle i t =
     \<lparr>h_id = i, h_tip = t, h_pos = NaN, h_active = False, h_focus = False, h_hover = False, h_disabled = False\<rparr>"

definition parse_hour :: "js_num \<Rightarrow> js_num" where
  "parse_hour v = (case v of Fin x \<Rightarrow> Fin (of_int (js_trunc x)) | _ \<Rightarrow> NaN)"

text \<open>The values of a range slider.\<close>

definition range_values :: "slider_options \<Rightarrow> js_num list option" where
  "range_values o' =
     (if opt_range o' = RangeTrue
      then (case opt_values o' of
              None \<Rightarrow> Some [Fin (opt_min o'), Fin (opt_min o')]
            | Some [] \<Rightarrow> Some []
            | Some (v # vs) \<Rightarrow> Some (if length (v # vs) \<noteq> 2 then [v, v] else v # vs))
      else opt_values o')"

text \<open>
  \<open>existing\<close> are the handles already in the element.  The text of the first new handle
  reads \<open>this.values()[0]\<close>, which throws when there are no values.
\<close>

definition slider_init :: "slider_options \<Rightarrow> handle list \<Rightarrow> slider option" where
  "slider_init o' existing =
     (let o' = o'\<lparr>opt_values := range_values o'\<rparr>;
          first = (case (existing, opt_values o') of
                     ([], None) \<Rightarrow> None
                   | ([], Some vs) \<Rightarrow>
                       Some [new_handle (opt_name o' @ ''1'') (Hour (if vs = [] then NaN else vs ! 0))]
                   | (hs, _) \<Rightarrow> Some hs)
      in case first of
           None \<Rightarrow> None
         | Some hs \<Rightarrow>
             let n = (case opt_values o' of None \<Rightarrow> 0 | Some vs \<Rightarrow> length vs);
                 second = (case opt_values o' of
                             Some vs \<Rightarrow> if length vs > 1 then parse_hour (vs ! 1) else NaN | None \<Rightarrow> NaN);
                 hs = hs @ replicate (n - length hs)
                        (new_handle (opt_name o' @ ''2'') (LastMinute (js_sub second (Fin 1))))
             in Some (refreshValue (detectOrientation
                  \<lparr>s_opt = o', s_vertical = False, s_keySliding = False, s_handleIndex = None,
                   s_clickOffset = None, s_size = (0, 0), s_offset = (0, 0), s_handles = hs,
                   s_hasRange = (opt_range o' \<noteq> RangeOff), s_range_at = NaN, s_range_len = NaN, s_log = []\<rparr>)))"

definition slider_destroy :: "slider \<Rightarrow> slider" where
  "slider_destroy s = s\<lparr>s_handles := [], s_hasRange := False\<rparr>"

section \<open>Values on the grid\<close>

text \<open>
  The options of the panel are of this kind: the least value and the step are
  integers and the greatest value is a whole number of steps away.
\<close>

definition int_grid :: "slider \<Rightarrow> bool" where
  "int_grid s \<longleftrightarrow>
     (\<exists>lo st :: int. \<exists>n :: nat. opt_min (s_opt s) = of_int lo \<and> opt_step (s_opt s) = of_int st \<and> 0 < st \<and>
        opt_max (s_opt s) = of_int lo + real n * of_int st)"

definition on_grid :: "slider \<Rightarrow> real \<Rightarrow> bool" where
  "on_grid s x \<longleftrightarrow>
     (\<exists>k :: nat. x = opt_min (s_opt s) + real k * opt_step (s_opt s) \<and> x \<le> opt_max (s_opt s))"

lemma int_gridE:
  assumes "int_grid s"
  obtains lo st :: int and n :: nat where "opt_min (s_opt s) = of_int lo" "opt_step (s_opt s) = of_int st"
    "0 < st" "opt_max (s_opt s) = of_int lo + real n * of_int st"
  using assms by (auto simp: int_grid_def)

lemma grid_bounds: "int_grid s \<Longrightarrow> on_grid s x \<Longrightarrow> opt_min (s_opt s) \<le> x \<and> x \<le> opt_max (s_opt s)"
  by (auto simp: int_grid_def on_grid_def)

lemma grid_ends: "int_grid s \<Longrightarrow> on_grid s (opt_min (s_opt s))" "int_grid s \<Longrightarrow> on_grid s (opt_max (s_opt s))"
  by (auto simp: int_grid_def on_grid_def intro: exI [of _ 0])

lemma grid_up:
  assumes "int_grid s" and "on_grid s x" and "x \<noteq> opt_max (s_opt s)"
  shows "on_grid s (x + opt_step (s_opt s))"
proof -
  from assms(1) obtain lo st :: int and n :: nat where g: "opt_min (s_opt s) = of_int lo"
    "opt_step (s_opt s) = of_int st" "0 < st" "opt_max (s_opt s) = of_int lo + real n * of_int st"
    by (rule int_gridE)
  from assms(2) obtain k :: nat where k: "x = of_int lo + real k * of_int st" "x \<le> of_int lo + real n * of_int st"
    unfolding on_grid_def g by blast
  then have "k \<le> n" using g(3) by simp
  moreover have "k \<noteq> n" using assms(3) k g by auto
  ultimately have "k + 1 \<le> n" by simp
  then have "real (k + 1) \<le> real n" by (simp only: of_nat_le_iff)
  then have "real (k + 1) * of_int st \<le> real n * of_int st" using g(3) by (intro mult_right_mono) auto
  then show ?thesis unfolding on_grid_def g using k
    by (intro exI [of _ "k + 1"]) (simp add: algebra_simps)
qed

lemma grid_down:
  assumes "int_grid s" and "on_grid s x" and "x \<noteq> opt_min (s_opt s)"
  shows "on_grid s (x - opt_step (s_opt s))"
proof -
  from assms(2) obtain k :: nat where
    k: "x = opt_min (s_opt s) + real k * opt_step (s_opt s)" "x \<le> opt_max (s_opt s)"
    by (auto simp: on_grid_def)
  with assms(3) obtain j where "k = Suc j" by (cases k) auto
  moreover have "0 < opt_step (s_opt s)" using assms(1) by (auto simp: int_grid_def)
  ultimately show ?thesis using k unfolding on_grid_def
    by (intro exI [of _ j]) (simp add: algebra_simps)
qed

lemma clamp_grid: "int_grid s \<Longrightarrow> on_grid s x \<Longrightarrow> clamp s (Fin x) = Fin x"
  using grid_bounds [of s x] by (auto simp: clamp_def valueMin_def valueMax_def)

lemma percentMouse_unit:
  assumes "0 < width"
  shows "\<exists>p. percentMouse s px width = Fin p \<and> 0 \<le> p \<and> p \<le> 1"
  using assms by (auto simp: percentMouse_def Let_def)

lemma nearest_step:
  fixes st :: int
  assumes "0 < st" and "0 \<le> v" and "v \<le> real n * of_int st"
  defines "r \<equiv> v - of_int st * of_int \<lfloor>v / of_int st\<rfloor>"
  shows "\<exists>k :: nat. k \<le> n \<and> (if of_int st / 2 < r then v - r + of_int st else v - r) = real k * of_int st \<and>
    \<bar>real k * of_int st - v\<bar> \<le> of_int st / 2"
proof -
  let ?q = "\<lfloor>v / of_int st\<rfloor>" and ?s = "real_of_int st"
  have s: "0 < ?s" using assms(1) by simp
  have r: "0 \<le> r" "r < ?s" unfolding r_def using js_rem_bounds [OF assms(2) s] by simp_all
  have q: "0 \<le> ?q" using assms(2) s by simp
  have vr: "v - r = of_int ?q * ?s" by (simp add: r_def)
  have up: "of_int ?q * ?s \<le> real n * ?s" using vr r assms(3) by linarith
  then have qn: "nat ?q \<le> n" using s q by (simp add: nat_le_iff)
  show ?thesis
  proof (cases "?s / 2 < r")
    case True
    then have "of_int ?q * ?s < real n * ?s" using vr r assms(3) s by linarith
    then have "nat ?q + 1 \<le> n" using s q by (simp add: Suc_le_eq nat_less_iff)
    moreover have "v - r + ?s = real (nat ?q + 1) * ?s" using vr q by (simp add: algebra_simps)
    ultimately show ?thesis using True r by (intro exI [of _ "nat ?q + 1"]) auto
  next
    case False
    have "v - r = real (nat ?q) * ?s" using vr q by simp
    then show ?thesis using False r qn by (intro exI [of _ "nat ?q"]) auto
  qed
qed

lemma normValue_on_grid:
  assumes grid: "int_grid s" and extent: "0 < pixelTotal s"
  shows "\<exists>x p. normValueFromMouse s mx my = Fin x \<and> on_grid s x \<and>
    percentMouse s (pixelMouse s mx my) (pixelTotal s) = Fin p \<and> 0 \<le> p \<and> p \<le> 1 \<and>
    \<bar>x - (opt_min (s_opt s) + p * (opt_max (s_opt s) - opt_min (s_opt s)))\<bar> \<le> opt_step (s_opt s) / 2"
proof -
  from grid obtain lo st :: int and n :: nat where g: "opt_min (s_opt s) = of_int lo"
    "opt_step (s_opt s) = of_int st" "0 < st" "opt_max (s_opt s) = of_int lo + real n * of_int st"
    by (rule int_gridE)
  from percentMouse_unit [OF extent, of s "pixelMouse s mx my"] obtain p where
    p: "percentMouse s (pixelMouse s mx my) (pixelTotal s) = Fin p" "0 \<le> p" "p \<le> 1" by blast
  define v where "v = p * (real n * of_int st)"
  have v: "0 \<le> v" "v \<le> real n * of_int st"
    using p g(3) by (auto simp: v_def intro: mult_left_le_one_le)
  define r where "r = v - of_int st * of_int \<lfloor>v / of_int st\<rfloor>"
  from nearest_step [OF g(3) v] obtain k :: nat where k: "k \<le> n"
    "(if of_int st / 2 < r then v - r + of_int st else v - r) = real k * of_int st"
    "\<bar>real k * of_int st - v\<bar> \<le> of_int st / 2" unfolding r_def by blast
  have st: "0 < real_of_int st" using g(3) by simp
  have "normValueFromMouse s mx my =
      js_toFixed 5 (if of_int st / 2 < r then Fin (of_int lo + v - r + of_int st) else Fin (of_int lo + v - r))"
    unfolding normValueFromMouse_def Let_def valueMax_def valueMin_def slider_step_def g p(1)
    by (simp add: js_rem_fin [OF v(1) st] flip: v_def) (simp add: r_def algebra_simps)
  also have "(if of_int st / 2 < r then Fin (of_int lo + v - r + of_int st) else Fin (of_int lo + v - r))
      = Fin (of_int lo + (if of_int st / 2 < r then v - r + of_int st else v - r))" by simp
  also have "\<dots> = Fin (of_int (lo + int k * st))" by (simp only: k(2)) simp
  also have "js_toFixed 5 \<dots> = \<dots>" unfolding js_toFixed_def by (simp only: js_num.case round_half_away_int)
  finally have eq: "normValueFromMouse s mx my = Fin (of_int lo + real k * of_int st)" by simp
  have "real k * of_int st \<le> real n * of_int st" using k(1) st by (intro mult_right_mono) auto
  then have "on_grid s (of_int lo + real k * of_int st)"
    unfolding on_grid_def g by (intro exI [of _ k]) simp
  with eq p k(3) show ?thesis unfolding g by (intro exI conjI) (auto simp: v_def)
qed

section \<open>The range slider\<close>

text \<open>A slider as the panel makes it: two handles on the grid, the first not beyond the second.\<close>

definition range_ok :: "slider \<Rightarrow> real \<Rightarrow> real \<Rightarrow> bool" where
  "range_ok s x y \<longleftrightarrow>
     int_grid s \<and> opt_range (s_opt s) = RangeTrue \<and> length (s_handles s) = 2 \<and>
     opt_values (s_opt s) = Some [Fin x, Fin y] \<and> on_grid s x \<and> on_grid s y \<and> x \<le> y"

text \<open>What the operations leave alone.\<close>

definition same_frame :: "slider \<Rightarrow> slider \<Rightarrow> bool" where
  "same_frame s t \<longleftrightarrow>
     (s_opt t)\<lparr>opt_values := None\<rparr> = (s_opt s)\<lparr>opt_values := None\<rparr> \<and> s_vertical t = s_vertical s \<and>
     s_handleIndex t = s_handleIndex s \<and> s_size t = s_size s \<and> s_offset t = s_offset s \<and>
     s_clickOffset t = s_clickOffset s \<and> s_keySliding t = s_keySliding s \<and>
     length (s_handles t) = length (s_handles s)"

lemma same_frame_refl [simp]: "same_frame s s"
  by (simp add: same_frame_def)

lemma frame_options:
  assumes "(s_opt t)\<lparr>opt_values := None\<rparr> = (s_opt s)\<lparr>opt_values := None\<rparr>"
  shows "opt_min (s_opt t) = opt_min (s_opt s)" "opt_max (s_opt t) = opt_max (s_opt s)"
    "opt_step (s_opt t) = opt_step (s_opt s)" "opt_range (s_opt t) = opt_range (s_opt s)"
    "opt_disabled (s_opt t) = opt_disabled (s_opt s)"
  using assms
  by (metis slider_options.select_convs slider_options.surjective slider_options.update_convs(1))+

lemma range_okI:
  assumes "same_frame s t" and "range_ok s a b" and "opt_values (s_opt t) = Some [Fin x, Fin y]"
    and "on_grid s x" and "on_grid s y" and "x \<le> y"
  shows "range_ok t x y"
proof -
  note f = frame_options [OF assms(1) [unfolded same_frame_def, THEN conjunct1]]
  have "length (s_handles t) = length (s_handles s)" using assms(1) by (simp add: same_frame_def)
  then show ?thesis using assms(2-6) by (simp add: range_ok_def int_grid_def on_grid_def f)
qed

lemma refresh_frame [simp]: "same_frame s (refreshValue s) \<and> opt_values (s_opt (refreshValue s)) = opt_values (s_opt s)"
  by (auto simp: refreshValue_def same_frame_def Let_def split: range_option.split list.split)

lemma trigger_frame [simp]:
  "same_frame s (fst (slider_trigger cb s type data))"
  "s_opt (fst (slider_trigger cb s type data)) = s_opt s"
  "s_handles (fst (slider_trigger cb s type data)) = s_handles s"
  by (simp_all add: slider_trigger_def same_frame_def)

lemma set_nth_frame [simp]: "same_frame s (set_nth_value s i v)"
  by (simp add: set_nth_value_def same_frame_def)

lemma same_frame_trans [trans]: "same_frame s t \<Longrightarrow> same_frame t u \<Longrightarrow> same_frame s u"
  by (simp add: same_frame_def)

lemma range_values_at:
  "range_ok s x y \<Longrightarrow> has_values s \<and> values_at s 0 = Fin x \<and> values_at s (Suc 0) = Fin y"
  by (simp add: range_ok_def values_at_def has_values_def nth_value_def clamp_grid)

text \<open>
  A slide of a range slider: the handle goes to the new value, but not past the other handle,
  whatever the callback returns; only a slide that is allowed is drawn.
\<close>

lemma slide_range:
  fixes cb :: callbacks
  assumes ok: "range_ok s x y" and v: "on_grid s v" and i: "i < 2"
  defines "t \<equiv> slider_slide cb s i (Fin v)"
  shows "same_frame s t \<and> range_ok t (if i = 0 then min v y else x) (if i = 0 then y else max v x)"
proof -
  note at = range_values_at [OF ok]
  have vals: "opt_values (s_opt s) = Some [Fin x, Fin y]" "opt_range (s_opt s) = RangeTrue"
    and grid: "on_grid s x" "on_grid s y" "x \<le> y" using ok by (auto simp: range_ok_def)
  define w where "w = (if i = 0 then min v y else max v x)"
  have w: "on_grid s w" using v grid by (simp add: w_def min_def max_def)
  define s1 where "s1 = set_nth_value s i (Fin w)"
  define d where "d = \<lparr>ui_value = Fin w, ui_values = opt_values (s_opt s1)\<rparr>"
  define s2 where "s2 = fst (slider_trigger cb s1 ''slide'' d)"
  have limit: "limit_slide s i (Fin v) = Fin w"
    using i at vals by (auto simp: limit_slide_def w_def min_def max_def less_2_cases_iff)
  have cur: "values_at s i = Fin (if i = 0 then x else y)" using i at by (auto simp: less_2_cases_iff)
  have t: "t = (if w = (if i = 0 then x else y) then s
      else if cb ''slide'' d then slider_values_set cb s2 i (Fin w) True else s2)"
    using at unfolding t_def slider_slide_def
    by (simp add: Let_def limit cur s1_def d_def s2_def slider_trigger_def)
  have o2: "same_frame s s2" "opt_values (s_opt s2) = Some ([Fin x, Fin y][i := Fin w])"
    using vals i same_frame_trans [OF set_nth_frame [of s i "Fin w"] trigger_frame(1)]
    by (auto simp: s2_def s1_def set_nth_value_def list_set_def)
  have o3: "same_frame s (slider_values_set cb s2 i (Fin w) True) \<and>
      opt_values (s_opt (slider_values_set cb s2 i (Fin w) True)) = Some ([Fin x, Fin y][i := Fin w])"
    using o2 i same_frame_trans [OF same_frame_trans [OF o2(1) set_nth_frame [of s2 i "Fin w"]]
        refresh_frame [THEN conjunct1]]
    by (auto simp: slider_values_set_def set_nth_value_def list_set_def less_2_cases_iff)
  have frame: "same_frame s t" using o2 o3 by (simp add: t)
  have "opt_values (s_opt t) = Some ([Fin x, Fin y][i := Fin w])"
    using o2 o3 vals i by (auto simp: t less_2_cases_iff)
  then have "opt_values (s_opt t) = Some [Fin (if i = 0 then w else x), Fin (if i = 0 then y else w)]"
    using i by (auto simp: less_2_cases_iff)
  from range_okI [OF frame ok this] w grid frame show ?thesis
    by (auto simp: w_def min_def max_def split: if_splits)
qed

text \<open>Events and the marks of the handles do not touch the values.\<close>

definition same_values :: "slider \<Rightarrow> slider \<Rightarrow> bool" where
  "same_values s t \<longleftrightarrow> s_opt t = s_opt s \<and> s_vertical t = s_vertical s \<and>
     length (s_handles t) = length (s_handles s)"

lemma same_values_ok: "same_values s t \<Longrightarrow> range_ok t x y = range_ok s x y"
  by (simp add: same_values_def range_ok_def int_grid_def on_grid_def)

lemma same_values_intros [simp]:
  "same_values s s"
  "same_values s (update_handle i f t) = same_values s t"
  "same_values s (slider_start cb t i) = same_values s t"
  "same_values s (slider_stop cb t i) = same_values s t"
  "same_values s (slider_change cb t i) = same_values s t"
  "same_values s (focus_handle i t) = same_values s t"
  "same_values s (t\<lparr>s_handleIndex := hi\<rparr>) = same_values s t"
  "same_values s (t\<lparr>s_clickOffset := co\<rparr>) = same_values s t"
  "same_values s (t\<lparr>s_size := sz\<rparr>) = same_values s t"
  "same_values s (t\<lparr>s_offset := off\<rparr>) = same_values s t"
  "same_values s (t\<lparr>s_keySliding := ks\<rparr>) = same_values s t"
  by (auto simp: same_values_def update_handle_def slider_start_def slider_stop_def slider_change_def
      slider_trigger_def focus_handle_def)

lemma same_values_map [simp]:
  "same_values s (t\<lparr>s_handles := map f (s_handles t)\<rparr>) = same_values s t"
  by (simp add: same_values_def)

text \<open>The two handles: the closer one is found, the first one when both are as close.\<close>

lemma closest_two:
  assumes "range_ok s x y" and "on_grid s v"
  shows "closest_handle s (Fin v) = Some (if \<bar>v - y\<bar> < \<bar>v - x\<bar> then 1 else 0)"
proof -
  have two: "[0..<length (s_handles s)] = [0, 1]" using assms(1) by (simp add: range_ok_def upt_rec)
  have "opt_min (s_opt s) \<le> v" "v \<le> opt_max (s_opt s)" "opt_min (s_opt s) \<le> x" "x \<le> opt_max (s_opt s)"
    using assms grid_bounds [of s] by (auto simp: range_ok_def)
  then have "\<bar>v - x\<bar> < opt_max (s_opt s) - opt_min (s_opt s) + 1" by linarith
  then show ?thesis using range_values_at [OF assms(1)]
    unfolding closest_handle_def two by (simp add: Let_def valueMax_def valueMin_def)
qed

text \<open>The size of the element along the slider is positive.\<close>

definition has_extent :: "slider \<Rightarrow> bool" where
  "has_extent s \<longleftrightarrow> 0 < pixelTotal s"

text \<open>\<open>o'\<close> are the options of the slider, less its values.\<close>

definition at_rest :: "slider_options \<Rightarrow> slider \<Rightarrow> bool" where
  "at_rest o' s \<longleftrightarrow> (\<exists>x y. range_ok s x y) \<and> (s_opt s)\<lparr>opt_values := None\<rparr> = o'"

definition dragging :: "slider_options \<Rightarrow> slider \<Rightarrow> bool" where
  "dragging o' s \<longleftrightarrow> at_rest o' s \<and> has_extent s \<and> (\<exists>i < 2. s_handleIndex s = Some i)"

lemma same_frame_extent: "same_frame s t \<Longrightarrow> has_extent t = has_extent s"
  by (simp add: same_frame_def has_extent_def pixelTotal_def)

lemma slide_dragging:
  assumes "dragging o' s" and "i < 2"
  shows "dragging o' (slider_slide cb s i (normValueFromMouse s mx my))"
proof -
  from assms(1) obtain x y where ok: "range_ok s x y" by (auto simp: dragging_def at_rest_def)
  have "int_grid s" using ok by (simp add: range_ok_def)
  with assms(1) obtain v where v: "normValueFromMouse s mx my = Fin v" "on_grid s v"
    using normValue_on_grid [of s mx my] by (auto simp: dragging_def has_extent_def pixelTotal_def)
  from slide_range [OF ok v(2) assms(2), of cb] assms(1) show ?thesis
    unfolding v(1) dragging_def at_rest_def by (auto simp: same_frame_extent) (auto simp: same_frame_def)
qed

lemma capture_index_two:
  assumes ok: "range_ok s x y" and v: "on_grid s v"
  shows "\<exists>j < 2. capture_index s (Fin v) = Some j"
proof (cases "y = opt_min (s_opt s)")
  case True
  have "x = y" using True ok grid_bounds [of s x] by (auto simp: range_ok_def)
  then show ?thesis using ok closest_two [OF ok v]
    by (simp add: capture_index_def range_ok_def)
next
  case False
  have "js_eq (values_at s 1) (valueMin s) = False"
    using range_values_at [OF ok] False by (simp add: valueMin_def)
  then show ?thesis using ok closest_two [OF ok v] by (simp add: capture_index_def range_ok_def)
qed

lemma activate_values:
  "same_values s (activate_handle g cb s ev j)"
  "s_size (activate_handle g cb s ev j) = s_size s"
  "s_handleIndex (activate_handle g cb s ev j) = Some j"
  by (simp_all add: activate_handle_def Let_def)
    (simp_all add: focus_handle_def update_handle_def slider_start_def slider_trigger_def)

lemma capture_range:
  assumes ok: "at_rest o' s" and size: "0 < fst (g_size g)" "0 < snd (g_size g)"
  shows "\<exists>t b. mouseCapture g cb s ev = Some (t, b) \<and> (if b then dragging o' t else at_rest o' t)"
proof (cases "opt_disabled (s_opt s)")
  case True
  then show ?thesis using ok by (intro exI [of _ s] exI [of _ False]) (simp add: mouseCapture_def)
next
  case False
  define u where "u = s\<lparr>s_size := g_size g, s_offset := g_offset g\<rparr>"
  from ok obtain x y where xy: "range_ok s x y" by (auto simp: at_rest_def)
  have "same_values s u" by (simp add: u_def)
  then have ok1: "range_ok u x y" using same_values_ok xy by blast
  have ext: "has_extent u" using size by (simp add: has_extent_def pixelTotal_def u_def)
  have "int_grid u" using ok1 by (simp add: range_ok_def)
  with ext obtain v where v: "normValueFromMouse u (ev_x ev) (ev_y ev) = Fin v" "on_grid u v"
    using normValue_on_grid [of u "ev_x ev" "ev_y ev"] by (auto simp: has_extent_def pixelTotal_def)
  from capture_index_two [OF ok1 v(2)] obtain j where j: "j < 2" "capture_index u (Fin v) = Some j" by blast
  define t where "t = activate_handle g cb u ev j"
  note a = activate_values [where s = u and g = g and cb = cb and ev = ev and j = j, folded t_def]
  have "range_ok t x y" "has_extent t"
    using same_values_ok [OF a(1)] ok1 a ext
    by (auto simp: has_extent_def pixelTotal_def same_values_def split: if_splits)
  moreover have "(s_opt t)\<lparr>opt_values := None\<rparr> = o'"
    using a(1) ok by (simp add: same_values_def at_rest_def u_def)
  ultimately have "dragging o' t" using a j by (auto simp: dragging_def at_rest_def)
  from slide_dragging [OF this j(1)] show ?thesis
    using False j v by (auto simp: mouseCapture_def Let_def simp flip: u_def t_def)
qed

lemma stop_range: "dragging o' s \<Longrightarrow> \<exists>t. mouseStop cb s ev = Some t \<and> at_rest o' t"
proof -
  assume "dragging o' s"
  then obtain i x y where i: "s_handleIndex s = Some i" and ok: "range_ok s x y"
    and o: "(s_opt s)\<lparr>opt_values := None\<rparr> = o'" by (auto simp: dragging_def at_rest_def)
  let ?t = "(slider_change cb (slider_stop cb (s\<lparr>s_handles := map (\<lambda>h. h\<lparr>h_active := False\<rparr>) (s_handles s)\<rparr>) i) i)
      \<lparr>s_handleIndex := None, s_clickOffset := None\<rparr>"
  have "same_values s ?t" by simp
  from same_values_ok [OF this] this ok o have "at_rest o' ?t" by (auto simp: at_rest_def same_values_def)
  with i show ?thesis by (simp add: mouseStop_def Let_def)
qed

text \<open>A geometry in which the element has a size.\<close>

definition geometry_ok :: "geometry \<Rightarrow> bool" where
  "geometry_ok g \<longleftrightarrow> 0 < fst (g_size g) \<and> 0 < snd (g_size g)"

lemma slider_client:
  "geometry_ok g \<Longrightarrow>
     immediate_client (slider_mouse_options ie) (slider_hooks g cb) (at_rest o') (dragging o') (dragging o')"
proof
  assume g: "geometry_ok g"
  show "distance (slider_mouse_options ie) \<le> 0" "delay (slider_mouse_options ie) = 0"
    by (simp_all add: slider_mouse_options_def)
  fix w ev
  show "at_rest o' w \<Longrightarrow> \<exists>w' b. h_capture (slider_hooks g cb) w ev = Some (w', b) \<and> (if b then dragging o' w' else at_rest o' w')"
    using capture_range [of o' w g cb ev] g by (simp add: slider_hooks_def geometry_ok_def)
  show "dragging o' w \<Longrightarrow> \<exists>w'. h_start (slider_hooks g cb) w ev = Some (w', True) \<and> dragging o' w'"
    by (simp add: slider_hooks_def mouseStart_def)
  show "dragging o' w \<Longrightarrow> \<exists>w'. h_drag (slider_hooks g cb) w ev = Some w' \<and> dragging o' w'"
    using slide_dragging [of o' w _ cb "ev_x ev" "ev_y ev"]
    by (auto simp: slider_hooks_def mouseDrag_def dragging_def split: option.split)
  show "dragging o' w \<Longrightarrow> \<exists>w'. h_stop (slider_hooks g cb) w ev = Some w' \<and> at_rest o' w'"
    using stop_range by (simp add: slider_hooks_def)
qed

text \<open>A page in which the slider is 420 pixels wide, as the panel sets it.\<close>

definition panel_geometry :: geometry where
  "panel_geometry =
     \<lparr>g_size = (420, 10), g_offset = (0, 0),
      g_handle = \<lambda>_. \<lparr>hg_left = 0, hg_top = 0, hg_width = 10, hg_height = 10, hg_borderTop = 0,
        hg_borderBottom = 0, hg_marginTop = 0\<rparr>,
      g_on_handle = \<lambda>_. False\<rparr>"

interpretation panel_slider: immediate_client "slider_mouse_options ie" "slider_hooks panel_geometry cb"
    "at_rest o'" "dragging o'" "dragging o'" for ie cb o'
  by (rule slider_client) (simp add: geometry_ok_def panel_geometry_def)

lemma keydown_range:
  assumes ok: "range_ok s x y" and i: "i < 2"
  shows "\<exists>x' y'. range_ok (fst (slider_keydown cb s i code)) x' y' \<and>
    s_handleIndex (fst (slider_keydown cb s i code)) = s_handleIndex s \<and>
    s_size (fst (slider_keydown cb s i code)) = s_size s \<and>
    s_vertical (fst (slider_keydown cb s i code)) = s_vertical s \<and>
    (s_opt (fst (slider_keydown cb s i code)))\<lparr>opt_values := None\<rparr> = (s_opt s)\<lparr>opt_values := None\<rparr>"
proof (cases "opt_disabled (s_opt s)")
  case True
  then show ?thesis using ok by (auto simp: slider_keydown_def Let_def)
next
  case False
  define u where "u = key_begin cb s i (key_of_code code)"
  have sv: "same_values s u" by (simp add: u_def key_begin_def)
  then have uok: "range_ok u x y" using same_values_ok ok by blast
  have fr: "s_handleIndex u = s_handleIndex s" "s_size u = s_size s" "s_vertical u = s_vertical s"
    "s_opt u = s_opt s"
    by (auto simp: u_def key_begin_def slider_start_def slider_trigger_def update_handle_def)
  define c where "c = (if i = 0 then x else y)"
  have cur: "values_at u i = Fin c" "has_values u" and c: "on_grid u c"
    using range_values_at [OF uok] uok i by (auto simp: c_def range_ok_def less_2_cases_iff)
  have g: "int_grid u" using uok by (simp add: range_ok_def)
  have key: "\<exists>v. on_grid u v \<and> nv = Fin v" if "key_value u i (key_of_code code) = Some nv" for nv
    using that grid_ends [OF g] grid_up [OF g c] grid_down [OF g c] c
    by (cases "key_of_code code")
      (auto simp: key_value_def cur valueMin_def valueMax_def slider_step_def split: if_splits)
  show ?thesis
  proof (cases "key_value u i (key_of_code code)")
    case None
    then have "fst (slider_keydown cb s i code) = u" using False by (simp add: slider_keydown_def Let_def u_def)
    then show ?thesis using uok fr by auto
  next
    case (Some nv)
    with key obtain v where v: "on_grid u v" "nv = Fin v" by blast
    have "fst (slider_keydown cb s i code) = slider_slide cb u i (Fin v)"
      using False Some v by (simp add: slider_keydown_def Let_def u_def)
    then show ?thesis using fr slide_range [OF uok v(1) i, of cb] by (auto simp: same_frame_def)
  qed
qed

lemma keyup_values: "same_values s (slider_keyup cb s i)"
  by (simp add: slider_keyup_def)

section \<open>What a user can do\<close>

inductive slider_reach :: "geometry \<Rightarrow> callbacks \<Rightarrow> bool \<Rightarrow> slider \<Rightarrow> slider mouse \<Rightarrow> bool"
  for g cb ie s0 where
  init: "slider_reach g cb ie s0 (mouse_init s0)"
| mouse: "slider_reach g cb ie s0 m \<Longrightarrow>
    mouse_input_step (slider_mouse_options ie) (slider_hooks g cb) m i = Some m' \<Longrightarrow> slider_reach g cb ie s0 m'"
| keydown: "slider_reach g cb ie s0 m \<Longrightarrow> j < length (s_handles (m_widget m)) \<Longrightarrow>
    slider_reach g cb ie s0 (m\<lparr>m_widget := fst (slider_keydown cb (m_widget m) j code)\<rparr>)"
| keyup: "slider_reach g cb ie s0 m \<Longrightarrow> j < length (s_handles (m_widget m)) \<Longrightarrow>
    slider_reach g cb ie s0 (m\<lparr>m_widget := slider_keyup cb (m_widget m) j\<rparr>)"
| hover: "slider_reach g cb ie s0 m \<Longrightarrow> j < length (s_handles (m_widget m)) \<Longrightarrow>
    slider_reach g cb ie s0 (m\<lparr>m_widget := slider_hover (m_widget m) j enter\<rparr>)"

lemma marks_frame [simp]:
  "s_handleIndex (update_handle i f s) = s_handleIndex s"
  "has_extent (update_handle i f s) = has_extent s"
  "s_handleIndex (slider_keyup cb s i) = s_handleIndex s"
  "has_extent (slider_keyup cb s i) = has_extent s"
  by (simp_all add: slider_keyup_def slider_stop_def slider_change_def slider_trigger_def
      update_handle_def has_extent_def pixelTotal_def)

lemma drag_inv_iff:
  "immediate_client.drag_inv (at_rest o') (dragging o') m \<longleftrightarrow>
     (if m_started m then dragging o' (m_widget m) \<and> (\<exists>k. m_current m = Some k \<and> m_bound m = [k])
      else at_rest o' (m_widget m) \<and> m_bound m = [])"
  by (rule panel_slider.drag_inv_def)

lemma drag_inv_widget:
  assumes "immediate_client.drag_inv (at_rest o') (dragging o') m"
    and "at_rest o' (m_widget m) \<Longrightarrow> at_rest o' w"
    and "s_handleIndex w = s_handleIndex (m_widget m)" and "has_extent w = has_extent (m_widget m)"
  shows "immediate_client.drag_inv (at_rest o') (dragging o') (m\<lparr>m_widget := w\<rparr>)"
  using assms by (auto simp: drag_inv_iff dragging_def split: if_splits)

lemma same_values_rest: "same_values s t \<Longrightarrow> at_rest o' s \<Longrightarrow> at_rest o' t"
  using same_values_ok [of s t] by (auto simp: at_rest_def same_values_def)

lemma slider_reach_inv:
  assumes g: "geometry_ok g" and s0: "at_rest o' s0" and reach: "slider_reach g cb ie s0 m"
  shows "immediate_client.drag_inv (at_rest o') (dragging o') m"
  using reach
proof (induction rule: slider_reach.induct)
  case init
  then show ?case using s0 by (rule immediate_client.init_inv [OF slider_client [OF g]])
next
  case (mouse m i m')
  then show ?case using immediate_client.step_inv [OF slider_client [OF g] mouse.IH, of ie cb i] by auto
next
  case (keydown m j code)
  let ?t = "fst (slider_keydown cb (m_widget m) j code)"
  have rest: "at_rest o' (m_widget m)"
    using keydown.IH unfolding drag_inv_iff by (auto simp: dragging_def split: if_splits)
  then obtain x y where ok: "range_ok (m_widget m) x y" by (auto simp: at_rest_def)
  have "j < 2" using keydown.hyps ok by (simp add: range_ok_def)
  from keydown_range [OF ok this, of cb code] rest show ?case
    by (intro drag_inv_widget [OF keydown.IH]) (auto simp: at_rest_def has_extent_def pixelTotal_def)
next
  case (keyup m j)
  show ?case
    by (rule drag_inv_widget [OF keyup.IH]) (auto intro: same_values_rest [OF keyup_values])
next
  case (hover m j enter)
  have "same_values (m_widget m) (slider_hover (m_widget m) j enter)" by (simp add: slider_hover_def)
  from same_values_rest [OF this] show ?case
    by (intro drag_inv_widget [OF hover.IH])
      (auto simp: slider_hover_def)
qed

section \<open>Results\<close>

text \<open>The options with which the panel makes the slider of a graph.\<close>

definition panel_options :: "string \<Rightarrow> nat \<Rightarrow> nat \<Rightarrow> slider_options" where
  "panel_options name start_hour end_hour =
     slider_defaults\<lparr>opt_range := RangeTrue, opt_name := name, opt_min := 0, opt_max := 24,
       opt_values := Some [Fin (real start_hour), Fin (real end_hour)]\<rparr>"

lemma panel_init:
  assumes "a \<le> b" and "b \<le> 24"
  shows "\<exists>s. slider_init (panel_options name a b) [] = Some s \<and>
    at_rest ((panel_options name a b)\<lparr>opt_values := None\<rparr>) s"
proof -
  define s1 where "s1 = detectOrientation
    \<lparr>s_opt = panel_options name a b, s_vertical = False, s_keySliding = False, s_handleIndex = None,
     s_clickOffset = None, s_size = (0, 0), s_offset = (0, 0),
     s_handles = [new_handle (name @ ''1'') (Hour (Fin (real a)))] @ replicate 1
       (new_handle (name @ ''2'') (LastMinute (js_sub (parse_hour (Fin (real b))) (Fin 1)))),
     s_hasRange = True, s_range_at = NaN, s_range_len = NaN, s_log = []\<rparr>"
  have init: "slider_init (panel_options name a b) [] = Some (refreshValue s1)"
    by (simp add: slider_init_def panel_options_def slider_defaults_def range_values_def s1_def Let_def)
  have opt: "s_opt s1 = panel_options name a b" by (simp add: s1_def detectOrientation_def)
  have grid: "int_grid s1" unfolding int_grid_def opt
    by (intro exI [of _ 0] exI [of _ 1] exI [of _ 24]) (simp add: panel_options_def slider_defaults_def)
  have "on_grid s1 (real k)" if "k \<le> 24" for k
    unfolding on_grid_def opt using that
    by (intro exI [of _ k]) (simp add: panel_options_def slider_defaults_def)
  then have "range_ok s1 (real a) (real b)"
    using assms grid unfolding range_ok_def opt
    by (simp add: panel_options_def slider_defaults_def) (simp add: s1_def detectOrientation_def)
  from range_okI [OF refresh_frame [THEN conjunct1] this] this
  have "range_ok (refreshValue s1) (real a) (real b)" by (simp add: range_ok_def)
  moreover have "(s_opt (refreshValue s1))\<lparr>opt_values := None\<rparr> = (panel_options name a b)\<lparr>opt_values := None\<rparr>"
    using refresh_frame [of s1] opt by (simp add: same_frame_def)
  ultimately show ?thesis using init by (auto simp: at_rest_def)
qed

text \<open>
  C9. Whatever a user does with mouse and keyboard to the slider of a graph, its two values stay
  whole hours from 0 to 24 with the first not after the second, and no input makes a handler throw.
\<close>

theorem panel_slider_hours:
  assumes "a \<le> b" and "b \<le> 24" and "slider_init (panel_options name a b) [] = Some s0"
    and "geometry_ok g" and "slider_reach g cb ie s0 m"
  shows "(\<exists>h1 h2 :: nat. h1 \<le> h2 \<and> h2 \<le> 24 \<and>
      opt_values (s_opt (m_widget m)) = Some [Fin (real h1), Fin (real h2)]) \<and>
    (\<exists>m'. mouse_input_step (slider_mouse_options ie) (slider_hooks g cb) m i = Some m')"
proof
  let ?o = "(panel_options name a b)\<lparr>opt_values := None\<rparr>"
  have s0: "at_rest ?o s0" using panel_init [OF assms(1,2), of name] assms(3) by auto
  have inv: "immediate_client.drag_inv (at_rest ?o) (dragging ?o) m"
    by (rule slider_reach_inv [OF assms(4) s0 assms(5)])
  then obtain x y where ok: "range_ok (m_widget m) x y"
    and opt: "(s_opt (m_widget m))\<lparr>opt_values := None\<rparr> = ?o"
    unfolding drag_inv_iff by (auto simp: dragging_def at_rest_def split: if_splits)
  have f: "opt_min (s_opt (m_widget m)) = 0" "opt_max (s_opt (m_widget m)) = 24"
    "opt_step (s_opt (m_widget m)) = 1"
    using frame_options [of "m_widget m" "s0\<lparr>s_opt := panel_options name a b\<rparr>"] opt
    by (simp_all add: panel_options_def slider_defaults_def)
  from ok obtain h1 h2 :: nat where "x = real h1" "y = real h2" "real h1 \<le> real h2" "real h2 \<le> 24"
    by (auto simp: range_ok_def on_grid_def f)
  then have "h1 \<le> h2" "h2 \<le> 24" "opt_values (s_opt (m_widget m)) = Some [Fin (real h1), Fin (real h2)]"
    using ok by (simp_all add: range_ok_def)
  then show "\<exists>h1 h2 :: nat. h1 \<le> h2 \<and> h2 \<le> 24 \<and>
      opt_values (s_opt (m_widget m)) = Some [Fin (real h1), Fin (real h2)]" by blast
  show "\<exists>m'. mouse_input_step (slider_mouse_options ie) (slider_hooks g cb) m i = Some m'"
    using immediate_client.step_inv [OF slider_client [OF assms(4)] inv] by blast
qed

theorem panel_slider_hours_witness:
  "\<exists>s0. slider_init (panel_options ''first'' 9 17) [] = Some s0 \<and>
    (\<exists>h1 h2 :: nat. h1 \<le> h2 \<and> h2 \<le> 24 \<and>
      opt_values (s_opt (m_widget (mouse_init s0))) = Some [Fin (real h1), Fin (real h2)])"
proof -
  obtain s0 where s0: "slider_init (panel_options ''first'' 9 17) [] = Some s0"
    using panel_init [of 9 17 "''first''"] by auto
  have "geometry_ok panel_geometry" by (simp add: geometry_ok_def panel_geometry_def)
  from panel_slider_hours [OF _ _ s0 this slider_reach.init [of _ "\<lambda>_ _. True" False]] s0
  show ?thesis by auto
qed

text \<open>
  The value of a mouse position is always on the grid of steps between the least and the
  greatest value, and it is the grid point within half a step of the position.
\<close>

theorem normValue_nearest:
  assumes "int_grid s" and "0 < pixelTotal s"
  shows "\<exists>x p. normValueFromMouse s mx my = Fin x \<and> on_grid s x \<and>
    percentMouse s (pixelMouse s mx my) (pixelTotal s) = Fin p \<and> 0 \<le> p \<and> p \<le> 1 \<and>
    \<bar>x - (opt_min (s_opt s) + p * (opt_max (s_opt s) - opt_min (s_opt s)))\<bar> \<le> opt_step (s_opt s) / 2"
  using assms by (rule normValue_on_grid)

theorem normValue_nearest_witness:
  "\<exists>s x. slider_init (panel_options ''first'' 0 24) [] = Some s \<and>
    normValueFromMouse (s\<lparr>s_size := (420, 10)\<rparr>) 100 5 = Fin x \<and> on_grid (s\<lparr>s_size := (420, 10)\<rparr>) x"
proof -
  obtain s where s: "slider_init (panel_options ''first'' 0 24) [] = Some s"
    "at_rest ((panel_options ''first'' 0 24)\<lparr>opt_values := None\<rparr>) s"
    using panel_init [of 0 24 "''first''"] by auto
  have "int_grid (s\<lparr>s_size := (420, 10)\<rparr>)" using s(2) by (auto simp: at_rest_def range_ok_def int_grid_def)
  moreover have "0 < pixelTotal (s\<lparr>s_size := (420, 10)\<rparr>)" by (simp add: pixelTotal_def)
  ultimately show ?thesis using normValue_nearest [of "s\<lparr>s_size := (420, 10)\<rparr>" 100 5] s(1) by blast
qed

text \<open>
  C10. A slide of a range slider moves the handle to the new value but not past the other handle,
  and it does so also when the callback of the slide returns false: then the value has changed
  all the same and only the handles are not drawn again.
\<close>

theorem slide_stops_at_other:
  assumes "range_ok s x y" and "on_grid s v" and "i < 2"
  shows "opt_values (s_opt (slider_slide cb s i (Fin v))) =
      Some (if i = 0 then [Fin (min v y), Fin y] else [Fin x, Fin (max v x)]) \<and>
    ((\<forall>d. \<not> cb ''slide'' d) \<longrightarrow> s_handles (slider_slide cb s i (Fin v)) = s_handles s)"
proof
  show "opt_values (s_opt (slider_slide cb s i (Fin v))) =
      Some (if i = 0 then [Fin (min v y), Fin y] else [Fin x, Fin (max v x)])"
    using slide_range [OF assms, of cb] by (auto simp: range_ok_def)
  show "(\<forall>d. \<not> cb ''slide'' d) \<longrightarrow> s_handles (slider_slide cb s i (Fin v)) = s_handles s"
    using range_values_at [OF assms(1)]
    by (simp add: slider_slide_def Let_def slider_trigger_def set_nth_value_def)
qed

theorem slide_stops_at_other_witness:
  "\<exists>s. slider_init (panel_options ''first'' 9 17) [] = Some s \<and>
    opt_values (s_opt (slider_slide (\<lambda>_ _. False) s 0 (Fin 20))) = Some [Fin 17, Fin 17]"
proof -
  obtain s where s: "slider_init (panel_options ''first'' 9 17) [] = Some s"
    "at_rest ((panel_options ''first'' 9 17)\<lparr>opt_values := None\<rparr>) s"
    using panel_init [of 9 17 "''first''"] by auto
  have v: "opt_values (s_opt s) = Some [Fin 9, Fin 17]"
    using s(1) by (auto simp: slider_init_def panel_options_def slider_defaults_def range_values_def
        detectOrientation_def Let_def)
  with s(2) have ok: "range_ok s 9 17" by (auto simp: at_rest_def range_ok_def)
  have "opt_min (s_opt s) = 0" "opt_max (s_opt s) = 24" "opt_step (s_opt s) = 1"
    using s(1) frame_options [OF refresh_frame [THEN conjunct1, unfolded same_frame_def, THEN conjunct1]]
    by (auto simp: slider_init_def panel_options_def slider_defaults_def range_values_def
        detectOrientation_def Let_def)
  then have "on_grid s 20" unfolding on_grid_def by (intro exI [of _ 20]) simp
  from slide_stops_at_other [OF ok this, of 0 "\<lambda>_ _. False"] s(1) show ?thesis by auto
qed

text \<open>
  A slider that is made without values and without handles in its element throws, unless it
  is a range slider: the text of the first handle is read from the values.
\<close>

theorem slider_init_needs_values:
  assumes "opt_values o' = None"
  shows "slider_init o' [] = None \<longleftrightarrow> opt_range o' \<noteq> RangeTrue"
  using assms by (simp add: slider_init_def range_values_def Let_def)

theorem slider_init_needs_values_witness:
  "slider_init slider_defaults [] = None \<longleftrightarrow> opt_range slider_defaults \<noteq> RangeTrue"
  by (rule slider_init_needs_values) (simp add: slider_defaults_def)

end
