(* ===== verification/Autocompleter.thy ===== *)
theory Autocompleter
  imports ProtoString
begin

text \<open>
  \<open>Autocompleter.Base\<close> and \<open>Autocompleter.Local\<close> of \<open>controls.js\<close>: the list of
  choices below a text field, the keys and the mouse that move in it, and the part
  of the text that a choice replaces.  The page is a parameter: \<open>parse\<close> gives, for
  markup assigned to \<open>innerHTML\<close>, the texts of the entries of the list, or \<open>None\<close>
  when the markup has no element.  A handler that throws leaves a state behind.
\<close>

section \<open>State\<close>

record entry =
  e_text :: string
  e_selected :: bool

record ac_options =
  tokens :: "string list"
  minChars :: nat
  autoSelect :: bool
  has_indicator :: bool
  ie_absolute :: bool
  choices :: nat
  partialSearch :: bool
  partialChars :: nat
  ignoreCase :: bool
  fullSearch :: bool
  array :: "string list"

text \<open>
  \<open>ac_list\<close> are the entries of the first element of \<open>update\<close>; \<open>ac_observer\<close> whether
  the timer of \<open>onKeyPress\<close> runs, \<open>ac_hides\<close> the number of delayed calls of \<open>hide\<close>.
\<close>

record ac =
  ac_opt :: ac_options
  ac_value :: string
  ac_old :: string
  ac_hasFocus :: bool
  ac_changed :: bool
  ac_active :: bool
  ac_index :: int
  ac_entryCount :: nat
  ac_list :: "entry list option"
  ac_bounds :: "(int \<times> int) option"
  ac_observer :: bool
  ac_hides :: nat
  ac_visible :: bool
  ac_indicator :: bool
  ac_iefix :: "bool option"

datatype 's eff = Ok 's | Thrown 's

definition bind_eff :: "'s eff \<Rightarrow> ('s \<Rightarrow> 's eff) \<Rightarrow> 's eff" where
  "bind_eff r f = (case r of Ok s \<Rightarrow> f s | Thrown s \<Rightarrow> Thrown s)"

text \<open>The options of \<open>baseInitialize\<close>: 0 characters count as missing.\<close>

definition base_tokens :: "string list \<Rightarrow> string list" where
  "base_tokens ts = (if [CHR 0x0A] \<in> set ts then ts else ts @ [[CHR 0x0A]])"

definition baseInitialize :: "ac_options \<Rightarrow> string \<Rightarrow> ac" where
  "baseInitialize o' value =
     \<lparr>ac_opt = o'\<lparr>tokens := base_tokens (tokens o'), minChars := (if minChars o' = 0 then 1 else minChars o')\<rparr>,
      ac_value = value, ac_old = value, ac_hasFocus = False, ac_changed = False, ac_active = False,
      ac_index = 0, ac_entryCount = 0, ac_list = None, ac_bounds = None, ac_observer = False, ac_hides = 0,
      ac_visible = False, ac_indicator = False, ac_iefix = None\<rparr>"

section \<open>Showing and hiding\<close>

definition show_choices :: "ac \<Rightarrow> ac" where
  "show_choices s =
     (let s = s\<lparr>ac_visible := True\<rparr>
      in if ac_iefix s = None \<and> ie_absolute (ac_opt s) then s\<lparr>ac_iefix := Some False\<rparr> else s)"

definition fixIEOverlapping :: "ac \<Rightarrow> ac" where
  "fixIEOverlapping s = s\<lparr>ac_iefix := map_option (\<lambda>_. True) (ac_iefix s)\<rparr>"

definition startIndicator :: "ac \<Rightarrow> ac" where
  "startIndicator s = (if has_indicator (ac_opt s) then s\<lparr>ac_indicator := True\<rparr> else s)"

definition stopIndicator :: "ac \<Rightarrow> ac" where
  "stopIndicator s = (if has_indicator (ac_opt s) then s\<lparr>ac_indicator := False\<rparr> else s)"

definition hide_choices :: "ac \<Rightarrow> ac" where
  "hide_choices s =
     (stopIndicator s)\<lparr>ac_visible := False, ac_iefix := map_option (\<lambda>_. False) (ac_iefix s)\<rparr>"

section \<open>Entries\<close>

text \<open>
  \<open>getEntry\<close>: reading it throws without a list, \<open>Inl ()\<close>; beyond the list it is
  undefined, \<open>Inr None\<close>.
\<close>

definition getEntry :: "ac \<Rightarrow> int \<Rightarrow> unit + entry option" where
  "getEntry s index =
     (case ac_list s of
        None \<Rightarrow> Inl ()
      | Some es \<Rightarrow> Inr (if 0 \<le> index \<and> index < int (length es) then Some (es ! nat index) else None))"

text \<open>A method called on the entry throws unless it is there.\<close>

definition scroll_entry :: "ac \<Rightarrow> ac eff" where
  "scroll_entry s = (case getEntry s (ac_index s) of Inr (Some _) \<Rightarrow> Ok s | _ \<Rightarrow> Thrown s)"

definition render :: "ac \<Rightarrow> ac eff" where
  "render s =
     (if ac_entryCount s > 0
      then (case ac_list s of
              None \<Rightarrow> Thrown s
            | Some es \<Rightarrow>
                let s = s\<lparr>ac_list := Some (map (\<lambda>(e, i).
                      if i < ac_entryCount s then e\<lparr>e_selected := (ac_index s = int i)\<rparr> else e)
                      (zip es [0..<length es]))\<rparr>
                in Ok (if ac_hasFocus s then (show_choices s)\<lparr>ac_active := True\<rparr> else s))
      else Ok (hide_choices (s\<lparr>ac_active := False\<rparr>)))"

definition markPrevious :: "ac \<Rightarrow> ac eff" where
  "markPrevious s =
     scroll_entry (s\<lparr>ac_index := (if ac_index s > 0 then ac_index s - 1 else int (ac_entryCount s) - 1)\<rparr>)"

definition markNext :: "ac \<Rightarrow> ac eff" where
  "markNext s =
     scroll_entry (s\<lparr>ac_index := (if ac_index s < int (ac_entryCount s) - 1 then ac_index s + 1 else 0)\<rparr>)"

section \<open>The token\<close>

text \<open>\<open>getFirstDifferencePos\<close>: the loop over the common length.\<close>

fun first_difference :: "string \<Rightarrow> string \<Rightarrow> nat" where
  "first_difference (c # cs) (d # ds) = (if c \<noteq> d then 0 else Suc (first_difference cs ds))"
| "first_difference _ _ = 0"

text \<open>One token of the loop of \<open>getTokenBounds\<close>; \<open>pos\<close> is \<open>diff + offset\<close>.\<close>

definition token_step :: "string \<Rightarrow> int \<Rightarrow> int \<times> int \<Rightarrow> string \<Rightarrow> int \<times> int" where
  "token_step value pos b t =
     (let tp = last_index_of_from value t (pos - 1);
          prev = (if tp > fst b then tp else fst b);
          tp' = index_of_from value t pos;
          nxt = (if tp' \<noteq> -1 \<and> tp' < snd b then tp' else snd b)
      in (prev, nxt))"

definition difference_pos :: "ac \<Rightarrow> int" where
  "difference_pos s =
     (let diff = first_difference (ac_value s) (ac_old s)
      in int diff + (if diff = length (ac_old s) then 1 else 0))"

definition getTokenBounds :: "ac \<Rightarrow> ac \<times> (int \<times> int)" where
  "getTokenBounds s =
     (case ac_bounds s of
        Some b \<Rightarrow> (s, b)
      | None \<Rightarrow>
          if str_empty (strip (ac_value s)) then (s, (-1, 0))
          else let pn = foldl (token_step (ac_value s) (difference_pos s)) (-1, int (length (ac_value s)))
                          (tokens (ac_opt s));
                   b = (fst pn + 1, snd pn)
               in (s\<lparr>ac_bounds := Some b\<rparr>, b))"

definition getToken :: "ac \<Rightarrow> ac \<times> string" where
  "getToken s =
     (let (s, b) = getTokenBounds s in (s, strip (substring (ac_value s) (fst b) (snd b))))"

section \<open>Choosing an entry\<close>

text \<open>The value of the field after the text of a choice is put in.\<close>

definition replace_token :: "string \<Rightarrow> int \<times> int \<Rightarrow> string \<Rightarrow> string" where
  "replace_token value b text =
     (if fst b \<noteq> -1
      then substr value 0 (fst b) @ takeWhile is_ws (substr_from value (fst b)) @ text @ substr_from value (snd b)
      else text)"

text \<open>The options \<open>updateElement\<close>, \<open>select\<close> and \<open>afterUpdateElement\<close> are not set.\<close>

definition updateElement :: "ac \<Rightarrow> entry \<Rightarrow> ac" where
  "updateElement s e =
     (let (s, b) = getTokenBounds s;
          v = replace_token (ac_value s) b (e_text e)
      in s\<lparr>ac_value := v, ac_old := v\<rparr>)"

definition selectEntry :: "ac \<Rightarrow> ac eff" where
  "selectEntry s =
     (let s = s\<lparr>ac_active := False\<rparr>
      in case getEntry s (ac_index s) of
           Inr (Some e) \<Rightarrow> Ok (updateElement s e)
         | _ \<Rightarrow> Thrown s)"

text \<open>
  \<open>updateChoices\<close>.  When the markup has no element, \<open>cleanWhitespace\<close> of the missing
  element throws after the old list is gone.
\<close>

definition updateChoices :: "(string \<Rightarrow> string list option) \<Rightarrow> ac \<Rightarrow> string \<Rightarrow> ac eff" where
  "updateChoices parse s markup =
     (if \<not> ac_changed s \<and> ac_hasFocus s
      then (case parse markup of
              None \<Rightarrow> Thrown (s\<lparr>ac_list := None\<rparr>)
            | Some texts \<Rightarrow>
                let s = s\<lparr>ac_list := Some (map (\<lambda>t. \<lparr>e_text = t, e_selected = False\<rparr>) texts),
                          ac_entryCount := length texts\<rparr>;
                    s = (stopIndicator s)\<lparr>ac_index := 0\<rparr>
                in if ac_entryCount s = 1 \<and> autoSelect (ac_opt s)
                   then bind_eff (selectEntry s) (\<lambda>s. Ok (hide_choices s))
                   else render s)
      else Ok s)"

section \<open>Keys and mouse\<close>

definition KEY_TAB :: nat where "KEY_TAB = 9"
definition KEY_RETURN :: nat where "KEY_RETURN = 13"
definition KEY_ESC :: nat where "KEY_ESC = 27"
definition KEY_LEFT :: nat where "KEY_LEFT = 37"
definition KEY_UP :: nat where "KEY_UP = 38"
definition KEY_RIGHT :: nat where "KEY_RIGHT = 39"
definition KEY_DOWN :: nat where "KEY_DOWN = 40"

text \<open>\<open>webkit\<close> is whether the browser is one whose key code may be 0.\<close>

definition onKeyPress :: "bool \<Rightarrow> ac \<Rightarrow> nat \<Rightarrow> ac eff" where
  "onKeyPress webkit s k =
     (let typed = Ok (s\<lparr>ac_changed := True, ac_hasFocus := True, ac_observer := True\<rparr>)
      in if ac_active s
         then if k = KEY_TAB \<or> k = KEY_RETURN
              then bind_eff (selectEntry s) (\<lambda>s. Ok ((hide_choices s)\<lparr>ac_active := False\<rparr>))
              else if k = KEY_ESC then Ok ((hide_choices s)\<lparr>ac_active := False\<rparr>)
              else if k = KEY_LEFT \<or> k = KEY_RIGHT then Ok s
              else if k = KEY_UP then bind_eff (markPrevious s) render
              else if k = KEY_DOWN then bind_eff (markNext s) render
              else typed
         else if k = KEY_TAB \<or> k = KEY_RETURN \<or> webkit \<and> k = 0 then Ok s
         else typed)"

text \<open>\<open>i\<close> is the index of the entry under the mouse.\<close>

definition onHover :: "ac \<Rightarrow> nat \<Rightarrow> ac eff" where
  "onHover s i = (if ac_index s \<noteq> int i then render (s\<lparr>ac_index := int i\<rparr>) else Ok s)"

definition onClick :: "ac \<Rightarrow> nat \<Rightarrow> ac eff" where
  "onClick s i = bind_eff (selectEntry (s\<lparr>ac_index := int i\<rparr>)) (\<lambda>s. Ok (hide_choices s))"

definition onBlur :: "ac \<Rightarrow> ac" where
  "onBlur s = s\<lparr>ac_hides := ac_hides s + 1, ac_hasFocus := False, ac_active := False\<rparr>"

definition hide_timer :: "ac \<Rightarrow> ac" where
  "hide_timer s = (if ac_hides s > 0 then hide_choices (s\<lparr>ac_hides := ac_hides s - 1\<rparr>) else s)"

text \<open>\<open>update\<close> is \<open>getUpdatedChoices\<close>, which a subclass provides.\<close>

definition activate :: "(ac \<Rightarrow> ac eff) \<Rightarrow> ac \<Rightarrow> ac eff" where
  "activate update s = update (s\<lparr>ac_changed := False, ac_hasFocus := True\<rparr>)"

definition onObserverEvent :: "(ac \<Rightarrow> ac eff) \<Rightarrow> ac \<Rightarrow> ac eff" where
  "onObserverEvent update s =
     (let s = s\<lparr>ac_observer := False, ac_changed := False, ac_bounds := None\<rparr>;
          (s, token) = getToken s
      in bind_eff (if length token \<ge> minChars (ac_opt s) then update s
                   else Ok (hide_choices (s\<lparr>ac_active := False\<rparr>)))
           (\<lambda>s. Ok (s\<lparr>ac_old := ac_value s\<rparr>)))"

section \<open>\<open>Autocompleter.Local\<close>\<close>

record li =
  li_pre :: string
  li_strong :: string
  li_post :: string

text \<open>The markup of a choice at the beginning and inside.\<close>

definition li_markup :: "li \<Rightarrow> string" where
  "li_markup l = ''<li>'' @ li_pre l @ ''<strong>'' @ li_strong l @ ''</strong>'' @ li_post l @ ''</li>''"

definition local_index :: "ac_options \<Rightarrow> string \<Rightarrow> string \<Rightarrow> int \<Rightarrow> int" where
  "local_index o' elem entry i =
     (if ignoreCase o' then index_of_from (to_lower_case elem) (to_lower_case entry) i
      else index_of_from elem entry i)"

text \<open>
  The \<open>while\<close> loop for one string of the array.  \<open>None\<close> is that the loop does not end,
  \<open>Some None\<close> that nothing is pushed, \<open>Inl\<close> a match at the beginning and \<open>Inr\<close> one inside.
\<close>

partial_function (option) match_loop ::
  "ac_options \<Rightarrow> string \<Rightarrow> string \<Rightarrow> int \<Rightarrow> (li + li) option option" where
  "match_loop o' elem entry foundPos =
     (if foundPos \<noteq> -1
      then if foundPos = 0 \<and> length elem \<noteq> length entry
           then Some (Some (Inl \<lparr>li_pre = [], li_strong = substr elem 0 (int (length entry)),
                                 li_post = substr_from elem (int (length entry))\<rparr>))
           else if length entry \<ge> partialChars o' \<and> partialSearch o' \<and>
                   (fullSearch o' \<or> list_ex is_ws (substr elem (foundPos - 1) 1))
           then Some (Some (Inr \<lparr>li_pre = substr elem 0 foundPos,
                                 li_strong = substr elem foundPos (int (length entry)),
                                 li_post = substr_from elem (foundPos + int (length entry))\<rparr>))
           else match_loop o' elem entry (local_index o' elem entry (foundPos + 1))
      else Some None)"

declare match_loop.simps [code]

fun select_loop ::
  "ac_options \<Rightarrow> string \<Rightarrow> string list \<Rightarrow> li list \<Rightarrow> li list \<Rightarrow> (li list \<times> li list) option" where
  "select_loop o' entry [] ret part = Some (ret, part)"
| "select_loop o' entry (elem # rest) ret part =
     (if length ret < choices o'
      then (case match_loop o' elem entry (local_index o' elem entry 0) of
              None \<Rightarrow> None
            | Some None \<Rightarrow> select_loop o' entry rest ret part
            | Some (Some (Inl l)) \<Rightarrow> select_loop o' entry rest (ret @ [l]) part
            | Some (Some (Inr l)) \<Rightarrow> select_loop o' entry rest ret (part @ [l]))
      else Some (ret, part))"

definition local_choices :: "ac_options \<Rightarrow> string \<Rightarrow> li list option" where
  "local_choices o' entry =
     map_option (\<lambda>(ret, part).
       if part \<noteq> [] then ret @ slice part 0 (int (choices o') - int (length ret)) else ret)
       (select_loop o' entry (array o') [] [])"

definition selector :: "ac \<Rightarrow> ac \<times> string option" where
  "selector s =
     (let (s, entry) = getToken s
      in (s, map_option (\<lambda>lis. ''<ul>'' @ concat (map li_markup lis) @ ''</ul>'') (local_choices (ac_opt s) entry)))"

text \<open>\<open>getUpdatedChoices\<close> of the local completer; \<open>None\<close> when the selector does not return.\<close>

definition getUpdatedChoices :: "(string \<Rightarrow> string list option) \<Rightarrow> ac \<Rightarrow> ac eff option" where
  "getUpdatedChoices parse s =
     (let (s, markup) = selector s in map_option (updateChoices parse s) markup)"

section \<open>Moving in the list\<close>

text \<open>
  Between two events the count and the index fit the list, and the completer is
  active only when there is an entry.
\<close>

definition ac_inv :: "ac \<Rightarrow> bool" where
  "ac_inv s \<longleftrightarrow>
     (case ac_list s of
        None \<Rightarrow> ac_entryCount s = 0 \<and> \<not> ac_active s
      | Some es \<Rightarrow> length es = ac_entryCount s \<and> (es \<noteq> [] \<longrightarrow> 0 \<le> ac_index s \<and> ac_index s < int (length es)) \<and>
          (ac_active s \<longrightarrow> es \<noteq> []))"

datatype ac_event =
    Key nat
  | Hover nat
  | EntryClick nat
  | Blur
  | HideTimer
  | Choices string

definition ac_step :: "(string \<Rightarrow> string list option) \<Rightarrow> bool \<Rightarrow> ac \<Rightarrow> ac_event \<Rightarrow> ac eff" where
  "ac_step parse webkit s e =
     (case e of
        Key k \<Rightarrow> onKeyPress webkit s k
      | Hover i \<Rightarrow> onHover s i
      | EntryClick i \<Rightarrow> onClick s i
      | Blur \<Rightarrow> Ok (onBlur s)
      | HideTimer \<Rightarrow> Ok (hide_timer s)
      | Choices markup \<Rightarrow> updateChoices parse s markup)"

text \<open>The mouse is over an entry that is in the list, and the choices have a list.\<close>

definition event_ok :: "(string \<Rightarrow> string list option) \<Rightarrow> ac \<Rightarrow> ac_event \<Rightarrow> bool" where
  "event_ok parse s e =
     (case e of Hover i \<Rightarrow> i < ac_entryCount s | EntryClick i \<Rightarrow> i < ac_entryCount s
      | Choices markup \<Rightarrow> parse markup \<noteq> None | _ \<Rightarrow> True)"

lemmas ac_frame = hide_choices_def show_choices_def stopIndicator_def Let_def

lemma hide_inv [simp]: "ac_inv (hide_choices s) = ac_inv s"
  by (simp add: ac_inv_def hide_choices_def stopIndicator_def split: option.split)

lemma inactive_inv: "ac_inv s \<Longrightarrow> ac_inv (s\<lparr>ac_active := False\<rparr>)"
  by (auto simp: ac_inv_def split: option.splits)

lemma bounds_fields:
  "ac_list (fst (getTokenBounds s)) = ac_list s" "ac_entryCount (fst (getTokenBounds s)) = ac_entryCount s"
  "ac_index (fst (getTokenBounds s)) = ac_index s" "ac_active (fst (getTokenBounds s)) = ac_active s"
  "ac_value (fst (getTokenBounds s)) = ac_value s"
  by (auto simp: getTokenBounds_def Let_def split: option.split)

lemma updateElement_inv [simp]: "ac_inv (updateElement s e) = ac_inv s"
  using bounds_fields [of s] by (simp add: ac_inv_def updateElement_def Let_def split_beta split: option.split)

lemma select_ok:
  assumes "ac_inv s" and "ac_entryCount s > 0"
  shows "\<exists>t. selectEntry s = Ok t \<and> ac_inv t \<and> \<not> ac_active t"
proof -
  from assms obtain es where es: "ac_list s = Some es" "0 \<le> ac_index s" "ac_index s < int (length es)"
    by (auto simp: ac_inv_def split: option.splits)
  then have "selectEntry s = Ok (updateElement (s\<lparr>ac_active := False\<rparr>) (es ! nat (ac_index s)))"
    by (simp add: selectEntry_def getEntry_def Let_def)
  moreover have "\<not> ac_active (updateElement (s\<lparr>ac_active := False\<rparr>) e)" for e
    using bounds_fields(4) [of "s\<lparr>ac_active := False\<rparr>"] by (simp add: updateElement_def Let_def split_beta)
  ultimately show ?thesis using inactive_inv [OF assms(1)] by simp
qed

text \<open>Which entry is marked after \<open>render\<close>.\<close>

definition marked :: "ac \<Rightarrow> int \<Rightarrow> bool" where
  "marked s i \<longleftrightarrow>
     (case ac_list s of None \<Rightarrow> False
      | Some es \<Rightarrow> \<forall>k < length es. e_selected (es ! k) \<longleftrightarrow> int k = i)"

lemma render_ok:
  assumes "ac_inv s"
  shows "\<exists>t. render s = Ok t \<and> ac_inv t \<and> ac_index t = ac_index s \<and>
    (ac_entryCount s > 0 \<longrightarrow> marked t (ac_index s) \<and> ac_active t = (ac_active s \<or> ac_hasFocus s))"
proof (cases "ac_entryCount s > 0")
  case True
  with assms obtain es where es: "ac_list s = Some es" "length es = ac_entryCount s"
    "0 \<le> ac_index s" "ac_index s < int (length es)" by (auto simp: ac_inv_def split: option.splits)
  define es' where "es' = map (\<lambda>(e, i). if i < ac_entryCount s then e\<lparr>e_selected := (ac_index s = int i)\<rparr> else e)
      (zip es [0..<length es])"
  have len: "length es' = length es" by (simp add: es'_def)
  have mk: "\<forall>k < length es'. e_selected (es' ! k) \<longleftrightarrow> int k = ac_index s" using es by (auto simp: es'_def)
  define t where "t = (if ac_hasFocus s then (show_choices (s\<lparr>ac_list := Some es'\<rparr>))\<lparr>ac_active := True\<rparr>
      else s\<lparr>ac_list := Some es'\<rparr>)"
  have "render s = Ok t" using True es by (simp add: render_def t_def es'_def Let_def)
  moreover have "ac_list t = Some es'" "ac_entryCount t = ac_entryCount s" "ac_index t = ac_index s"
    "ac_active t = (ac_active s \<or> ac_hasFocus s)"
    by (auto simp: t_def show_choices_def Let_def)
  ultimately show ?thesis using True es len mk by (auto simp: ac_inv_def marked_def)
next
  case False
  then have "render s = Ok (hide_choices (s\<lparr>ac_active := False\<rparr>))" by (simp add: render_def)
  moreover have "ac_index (hide_choices (s\<lparr>ac_active := False\<rparr>)) = ac_index s"
    by (simp add: hide_choices_def stopIndicator_def)
  ultimately show ?thesis using False inactive_inv [OF assms] by simp
qed

text \<open>The arrow keys go around the list.\<close>

lemma mark_ok:
  assumes "ac_inv s" and "ac_active s"
  shows "markNext s = Ok (s\<lparr>ac_index := (ac_index s + 1) mod int (ac_entryCount s)\<rparr>)"
    and "markPrevious s = Ok (s\<lparr>ac_index := (ac_index s - 1) mod int (ac_entryCount s)\<rparr>)"
    and "ac_inv (s\<lparr>ac_index := i mod int (ac_entryCount s)\<rparr>)"
proof -
  from assms obtain es where es: "ac_list s = Some es" "length es = ac_entryCount s"
    "0 \<le> ac_index s" "ac_index s < int (length es)" by (auto simp: ac_inv_def split: option.splits)
  let ?n = "int (ac_entryCount s)"
  have n: "0 < ?n" using es by linarith
  have up: "(if ac_index s < ?n - 1 then ac_index s + 1 else 0) = (ac_index s + 1) mod ?n"
  proof (cases "ac_index s < ?n - 1")
    case False
    then have "ac_index s + 1 = ?n" using es by linarith
    with False show ?thesis by simp
  qed (use es in simp)
  have down: "(if ac_index s > 0 then ac_index s - 1 else ?n - 1) = (ac_index s - 1) mod ?n"
  proof (cases "ac_index s > 0")
    case False
    then have "ac_index s = 0" using es by linarith
    then show ?thesis using n by (simp add: zmod_minus1)
  qed (use es in simp)
  have inr: "0 \<le> i mod ?n" "i mod ?n < ?n" for i using n by simp_all
  show "markNext s = Ok (s\<lparr>ac_index := (ac_index s + 1) mod ?n\<rparr>)"
    unfolding markNext_def up using es inr by (simp add: scroll_entry_def getEntry_def)
  show "markPrevious s = Ok (s\<lparr>ac_index := (ac_index s - 1) mod ?n\<rparr>)"
    unfolding markPrevious_def down using es inr by (simp add: scroll_entry_def getEntry_def)
  show "ac_inv (s\<lparr>ac_index := i mod ?n\<rparr>)" using assms es inr by (simp add: ac_inv_def)
qed

lemma key_inv:
  assumes "ac_inv s"
  shows "\<exists>t. onKeyPress webkit s k = Ok t \<and> ac_inv t"
proof (cases "ac_active s")
  case True
  then have n: "ac_entryCount s > 0" using assms by (auto simp: ac_inv_def split: option.splits)
  have typed: "ac_inv (s\<lparr>ac_changed := True, ac_hasFocus := True, ac_observer := True\<rparr>)"
    using assms by (auto simp: ac_inv_def split: option.splits)
  from select_ok [OF assms n] obtain t where t: "selectEntry s = Ok t" "ac_inv t" by blast
  from render_ok [OF mark_ok(3) [OF assms True, of "ac_index s + 1"]]
  obtain u where u: "render (s\<lparr>ac_index := (ac_index s + 1) mod int (ac_entryCount s)\<rparr>) = Ok u" "ac_inv u" by blast
  from render_ok [OF mark_ok(3) [OF assms True, of "ac_index s - 1"]]
  obtain v where v: "render (s\<lparr>ac_index := (ac_index s - 1) mod int (ac_entryCount s)\<rparr>) = Ok v" "ac_inv v" by blast
  have hidden: "ac_inv ((hide_choices w)\<lparr>ac_active := False\<rparr>)" if "ac_inv w" for w
    using that inactive_inv [of "hide_choices w"] by simp
  show ?thesis
    unfolding onKeyPress_def Let_def
    using True typed t u v hidden assms mark_ok(1,2) [OF assms True] by (simp add: bind_eff_def)
next
  case False
  then show ?thesis using assms
    by (auto simp: onKeyPress_def Let_def ac_inv_def split: option.splits)
qed

lemma ac_step_inv:
  assumes inv: "ac_inv s" and ok: "event_ok parse s e"
  shows "\<exists>t. ac_step parse webkit s e = Ok t \<and> ac_inv t"
proof (cases e)
  case (Key k)
  then show ?thesis using key_inv [OF inv] by (simp add: ac_step_def)
next
  case (Hover i)
  have "ac_inv (s\<lparr>ac_index := int i\<rparr>)"
    using inv ok Hover by (auto simp: ac_inv_def event_ok_def split: option.splits)
  from render_ok [OF this] inv show ?thesis by (auto simp: ac_step_def Hover onHover_def)
next
  case (EntryClick i)
  have "ac_inv (s\<lparr>ac_index := int i\<rparr>)"
    using inv ok EntryClick by (auto simp: ac_inv_def event_ok_def split: option.splits)
  moreover have "ac_entryCount (s\<lparr>ac_index := int i\<rparr>) > 0" using ok EntryClick by (auto simp: event_ok_def)
  ultimately show ?thesis using select_ok [of "s\<lparr>ac_index := int i\<rparr>"]
    by (auto simp: ac_step_def EntryClick onClick_def bind_eff_def)
next
  case (Choices markup)
  show ?thesis
  proof (cases "\<not> ac_changed s \<and> ac_hasFocus s")
    case True
    from ok Choices obtain texts where tx: "parse markup = Some texts" by (auto simp: event_ok_def)
    define u where "u = (stopIndicator (s\<lparr>ac_list := Some (map (\<lambda>t. \<lparr>e_text = t, e_selected = False\<rparr>) texts),
        ac_entryCount := length texts\<rparr>))\<lparr>ac_index := 0\<rparr>"
    have upd: "updateChoices parse s markup = (if ac_entryCount u = 1 \<and> autoSelect (ac_opt u)
        then bind_eff (selectEntry u) (\<lambda>s. Ok (hide_choices s)) else render u)"
      using True tx by (simp add: updateChoices_def u_def Let_def)
    show ?thesis
    proof (cases "texts = []")
      case True
      have "render u = Ok (hide_choices (u\<lparr>ac_active := False\<rparr>))" "ac_entryCount u = 0"
        using True by (auto simp: render_def u_def stopIndicator_def)
      moreover have "ac_inv (u\<lparr>ac_active := False\<rparr>)" using True by (simp add: ac_inv_def u_def stopIndicator_def)
      ultimately show ?thesis using upd by (simp add: ac_step_def Choices)
    next
      case False
      have "ac_inv u" using False by (simp add: ac_inv_def u_def stopIndicator_def)
      moreover have "ac_entryCount u > 0" using False by (simp add: u_def stopIndicator_def)
      ultimately show ?thesis
        using select_ok [of u] render_ok [of u] upd by (auto simp: ac_step_def Choices bind_eff_def)
    qed
  qed (use inv in \<open>auto simp: ac_step_def Choices updateChoices_def\<close>)
next
  case Blur
  then show ?thesis using inv by (auto simp: ac_step_def onBlur_def ac_inv_def split: option.splits)
next
  case HideTimer
  have "ac_inv (s\<lparr>ac_hides := n\<rparr>)" for n using inv by (auto simp: ac_inv_def split: option.splits)
  then show ?thesis using inv by (simp add: ac_step_def HideTimer hide_timer_def)
qed

section \<open>The bounds of a token\<close>

lemma token_step_prev:
  "fst (foldl (token_step v pos) b ts) =
     foldl (\<lambda>m t. max m (last_index_of_from v t (pos - 1))) (fst b) ts"
  by (induction ts arbitrary: b) (auto simp: token_step_def Let_def max_def)

lemma token_step_next:
  "snd (foldl (token_step v pos) b ts) =
     foldl (\<lambda>m t. let i = index_of_from v t pos in if i \<noteq> -1 then min m i else m) (snd b) ts"
  by (induction ts arbitrary: b) (auto simp: token_step_def Let_def min_def)

lemma last_index_nonneg:
  assumes "0 \<le> i"
  shows "last_index_of_from v t i = int k \<longleftrightarrow>
    k \<le> nat i \<and> k \<le> length v \<and> starts_at v t k \<and> (\<forall>j. k < j \<and> int j \<le> i \<longrightarrow> \<not> starts_at v t j)"
proof -
  have c: "clamp_index v i = min (nat i) (length v)" using assms by (auto simp: clamp_index_def)
  show ?thesis unfolding last_index_of_from_def pos_or_minus1_def c
    using find_down_Some [of v t "min (nat i) (length v)" k] assms
    by (auto split: option.split dest: starts_at_bound simp: nat_le_iff le_nat_iff)
qed

lemma last_index_none: "last_index_of_from v t i = -1 \<Longrightarrow> int j \<le> i \<Longrightarrow> \<not> starts_at v t j"
  using find_down_None [of v t "clamp_index v i"] starts_at_bound [of v t j]
  by (auto simp: last_index_of_from_def pos_or_minus1_def clamp_index_def split: option.splits)

lemma foldl_max_ge:
  fixes f :: "'a \<Rightarrow> int"
  shows "m \<le> foldl (\<lambda>m t. max m (f t)) m ts \<and> (\<forall>t \<in> set ts. f t \<le> foldl (\<lambda>m t. max m (f t)) m ts) \<and>
    (foldl (\<lambda>m t. max m (f t)) m ts = m \<or> (\<exists>t \<in> set ts. foldl (\<lambda>m t. max m (f t)) m ts = f t))"
proof (induction ts arbitrary: m)
  case (Cons t ts)
  from Cons [of "max m (f t)"] show ?case by (auto simp: max_def split: if_splits)
qed simp

lemma foldl_min_le:
  fixes f :: "'a \<Rightarrow> int"
  defines "g \<equiv> \<lambda>m t. let i = f t in if i \<noteq> -1 then min m i else m"
  shows "foldl g m ts \<le> m \<and> (\<forall>t \<in> set ts. f t \<noteq> -1 \<longrightarrow> foldl g m ts \<le> f t) \<and>
    (foldl g m ts = m \<or> (\<exists>t \<in> set ts. f t \<noteq> -1 \<and> foldl g m ts = f t))"
proof (induction ts arbitrary: m)
  case (Cons t ts)
  from Cons [of "g m t"] show ?case by (auto simp: g_def Let_def min_def split: if_splits)
qed simp

lemma index_from_cases:
  obtains (none) "index_of_from v t i = -1" "\<And>k. clamp_index v i \<le> k \<Longrightarrow> \<not> starts_at v t k"
  | (found) k where "index_of_from v t i = int k" "clamp_index v i \<le> k" "starts_at v t k"
      "\<And>j. clamp_index v i \<le> j \<Longrightarrow> starts_at v t j \<Longrightarrow> k \<le> j"
proof (cases "0 \<le> index_of_from v t i")
  case True
  then obtain k where k: "index_of_from v t i = int k" by (metis nonneg_int_cases)
  with found [of k] show ?thesis using index_of_from_eq [of v t i k] by (auto simp: not_less [symmetric])
next
  case False
  then have "index_of_from v t i = -1" using index_of_from_ge [of v t i] by linarith
  with none False show ?thesis using index_of_from_nonneg [of v t i] by auto
qed

lemma last_from_cases:
  assumes "0 \<le> i"
  obtains (none) "last_index_of_from v t i = -1" "\<And>k. int k \<le> i \<Longrightarrow> \<not> starts_at v t k"
  | (found) k where "last_index_of_from v t i = int k" "int k \<le> i" "starts_at v t k"
      "\<And>j. int j \<le> i \<Longrightarrow> starts_at v t j \<Longrightarrow> j \<le> k"
proof (cases "last_index_of_from v t i = -1")
  case True
  then show ?thesis using none last_index_none by blast
next
  case False
  then obtain k where k: "last_index_of_from v t i = int k"
    by (auto simp: last_index_of_from_def pos_or_minus1_def split: option.splits)
  with last_index_nonneg [OF assms, of v t k] have m: "k \<le> nat i" "starts_at v t k"
    "\<forall>j. k < j \<and> int j \<le> i \<longrightarrow> \<not> starts_at v t j" by auto
  show ?thesis
  proof (rule found [OF k])
    show "int k \<le> i" using m(1) assms by (simp add: le_nat_iff)
    show "\<And>j. int j \<le> i \<Longrightarrow> starts_at v t j \<Longrightarrow> j \<le> k" using m(3) by (auto simp: not_less [symmetric])
  qed (rule m(2))
qed

text \<open>The token before the position and the token after it, and nothing in between.\<close>

lemma token_scan:
  fixes v :: string
  assumes pos: "0 < pos" and ts: "[] \<notin> set ts"
  defines "b \<equiv> foldl (token_step v pos) (-1, int (length v)) ts"
  shows "\<exists>i j :: nat. fst b + 1 = int i \<and> snd b = int j \<and> i \<le> j \<and> j \<le> length v \<and>
    (\<forall>t \<in> set ts. \<forall>k. i \<le> k \<and> k < j \<longrightarrow> \<not> starts_at v t k) \<and>
    (i = 0 \<or> (\<exists>t \<in> set ts. starts_at v t (i - 1))) \<and> (j = length v \<or> (\<exists>t \<in> set ts. starts_at v t j))"
proof -
  let ?f = "\<lambda>t. last_index_of_from v t (pos - 1)" and ?g = "\<lambda>t. index_of_from v t pos"
  have p: "0 \<le> pos - 1" using pos by simp
  have inside: "starts_at v t k \<Longrightarrow> t \<in> set ts \<Longrightarrow> k < length v" for t k
    using ts by (cases t) (auto simp: starts_at_def)
  have prev: "-1 \<le> fst b" "\<forall>t \<in> set ts. ?f t \<le> fst b" "fst b = -1 \<or> (\<exists>t \<in> set ts. fst b = ?f t)"
    using foldl_max_ge [where f = ?f and m = "-1" and ts = ts] by (simp_all add: b_def token_step_prev)
  have nxt: "snd b \<le> int (length v)" "\<forall>t \<in> set ts. ?g t \<noteq> -1 \<longrightarrow> snd b \<le> ?g t"
    "snd b = int (length v) \<or> (\<exists>t \<in> set ts. ?g t \<noteq> -1 \<and> snd b = ?g t)"
    using foldl_min_le [where f = ?g and m = "int (length v)" and ts = ts] by (simp_all add: b_def token_step_next)
  obtain i where i: "fst b + 1 = int i" using prev(1) nonneg_int_cases [of "fst b + 1"] by auto
  have istart: "i = 0 \<or> (\<exists>t \<in> set ts. starts_at v t (i - 1) \<and> int i \<le> pos)"
  proof (cases "fst b = -1")
    case False
    with prev(3) obtain t where t: "t \<in> set ts" "fst b = ?f t" by blast
    show ?thesis
    proof (cases rule: last_from_cases [OF p, of v t])
      case 1
      then show ?thesis using False t by simp
    next
      case (2 k)
      then have "i = k + 1" using i t by simp
      then show ?thesis using 2 t by auto
    qed
  qed (use i in simp)
  have jcase: "\<exists>j. snd b = int j \<and> (j = length v \<or> (\<exists>t \<in> set ts. starts_at v t j) \<and> clamp_index v pos \<le> j)"
  proof (cases "snd b = int (length v)")
    case False
    with nxt(3) obtain t where t: "t \<in> set ts" "?g t \<noteq> -1" "snd b = ?g t" by blast
    show ?thesis
      by (cases rule: index_from_cases [of v t pos]) (use t in auto)
  qed simp
  then obtain j where j: "snd b = int j" "j = length v \<or> (\<exists>t \<in> set ts. starts_at v t j) \<and> clamp_index v pos \<le> j" by blast
  have jlen: "j \<le> length v" using nxt(1) j(1) by simp
  have clamp: "clamp_index v pos = min (nat pos) (length v)" using pos by (auto simp: clamp_index_def)
  have le: "i \<le> j"
    using istart j(2) inside clamp pos by (fastforce simp: min_def nat_le_iff split: if_splits)
  have none: "\<not> starts_at v t k" if "t \<in> set ts" "i \<le> k" "k < j" for t k
  proof
    assume st: "starts_at v t k"
    show False
    proof (cases "int k \<le> pos - 1")
      case True
      have "?f t \<le> fst b" using prev(2) that by blast
      then show ?thesis
        by (cases rule: last_from_cases [OF p, of v t]) (use st True i that in force)+
    next
      case False
      then have ck: "clamp_index v pos \<le> k" using clamp pos by auto
      show ?thesis
      proof (cases rule: index_from_cases [of v t pos])
        case none
        then show ?thesis using st ck by blast
      next
        case (found m)
        then have "m \<le> k" using st ck by blast
        moreover have "snd b \<le> int m" using nxt(2) that(1) found(1) by force
        ultimately show ?thesis using j(1) that(3) by simp
      qed
    qed
  qed
  show ?thesis using i j jlen le none istart by (intro exI [of _ i] exI [of _ j]) auto
qed

lemma replace_token_nat:
  "replace_token v (int i, int j) text = take i v @ takeWhile is_ws (drop i v) @ text @ drop j v"
  using substr_nat [of v 0 i] by (simp add: replace_token_def substr_from_nat)

lemma substring_nat: "i \<le> j \<Longrightarrow> j \<le> length v \<Longrightarrow> substring v (int i) (int j) = take (j - i) (drop i v)"
  by (simp add: substring_def)

lemma strip_Nil: "strip s = [] \<longleftrightarrow> (\<forall>c \<in> set s. is_ws c)"
  using trim_Nil_iff [of s] by (simp add: strip_def trim_def)

lemma first_difference_le: "first_difference v w \<le> length v"
  by (induction v w rule: first_difference.induct) auto

section \<open>The choices of the local completer\<close>

definition li_text :: "li \<Rightarrow> string" where
  "li_text l = li_pre l @ li_strong l @ li_post l"

lemma local_index_cases:
  "local_index o' elem entry i = -1 \<or>
    (\<exists>k. local_index o' elem entry i = int k \<and> clamp_index elem i \<le> k \<and> k + length entry \<le> length elem)"
proof -
  have c: "clamp_index (to_lower_case elem) i = clamp_index elem i" by (simp add: clamp_index_def)
  have "index_of_from s t i = -1 \<or> (\<exists>k. index_of_from s t i = int k \<and> clamp_index s i \<le> k \<and> k + length t \<le> length s)"
    for s t by (cases rule: index_from_cases [of s t i]) (auto simp: starts_at_def)
  from this [of elem entry] this [of "to_lower_case elem" "to_lower_case entry"] show ?thesis
    by (auto simp: local_index_def c)
qed

lemma split_three: "take p e @ take n (drop p e) @ drop (p + n) e = e"
  by (metis add.commute append_take_drop_id drop_drop)

lemma match_loop_text:
  assumes "entry \<noteq> []" and "pos = -1 \<or> (\<exists>k. pos = int k \<and> k + length entry \<le> length elem)"
  shows "\<exists>r. match_loop o' elem entry pos = Some r \<and>
    (\<forall>l. r = Some (Inl l) \<or> r = Some (Inr l) \<longrightarrow> li_text l = elem \<and> length (li_strong l) = length entry)"
  using assms(2)
proof (induction "if pos = -1 then 0 else length elem + 1 - nat pos" arbitrary: pos rule: less_induct)
  case (less pos)
  show ?case
  proof (cases "pos = -1")
    case True
    then show ?thesis by (simp add: match_loop.simps)
  next
    case False
    then obtain k where k: "pos = int k" "k + length entry \<le> length elem" using less.prems by auto
    have kl: "k < length elem" using k assms(1) by (cases entry) auto
    define nx where "nx = local_index o' elem entry (pos + 1)"
    have c: "clamp_index elem (pos + 1) = k + 1"
      using kl clamp_index_nat [of "k + 1" elem] by (simp add: k add.commute)
    have nx: "nx = -1 \<or> (\<exists>m. nx = int m \<and> k + 1 \<le> m \<and> m + length entry \<le> length elem)"
      using local_index_cases [of o' elem entry "pos + 1"] unfolding nx_def c .
    have dec: "(if nx = -1 then 0 else length elem + 1 - nat nx) < (if pos = -1 then 0 else length elem + 1 - nat pos)"
      using nx kl k by auto
    have rec: "\<exists>r. match_loop o' elem entry nx = Some r \<and>
        (\<forall>l. r = Some (Inl l) \<or> r = Some (Inr l) \<longrightarrow> li_text l = elem \<and> length (li_strong l) = length entry)"
      by (rule less.hyps [OF dec]) (use nx in auto)
    have "substr elem 0 (int (length entry)) = take (length entry) elem" using substr_nat [of elem 0] by simp
    moreover have "substr elem 0 (int k) = take k elem" using substr_nat [of elem 0 k] by simp
    moreover have "substr_from elem (int k + int (length entry)) = drop (k + length entry) elem"
      using substr_from_nat [of elem "k + length entry"] by simp
    ultimately show ?thesis using rec k split_three [of k elem "length entry"]
      by (subst match_loop.simps) (auto simp: nx_def li_text_def substr_nat substr_from_nat)
  qed
qed

lemma select_loop_text:
  assumes "entry \<noteq> []" and "length ret \<le> choices o'"
  shows "\<exists>ret' part'. select_loop o' entry es ret part = Some (ret @ ret', part @ part') \<and>
    length (ret @ ret') \<le> choices o' \<and> (\<forall>l \<in> set (ret' @ part'). li_text l \<in> set es \<and> length (li_strong l) = length entry)"
  using assms(2)
proof (induction es arbitrary: ret part)
  case (Cons e es)
  show ?case
  proof (cases "length ret < choices o'")
    case True
    have "local_index o' e entry 0 = -1 \<or> (\<exists>k. local_index o' e entry 0 = int k \<and> k + length entry \<le> length e)"
      using local_index_cases [of o' e entry 0] by auto
    from match_loop_text [OF assms(1) this, of o'] obtain r where
      r: "match_loop o' e entry (local_index o' e entry 0) = Some r"
        "\<forall>l. r = Some (Inl l) \<or> r = Some (Inr l) \<longrightarrow> li_text l = e \<and> length (li_strong l) = length entry" by blast
    show ?thesis
    proof (cases r)
      case None
      with r True Cons.IH [of ret part] Cons.prems show ?thesis by auto
    next
      case (Some x)
      show ?thesis
      proof (cases x)
        case (Inl l)
        from Cons.IH [of "ret @ [l]" part] True obtain r' p' where
          "select_loop o' entry es (ret @ [l]) part = Some ((ret @ [l]) @ r', part @ p')"
          "length ((ret @ [l]) @ r') \<le> choices o'"
          "\<forall>l \<in> set (r' @ p'). li_text l \<in> set es \<and> length (li_strong l) = length entry" by auto
        with r True Some Inl show ?thesis by (intro exI [of _ "l # r'"] exI [of _ p']) auto
      next
        case (Inr l)
        from Cons.IH [of ret "part @ [l]"] Cons.prems obtain r' p' where
          "select_loop o' entry es ret (part @ [l]) = Some (ret @ r', (part @ [l]) @ p')"
          "length (ret @ r') \<le> choices o'"
          "\<forall>l \<in> set (r' @ p'). li_text l \<in> set es \<and> length (li_strong l) = length entry" by auto
        with r True Some Inr show ?thesis by (intro exI [of _ r'] exI [of _ "l # p'"]) auto
      qed
    qed
  qed (use Cons.prems in auto)
qed auto

text \<open>An empty string of the array and an empty token keep the loop at position 0.\<close>

lemma empty_index: "local_index o' [] [] i = 0"
  by (simp add: local_index_def index_of_from_def pos_or_minus1_def clamp_index_def starts_at_def to_lower_case_def)

lemma match_loop_empty_diverges:
  assumes "partialChars o' > 0"
  shows "match_loop o' [] [] 0 = None"
proof (rule ccontr)
  assume "match_loop o' [] [] 0 \<noteq> None"
  then obtain y where y: "match_loop o' [] [] 0 = Some y" by blast
  have "\<not> (partialChars o' > 0 \<and> [] = ([] :: string) \<and> [] = ([] :: string) \<and> (0 :: int) = 0)"
    using y
  proof (rule match_loop.raw_induct [where P = "\<lambda>o' elem entry pos y.
      \<not> (partialChars o' > 0 \<and> elem = [] \<and> entry = [] \<and> pos = 0)", rotated])
    fix f :: "ac_options \<Rightarrow> string \<Rightarrow> string \<Rightarrow> int \<Rightarrow> (li + li) option option"
      and p :: ac_options and elem entry :: string and pos :: int and y
    assume IH: "\<And>p elem entry pos y. f p elem entry pos = Some y \<Longrightarrow>
        \<not> (partialChars p > 0 \<and> elem = [] \<and> entry = [] \<and> pos = 0)"
      and eq: "(if pos \<noteq> -1
        then if pos = 0 \<and> length elem \<noteq> length entry
             then Some (Some (Inl \<lparr>li_pre = [], li_strong = substr elem 0 (int (length entry)),
                                   li_post = substr_from elem (int (length entry))\<rparr>))
             else if length entry \<ge> partialChars p \<and> partialSearch p \<and>
                     (fullSearch p \<or> list_ex is_ws (substr elem (pos - 1) 1))
             then Some (Some (Inr \<lparr>li_pre = substr elem 0 pos,
                                   li_strong = substr elem pos (int (length entry)),
                                   li_post = substr_from elem (pos + int (length entry))\<rparr>))
             else f p elem entry (local_index p elem entry (pos + 1))
        else Some None) = Some y"
    show "\<not> (partialChars p > 0 \<and> elem = [] \<and> entry = [] \<and> pos = 0)"
    proof
      assume a: "partialChars p > 0 \<and> elem = [] \<and> entry = [] \<and> pos = 0"
      with eq have "f p [] [] 0 = Some y" by (simp add: empty_index)
      from IH [OF this] a show False by blast
    qed
  qed
  with assms show False by simp
qed

section \<open>Results\<close>


text \<open>A completer as a page may make it.\<close>

definition sample_options :: ac_options where
  "sample_options =
     \<lparr>tokens = ['',''], minChars = 1, autoSelect = False, has_indicator = False, ie_absolute = False,
      choices = 10, partialSearch = True, partialChars = 2, ignoreCase = True, fullSearch = False,
      array = [''apple'', ''pineapple pie'']\<rparr>"

definition sample_active :: ac where
  "sample_active = (baseInitialize sample_options [])
     \<lparr>ac_hasFocus := True, ac_active := True, ac_entryCount := 2,
      ac_list := Some [\<lparr>e_text = ''a'', e_selected = True\<rparr>, \<lparr>e_text = ''b'', e_selected = False\<rparr>]\<rparr>"


text \<open>
  The text that a choice replaces lies between two delimiters: no delimiter starts in it, and
  one starts right before and right after it unless the text begins or ends there.  Choosing an
  entry puts its text in place of that part, after its leading white space, and keeps the rest.
\<close>

theorem choice_replaces_token:
  assumes "ac_bounds s = None" and "0 < difference_pos s" and "[] \<notin> set (tokens (ac_opt s))"
    and "snd (getToken s) \<noteq> []"
  shows "\<exists>i j. i \<le> j \<and> j \<le> length (ac_value s) \<and> snd (getToken s) = strip (take (j - i) (drop i (ac_value s))) \<and>
    (\<forall>t \<in> set (tokens (ac_opt s)). \<forall>k. i \<le> k \<and> k < j \<longrightarrow> \<not> starts_at (ac_value s) t k) \<and>
    (i = 0 \<or> (\<exists>t \<in> set (tokens (ac_opt s)). starts_at (ac_value s) t (i - 1))) \<and>
    (j = length (ac_value s) \<or> (\<exists>t \<in> set (tokens (ac_opt s)). starts_at (ac_value s) t j)) \<and>
    ac_value (updateElement (fst (getToken s)) e) =
      take i (ac_value s) @ takeWhile is_ws (drop i (ac_value s)) @ e_text e @ drop j (ac_value s)"
proof -
  have nb: "\<not> str_empty (strip (ac_value s))"
  proof
    assume a: "str_empty (strip (ac_value s))"
    then have "snd (getToken s) = strip (substring (ac_value s) (-1) 0)"
      using assms(1) by (simp add: getToken_def getTokenBounds_def)
    also have "substring (ac_value s) (-1) 0 = []" by (simp add: substring_def clamp_index_def)
    finally show False using assms(4) by (simp add: strip_def ltrim_def rtrim_def)
  qed
  let ?b = "foldl (token_step (ac_value s) (difference_pos s)) (-1, int (length (ac_value s))) (tokens (ac_opt s))"
  from token_scan [OF assms(2,3), of "ac_value s"] obtain i j where
    ij: "fst ?b + 1 = int i" "snd ?b = int j" "i \<le> j" "j \<le> length (ac_value s)"
      "\<forall>t \<in> set (tokens (ac_opt s)). \<forall>k. i \<le> k \<and> k < j \<longrightarrow> \<not> starts_at (ac_value s) t k"
      "i = 0 \<or> (\<exists>t \<in> set (tokens (ac_opt s)). starts_at (ac_value s) t (i - 1))"
      "j = length (ac_value s) \<or> (\<exists>t \<in> set (tokens (ac_opt s)). starts_at (ac_value s) t j)" by blast
  have tb: "getTokenBounds s = (s\<lparr>ac_bounds := Some (int i, int j)\<rparr>, (int i, int j))"
    using assms(1) nb ij(1,2) by (simp add: getTokenBounds_def Let_def)
  then have tok: "getToken s = (s\<lparr>ac_bounds := Some (int i, int j)\<rparr>, strip (take (j - i) (drop i (ac_value s))))"
    using ij(3,4) by (simp add: getToken_def substring_nat)
  have "getTokenBounds (fst (getToken s)) = (fst (getToken s), (int i, int j))"
    by (simp add: tok getTokenBounds_def)
  then have "ac_value (updateElement (fst (getToken s)) e) =
      take i (ac_value s) @ takeWhile is_ws (drop i (ac_value s)) @ e_text e @ drop j (ac_value s)"
    by (simp add: updateElement_def Let_def tok replace_token_nat)
  with ij(3-7) tok show ?thesis by (intro exI [of _ i] exI [of _ j]) simp
qed

definition sample_typed :: ac where
  "sample_typed = (baseInitialize sample_options ''kiwi, '')\<lparr>ac_value := ''kiwi, a''\<rparr>"

theorem choice_replaces_token_witness:
  "\<exists>i j. i \<le> j \<and> j \<le> length ''kiwi, a'' \<and>
    ac_value (updateElement (fst (getToken sample_typed)) \<lparr>e_text = ''apple'', e_selected = True\<rparr>) =
      take i ''kiwi, a'' @ takeWhile is_ws (drop i ''kiwi, a'') @ ''apple'' @ drop j ''kiwi, a''"
proof -
  have a: "ac_bounds sample_typed = None" "0 < difference_pos sample_typed"
    "[] \<notin> set (tokens (ac_opt sample_typed))" "snd (getToken sample_typed) \<noteq> []"
    by (code_simp)+
  have v: "ac_value sample_typed = ''kiwi, a''" by (simp add: sample_typed_def)
  show ?thesis
    using choice_replaces_token [OF a, of "\<lparr>e_text = ''apple'', e_selected = True\<rparr>"] unfolding v by auto
qed

text \<open>
  For a token that is not empty the local completer finds its choices: the loops end, there
  are at most as many as the option allows, each is a string of the array with a part as long as
  the token set off.
\<close>

theorem local_choices_found:
  assumes "entry \<noteq> []"
  shows "\<exists>lis. local_choices o' entry = Some lis \<and> length lis \<le> choices o' \<and>
    (\<forall>l \<in> set lis. li_text l \<in> set (array o') \<and> length (li_strong l) = length entry)"
proof -
  from select_loop_text [OF assms, of "[]" o' "array o'" "[]"] obtain r p where
    rp: "select_loop o' entry (array o') [] [] = Some (r, p)" "length r \<le> choices o'"
      "\<forall>l \<in> set (r @ p). li_text l \<in> set (array o') \<and> length (li_strong l) = length entry" by auto
  let ?sl = "slice p 0 (int (choices o') - int (length r))"
  have sl: "?sl = take (choices o' - length r) p"
    using slice_nat [of p 0 "choices o' - length r"] rp(2) by (simp add: of_nat_diff)
  have sub: "set ?sl \<subseteq> set p" unfolding sl by (rule set_take_subset)
  have "length (r @ ?sl) \<le> choices o'" using rp(2) unfolding sl by simp
  with rp sub show ?thesis
    by (intro exI [of _ "if p \<noteq> [] then r @ ?sl else r"]) (auto simp: local_choices_def)
qed

theorem local_choices_found_witness:
  "\<exists>lis. local_choices sample_options ''pi'' = Some lis \<and> length lis \<le> 10 \<and>
    (\<forall>l \<in> set lis. li_text l \<in> {''apple'', ''pineapple pie''} \<and> length (li_strong l) = 2)"
  using local_choices_found [of "''pi''" sample_options] by (simp add: sample_options_def numeral_2_eq_2)



text \<open>
  When the first character changes from something to a delimiter, the bounds are the wrong way
  round: the position before the start of the text is searched as the start.
\<close>

lemma delimiter_first_bounds:
  "snd (getTokenBounds ((baseInitialize sample_options ''x'')\<lparr>ac_value := '',y''\<rparr>)) = (1, 0)"
  by code_simp

end
