(* ===== verification/AjaxAutocompleter.thy ===== *)
theory AjaxAutocompleter
  imports Autocompleter ProtoHash
begin

text \<open>
  \<open>Ajax.Autocompleter\<close> of \<open>controls.js\<close>: the query that asks the server for the choices, and the answer.
\<close>

section \<open>Asking and answering\<close>

record ajax_completer =
  aj_paramName :: string
  aj_callback :: "(string \<Rightarrow> string) option"
  aj_defaultParams :: "string option"

text \<open>The entry of the query, and the parameters with those that are always sent; an empty text is falsy.\<close>

definition ac_entry :: "ajax_completer \<Rightarrow> string \<Rightarrow> string" where
  "ac_entry a token = encodeURIComponent (aj_paramName a) @ ''='' @ encodeURIComponent token"

definition ac_parameters :: "ajax_completer \<Rightarrow> string \<Rightarrow> string" where
  "ac_parameters a token =
     (let p = (case aj_callback a of None \<Rightarrow> ac_entry a token | Some f \<Rightarrow> f (ac_entry a token))
      in case aj_defaultParams a of None \<Rightarrow> p | Some d \<Rightarrow> if d = [] then p else p @ ''&'' @ d)"

text \<open>\<open>getUpdatedChoices\<close>: the state of the completer and the parameters of the request.\<close>

definition ask_choices :: "ajax_completer \<Rightarrow> ac \<Rightarrow> ac \<times> string" where
  "ask_choices a s = (let (s, token) = getToken (startIndicator s) in (s, ac_parameters a token))"

text \<open>\<open>onComplete\<close>\<close>

definition choices_arrived :: "(string \<Rightarrow> string list option) \<Rightarrow> string \<Rightarrow> ac \<Rightarrow> ac eff" where
  "choices_arrived parse responseText s = updateChoices parse s responseText"

section \<open>What the server reads\<close>

lemma strings_read:
  assumes "distinct (map fst kvs)" "\<forall>k \<in> set (map fst kvs). k \<noteq> [] \<and> \<not> inherited k"
  shows "toQueryParams CHR ''&'' (join ''&'' (query_lines kvs)) = Some (map (\<lambda>(k, v). (k, QOne (QText v))) kvs)"
  using query_fold [of "[]" kvs] assms by (simp add: read_lines) (simp add: query_lines_def)

text \<open>
  The server that reads the parameters of a completer gets the text that is to be completed under the
  name of the parameter, whatever characters it has, and after it the parameters that are always sent.
\<close>

theorem completion_request_read:
  assumes d: "aj_defaultParams a = (if kvs = [] then None else Some (toQueryString (map (\<lambda>(k, v). (k, HPrim (Str v))) kvs)))"
    and c: "aj_callback a = None"
    and names: "distinct (aj_paramName a # map fst kvs)"
      "\<forall>k \<in> set (aj_paramName a # map fst kvs). k \<noteq> [] \<and> \<not> inherited k"
  shows "toQueryParams CHR ''&'' (snd (ask_choices a s)) =
    Some ((aj_paramName a, QOne (QText (snd (getToken (startIndicator s))))) # map (\<lambda>(k, v). (k, QOne (QText v))) kvs)"
proof -
  obtain s' token where t: "getToken (startIndicator s) = (s', token)" by (cases "getToken (startIndicator s)")
  have ne: "join ''&'' (query_lines kvs) \<noteq> []" if "kvs \<noteq> []"
    using that by (cases kvs; cases "tl kvs") (auto simp: query_lines_def join_Cons)
  have "ac_parameters a token = join ''&'' (query_lines ((aj_paramName a, token) # kvs))"
    using d c ne by (cases "kvs = []") (simp_all add: ac_parameters_def ac_entry_def toQueryString_strings query_lines_def join_Cons Let_def)
  then show ?thesis using strings_read [of "(aj_paramName a, token) # kvs"] names t by (simp add: ask_choices_def)
qed

definition search_completer :: ajax_completer where
  "search_completer = \<lparr>aj_paramName = ''search'', aj_callback = None, aj_defaultParams = Some ''kind=app''\<rparr>"

theorem completion_request_read_witness:
  "toQueryParams CHR ''&'' (snd (ask_choices search_completer sample_typed)) =
    Some [(''search'', QOne (QText (snd (getToken (startIndicator sample_typed))))), (''kind'', QOne (QText ''app''))]"
proof -
  have "toQueryString (map (\<lambda>(k, v). (k, HPrim (Str v))) [(''kind'', ''app'')]) = ''kind=app''" by code_simp
  then show ?thesis
    using completion_request_read [of search_completer "[(''kind'', ''app'')]" sample_typed]
    by (simp add: search_completer_def inherited_def)
qed

end
