(* ===== verification/InPlaceEditor.thy ===== *)
theory InPlaceEditor
  imports ProtoString
begin

text \<open>
  \<open>Ajax.InPlaceEditor\<close>, \<open>Ajax.InPlaceCollectionEditor\<close> and
  \<open>Form.Element.DelayedObserver\<close> of \<open>controls.js\<close>.  The editor is a state machine
  between showing a text, editing it in a form and saving it; requests to the server
  are pending until a response comes, which may find the editor in another state.
  A handler that throws leaves a state behind.
\<close>

section \<open>State\<close>

datatype control = CButton | CLink | CNone

record ipe_options =
  externalControl :: bool
  externalControlOnly :: bool
  loadTextURL :: bool
  loadingText :: string
  rows :: nat
  cols :: nat
  field_size :: nat
  autoRows :: nat
  submitOnBlur :: bool
  htmlResponse :: bool
  hoverClassName :: string
  savingClassName :: string
  loadingClassName :: string
  formClassName :: string
  okControl :: control
  cancelControl :: control
  okText :: string
  cancelText :: string
  textBeforeControls :: string
  textBetweenControls :: string
  textAfterControls :: string
  savingText :: string
  stripLoadedTextTags :: bool
  default_onFailure :: bool

record edit_field =
  f_area :: bool
  f_rows :: nat
  f_size :: nat
  f_value :: string
  f_disabled :: bool
  f_submit_on_blur :: bool

datatype form_item =
    EditField edit_field
  | LineBreak
  | FormText string
  | FormControl string control string

record edit_form =
  form_class :: "string list"
  form_items :: "form_item list"

datatype request = LoadText | Save

record ipe =
  i_opt :: ipe_options
  i_html :: string
  i_visible :: bool
  i_classes :: "string list"
  i_control_visible :: bool
  i_editing :: bool
  i_saving :: bool
  i_old :: "string option"
  i_form :: "edit_form option"
  i_pending :: "request list"
  i_listening :: bool
  i_log :: "string list"

datatype ipe_eff = IOk ipe | IThrown ipe

definition ibind :: "ipe_eff \<Rightarrow> (ipe \<Rightarrow> ipe_eff) \<Rightarrow> ipe_eff" where
  "ibind r f = (case r of IOk s \<Rightarrow> f s | IThrown s \<Rightarrow> IThrown s)"

definition ipe_default_options :: ipe_options where
  "ipe_default_options =
     \<lparr>externalControl = False, externalControlOnly = False, loadTextURL = False, loadingText = ''Loading...'',
      rows = 1, cols = 0, field_size = 0, autoRows = 3, submitOnBlur = False, htmlResponse = True,
      hoverClassName = [], savingClassName = ''inplaceeditor-saving'',
      loadingClassName = ''inplaceeditor-loading'', formClassName = ''inplaceeditor-form'',
      okControl = CButton, cancelControl = CLink, okText = ''ok'', cancelText = ''cancel'',
      textBeforeControls = [], textBetweenControls = [], textAfterControls = [],
      savingText = ''Saving...'', stripLoadedTextTags = False, default_onFailure = True\<rparr>"

text \<open>\<open>externalControlOnly\<close> needs an external control.\<close>

definition ipe_initialize :: "ipe_options \<Rightarrow> string \<Rightarrow> ipe" where
  "ipe_initialize o' html =
     \<lparr>i_opt = o'\<lparr>externalControlOnly := externalControl o' \<and> externalControlOnly o'\<rparr>, i_html = html,
      i_visible = True, i_classes = [], i_control_visible = externalControl o', i_editing = False,
      i_saving = False, i_old = None, i_form = None, i_pending = [], i_listening = True, i_log = []\<rparr>"

text \<open>The callbacks are only recorded, but for the one of a failure.\<close>

definition triggerCallback :: "ipe \<Rightarrow> string \<Rightarrow> ipe" where
  "triggerCallback s cbName = s\<lparr>i_log := i_log s @ [cbName]\<rparr>"

definition add_class :: "string \<Rightarrow> string list \<Rightarrow> string list" where
  "add_class c cs = (if c \<in> set cs then cs else cs @ [c])"

definition remove_class :: "string \<Rightarrow> string list \<Rightarrow> string list" where
  "remove_class c cs = filter (\<lambda>d. d \<noteq> c) cs"

definition getText :: "ipe \<Rightarrow> string" where
  "getText s = unescapeHTML (i_html s)"

section \<open>The form\<close>

definition createEditField :: "ipe \<Rightarrow> edit_field" where
  "createEditField s =
     (let o' = i_opt s;
          text = (if loadTextURL o' then loadingText o' else getText s);
          single = rows o' \<le> 1 \<and> \<not> list_ex line_end (getText s)
      in \<lparr>f_area = \<not> single,
          f_rows = (if single then 1 else if rows o' \<le> 1 then autoRows o' else rows o'),
          f_size = (if single then (if field_size o' \<noteq> 0 then field_size o' else cols o')
                    else if cols o' \<noteq> 0 then cols o' else 40),
          f_value = text, f_disabled = loadTextURL o', f_submit_on_blur = submitOnBlur o'\<rparr>)"

definition createControl :: "ipe \<Rightarrow> string \<Rightarrow> form_item list" where
  "createControl s mode =
     (let o' = i_opt s;
          c = (if mode = ''ok'' then okControl o' else cancelControl o');
          text = (if mode = ''ok'' then okText o' else cancelText o')
      in if c = CNone then [] else [FormControl mode c text])"

definition addText :: "string \<Rightarrow> bool \<Rightarrow> form_item list" where
  "addText text condition = (if text = [] \<or> \<not> condition then [] else [FormText text])"

definition createForm :: "ipe \<Rightarrow> edit_form" where
  "createForm s =
     (let o' = i_opt s;
          ok = okControl o' \<noteq> CNone; cancel = cancelControl o' \<noteq> CNone;
          field = createEditField s
      in \<lparr>form_class = [formClassName o'] @ (if loadTextURL o' then [loadingClassName o'] else []),
          form_items =
            [EditField field] @ (if f_area field then [LineBreak] else []) @
            addText (textBeforeControls o') (ok \<or> cancel) @ createControl s ''ok'' @
            addText (textBetweenControls o') (ok \<and> cancel) @ createControl s ''cancel'' @
            addText (textAfterControls o') (ok \<or> cancel)\<rparr>)"

fun field_of :: "form_item list \<Rightarrow> edit_field option" where
  "field_of [] = None"
| "field_of (EditField f # _) = Some f"
| "field_of (_ # r) = field_of r"

fun set_field :: "(edit_field \<Rightarrow> edit_field) \<Rightarrow> form_item list \<Rightarrow> form_item list" where
  "set_field g [] = []"
| "set_field g (EditField f # r) = EditField (g f) # r"
| "set_field g (x # r) = x # set_field g r"

definition removeForm :: "ipe \<Rightarrow> ipe" where
  "removeForm s = s\<lparr>i_form := None\<rparr>"

section \<open>Entering and leaving\<close>

definition enterEditMode :: "ipe \<Rightarrow> ipe" where
  "enterEditMode s =
     (if i_saving s \<or> i_editing s then s
      else
        let s = triggerCallback (s\<lparr>i_editing := True\<rparr>) ''onEnterEditMode'';
            s = (if externalControl (i_opt s) then s\<lparr>i_control_visible := False\<rparr> else s);
            s = s\<lparr>i_visible := False\<rparr>;
            s = s\<lparr>i_form := Some (createForm s)\<rparr>
        in if loadTextURL (i_opt s) then s\<lparr>i_pending := i_pending s @ [LoadText]\<rparr> else s)"

definition enterHover :: "ipe \<Rightarrow> ipe" where
  "enterHover s =
     (let s = (if hoverClassName (i_opt s) \<noteq> [] then s\<lparr>i_classes := add_class (hoverClassName (i_opt s)) (i_classes s)\<rparr> else s)
      in if i_saving s then s else triggerCallback s ''onEnterHover'')"

definition leaveHover :: "ipe \<Rightarrow> ipe" where
  "leaveHover s =
     (let s = (if hoverClassName (i_opt s) \<noteq> [] then s\<lparr>i_classes := remove_class (hoverClassName (i_opt s)) (i_classes s)\<rparr> else s)
      in if i_saving s then s else triggerCallback s ''onLeaveHover'')"

definition leaveEditMode :: "ipe \<Rightarrow> ipe" where
  "leaveEditMode s =
     (let s = s\<lparr>i_classes := remove_class (savingClassName (i_opt s)) (i_classes s)\<rparr>;
          s = leaveHover (removeForm s);
          s = s\<lparr>i_visible := True\<rparr>;
          s = (if externalControl (i_opt s) then s\<lparr>i_control_visible := True\<rparr> else s)
      in triggerCallback (s\<lparr>i_saving := False, i_editing := False, i_old := None\<rparr>) ''onLeaveEditMode'')"

definition wrapUp :: "ipe \<Rightarrow> ipe" where
  "wrapUp s = triggerCallback (leaveEditMode s) ''onComplete''"

definition handleFormCancellation :: "ipe \<Rightarrow> ipe" where
  "handleFormCancellation s = wrapUp s"

definition showSaving :: "ipe \<Rightarrow> ipe" where
  "showSaving s =
     s\<lparr>i_old := Some (i_html s), i_html := savingText (i_opt s),
       i_classes := add_class (savingClassName (i_opt s)) (i_classes s), i_visible := True\<rparr>"

definition prepareSubmission :: "ipe \<Rightarrow> ipe" where
  "prepareSubmission s = showSaving (leaveHover (removeForm (s\<lparr>i_saving := True\<rparr>)))"

text \<open>Reading the value of the field throws when the form is gone.\<close>

definition handleFormSubmission :: "ipe \<Rightarrow> ipe_eff" where
  "handleFormSubmission s =
     (case i_form s of
        None \<Rightarrow> IThrown s
      | Some _ \<Rightarrow> let s = prepareSubmission s in IOk (s\<lparr>i_pending := i_pending s @ [Save]\<rparr>))"

text \<open>
  The callback is called with the editor first, but its default takes the transport
  first: reading \<open>responseText\<close> of the editor and calling a method on it throws.
\<close>

definition handleAJAXFailure :: "ipe \<Rightarrow> ipe_eff" where
  "handleAJAXFailure s =
     (let s = triggerCallback s ''onFailure''
      in if default_onFailure (i_opt s) then IThrown s
         else IOk (case i_old s of
                     None \<Rightarrow> s
                   | Some h \<Rightarrow> if h = [] then s else s\<lparr>i_html := h, i_old := None\<rparr>))"

definition checkForEscapeOrReturn :: "ipe \<Rightarrow> bool \<Rightarrow> nat \<Rightarrow> ipe_eff" where
  "checkForEscapeOrReturn s modifier k =
     (if \<not> i_editing s \<or> modifier then IOk s
      else if k = 27 then IOk (handleFormCancellation s)
      else if k = 13 then handleFormSubmission s
      else IOk s)"

definition ipe_destroy :: "ipe \<Rightarrow> ipe" where
  "ipe_destroy s =
     (leaveEditMode (case i_old s of None \<Rightarrow> s | Some h \<Rightarrow> if h = [] then s else s\<lparr>i_html := h\<rparr>))
     \<lparr>i_listening := False\<rparr>"

section \<open>Responses\<close>

text \<open>
  The text of the field comes from the server; when the form is gone the callback
  throws, which the request catches.
\<close>

definition text_loaded :: "ipe \<Rightarrow> string \<Rightarrow> ipe" where
  "text_loaded s text =
     (case i_form s of
        None \<Rightarrow> s
      | Some fm \<Rightarrow>
          let text = (if stripLoadedTextTags (i_opt s) then stripTags text else text)
          in s\<lparr>i_form := Some (fm\<lparr>form_class := remove_class (loadingClassName (i_opt s)) (form_class fm),
                 form_items := set_field (\<lambda>f. f\<lparr>f_value := text, f_disabled := False\<rparr>) (form_items fm)\<rparr>)\<rparr>)"

text \<open>
  The end of a save: on a failure first \<open>onFailure\<close>, whose exceptions the request
  catches, then in any case \<open>onComplete\<close>, before which an \<open>Ajax.Updater\<close> puts the
  response of a success into the element.
\<close>

definition after_failure :: "ipe_eff \<Rightarrow> ipe" where
  "after_failure r = (case r of IOk s \<Rightarrow> s | IThrown s \<Rightarrow> s)"

definition save_done :: "ipe \<Rightarrow> string option \<Rightarrow> ipe" where
  "save_done s response =
     (case response of
        Some text \<Rightarrow> wrapUp (if htmlResponse (i_opt s) then s\<lparr>i_html := stripScripts text\<rparr> else s)
      | None \<Rightarrow> wrapUp (after_failure (handleAJAXFailure s)))"

datatype ipe_event =
    EditClick
  | Keydown bool nat
  | SubmitForm
  | CancelForm
  | MouseOver
  | MouseOut
  | Response "string option"

definition respond :: "ipe \<Rightarrow> string option \<Rightarrow> ipe" where
  "respond s response =
     (case i_pending s of
        [] \<Rightarrow> s
      | Save # r \<Rightarrow> save_done (s\<lparr>i_pending := r\<rparr>) response
      | LoadText # r \<Rightarrow>
          (case response of
             Some text \<Rightarrow> text_loaded (s\<lparr>i_pending := r\<rparr>) text
           | None \<Rightarrow> after_failure (handleAJAXFailure (s\<lparr>i_pending := r\<rparr>))))"

definition ipe_step :: "ipe \<Rightarrow> ipe_event \<Rightarrow> ipe_eff" where
  "ipe_step s e =
     (case e of
        EditClick \<Rightarrow> IOk (enterEditMode s)
      | Keydown modifier k \<Rightarrow> checkForEscapeOrReturn s modifier k
      | SubmitForm \<Rightarrow> handleFormSubmission s
      | CancelForm \<Rightarrow> IOk (handleFormCancellation s)
      | MouseOver \<Rightarrow> IOk (enterHover s)
      | MouseOut \<Rightarrow> IOk (leaveHover s)
      | Response r \<Rightarrow> IOk (respond s r))"

section \<open>Options of former versions\<close>

text \<open>
  A control that is given by the two former options, \<open>None\<close> where an option is
  undefined.  The last test compares the comparison of the two with false.
\<close>

definition loose_bool_eq :: "bool option \<Rightarrow> bool option \<Rightarrow> bool" where
  "loose_bool_eq a b \<longleftrightarrow> a = b"

definition fallback_control :: "bool option \<Rightarrow> bool option \<Rightarrow> control option" where
  "fallback_control link button =
     (if link = Some True then Some CLink
      else if button = Some True then Some CButton
      else if loose_bool_eq link button = False then Some CNone else None)"

section \<open>The collection editor\<close>

datatype collection_entry = Single string | Several "string list"

text \<open>\<open>2 === entry.length ? entry : [entry, entry].flatten()\<close>; a string has a length and letters too.\<close>

definition normalize_entry :: "collection_entry \<Rightarrow> string list" where
  "normalize_entry e =
     (case e of
        Single s \<Rightarrow> if length s = 2 then [[s ! 0], [s ! 1]] else [s, s]
      | Several xs \<Rightarrow> if length xs = 2 then xs else xs @ xs)"

record select_option =
  so_value :: "string option"
  so_text :: "string option"
  so_selected :: bool

definition nth_opt :: "'a list \<Rightarrow> nat \<Rightarrow> 'a option" where
  "nth_opt xs i = (if i < length xs then Some (xs ! i) else None)"

definition buildOptionList :: "collection_entry list \<Rightarrow> string \<Rightarrow> select_option list" where
  "buildOptionList collection marker =
     (let entries = map normalize_entry collection;
          textFound = list_ex (\<lambda>e. nth_opt e 0 = Some marker) entries
      in map (\<lambda>(e, index). \<lparr>so_value = nth_opt e 0, so_text = nth_opt e 1,
              so_selected = (if textFound then nth_opt e 0 = Some marker else index = 0)\<rparr>)
           (zip entries [0..<length entries]))"

text \<open>The sanity check of a loaded collection: \<open>/^\[.*\]$/\<close> on the stripped response.\<close>

definition collection_syntax :: "string \<Rightarrow> bool" where
  "collection_syntax response =
     (let js = strip response
      in length js \<ge> 2 \<and> hd js = CHR ''['' \<and> last js = CHR '']'' \<and> \<not> list_ex line_end js)"

section \<open>The delayed observer\<close>

record delayed =
  d_last :: string
  d_timer :: bool
  d_calls :: "string list"

definition delayedListener :: "delayed \<Rightarrow> string \<Rightarrow> delayed" where
  "delayedListener d value =
     (if d_last d = value then d else d\<lparr>d_timer := True, d_last := value\<rparr>)"

text \<open>The timer fires with the value the field has then.\<close>

definition delayed_onTimerEvent :: "delayed \<Rightarrow> string \<Rightarrow> delayed" where
  "delayed_onTimerEvent d value =
     (if d_timer d then d\<lparr>d_timer := False, d_calls := d_calls d @ [value]\<rparr> else d)"

section \<open>The modes of the editor\<close>

text \<open>
  Either the element is visible or the form is there; the form is there exactly
  while editing and not saving; the former text is kept only while saving.
\<close>

definition ipe_inv :: "ipe \<Rightarrow> bool" where
  "ipe_inv s \<longleftrightarrow>
     (i_form s \<noteq> None \<longleftrightarrow> i_editing s \<and> \<not> i_saving s) \<and> (i_visible s \<longleftrightarrow> i_form s = None) \<and>
     (i_saving s \<longrightarrow> i_editing s) \<and> (i_old s \<noteq> None \<longrightarrow> i_saving s)"

lemma hover_fields [simp]:
  "i_form (leaveHover s) = i_form s" "i_editing (leaveHover s) = i_editing s"
  "i_saving (leaveHover s) = i_saving s" "i_old (leaveHover s) = i_old s"
  "i_visible (leaveHover s) = i_visible s" "i_html (leaveHover s) = i_html s"
  "i_opt (leaveHover s) = i_opt s" "i_pending (leaveHover s) = i_pending s"
  "i_form (enterHover s) = i_form s" "i_editing (enterHover s) = i_editing s"
  "i_saving (enterHover s) = i_saving s" "i_old (enterHover s) = i_old s"
  "i_visible (enterHover s) = i_visible s"
  by (simp_all add: leaveHover_def enterHover_def triggerCallback_def Let_def)

lemma wrapUp_fields [simp]:
  "i_form (wrapUp s) = None" "i_editing (wrapUp s) = False" "i_saving (wrapUp s) = False"
  "i_old (wrapUp s) = None" "i_visible (wrapUp s) = True" "i_html (wrapUp s) = i_html s"
  "i_opt (wrapUp s) = i_opt s" "i_pending (wrapUp s) = i_pending s"
  by (simp_all add: wrapUp_def leaveEditMode_def triggerCallback_def removeForm_def Let_def)

lemma wrapUp_inv [simp]: "ipe_inv (wrapUp s)"
  by (simp add: ipe_inv_def)

lemma failure_fields [simp]:
  "i_form (after_failure (handleAJAXFailure s)) = i_form s"
  "i_editing (after_failure (handleAJAXFailure s)) = i_editing s"
  "i_saving (after_failure (handleAJAXFailure s)) = i_saving s"
  "i_visible (after_failure (handleAJAXFailure s)) = i_visible s"
  "i_pending (after_failure (handleAJAXFailure s)) = i_pending s"
  "i_old (after_failure (handleAJAXFailure s)) = None \<or> i_old (after_failure (handleAJAXFailure s)) = i_old s"
  by (auto simp: after_failure_def handleAJAXFailure_def triggerCallback_def Let_def split: option.split)

lemma submit_fields:
  "i_form s = Some f \<Longrightarrow> \<exists>t. handleFormSubmission s = IOk t \<and> i_form t = None \<and> i_saving t \<and>
     i_editing t = i_editing s \<and> i_visible t \<and> i_old t = Some (i_html s) \<and>
     i_html t = savingText (i_opt s) \<and> i_opt t = i_opt s \<and> i_pending t = i_pending s @ [Save]"
  by (simp add: handleFormSubmission_def prepareSubmission_def showSaving_def removeForm_def Let_def)

lemma submit_inv:
  assumes "ipe_inv s"
  shows "(\<exists>t. handleFormSubmission s = IOk t \<and> ipe_inv t) \<or> handleFormSubmission s = IThrown s \<and> i_form s = None"
proof (cases "i_form s")
  case None
  then show ?thesis by (simp add: handleFormSubmission_def)
next
  case (Some f)
  from submit_fields [OF Some] assms Some show ?thesis by (auto simp: ipe_inv_def)
qed

lemma respond_inv: "ipe_inv s \<Longrightarrow> ipe_inv (respond s r)"
proof -
  assume inv: "ipe_inv s"
  have load: "ipe_inv (after_failure (handleAJAXFailure (s\<lparr>i_pending := p\<rparr>)))" for p
    using inv failure_fields(6) [of "s\<lparr>i_pending := p\<rparr>"] by (auto simp: ipe_inv_def)
  show ?thesis using inv load
    by (auto simp: respond_def save_done_def text_loaded_def ipe_inv_def Let_def
        split: list.split request.split option.split)
qed

lemma enter_inv: "ipe_inv s \<Longrightarrow> ipe_inv (enterEditMode s)"
  by (auto simp: enterEditMode_def ipe_inv_def triggerCallback_def Let_def)

section \<open>Results\<close>



text \<open>An editor that shows its text and waits for nothing.\<close>

definition ipe_idle :: "ipe \<Rightarrow> bool" where
  "ipe_idle s \<longleftrightarrow> ipe_inv s \<and> \<not> i_editing s \<and> i_pending s = [] \<and> htmlResponse (i_opt s) \<and>
     \<not> loadTextURL (i_opt s)"

lemma enter_idle:
  "ipe_idle s \<Longrightarrow> \<exists>f t. enterEditMode s = t \<and> i_form t = Some f \<and> i_html t = i_html s \<and> i_opt t = i_opt s \<and>
     i_pending t = []"
  by (auto simp: ipe_idle_def ipe_inv_def enterEditMode_def triggerCallback_def Let_def)

text \<open>
  Cancelling an edit leaves the text as it was, and a save that succeeds ends with the
  response in the element.  A save that fails ends with the former text when the page gives its
  own callback for failures; with the default callback the element goes on showing the text for
  saving, because the callback throws before the former text is put back.
\<close>

theorem edit_outcomes:
  assumes "ipe_idle s" and "i_html s \<noteq> []" and "enterEditMode s = t" and "handleFormSubmission t = IOk u"
  shows "i_html (handleFormCancellation t) = i_html s \<and> ipe_idle (handleFormCancellation t) \<and>
    i_html (respond u (Some text)) = stripScripts text \<and> ipe_idle (respond u (Some text)) \<and>
    ipe_idle (respond u None) \<and>
    i_html (respond u None) = (if default_onFailure (i_opt s) then savingText (i_opt s) else i_html s)"
proof -
  from enter_idle [OF assms(1)] assms(3) obtain f where
    t: "i_form t = Some f" "i_html t = i_html s" "i_opt t = i_opt s" "i_pending t = []" by auto
  from submit_fields [OF t(1)] assms(4) t have
    u: "i_old u = Some (i_html s)" "i_html u = savingText (i_opt s)" "i_opt u = i_opt s" "i_pending u = [Save]"
    by auto
  have o: "htmlResponse (i_opt s)" "\<not> loadTextURL (i_opt s)" using assms(1) by (simp_all add: ipe_idle_def)
  have opt: "i_opt (after_failure (handleAJAXFailure x)) = i_opt x" for x
    by (auto simp: after_failure_def handleAJAXFailure_def triggerCallback_def Let_def split: option.split)
  have html: "i_html (after_failure (handleAJAXFailure (u\<lparr>i_pending := []\<rparr>))) =
      (if default_onFailure (i_opt s) then savingText (i_opt s) else i_html s)"
    using u assms(2) by (simp add: after_failure_def handleAJAXFailure_def triggerCallback_def Let_def)
  show ?thesis using t u o html
    by (simp add: handleFormCancellation_def respond_def save_done_def ipe_idle_def opt)
qed

theorem edit_outcomes_witness:
  "\<exists>u. handleFormSubmission (enterEditMode (ipe_initialize ipe_default_options ''text'')) = IOk u \<and>
    i_html (respond u None) = ''Saving...''"
proof -
  let ?s = "ipe_initialize ipe_default_options ''text''"
  have idle: "ipe_idle ?s" by (simp add: ipe_idle_def ipe_inv_def ipe_initialize_def ipe_default_options_def)
  from enter_idle [OF idle] obtain f where "i_form (enterEditMode ?s) = Some f" by auto
  from submit_fields [OF this] obtain u where u: "handleFormSubmission (enterEditMode ?s) = IOk u" by auto
  have "i_html ?s \<noteq> []" "default_onFailure (i_opt ?s)" "savingText (i_opt ?s) = ''Saving...''"
    by (simp_all add: ipe_initialize_def ipe_default_options_def)
  with edit_outcomes [OF idle _ refl u] u show ?thesis by auto
qed

text \<open>
  In the list of a collection editor some option is selected unless the list is empty: those
  whose value is the text when there are any, and otherwise the first.
\<close>

theorem option_list_selection:
  assumes "collection \<noteq> []" and opts_def: "opts = buildOptionList collection marker"
  shows "length opts = length collection \<and> list_ex so_selected opts \<and>
    (if list_ex (\<lambda>x. so_value x = Some marker) opts
     then \<forall>x \<in> set opts. so_selected x \<longleftrightarrow> so_value x = Some marker
     else \<forall>i < length opts. so_selected (opts ! i) \<longleftrightarrow> i = 0)"
proof -
  let ?es = "map normalize_entry collection"
  let ?found = "list_ex (\<lambda>e. nth_opt e 0 = Some marker) ?es"
  have len: "length opts = length collection" by (simp add: opts_def buildOptionList_def Let_def)
  have nth: "opts ! i = \<lparr>so_value = nth_opt (?es ! i) 0, so_text = nth_opt (?es ! i) 1,
      so_selected = (if ?found then nth_opt (?es ! i) 0 = Some marker else i = 0)\<rparr>" if "i < length collection" for i
    using that by (simp add: opts_def buildOptionList_def Let_def)
  have found: "list_ex (\<lambda>x. so_value x = Some marker) opts \<longleftrightarrow> ?found"
    by (auto simp: list_ex_length len nth)
  have val: "\<forall>x \<in> set opts. so_selected x \<longleftrightarrow> so_value x = Some marker" if ?found
    using that by (auto simp: in_set_conv_nth len nth)
  have idx: "\<forall>i < length opts. so_selected (opts ! i) \<longleftrightarrow> i = 0" if "\<not> ?found"
    using that by (simp add: len nth)
  have "list_ex so_selected opts"
  proof (cases ?found)
    case True
    with found obtain x where "x \<in> set opts" "so_value x = Some marker" by (auto simp: list_ex_iff)
    with val [OF True] show ?thesis by (auto simp: list_ex_iff)
  next
    case False
    with idx assms(1) len show ?thesis by (auto simp: list_ex_length)
  qed
  with len found val idx show ?thesis by auto
qed

theorem option_list_selection_witness:
  "list_ex so_selected (buildOptionList [Single ''one'', Single ''two''] ''two'')"
  using option_list_selection [of "[Single ''one'', Single ''two'']" _ "''two''", OF _ refl] by simp

text \<open>A string of two letters is taken for a pair of a value and a text.\<close>

lemma two_letters_split: "normalize_entry (Single ''NY'') = [''N'', ''Y'']"
  by (simp add: normalize_entry_def)

text \<open>Turning off both former controls turns off nothing; turning off one of them does.\<close>

lemma former_controls:
  "fallback_control (Some False) (Some False) = None"
  "fallback_control (Some False) None = Some CNone"
  by (simp_all add: fallback_control_def loose_bool_eq_def)

end
