(* ===== verification/ElementStyle.thy ===== *)
theory ElementStyle
  imports JsNumber ProtoHash
begin

text \<open>
  The style methods of \<open>Element.Methods\<close> in \<open>prototype.js\<close>, in the form they have in browsers
  that follow the standard: visibility, opacity, positioning and clipping.  An element has its
  inline style, the values that the style sheets give it, and the sizes of its layout, which
  are read and never computed here.
\<close>

section \<open>Values and elements\<close>

text \<open>
  A value of a style property: a keyword, or a number with its unit, which is printed and read
  back as the same number.  The empty keyword is a property that is not set.
\<close>

datatype sval = SText string | SNum js_num string

type_synonym styles = "(string \<times> sval) list"

record elem =
  inline :: "string \<Rightarrow> sval"
  sheet :: "string \<Rightarrow> sval"
  madePositioned :: bool
  clip_overflow :: "sval option"
  abs_left :: js_num
  abs_top :: js_num
  abs_width :: sval
  abs_height :: sval
  offsetTop :: real
  offsetLeft :: real
  offsetWidth :: real
  offsetHeight :: real
  clientWidth :: real
  clientHeight :: real
  scrollWidth :: real
  scrollHeight :: real

abbreviation unset :: sval where
  "unset \<equiv> SText []"

abbreviation px :: "real \<Rightarrow> sval" where
  "px x \<equiv> SNum (Fin x) ''px''"

text \<open>An assignment to a property; a number that is not finite is no value and changes nothing.\<close>

definition valid_value :: "sval \<Rightarrow> bool" where
  "valid_value v \<longleftrightarrow> (case v of SText _ \<Rightarrow> True | SNum (Fin _) _ \<Rightarrow> True | _ \<Rightarrow> False)"

definition assign :: "string \<Rightarrow> sval \<Rightarrow> elem \<Rightarrow> elem" where
  "assign k v e = (if valid_value v then e\<lparr>inline := (inline e)(k := v)\<rparr> else e)"

text \<open>What the browser shows: the inline value, or the one of the style sheets.\<close>

definition effective :: "elem \<Rightarrow> string \<Rightarrow> sval" where
  "effective e k = (if inline e k = unset then sheet e k else inline e k)"

text \<open>\<open>getStyle\<close>; \<open>null\<close> is the empty keyword, as its callers only ask whether there is a value.\<close>

definition getStyle :: "elem \<Rightarrow> string \<Rightarrow> sval" where
  "getStyle e k =
     (let value = (if inline e k = unset \<or> inline e k = SText ''auto'' then effective e k else inline e k)
      in if value = SText ''auto'' then unset else value)"

definition parseFloat :: "sval \<Rightarrow> js_num" where
  "parseFloat v = (case v of SText _ \<Rightarrow> NaN | SNum x _ \<Rightarrow> x)"

text \<open>\<open>parseFloat(v || '0')\<close>\<close>

definition parseFloat_or_zero :: "sval \<Rightarrow> js_num" where
  "parseFloat_or_zero v = (if v = unset then Fin 0 else parseFloat v)"

definition getOpacity :: "elem \<Rightarrow> js_num" where
  "getOpacity e = (let value = effective e ''opacity'' in if value = unset then Fin 1 else parseFloat value)"

definition getInlineOpacity :: "elem \<Rightarrow> sval" where
  "getInlineOpacity e = inline e ''opacity''"

definition setOpacity :: "sval \<Rightarrow> elem \<Rightarrow> elem" where
  "setOpacity value e =
     assign ''opacity''
       (case value of
          SText t \<Rightarrow> SText t
        | SNum x u \<Rightarrow> if x = Fin 1 then unset else if js_less x (Fin (1 / 100000)) then SNum (Fin 0) [] else SNum x u) e"

definition setStyle :: "styles \<Rightarrow> elem \<Rightarrow> elem" where
  "setStyle styles e =
     foldl (\<lambda>e (property, v). if property = ''opacity'' then setOpacity v e else assign property v e) e styles"

section \<open>Visibility, positioning, clipping\<close>

definition visible :: "elem \<Rightarrow> bool" where
  "visible e \<longleftrightarrow> inline e ''display'' \<noteq> SText ''none''"

definition hide :: "elem \<Rightarrow> elem" where
  "hide e = assign ''display'' (SText ''none'') e"

definition show_elem :: "elem \<Rightarrow> elem" where
  "show_elem e = assign ''display'' unset e"

definition toggle :: "elem \<Rightarrow> elem" where
  "toggle e = (if visible e then hide e else show_elem e)"

text \<open>\<open>opera\<close> is whether the browser is Opera.\<close>

definition makePositioned :: "bool \<Rightarrow> elem \<Rightarrow> elem" where
  "makePositioned opera e =
     (let pos = getStyle e ''position''
      in if pos = SText ''static'' \<or> pos = unset
         then let e = assign ''position'' (SText ''relative'') (e\<lparr>madePositioned := True\<rparr>)
              in if opera then assign ''left'' (SNum (Fin 0) []) (assign ''top'' (SNum (Fin 0) []) e) else e
         else e)"

definition undoPositioned :: "elem \<Rightarrow> elem" where
  "undoPositioned e =
     (if madePositioned e
      then foldl (\<lambda>e k. assign k unset e) (e\<lparr>madePositioned := False\<rparr>)
             [''right'', ''bottom'', ''left'', ''top'', ''position'']
      else e)"

definition makeClipping :: "elem \<Rightarrow> elem" where
  "makeClipping e =
     (if clip_overflow e \<noteq> None then e
      else
        let v = (if getStyle e ''overflow'' = unset then SText ''auto'' else getStyle e ''overflow'');
            e = e\<lparr>clip_overflow := Some v\<rparr>
        in if v \<noteq> SText ''hidden'' then assign ''overflow'' (SText ''hidden'') e else e)"

definition undoClipping :: "elem \<Rightarrow> elem" where
  "undoClipping e =
     (case clip_overflow e of
        None \<Rightarrow> e
      | Some v \<Rightarrow> (assign ''overflow'' (if v = SText ''auto'' then unset else v) e)\<lparr>clip_overflow := None\<rparr>)"

text \<open>\<open>getDimensions\<close>: a hidden element is shown for the moment it is measured in.\<close>

definition getDimensions :: "elem \<Rightarrow> real \<times> real" where
  "getDimensions e =
     (let display = getStyle e ''display''
      in if display \<noteq> SText ''none'' \<and> display \<noteq> unset then (offsetWidth e, offsetHeight e)
         else (clientWidth e, clientHeight e))"

text \<open>\<open>absolutize\<close> and \<open>relativize\<close>; \<open>offsets\<close> is the position among the positioned elements.\<close>

definition absolutize :: "real \<times> real \<Rightarrow> elem \<Rightarrow> elem" where
  "absolutize offsets e =
     (if getStyle e ''position'' = SText ''absolute'' then e
      else
        let e' = e\<lparr>abs_left := js_sub (Fin (fst offsets)) (parseFloat_or_zero (inline e ''left'')),
                   abs_top := js_sub (Fin (snd offsets)) (parseFloat_or_zero (inline e ''top'')),
                   abs_width := inline e ''width'', abs_height := inline e ''height''\<rparr>
        in setStyle [(''position'', SText ''absolute''), (''top'', px (snd offsets)), (''left'', px (fst offsets)),
                     (''width'', px (clientWidth e)), (''height'', px (clientHeight e))] e')"

definition relativize :: "elem \<Rightarrow> elem" where
  "relativize e =
     (if getStyle e ''position'' = SText ''relative'' then e
      else
        setStyle [(''position'', SText ''relative''),
                  (''top'', SNum (js_sub (parseFloat_or_zero (inline e ''top'')) (abs_top e)) ''px''),
                  (''left'', SNum (js_sub (parseFloat_or_zero (inline e ''left'')) (abs_left e)) ''px''),
                  (''height'', abs_height e), (''width'', abs_width e)] e)"

section \<open>What the methods leave alone\<close>

lemma valid_text [simp]: "valid_value (SText t)" "valid_value (SNum (Fin x) u)"
  by (simp_all add: valid_value_def)

lemma assign_inline: "inline (assign k v e) j = (if j = k \<and> valid_value v then v else inline e j)"
  by (simp add: assign_def)

lemma assign_frame [simp]:
  "sheet (assign k v e) = sheet e" "madePositioned (assign k v e) = madePositioned e"
  "clip_overflow (assign k v e) = clip_overflow e"
  by (simp_all add: assign_def)

lemma setOpacity_frame [simp]:
  "sheet (setOpacity v e) = sheet e" "madePositioned (setOpacity v e) = madePositioned e"
  "clip_overflow (setOpacity v e) = clip_overflow e" "k \<noteq> ''opacity'' \<Longrightarrow> inline (setOpacity v e) k = inline e k"
  by (simp_all add: setOpacity_def assign_inline)

lemma setStyle_Nil [simp]: "setStyle [] e = e"
  by (simp add: setStyle_def)

lemma setStyle_Cons [simp]:
  "setStyle ((k, v) # ss) e = setStyle ss (if k = ''opacity'' then setOpacity v e else assign k v e)"
  by (simp add: setStyle_def)

lemma setStyle_frame:
  "sheet (setStyle ss e) = sheet e \<and> madePositioned (setStyle ss e) = madePositioned e \<and>
   clip_overflow (setStyle ss e) = clip_overflow e \<and> (k \<notin> fst ` set ss \<longrightarrow> inline (setStyle ss e) k = inline e k)"
proof (induction ss arbitrary: e)
  case (Cons a ss)
  obtain j v where a: "a = (j, v)" by (cases a)
  show ?case
    using Cons [of "if j = ''opacity'' then setOpacity v e else assign j v e"]
    by (auto simp: a assign_inline)
qed simp

end
