(* ===== verification/EffectKinds.thy ===== *)
theory EffectKinds
  imports ElementStyle
begin

text \<open>
  The core effects of \<open>effects.js\<close> without their timing: what \<open>setup\<close>, \<open>update\<close> and
  \<open>finish\<close> of each class do to its element, the colours and the transitions.
\<close>

section \<open>Colours\<close>

text \<open>\<open>parseInt(s, 16)\<close> on digits; \<open>None\<close> is \<open>NaN\<close>.\<close>

definition parse_hex :: "string \<Rightarrow> int option" where
  "parse_hex s =
     (let ds = takeWhile is_hex (ltrim s)
      in if ds = [] then None else Some (foldl (\<lambda>n c. 16 * n + int (hex_digit_val c)) 0 ds))"

definition color_part :: "int option \<Rightarrow> string" where
  "color_part n = (case n of None \<Rightarrow> ''NaN'' | Some i \<Rightarrow> toColorPart i)"

text \<open>\<open>parseColor\<close>; the colour itself is the default when there is none.\<close>

definition parseColor :: "string \<Rightarrow> string \<Rightarrow> string" where
  "parseColor def self =
     (let color =
            (if take 4 self = ''rgb('' then
               let cols = split_char CHR '','' (slice self 4 (int (length self) - 1))
               in ''#'' @ concat (map (\<lambda>i. color_part (if i < length cols then parse_int (cols ! i) else None)) [0, 1, 2])
             else if take 1 self = ''#'' then
               if length self = 4 then ''#'' @ concat (map (\<lambda>i. to_lower_case [self ! i, self ! i]) [1, 2, 3])
               else if length self = 7 then to_lower_case self else ''#''
             else ''#'')
      in if length color = 7 then color else if def \<noteq> [] then def else self)"

text \<open>The three parts of a colour, as \<open>Highlight\<close> and \<open>Morph\<close> read them.\<close>

definition color_base :: "string \<Rightarrow> int option list" where
  "color_base color = map (\<lambda>i. parse_hex (slice color (2 * i + 1) (2 * i + 3))) [0, 1, 2]"

text \<open>The colour at a position of the way between two others.\<close>

definition js_round :: "real \<Rightarrow> int" where
  "js_round x = \<lfloor>x + 1 / 2\<rfloor>"

definition mix_part :: "int option \<Rightarrow> int option \<Rightarrow> real \<Rightarrow> string" where
  "mix_part base target position =
     color_part (case (base, target) of
       (Some b, Some t) \<Rightarrow> Some (js_round (real_of_int b + (real_of_int t - real_of_int b) * position))
     | _ \<Rightarrow> None)"

definition mix_color :: "int option list \<Rightarrow> int option list \<Rightarrow> real \<Rightarrow> string" where
  "mix_color base target position =
     ''#'' @ concat (map (\<lambda>i. mix_part (base ! i) (target ! i) position) [0, 1, 2])"

section \<open>Transitions\<close>

definition linear :: "real \<Rightarrow> real" where
  "linear pos = pos"

definition sinoidal :: "real \<Rightarrow> real" where
  "sinoidal pos = - cos (pos * pi) / 2 + 1 / 2"

definition reverse_transition :: "real \<Rightarrow> real" where
  "reverse_transition pos = 1 - pos"

text \<open>\<open>random\<close> is the number that \<open>Math.random\<close> gives.\<close>

definition flicker :: "real \<Rightarrow> real \<Rightarrow> real" where
  "flicker random pos =
     (let pos = (- cos (pos * pi) / 4 + 3 / 4) + random / 4 in if pos > 1 then 1 else pos)"

definition wobble :: "real \<Rightarrow> real" where
  "wobble pos = - cos (pos * pi * (9 * pos)) / 2 + 1 / 2"

definition pulse :: "real \<Rightarrow> real \<Rightarrow> real" where
  "pulse pulses pos = - cos ((pos * ((if pulses = 0 then 5 else pulses) - 1 / 2) * 2) * pi) / 2 + 1 / 2"

definition spring :: "real \<Rightarrow> real" where
  "spring pos = 1 - cos (pos * (9 / 2) * pi) * exp (- pos * 6)"

definition none_transition :: "real \<Rightarrow> real" where
  "none_transition pos = 0"

definition full_transition :: "real \<Rightarrow> real" where
  "full_transition pos = 1"

section \<open>The classes\<close>

type_synonym dom = "nat \<Rightarrow> elem"

definition on_elem :: "nat \<Rightarrow> (elem \<Rightarrow> elem) \<Rightarrow> dom \<Rightarrow> dom" where
  "on_elem i f d = d(i := f (d i))"

record move =
  mv_x :: js_num
  mv_y :: js_num
  mv_absolute :: bool
  mv_left :: js_num
  mv_top :: js_num

datatype scale_mode = Box | Contents | Given real real

record scale =
  sc_x :: bool
  sc_y :: bool
  sc_content :: bool
  sc_center :: bool
  sc_mode :: scale_mode
  sc_from :: real
  sc_to :: real
  sc_restore :: bool
  sc_positioning :: sval
  sc_original :: styles
  sc_top :: real
  sc_left :: real
  sc_font :: "(js_num \<times> string) option"
  sc_factor :: real
  sc_dims :: "real \<times> real"

record highlight =
  hl_start :: string
  hl_end :: "string option"
  hl_restore :: "string option"
  hl_keep :: bool
  hl_old :: "styles option"
  hl_base :: "int option list"
  hl_target :: "int option list"

text \<open>\<open>KTween\<close> keeps the values its method was called with.\<close>

datatype kind =
    KEvent
  | KParallel
  | KTween "real list"
  | KOpacity nat
  | KMove nat move
  | KScale nat scale
  | KHighlight nat highlight

text \<open>\<open>Effect.Move\<close>\<close>

definition move_setup :: "bool \<Rightarrow> move \<Rightarrow> elem \<Rightarrow> move \<times> elem" where
  "move_setup opera m e =
     (let e = makePositioned opera e;
          l = parseFloat_or_zero (getStyle e ''left'');
          t = parseFloat_or_zero (getStyle e ''top'');
          m = m\<lparr>mv_left := l, mv_top := t\<rparr>
      in (if mv_absolute m then m\<lparr>mv_x := js_sub (mv_x m) l, mv_y := js_sub (mv_y m) t\<rparr> else m, e))"

definition js_round_num :: "js_num \<Rightarrow> js_num" where
  "js_round_num x = (case x of Fin r \<Rightarrow> Fin (of_int (js_round r)) | _ \<Rightarrow> x)"

definition move_update :: "move \<Rightarrow> real \<Rightarrow> elem \<Rightarrow> elem" where
  "move_update m position e =
     setStyle [(''left'', SNum (js_round_num (js_add (js_mul (mv_x m) (Fin position)) (mv_left m))) ''px''),
               (''top'', SNum (js_round_num (js_add (js_mul (mv_y m) (Fin position)) (mv_top m))) ''px'')] e"

text \<open>\<open>Effect.Scale\<close>\<close>

definition scale_keys :: "string list" where
  "scale_keys = [''top'', ''left'', ''width'', ''height'', ''fontSize'']"

definition font_of :: "sval \<Rightarrow> (js_num \<times> string) option" where
  "font_of v =
     (case (if v = unset then SNum (Fin 100) ''%'' else v) of
        SText _ \<Rightarrow> None
      | SNum x u \<Rightarrow>
          (case filter (\<lambda>t. str_include u t) [''em'', ''px'', ''%'', ''pt''] of
             [] \<Rightarrow> None
           | ts \<Rightarrow> Some (x, last ts)))"

definition scale_dims :: "scale_mode \<Rightarrow> elem \<Rightarrow> real \<times> real" where
  "scale_dims mode e =
     (case mode of
        Box \<Rightarrow> (offsetHeight e, offsetWidth e)
      | Contents \<Rightarrow> (scrollHeight e, scrollWidth e)
      | Given h w \<Rightarrow> (h, w))"

definition scale_setup :: "scale \<Rightarrow> elem \<Rightarrow> scale" where
  "scale_setup s e =
     s\<lparr>sc_positioning := getStyle e ''position'',
       sc_original := map (\<lambda>k. (k, inline e k)) scale_keys,
       sc_top := offsetTop e, sc_left := offsetLeft e,
       sc_font := font_of (getStyle e ''fontSize''),
       sc_factor := (sc_to s - sc_from s) / 100,
       sc_dims := scale_dims (sc_mode s) e\<rparr>"

definition setDimensions :: "scale \<Rightarrow> real \<Rightarrow> real \<Rightarrow> elem \<Rightarrow> elem" where
  "setDimensions s height width e =
     (let topd = (height - fst (sc_dims s)) / 2; leftd = (width - snd (sc_dims s)) / 2;
          d = (if sc_x s then [(''width'', px (of_int (js_round width)))] else []) @
              (if sc_y s then [(''height'', px (of_int (js_round height)))] else []) @
              (if sc_center s
               then if sc_positioning s = SText ''absolute''
                    then (if sc_y s then [(''top'', px (sc_top s - topd))] else []) @
                         (if sc_x s then [(''left'', px (sc_left s - leftd))] else [])
                    else (if sc_y s then [(''top'', px (- topd))] else []) @
                         (if sc_x s then [(''left'', px (- leftd))] else [])
               else [])
      in setStyle d e)"

text \<open>The size of the font when there is one that is neither 0 nor \<open>NaN\<close>.\<close>

definition scale_font :: "scale \<Rightarrow> real \<Rightarrow> elem \<Rightarrow> elem" where
  "scale_font s current e =
     (case sc_font s of
        Some (x, u) \<Rightarrow>
          if sc_content s \<and> x \<noteq> Fin 0 \<and> x \<noteq> NaN then setStyle [(''fontSize'', SNum (js_mul x (Fin current)) u)] e else e
      | None \<Rightarrow> e)"

definition scale_update :: "scale \<Rightarrow> real \<Rightarrow> elem \<Rightarrow> elem" where
  "scale_update s position e =
     (let currentScale = sc_from s / 100 + sc_factor s * position
      in setDimensions s (fst (sc_dims s) * currentScale) (snd (sc_dims s) * currentScale)
           (scale_font s currentScale e))"

definition scale_finish :: "scale \<Rightarrow> elem \<Rightarrow> elem" where
  "scale_finish s e = (if sc_restore s then setStyle (sc_original s) e else e)"

text \<open>\<open>Effect.Highlight\<close>; its \<open>setup\<close> cancels the effect of an element that is not shown.\<close>

definition sval_text :: "sval \<Rightarrow> string" where
  "sval_text v = (case v of SText t \<Rightarrow> t | SNum _ u \<Rightarrow> u)"

definition highlight_setup :: "highlight \<Rightarrow> elem \<Rightarrow> (highlight \<times> elem) option" where
  "highlight_setup h e =
     (if getStyle e ''display'' = SText ''none'' then None
      else
        let color = sval_text (getStyle e ''backgroundColor'');
            (h, e) = (if hl_keep h then (h\<lparr>hl_old := Some []\<rparr>, e)
                      else (h\<lparr>hl_old := Some [(''backgroundImage'', getStyle e ''backgroundImage'')]\<rparr>,
                            assign ''backgroundImage'' (SText ''none'') e));
            endcolor = (case hl_end h of Some c \<Rightarrow> c | None \<Rightarrow> parseColor ''#ffffff'' color);
            restore = (case hl_restore h of Some c \<Rightarrow> c | None \<Rightarrow> color)
        in Some (h\<lparr>hl_end := Some endcolor, hl_restore := Some restore,
                   hl_base := color_base (hl_start h), hl_target := color_base endcolor\<rparr>, e))"

definition highlight_update :: "highlight \<Rightarrow> real \<Rightarrow> elem \<Rightarrow> elem" where
  "highlight_update h position e =
     setStyle [(''backgroundColor'', SText (mix_color (hl_base h) (hl_target h) position))] e"

text \<open>Without a former style \<open>Object.extend\<close> throws, which is \<open>None\<close>.\<close>

definition highlight_finish :: "highlight \<Rightarrow> elem \<Rightarrow> elem option" where
  "highlight_finish h e =
     (case hl_old h of
        None \<Rightarrow> None
      | Some old \<Rightarrow>
          Some (setStyle (object_extend old
                  [(''backgroundColor'', SText (case hl_restore h of None \<Rightarrow> [] | Some c \<Rightarrow> c))]) e))"

section \<open>The methods of a class\<close>

text \<open>The new state of the effect and of the page, and whether the effect cancelled itself.\<close>

definition kind_setup :: "bool \<Rightarrow> kind \<Rightarrow> dom \<Rightarrow> kind \<times> dom \<times> bool" where
  "kind_setup opera k d =
     (case k of
        KMove i m \<Rightarrow> let (m, e) = move_setup opera m (d i) in (KMove i m, d(i := e), False)
      | KScale i s \<Rightarrow> (KScale i (scale_setup s (d i)), d, False)
      | KHighlight i h \<Rightarrow>
          (case highlight_setup h (d i) of
             None \<Rightarrow> (k, d, True)
           | Some (h, e) \<Rightarrow> (KHighlight i h, d(i := e), False))
      | _ \<Rightarrow> (k, d, False))"

definition kind_update :: "kind \<Rightarrow> real \<Rightarrow> dom \<Rightarrow> kind \<times> dom" where
  "kind_update k position d =
     (case k of
        KTween vs \<Rightarrow> (KTween (vs @ [position]), d)
      | KOpacity i \<Rightarrow> (k, on_elem i (setOpacity (SNum (Fin position) [])) d)
      | KMove i m \<Rightarrow> (k, on_elem i (move_update m position) d)
      | KScale i s \<Rightarrow> (k, on_elem i (scale_update s position) d)
      | KHighlight i h \<Rightarrow> (k, on_elem i (highlight_update h position) d)
      | _ \<Rightarrow> (k, d))"

definition kind_finish :: "kind \<Rightarrow> dom \<Rightarrow> dom option" where
  "kind_finish k d =
     (case k of
        KScale i s \<Rightarrow> Some (on_elem i (scale_finish s) d)
      | KHighlight i h \<Rightarrow> map_option (\<lambda>e. d(i := e)) (highlight_finish h (d i))
      | _ \<Rightarrow> Some d)"

end
