(* ===== verification/EffectEngine.thy ===== *)
theory EffectEngine
  imports EffectKinds
begin

text \<open>
  The engine of \<open>effects.js\<close>: \<open>Effect.Base\<close> with its events, \<open>Effect.Parallel\<close>, the queues
  and their loop.  The clock is a parameter, times are in milliseconds.
\<close>

section \<open>Effects\<close>

text \<open>The option \<open>queue\<close>: the name of a position, or an object with scope, position and limit.\<close>

datatype queue_opt = QPosition string | QObject string "string option" "nat option"

record fx_options =
  fx_duration :: real
  fx_fps :: real
  fx_sync :: bool
  fx_from :: real
  fx_to :: real
  fx_delay :: real
  fx_queue :: queue_opt
  fx_transition :: "real \<Rightarrow> real"

definition DefaultOptions :: fx_options where
  "DefaultOptions =
     \<lparr>fx_duration = 1, fx_fps = 100, fx_sync = False, fx_from = 0, fx_to = 1, fx_delay = 0,
      fx_queue = QPosition ''parallel'', fx_transition = sinoidal\<rparr>"

text \<open>What the callbacks of the library do to the page.\<close>

datatype dom_action =
    AHide nat
  | AShow nat
  | AStyle nat styles
  | AOpacity nat real
  | AClip nat
  | AUnclip nat
  | APosition nat
  | AUnposition nat
  | AAbsolutize nat "real \<times> real"
  | AInnerBottom nat nat

datatype fx_state = Idle | Running | Finished

text \<open>\<open>e_hooks\<close> are the callbacks by their names, \<open>e_log\<close> the events that took place.\<close>

record fx_data =
  e_opt :: fx_options
  e_kind :: kind
  e_hooks :: "(string \<times> dom_action list) list"
  e_state :: fx_state
  e_startOn :: real
  e_finishOn :: real
  e_currentFrame :: int
  e_position :: "real option"
  e_log :: "string list"

text \<open>
  An effect with the effects it runs in parallel and those that its \<open>afterFinishInternal\<close>
  starts.
\<close>

datatype fx = Fx (fx_data: fx_data) (fx_subs: "fx list") (fx_next: "fx list")

definition fx_totalTime :: "fx_data \<Rightarrow> real" where
  "fx_totalTime f = fx_duration (e_opt f) * 1000"

definition fx_totalFrames :: "fx_data \<Rightarrow> real" where
  "fx_totalFrames f = fx_fps (e_opt f) * fx_duration (e_opt f)"

text \<open>The height of the content that \<open>SlideDown\<close> and \<open>SlideUp\<close> move is taken from the effect.\<close>

definition kind_height :: "kind \<Rightarrow> real" where
  "kind_height k = (case k of KScale i s \<Rightarrow> fst (sc_dims s) | _ \<Rightarrow> 0)"

definition do_action :: "bool \<Rightarrow> kind \<Rightarrow> dom \<Rightarrow> dom_action \<Rightarrow> dom" where
  "do_action opera k d a =
     (case a of
        AHide i \<Rightarrow> on_elem i hide d
      | AShow i \<Rightarrow> on_elem i show_elem d
      | AStyle i ss \<Rightarrow> on_elem i (setStyle ss) d
      | AOpacity i x \<Rightarrow> on_elem i (setOpacity (SNum (Fin x) [])) d
      | AClip i \<Rightarrow> on_elem i makeClipping d
      | AUnclip i \<Rightarrow> on_elem i undoClipping d
      | APosition i \<Rightarrow> on_elem i (makePositioned opera) d
      | AUnposition i \<Rightarrow> on_elem i undoPositioned d
      | AAbsolutize i offsets \<Rightarrow> on_elem i (absolutize offsets) d
      | AInnerBottom i j \<Rightarrow> on_elem j (setStyle [(''bottom'', px (kind_height k - clientHeight (d i)))]) d)"

definition do_hook :: "bool \<Rightarrow> fx_data \<Rightarrow> string \<Rightarrow> dom \<Rightarrow> dom" where
  "do_hook opera f name d =
     (case map_of (e_hooks f) name of None \<Rightarrow> d | Some as \<Rightarrow> foldl (do_action opera (e_kind f)) d as)"

text \<open>\<open>event\<close>, and \<open>dispatch\<close> of \<open>render\<close>, which does the same.\<close>

definition fx_event :: "bool \<Rightarrow> string \<Rightarrow> fx_data \<times> dom \<Rightarrow> fx_data \<times> dom" where
  "fx_event opera name fd =
     (case fd of (f, d) \<Rightarrow>
        (f\<lparr>e_log := e_log f @ [name]\<rparr>,
         do_hook opera f name (do_hook opera f (name @ ''Internal'') d)))"

text \<open>The two halves of \<open>render\<close>.\<close>

definition fx_setup :: "bool \<Rightarrow> fx_data \<times> dom \<Rightarrow> fx_data \<times> dom" where
  "fx_setup opera fd =
     (let (f, d) = fx_event opera ''beforeSetup'' ((fst fd)\<lparr>e_state := Running\<rparr>, snd fd);
          (k, d, cancelled) = kind_setup opera (e_kind f) d;
          f = f\<lparr>e_kind := k, e_state := (if cancelled then Finished else Running)\<rparr>
      in fx_event opera ''afterSetup'' (f, d))"

definition fx_update_pos :: "fx_data \<Rightarrow> real \<Rightarrow> real" where
  "fx_update_pos f pos =
     fx_transition (e_opt f) pos * (fx_to (e_opt f) - fx_from (e_opt f)) + fx_from (e_opt f)"

definition fx_own_update :: "real \<Rightarrow> fx_data \<times> dom \<Rightarrow> fx_data \<times> dom" where
  "fx_own_update pos fd = (let (k, d) = kind_update (e_kind (fst fd)) pos (snd fd) in ((fst fd)\<lparr>e_kind := k\<rparr>, d))"

text \<open>
  What an effect does for a position before the effects it runs in parallel are asked: the
  position for them, or \<open>None\<close> when it is not running.
\<close>

definition fx_advance :: "bool \<Rightarrow> real \<Rightarrow> fx_data \<Rightarrow> dom \<Rightarrow> fx_data \<times> dom \<times> real option" where
  "fx_advance opera pos f d =
     (let (f, d) = (if e_state f = Idle then fx_setup opera (f, d) else (f, d))
      in if e_state f = Running
         then let p = fx_update_pos f pos;
                  (f, d) = fx_event opera ''beforeUpdate'' (f\<lparr>e_position := Some p\<rparr>, d);
                  (f, d) = fx_own_update p (f, d)
              in (f, d, Some p)
         else (f, d, None))"

fun fx_render :: "bool \<Rightarrow> real \<Rightarrow> fx \<Rightarrow> dom \<Rightarrow> fx \<times> dom"
and render_all :: "bool \<Rightarrow> real \<Rightarrow> fx list \<Rightarrow> dom \<Rightarrow> fx list \<times> dom" where
  "fx_render opera pos (Fx f subs nxt) d =
     (case fx_advance opera pos f d of
        (f, d, None) \<Rightarrow> (Fx f subs nxt, d)
      | (f, d, Some p) \<Rightarrow>
          (case render_all opera p subs d of (subs, d) \<Rightarrow>
             (case fx_event opera ''afterUpdate'' (f, d) of (f, d) \<Rightarrow> (Fx f subs nxt, d))))"
| "render_all opera pos [] d = ([], d)"
| "render_all opera pos (g # gs) d =
     (case fx_render opera pos g d of (g, d) \<Rightarrow> (case render_all opera pos gs d of (gs, d) \<Rightarrow> (g # gs, d)))"

text \<open>The number of effects in an effect, which rendering does not change.\<close>

fun weight :: "fx \<Rightarrow> nat" and weights :: "fx list \<Rightarrow> nat" where
  "weight (Fx f subs nxt) = Suc (weights subs)"
| "weights [] = 0"
| "weights (g # gs) = Suc (weight g + weights gs)"

lemma render_weight:
  "weight (fst (fx_render opera pos g d)) = weight g"
  "weights (fst (render_all opera pos gs d)) = weights gs"
proof (induction opera pos g d and opera pos gs d rule: fx_render_render_all.induct)
  case (1 opera pos f subs nxt d)
  obtain f' d' o' where a: "fx_advance opera pos f d = (f', d', o')" by (metis prod_cases3)
  show ?case using 1 [OF a [symmetric]] by (cases o') (auto simp: a split: prod.splits)
next
  case (3 opera pos g gs d)
  obtain g' d' where r: "fx_render opera pos g d = (g', d')" by fastforce
  show ?case using 3(1) 3(2) [OF r [symmetric]] by (auto simp: r split: prod.splits)
qed simp

lemma render_subs: "(Fx f subs nxt, d') = fx_render opera pos g d \<Longrightarrow> weights subs < weight g"
  using render_weight(1) [of opera pos g d] by (metis fst_conv lessI weight.simps)

text \<open>
  The end of an effect, the same in \<open>loop\<close> and for the parts of a parallel effect: the last
  position, \<open>cancel\<close>, and \<open>finish\<close> between its two events.  The flag is an exception of
  \<open>finish\<close>, which leaves the rest undone.
\<close>

definition fx_own_finish :: "bool \<Rightarrow> fx_data \<Rightarrow> dom \<Rightarrow> fx_data \<times> dom \<times> bool" where
  "fx_own_finish opera f d =
     (case fx_event opera ''beforeFinish'' (f\<lparr>e_state := Finished\<rparr>, d) of
        (f, d) \<Rightarrow> (case kind_finish (e_kind f) d of None \<Rightarrow> (f, d, True) | Some d \<Rightarrow> (f, d, False)))"

function complete :: "bool \<Rightarrow> fx \<Rightarrow> dom \<Rightarrow> fx \<times> dom \<times> bool"
and complete_all :: "bool \<Rightarrow> fx list \<Rightarrow> dom \<Rightarrow> fx list \<times> dom \<times> bool" where
  "complete opera g d =
     (case fx_render opera 1 g d of (Fx f subs nxt, d) \<Rightarrow>
        (case fx_own_finish opera f d of
           (f, d, True) \<Rightarrow> (Fx f subs nxt, d, True)
         | (f, d, False) \<Rightarrow>
             (case complete_all opera subs d of
                (subs, d, True) \<Rightarrow> (Fx f subs nxt, d, True)
              | (subs, d, False) \<Rightarrow>
                  (case fx_event opera ''afterFinish'' (f, d) of (f, d) \<Rightarrow> (Fx f subs nxt, d, False)))))"
| "complete_all opera [] d = ([], d, False)"
| "complete_all opera (g # gs) d =
     (case complete opera g d of
        (g, d, True) \<Rightarrow> (g # gs, d, True)
      | (g, d, False) \<Rightarrow> (case complete_all opera gs d of (gs, d, thrown) \<Rightarrow> (g # gs, d, thrown)))"
  by pat_completeness auto
termination
  by (relation "measure (\<lambda>x. case x of Inl (opera, g, d) \<Rightarrow> weight g | Inr (opera, gs, d) \<Rightarrow> weights gs)")
     (auto dest!: render_subs)

declare complete.simps [simp del]

text \<open>\<open>start\<close>, without the queue: the times are those of the options until the queue adds its own.\<close>

definition fx_start :: "bool \<Rightarrow> fx \<Rightarrow> dom \<Rightarrow> fx \<times> dom" where
  "fx_start opera g d =
     (case g of Fx f subs nxt \<Rightarrow>
        let f = f\<lparr>e_currentFrame := 0, e_state := Idle, e_startOn := fx_delay (e_opt f) * 1000,
                  e_finishOn := fx_delay (e_opt f) * 1000 + fx_duration (e_opt f) * 1000\<rparr>;
            (f, d) = fx_event opera ''beforeStart'' (f, d)
        in (Fx f subs nxt, d))"

text \<open>\<open>loop\<close> of one effect; \<open>Ended\<close> when it left its queue, \<open>Threw\<close> when an exception left it.\<close>

datatype fx_outcome = Stays | Ended | Threw

definition fx_loop :: "bool \<Rightarrow> real \<Rightarrow> fx \<Rightarrow> dom \<Rightarrow> fx \<times> dom \<times> fx_outcome" where
  "fx_loop opera timePos g d =
     (let f = fx_data g
      in if timePos \<ge> e_startOn f then
           if timePos \<ge> e_finishOn f then
             let (g, d, thrown) = complete opera g d in (g, d, if thrown then Threw else Ended)
           else
             let pos = (timePos - e_startOn f) / fx_totalTime f;
                 frame = js_round (pos * fx_totalFrames f)
             in if frame > e_currentFrame f then
                  let (g, d) = fx_render opera pos g d
                  in (case g of Fx f subs nxt \<Rightarrow> Fx (f\<lparr>e_currentFrame := frame\<rparr>) subs nxt, d, Stays)
                else (g, d, Stays)
         else (g, d, Stays))"

section \<open>Queues\<close>

record fx_queue_state =
  q_effects :: "nat list"
  q_interval :: bool

text \<open>\<open>w_heap\<close> holds the effects that were started, \<open>w_queues\<close> the queues by their scopes.\<close>

record fx_world =
  w_dom :: dom
  w_heap :: "nat \<Rightarrow> fx"
  w_queues :: "string \<Rightarrow> fx_queue_state"
  w_fresh :: nat

definition empty_queue :: fx_queue_state where
  "empty_queue = \<lparr>q_effects = [], q_interval = False\<rparr>"

definition w_fx :: "fx_world \<Rightarrow> nat \<Rightarrow> fx_data" where
  "w_fx w i = fx_data (w_heap w i)"

definition queue_scope :: "fx_options \<Rightarrow> string" where
  "queue_scope op = (case fx_queue op of QPosition _ \<Rightarrow> ''global'' | QObject scope _ _ \<Rightarrow> scope)"

definition queue_position :: "fx_options \<Rightarrow> string" where
  "queue_position op =
     (case fx_queue op of QPosition p \<Rightarrow> p | QObject _ p _ \<Rightarrow> (case p of None \<Rightarrow> [] | Some p \<Rightarrow> p))"

definition queue_limit :: "fx_options \<Rightarrow> nat" where
  "queue_limit op =
     (case fx_queue op of QPosition _ \<Rightarrow> 0 | QObject _ _ l \<Rightarrow> (case l of None \<Rightarrow> 0 | Some n \<Rightarrow> n))"

definition shift_times :: "real \<Rightarrow> fx \<Rightarrow> fx" where
  "shift_times t g =
     (case g of Fx f subs nxt \<Rightarrow> Fx (f\<lparr>e_startOn := e_startOn f + t, e_finishOn := e_finishOn f + t\<rparr>) subs nxt)"

text \<open>\<open>max() || timestamp\<close>\<close>

definition max_or :: "real list \<Rightarrow> real \<Rightarrow> real" where
  "max_or ts timestamp =
     (case enum_max (\<lambda>t _. t) ts of None \<Rightarrow> timestamp | Some t \<Rightarrow> if t = 0 then timestamp else t)"

text \<open>The effects that have not started are moved behind an effect at the front.\<close>

definition move_idle :: "real \<Rightarrow> nat list \<Rightarrow> (nat \<Rightarrow> fx) \<Rightarrow> nat \<Rightarrow> fx" where
  "move_idle t ids heap =
     foldl (\<lambda>h i. h(i := shift_times t (h i))) heap (filter (\<lambda>i. e_state (fx_data (heap i)) = Idle) ids)"

definition queue_timestamp :: "real \<Rightarrow> fx_world \<Rightarrow> nat list \<Rightarrow> string \<Rightarrow> real" where
  "queue_timestamp now w ids position =
     (if position = ''with-last'' then max_or (map (\<lambda>i. e_startOn (w_fx w i)) ids) now
      else if position = ''end'' then max_or (map (\<lambda>i. e_finishOn (w_fx w i)) ids) now
      else now)"

definition queue_add :: "real \<Rightarrow> nat \<Rightarrow> fx_world \<Rightarrow> fx_world" where
  "queue_add now i w =
     (let f = w_fx w i; scope = queue_scope (e_opt f); q = w_queues w scope; position = queue_position (e_opt f);
          timestamp = queue_timestamp now w (q_effects q) position;
          heap = (if position = ''front'' then move_idle (e_finishOn f) (q_effects q) (w_heap w) else w_heap w);
          heap = heap(i := shift_times timestamp (heap i));
          limit = queue_limit (e_opt f);
          effects = (if limit = 0 \<or> length (q_effects q) < limit then q_effects q @ [i] else q_effects q)
      in w\<lparr>w_heap := heap, w_queues := (w_queues w)(scope := \<lparr>q_effects = effects, q_interval = True\<rparr>)\<rparr>)"

definition queue_remove :: "nat \<Rightarrow> fx_world \<Rightarrow> fx_world" where
  "queue_remove i w =
     (let scope = queue_scope (e_opt (w_fx w i)); q = w_queues w scope;
          effects = filter (\<lambda>j. j \<noteq> i) (q_effects q)
      in w\<lparr>w_queues := (w_queues w)(scope := \<lparr>q_effects = effects, q_interval = q_interval q \<and> effects \<noteq> []\<rparr>)\<rparr>)"

text \<open>A new effect of the page: its number, and the world with it.\<close>

definition new_fx :: "bool \<Rightarrow> real \<Rightarrow> fx \<Rightarrow> fx_world \<Rightarrow> fx_world" where
  "new_fx opera now g w =
     (let i = w_fresh w; (g, d) = fx_start opera g (w_dom w);
          w = w\<lparr>w_fresh := i + 1, w_dom := d, w_heap := (w_heap w)(i := g)\<rparr>
      in if fx_sync (e_opt (fx_data g)) then w else queue_add now i w)"

text \<open>The world after an effect was run by the loop, before those that follow it start.\<close>

definition after_loop :: "nat \<Rightarrow> fx \<Rightarrow> dom \<Rightarrow> fx_world \<Rightarrow> fx_world" where
  "after_loop n g d w =
     (let w = w\<lparr>w_dom := d, w_heap := (w_heap w)(n := g)\<rparr>
      in if e_state (fx_data g) = Finished then queue_remove n w else w)"

text \<open>The loop of a queue on its \<open>i\<close>-th effect; the flag is whether an exception ended it.\<close>

definition loop_at :: "bool \<Rightarrow> real \<Rightarrow> real \<Rightarrow> string \<Rightarrow> nat \<Rightarrow> fx_world \<Rightarrow> fx_world \<times> bool" where
  "loop_at opera timePos now scope i w =
     (let ids = q_effects (w_queues w scope)
      in if i < length ids then
           let (g, d, out) = fx_loop opera timePos (w_heap w (ids ! i)) (w_dom w); w = after_loop (ids ! i) g d w
           in (if out = Ended then foldl (\<lambda>w g. new_fx opera now g w) w (fx_next g) else w, out = Threw)
         else (w, False))"

fun loop_from_index :: "bool \<Rightarrow> real \<Rightarrow> real \<Rightarrow> string \<Rightarrow> nat \<Rightarrow> nat \<Rightarrow> fx_world \<Rightarrow> fx_world" where
  "loop_from_index opera timePos now scope i 0 w = w"
| "loop_from_index opera timePos now scope i (Suc k) w =
     (let (w, thrown) = loop_at opera timePos now scope i w
      in if thrown then w else loop_from_index opera timePos now scope (Suc i) k w)"

text \<open>\<open>now\<close> is the time the new effects of the tick get, \<open>timePos\<close> the time it began.\<close>

definition queue_loop :: "bool \<Rightarrow> real \<Rightarrow> real \<Rightarrow> string \<Rightarrow> fx_world \<Rightarrow> fx_world" where
  "queue_loop opera timePos now scope w =
     loop_from_index opera timePos now scope 0 (length (q_effects (w_queues w scope))) w"

text \<open>The interval of a queue fires, when it is set.\<close>

definition queue_tick :: "bool \<Rightarrow> real \<Rightarrow> real \<Rightarrow> string \<Rightarrow> fx_world \<Rightarrow> fx_world" where
  "queue_tick opera timePos now scope w =
     (if q_interval (w_queues w scope) then queue_loop opera timePos now scope w else w)"

section \<open>What rendering leaves alone\<close>

definition plan_of :: "fx_data \<Rightarrow> fx_options \<times> (string \<times> dom_action list) list \<times> real \<times> real" where
  "plan_of f = (e_opt f, e_hooks f, e_startOn f, e_finishOn f)"

lemma event_frame:
  "fx_event opera name (f, d) = (f', d') \<Longrightarrow> plan_of f' = plan_of f \<and> e_kind f' = e_kind f \<and> e_state f' = e_state f \<and>
     e_position f' = e_position f \<and> e_currentFrame f' = e_currentFrame f \<and> e_log f' = e_log f @ [name]"
  by (auto simp: fx_event_def plan_of_def)

lemma setup_frame:
  assumes "fx_setup opera (f, d) = (f', d')"
  shows "plan_of f' = plan_of f \<and> e_state f' \<in> {Running, Finished} \<and> e_position f' = e_position f \<and>
    e_log f' = e_log f @ [''beforeSetup'', ''afterSetup'']"
proof -
  obtain f1 d1 where b: "fx_event opera ''beforeSetup'' (f\<lparr>e_state := Running\<rparr>, d) = (f1, d1)" by fastforce
  obtain k d2 c where k: "kind_setup opera (e_kind f1) d1 = (k, d2, c)" by (metis prod_cases3)
  let ?f = "f1\<lparr>e_kind := k, e_state := (if c then Finished else Running)\<rparr>"
  have a: "fx_event opera ''afterSetup'' (?f, d2) = (f', d')"
    using assms by (simp add: fx_setup_def b k)
  show ?thesis using event_frame [OF b] event_frame [OF a] by (simp add: plan_of_def)
qed

lemma advance_frame:
  assumes "fx_advance opera pos f d = (f', d', p)"
  shows "plan_of f' = plan_of f \<and> (p \<noteq> None \<longleftrightarrow> e_state f' = Running) \<and> e_state f' \<noteq> Idle \<and>
    (e_state f \<noteq> Idle \<longrightarrow> e_state f' = e_state f) \<and> e_position f' = (if p = None then e_position f else p) \<and>
    (p \<noteq> None \<longrightarrow> p = Some (fx_update_pos f pos)) \<and>
    e_log f' = e_log f @ (if e_state f = Idle then [''beforeSetup'', ''afterSetup''] else []) @
      (if p = None then [] else [''beforeUpdate''])"
proof -
  obtain f1 d1 where s: "(if e_state f = Idle then fx_setup opera (f, d) else (f, d)) = (f1, d1)" by fastforce
  have s1: "plan_of f1 = plan_of f" "e_state f1 \<noteq> Idle" "e_state f \<noteq> Idle \<longrightarrow> e_state f1 = e_state f"
    "e_position f1 = e_position f"
    "e_log f1 = e_log f @ (if e_state f = Idle then [''beforeSetup'', ''afterSetup''] else [])"
    using s setup_frame [of opera f d f1 d1] by (auto split: if_splits)
  then have u: "fx_update_pos f1 pos = fx_update_pos f pos" by (simp add: fx_update_pos_def plan_of_def)
  show ?thesis
  proof (cases "e_state f1 = Running")
    case True
    let ?p = "fx_update_pos f1 pos"
    obtain f2 d2 where b: "fx_event opera ''beforeUpdate'' (f1\<lparr>e_position := Some ?p\<rparr>, d1) = (f2, d2)" by fastforce
    obtain k d3 where k: "kind_update (e_kind f2) ?p d2 = (k, d3)" by fastforce
    have "f' = f2\<lparr>e_kind := k\<rparr> \<and> p = Some ?p"
      using assms True s by (simp add: fx_advance_def b fx_own_update_def k Let_def split: prod.splits)
    then show ?thesis using event_frame [OF b] s1 u True by (auto simp: plan_of_def)
  next
    case False
    then have "f' = f1 \<and> p = None" using assms s by (simp add: fx_advance_def)
    then show ?thesis using s1 False by auto
  qed
qed

text \<open>What rendering does to the effect itself, apart from the effects in parallel to it.\<close>

lemma render_frame:
  assumes "fx_render opera pos g d = (g', d')"
  shows "fx_next g' = fx_next g \<and> plan_of (fx_data g') = plan_of (fx_data g) \<and> e_state (fx_data g') \<noteq> Idle \<and>
    (e_state (fx_data g) \<noteq> Idle \<longrightarrow> e_state (fx_data g') = e_state (fx_data g)) \<and>
    e_position (fx_data g') = (if e_state (fx_data g') = Running then Some (fx_update_pos (fx_data g) pos)
      else e_position (fx_data g)) \<and>
    e_log (fx_data g') = e_log (fx_data g) @
      (if e_state (fx_data g) = Idle then [''beforeSetup'', ''afterSetup''] else []) @
      (if e_state (fx_data g') = Running then [''beforeUpdate'', ''afterUpdate''] else [])"
proof -
  obtain f subs nxt where g: "g = Fx f subs nxt" by (cases g)
  obtain f1 d1 p where a: "fx_advance opera pos f d = (f1, d1, p)" by (metis prod_cases3)
  note fr = advance_frame [OF a]
  show ?thesis
  proof (cases p)
    case None
    then have "g' = Fx f1 subs nxt" using assms by (simp add: g a)
    then show ?thesis using fr None g by auto
  next
    case (Some q)
    obtain subs' d2 where r: "render_all opera q subs d1 = (subs', d2)" by fastforce
    obtain f3 d3 where e: "fx_event opera ''afterUpdate'' (f1, d2) = (f3, d3)" by fastforce
    have "g' = Fx f3 subs' nxt" using assms by (simp add: g a Some r e)
    then show ?thesis using fr Some g event_frame [OF e] by auto
  qed
qed

lemma own_finish_frame:
  "fx_own_finish opera f d = (f', d', th) \<Longrightarrow> plan_of f' = plan_of f \<and> e_state f' = Finished \<and>
     e_position f' = e_position f \<and> e_log f' = e_log f @ [''beforeFinish'']"
proof -
  assume a: "fx_own_finish opera f d = (f', d', th)"
  obtain f1 d1 where b: "fx_event opera ''beforeFinish'' (f\<lparr>e_state := Finished\<rparr>, d) = (f1, d1)" by fastforce
  then have "f' = f1" using a by (auto simp: fx_own_finish_def split: option.splits)
  then show ?thesis using event_frame [OF b] by (simp add: plan_of_def)
qed

text \<open>The end of an effect without effects in parallel that may throw.\<close>

lemma complete_frame:
  assumes "complete opera g d = (g', d', th)" and "fx_render opera 1 g d = (g1, d1)"
  shows "fx_next g' = fx_next g \<and> plan_of (fx_data g') = plan_of (fx_data g) \<and> e_state (fx_data g') = Finished \<and>
    e_position (fx_data g') = e_position (fx_data g1) \<and>
    e_log (fx_data g') = e_log (fx_data g1) @ [''beforeFinish''] @ (if th then [] else [''afterFinish''])"
proof -
  obtain f subs nxt where g1: "g1 = Fx f subs nxt" by (cases g1)
  obtain f2 d2 t2 where o: "fx_own_finish opera f d1 = (f2, d2, t2)" by (metis prod_cases3)
  obtain subs3 d3 t3 where c: "complete_all opera subs d2 = (subs3, d3, t3)" by (metis prod_cases3)
  obtain f4 d4 where e: "fx_event opera ''afterFinish'' (f2, d3) = (f4, d4)" by fastforce
  have fr: "fx_next g1 = fx_next g" "plan_of (fx_data g1) = plan_of (fx_data g)"
    using render_frame [OF assms(2)] by simp_all
  have "complete opera g d = (if t2 then (Fx f2 subs nxt, d2, True) else if t3 then (Fx f2 subs3 nxt, d3, True)
      else (Fx f4 subs3 nxt, d4, False))"
    by (subst complete.simps) (simp add: assms(2) g1 o c e split: bool.split)
  then show ?thesis
    using assms(1) fr g1 own_finish_frame [OF o] event_frame [OF e] by (auto split: if_splits)
qed

section \<open>Effects that cannot throw\<close>

definition calm_kind :: "kind \<Rightarrow> bool" where
  "calm_kind k \<longleftrightarrow> (case k of KHighlight _ _ \<Rightarrow> False | _ \<Rightarrow> True)"

fun calm :: "fx \<Rightarrow> bool" and calms :: "fx list \<Rightarrow> bool" where
  "calm (Fx f subs nxt) \<longleftrightarrow> calm_kind (e_kind f) \<and> calms subs"
| "calms [] \<longleftrightarrow> True"
| "calms (g # gs) \<longleftrightarrow> calm g \<and> calms gs"

lemma setup_calm:
  assumes "fx_setup opera (f, d) = (f', d')" and "calm_kind (e_kind f)"
  shows "calm_kind (e_kind f') \<and> e_state f' = Running"
proof -
  obtain f1 d1 where b: "fx_event opera ''beforeSetup'' (f\<lparr>e_state := Running\<rparr>, d) = (f1, d1)" by fastforce
  obtain k d2 c where k: "kind_setup opera (e_kind f1) d1 = (k, d2, c)" by (metis prod_cases3)
  let ?f = "f1\<lparr>e_kind := k, e_state := (if c then Finished else Running)\<rparr>"
  have a: "fx_event opera ''afterSetup'' (?f, d2) = (f', d')"
    using assms by (simp add: fx_setup_def b k)
  have "calm_kind (e_kind f1)" using event_frame [OF b] assms(2) by simp
  then have "calm_kind k \<and> \<not> c"
    using k by (auto simp: kind_setup_def calm_kind_def split: kind.splits prod.splits)
  then show ?thesis using event_frame [OF a] by simp
qed

lemma advance_calm:
  assumes "fx_advance opera pos f d = (f', d', p)" and "calm_kind (e_kind f)"
  shows "calm_kind (e_kind f') \<and> (e_state f \<noteq> Finished \<longrightarrow> p \<noteq> None)"
proof -
  obtain f1 d1 where s: "(if e_state f = Idle then fx_setup opera (f, d) else (f, d)) = (f1, d1)" by fastforce
  have c: "calm_kind (e_kind f1)" "e_state f \<noteq> Finished \<longrightarrow> e_state f1 = Running"
    using s assms(2) setup_calm [of opera f d f1 d1] by (cases "e_state f"; auto)+
  show ?thesis
  proof (cases "e_state f1 = Running")
    case True
    let ?p = "fx_update_pos f1 pos"
    obtain f2 d2 where b: "fx_event opera ''beforeUpdate'' (f1\<lparr>e_position := Some ?p\<rparr>, d1) = (f2, d2)" by fastforce
    obtain k d3 where k: "kind_update (e_kind f2) ?p d2 = (k, d3)" by fastforce
    have "calm_kind k"
      using k c event_frame [OF b] by (auto simp: kind_update_def calm_kind_def split: kind.splits)
    then show ?thesis
      using assms True s by (auto simp: fx_advance_def b fx_own_update_def k Let_def split: prod.splits)
  qed (use assms s c in \<open>simp add: fx_advance_def\<close>)
qed

lemma render_calm:
  "calm g \<Longrightarrow> calm (fst (fx_render opera pos g d))"
  "calms gs \<Longrightarrow> calms (fst (render_all opera pos gs d))"
proof (induction opera pos g d and opera pos gs d rule: fx_render_render_all.induct)
  case (1 opera pos f subs nxt d)
  obtain f' d' o' where a: "fx_advance opera pos f d = (f', d', o')" by (metis prod_cases3)
  have c: "calm_kind (e_kind f')" using advance_calm [OF a] 1(2) by simp
  show ?case
  proof (cases o')
    case None
    then show ?thesis using 1(2) a c by simp
  next
    case (Some q)
    obtain subs' d2 where r: "render_all opera q subs d' = (subs', d2)" by fastforce
    have "calms subs'" using 1(1) [OF a [symmetric] refl Some] 1(2) r by simp
    then show ?thesis using a c r Some event_frame by (auto split: prod.splits)
  qed
next
  case (3 opera pos g gs d)
  obtain g' d' where r: "fx_render opera pos g d = (g', d')" by fastforce
  show ?case using 3(1) 3(2) [OF r [symmetric]] 3(3) by (auto simp: r split: prod.splits)
qed simp

lemma calm_finish: "calm_kind (e_kind f) \<Longrightarrow> fx_own_finish opera f d = (f', d', th) \<Longrightarrow> \<not> th"
proof -
  assume c: "calm_kind (e_kind f)" and o: "fx_own_finish opera f d = (f', d', th)"
  obtain f1 d1 where b: "fx_event opera ''beforeFinish'' (f\<lparr>e_state := Finished\<rparr>, d) = (f1, d1)" by fastforce
  have "\<exists>d'. kind_finish (e_kind f1) d1 = Some d'"
    using c event_frame [OF b] by (auto simp: kind_finish_def calm_kind_def split: kind.split)
  then show ?thesis using o by (auto simp: fx_own_finish_def b)
qed

lemma complete_calm:
  "calm g \<Longrightarrow> \<not> snd (snd (complete opera g d))"
  "calms gs \<Longrightarrow> \<not> snd (snd (complete_all opera gs d))"
proof (induction opera g d and opera gs d rule: complete_complete_all.induct)
  case (1 opera g d)
  obtain f subs nxt d1 where r: "fx_render opera 1 g d = (Fx f subs nxt, d1)" by (metis fx.exhaust surj_pair)
  have c: "calm_kind (e_kind f)" "calms subs" using render_calm(1) [OF 1(2), of opera 1 d] by (simp_all add: r)
  obtain f2 d2 t2 where o: "fx_own_finish opera f d1 = (f2, d2, t2)" by (metis prod_cases3)
  have t2: "\<not> t2" by (rule calm_finish [OF c(1) o])
  have "\<not> snd (snd (complete_all opera subs d2))"
    using 1(1) [OF r [symmetric] refl o [symmetric]] t2 c(2) by simp
  then show ?case
    by (subst complete.simps) (auto simp: r o t2 split: prod.splits bool.splits)
next
  case (3 opera g gs d)
  obtain g' d' th where r: "complete opera g d = (g', d', th)" by (metis prod_cases3)
  have t: "th = False" using 3(1) 3(3) r by simp
  have "\<not> snd (snd (complete_all opera gs d'))" using 3(2) [OF r [symmetric] refl t] 3(3) by simp
  then show ?case by (auto simp: r t split: prod.splits)
qed simp

section \<open>The life of one effect\<close>

text \<open>The ticks of the queue reach the effect until it has ended.\<close>

fun fx_run :: "bool \<Rightarrow> real list \<Rightarrow> fx \<Rightarrow> dom \<Rightarrow> fx \<times> dom \<times> fx_outcome" where
  "fx_run opera [] g d = (g, d, Stays)"
| "fx_run opera (t # ts) g d =
     (case fx_loop opera t g d of
        (g, d, Stays) \<Rightarrow> fx_run opera ts g d
      | (g, d, out) \<Rightarrow> (g, d, out))"

definition timed :: "fx_data \<Rightarrow> bool" where
  "timed f \<longleftrightarrow> e_finishOn f = e_startOn f + fx_totalTime f"

text \<open>The events of an effect that has not ended, and a position between its bounds.\<close>

definition updates :: "nat \<Rightarrow> string list" where
  "updates n = concat (replicate n [''beforeUpdate'', ''afterUpdate''])"

definition under_way :: "fx_data \<Rightarrow> bool" where
  "under_way f \<longleftrightarrow> timed f \<and>
     (e_state f = Idle \<and> e_log f = [''beforeStart''] \<and> e_position f = None \<or>
      e_state f = Running \<and> (\<exists>n. e_log f = [''beforeStart'', ''beforeSetup'', ''afterSetup''] @ updates n) \<and>
      (\<exists>p. e_position f = Some p \<and> fx_from (e_opt f) \<le> p \<and> p \<le> fx_to (e_opt f)))"

definition unit_transition :: "fx_options \<Rightarrow> bool" where
  "unit_transition op \<longleftrightarrow> fx_from op \<le> fx_to op \<and> (\<forall>x. 0 \<le> x \<and> x \<le> 1 \<longrightarrow> 0 \<le> fx_transition op x \<and> fx_transition op x \<le> 1)"

lemma updates_Suc: "updates n @ [''beforeUpdate'', ''afterUpdate''] = updates (Suc n)"
  by (simp add: updates_def replicate_append_same [symmetric])

lemma update_pos_bounds:
  assumes "unit_transition (e_opt f)" "0 \<le> x" "x \<le> 1"
  shows "fx_from (e_opt f) \<le> fx_update_pos f x \<and> fx_update_pos f x \<le> fx_to (e_opt f)"
proof -
  let ?t = "fx_transition (e_opt f) x"
  let ?d = "fx_to (e_opt f) - fx_from (e_opt f)"
  have t: "0 \<le> ?t" "?t \<le> 1" "0 \<le> ?d" using assms by (auto simp: unit_transition_def)
  have "0 \<le> ?t * ?d" using t by simp
  moreover have "?t * ?d \<le> 1 * ?d" using t by (intro mult_right_mono) auto
  ultimately show ?thesis by (simp add: fx_update_pos_def)
qed

lemma render_under_way:
  assumes r: "fx_render opera pos g d = (g', d')" and c: "calm g" and u: "under_way (fx_data g)"
    and t: "unit_transition (e_opt (fx_data g))" and p: "0 \<le> pos" "pos \<le> 1"
  shows "e_state (fx_data g') = Running \<and> (\<exists>n. e_log (fx_data g') =
      [''beforeStart'', ''beforeSetup'', ''afterSetup''] @ updates (Suc n)) \<and>
    e_position (fx_data g') = Some (fx_update_pos (fx_data g) pos) \<and> under_way (fx_data g')"
proof -
  obtain f subs nxt where g: "g = Fx f subs nxt" by (cases g)
  note fr = render_frame [OF r]
  obtain f1 d1 p1 where a: "fx_advance opera pos f d = (f1, d1, p1)" by (metis prod_cases3)
  have "e_state f \<noteq> Finished" using u g by (auto simp: under_way_def)
  then have "p1 \<noteq> None" using advance_calm [OF a] c g by simp
  then obtain q where q: "p1 = Some q" by blast
  obtain subs' d2 where rs: "render_all opera q subs d1 = (subs', d2)" by fastforce
  obtain f3 d3 where e: "fx_event opera ''afterUpdate'' (f1, d2) = (f3, d3)" by fastforce
  have run: "e_state (fx_data g') = Running"
    using r event_frame [OF e] advance_frame [OF a] q by (auto simp: g a rs e)
  have opt: "e_opt (fx_data g') = e_opt (fx_data g)" "timed (fx_data g')"
    using fr u by (auto simp: plan_of_def under_way_def timed_def fx_totalTime_def)
  have "\<exists>n. e_log (fx_data g') = [''beforeStart'', ''beforeSetup'', ''afterSetup''] @ updates (Suc n)"
  proof (cases "e_state (fx_data g) = Idle")
    case True
    then have "e_log (fx_data g') = [''beforeStart'', ''beforeSetup'', ''afterSetup''] @ updates (Suc 0)"
      using fr u run by (simp add: under_way_def updates_def)
    then show ?thesis by blast
  next
    case False
    then obtain n where "e_log (fx_data g) = [''beforeStart'', ''beforeSetup'', ''afterSetup''] @ updates n"
      using u by (auto simp: under_way_def)
    then show ?thesis using fr run False updates_Suc [of n] by (intro exI [of _ n]) simp
  qed
  then show ?thesis
    using fr run opt update_pos_bounds [OF t p] by (auto simp: under_way_def)
qed

lemma loop_ends:
  assumes c: "calm g" and u: "under_way (fx_data g)" and t: "unit_transition (e_opt (fx_data g))"
    and past: "e_startOn (fx_data g) \<le> timePos" "e_finishOn (fx_data g) \<le> timePos"
    and l: "fx_loop opera timePos g d = (g', d', out)"
  shows "out = Ended \<and> e_state (fx_data g') = Finished \<and> e_position (fx_data g') = Some (fx_update_pos (fx_data g) 1) \<and>
    (\<exists>n. e_log (fx_data g') = [''beforeStart'', ''beforeSetup'', ''afterSetup''] @ updates (Suc n) @
      [''beforeFinish'', ''afterFinish''])"
proof -
  obtain g1 d1 where r: "fx_render opera 1 g d = (g1, d1)" by fastforce
  obtain g2 d2 th where k: "complete opera g d = (g2, d2, th)" by (metis prod_cases3)
  have th: "\<not> th" using complete_calm(1) [OF c, of opera d] k by simp
  have "g' = g2 \<and> out = Ended" using l past k th by (simp add: fx_loop_def Let_def)
  then show ?thesis
    using complete_frame [OF k r] render_under_way [OF r c u t] th by auto
qed

lemma loop_stays:
  assumes c: "calm g" and u: "under_way (fx_data g)" and t: "unit_transition (e_opt (fx_data g))"
    and dur: "0 \<le> fx_duration (e_opt (fx_data g))"
    and before: "timePos < e_finishOn (fx_data g)"
    and l: "fx_loop opera timePos g d = (g', d', out)"
  shows "out = Stays \<and> calm g' \<and> under_way (fx_data g') \<and> plan_of (fx_data g') = plan_of (fx_data g)"
proof -
  let ?f = "fx_data g"
  let ?pos = "(timePos - e_startOn ?f) / fx_totalTime ?f"
  let ?frame = "js_round (?pos * fx_totalFrames ?f)"
  show ?thesis
  proof (cases "e_startOn ?f \<le> timePos \<and> ?frame > e_currentFrame ?f")
    case True
    obtain g1 d1 where r: "fx_render opera ?pos g d = (g1, d1)" by fastforce
    have tt: "e_finishOn ?f = e_startOn ?f + fx_totalTime ?f" using u by (simp add: under_way_def timed_def)
    then have p: "0 \<le> ?pos" "?pos \<le> 1" using True before by (auto simp: divide_le_eq_1)
    have g': "g' = (case g1 of Fx f subs nxt \<Rightarrow> Fx (f\<lparr>e_currentFrame := ?frame\<rparr>) subs nxt)" "out = Stays"
      using l True before unfolding fx_loop_def Let_def r by simp_all
    obtain f1 s1 n1 where g1: "g1 = Fx f1 s1 n1" by (cases g1)
    have "calm g1" using render_calm(1) [OF c, of opera ?pos d] r by simp
    then show ?thesis
      using g' g1 render_under_way [OF r c u t p] render_frame [OF r]
      by (auto simp: under_way_def timed_def fx_totalTime_def plan_of_def)
  next
    case False
    then have "g' = g \<and> out = Stays" using l before unfolding fx_loop_def Let_def by (auto split: if_splits)
    then show ?thesis using c u by simp
  qed
qed

lemma run_under_way:
  assumes "calm g" "under_way (fx_data g)" "unit_transition (e_opt (fx_data g))" "0 \<le> fx_duration (e_opt (fx_data g))"
    and "fx_run opera ts g d = (g', d', out)"
  shows "if \<exists>t \<in> set ts. e_finishOn (fx_data g) \<le> t
    then out = Ended \<and> e_position (fx_data g') = Some (fx_update_pos (fx_data g) 1) \<and>
      (\<exists>n. e_log (fx_data g') = [''beforeStart'', ''beforeSetup'', ''afterSetup''] @ updates (Suc n) @
        [''beforeFinish'', ''afterFinish''])
    else out = Stays \<and> under_way (fx_data g') \<and> e_opt (fx_data g') = e_opt (fx_data g)"
  using assms
proof (induction ts arbitrary: g d)
  case (Cons t ts)
  obtain g1 d1 o1 where l: "fx_loop opera t g d = (g1, d1, o1)" by (metis prod_cases3)
  show ?case
  proof (cases "e_finishOn (fx_data g) \<le> t")
    case True
    have "e_startOn (fx_data g) \<le> t"
      using True Cons.prems(2,4) by (simp add: under_way_def timed_def fx_totalTime_def)
    then have e: "o1 = Ended" and ends: "e_position (fx_data g1) = Some (fx_update_pos (fx_data g) 1) \<and>
      (\<exists>n. e_log (fx_data g1) = [''beforeStart'', ''beforeSetup'', ''afterSetup''] @ updates (Suc n) @
        [''beforeFinish'', ''afterFinish''])"
      using loop_ends [OF Cons.prems(1-3) _ True l] by auto
    have "(g', d', out) = (g1, d1, Ended)" using Cons.prems(5) by (simp add: l e)
    then show ?thesis using ends True by auto
  next
    case False
    then have b: "t < e_finishOn (fx_data g)" by simp
    have st: "o1 = Stays" "calm g1" "under_way (fx_data g1)" "plan_of (fx_data g1) = plan_of (fx_data g)"
      using loop_stays [OF Cons.prems(1-4) b l] by auto
    then have o: "e_opt (fx_data g1) = e_opt (fx_data g)" "e_finishOn (fx_data g1) = e_finishOn (fx_data g)"
      "fx_update_pos (fx_data g1) = fx_update_pos (fx_data g)"
      by (auto simp: plan_of_def fx_update_pos_def)
    have r: "fx_run opera ts g1 d1 = (g', d', out)" using Cons.prems(5) by (simp add: l st)
    have "unit_transition (e_opt (fx_data g1))" "0 \<le> fx_duration (e_opt (fx_data g1))" using Cons.prems(3,4) o by auto
    from Cons.IH [OF st(2,3) this r] show ?thesis
      using o False by (cases "\<exists>x \<in> set ts. e_finishOn (fx_data g) \<le> x") auto
  qed
qed simp

lemma start_under_way:
  assumes "calm g0" "e_log (fx_data g0) = []" "e_position (fx_data g0) = None"
    and "g = shift_times time (fst (fx_start opera g0 d0))"
  shows "calm g \<and> under_way (fx_data g) \<and> e_opt (fx_data g) = e_opt (fx_data g0) \<and>
    e_finishOn (fx_data g) = time + (fx_delay (e_opt (fx_data g0)) + fx_duration (e_opt (fx_data g0))) * 1000"
  using assms
  by (cases g0) (auto simp: fx_start_def shift_times_def Let_def fx_event_def under_way_def timed_def fx_totalTime_def
      algebra_simps)


text \<open>An effect that does nothing but tell its positions, with the linear transition.\<close>

definition sample_fx :: fx where
  "sample_fx = Fx \<lparr>e_opt = DefaultOptions\<lparr>fx_transition := linear, fx_from := 2, fx_to := 4\<rparr>, e_kind = KTween [],
     e_hooks = [], e_state = Idle, e_startOn = 0, e_finishOn = 0, e_currentFrame = 0, e_position = None, e_log = []\<rparr> [] []"


section \<open>The queues\<close>

definition queue_ok :: "fx_world \<Rightarrow> string \<Rightarrow> bool" where
  "queue_ok w scope \<longleftrightarrow>
     distinct (q_effects (w_queues w scope)) \<and> (q_interval (w_queues w scope) \<longleftrightarrow> q_effects (w_queues w scope) \<noteq> []) \<and>
     (\<forall>i \<in> set (q_effects (w_queues w scope)). i < w_fresh w \<and> queue_scope (e_opt (w_fx w i)) = scope \<and>
        e_state (w_fx w i) \<noteq> Finished)"

definition queues_ok :: "fx_world \<Rightarrow> bool" where
  "queues_ok w \<longleftrightarrow> (\<forall>scope. queue_ok w scope)"

lemma shift_times_frame [simp]:
  "e_opt (fx_data (shift_times t g)) = e_opt (fx_data g)" "e_state (fx_data (shift_times t g)) = e_state (fx_data g)"
  "fx_next (shift_times t g) = fx_next g"
  "e_startOn (fx_data (shift_times t g)) = e_startOn (fx_data g) + t"
  "e_finishOn (fx_data (shift_times t g)) = e_finishOn (fx_data g) + t"
  by (cases g; simp add: shift_times_def)+

lemma shift_fold_frame:
  "e_opt (fx_data (foldl (\<lambda>h i. h(i := shift_times t (h i))) heap ids j)) = e_opt (fx_data (heap j)) \<and>
   e_state (fx_data (foldl (\<lambda>h i. h(i := shift_times t (h i))) heap ids j)) = e_state (fx_data (heap j)) \<and>
   fx_next (foldl (\<lambda>h i. h(i := shift_times t (h i))) heap ids j) = fx_next (heap j) \<and>
   (j \<notin> set ids \<longrightarrow> foldl (\<lambda>h i. h(i := shift_times t (h i))) heap ids j = heap j)"
  by (induction ids arbitrary: heap) auto

lemma move_idle_frame:
  "e_opt (fx_data (move_idle t ids heap j)) = e_opt (fx_data (heap j))"
  "e_state (fx_data (move_idle t ids heap j)) = e_state (fx_data (heap j))"
  "fx_next (move_idle t ids heap j) = fx_next (heap j)"
  by (simp_all add: move_idle_def shift_fold_frame)

text \<open>What adding an effect does to the effects of the heap and to the queues.\<close>

lemma queue_add_frame:
  "e_opt (w_fx (queue_add now i w) j) = e_opt (w_fx w j)" "e_state (w_fx (queue_add now i w) j) = e_state (w_fx w j)"
  "fx_next (w_heap (queue_add now i w) j) = fx_next (w_heap w j)" "w_fresh (queue_add now i w) = w_fresh w"
  by (simp_all add: queue_add_def w_fx_def Let_def move_idle_frame)

lemma queue_add_queue:
  "\<exists>effects. w_queues (queue_add now i w) =
     (w_queues w)(queue_scope (e_opt (w_fx w i)) := \<lparr>q_effects = effects, q_interval = True\<rparr>) \<and>
     (effects = q_effects (w_queues w (queue_scope (e_opt (w_fx w i)))) @ [i] \<or>
      effects = q_effects (w_queues w (queue_scope (e_opt (w_fx w i)))) \<and> effects \<noteq> [])"
  by (auto simp: queue_add_def Let_def)

lemma queue_add_ok:
  assumes ok: "queues_ok w" and new: "\<forall>scope. i \<notin> set (q_effects (w_queues w scope))" "i < w_fresh w"
    and st: "e_state (w_fx w i) \<noteq> Finished"
  shows "queues_ok (queue_add now i w)"
proof -
  let ?s = "queue_scope (e_opt (w_fx w i))"
  obtain es where q: "w_queues (queue_add now i w) = (w_queues w)(?s := \<lparr>q_effects = es, q_interval = True\<rparr>)"
    and es: "es = q_effects (w_queues w ?s) @ [i] \<or> es = q_effects (w_queues w ?s) \<and> es \<noteq> []"
    using queue_add_queue [of now i w] by blast
  show ?thesis
    unfolding queues_ok_def
  proof
    fix scope
    show "queue_ok (queue_add now i w) scope"
      using ok new st es unfolding queues_ok_def queue_ok_def
      by (cases "scope = ?s") (auto simp: q queue_add_frame)
  qed
qed

lemma new_fx_ok:
  assumes "queues_ok w" shows "queues_ok (new_fx opera now g w)"
proof -
  obtain f subs nxt where g: "g = Fx f subs nxt" by (cases g)
  obtain g' d' where s: "fx_start opera g (w_dom w) = (g', d')" by fastforce
  let ?w = "w\<lparr>w_fresh := w_fresh w + 1, w_dom := d', w_heap := (w_heap w)(w_fresh w := g')\<rparr>"
  have idle: "e_state (fx_data g') = Idle" using s by (auto simp: g fx_start_def Let_def fx_event_def)
  have fresh: "w_fresh w \<notin> set (q_effects (w_queues w scope))" for scope
    using assms unfolding queues_ok_def queue_ok_def by blast
  have ok: "queues_ok ?w"
    using assms fresh unfolding queues_ok_def queue_ok_def w_fx_def by (auto simp: less_Suc_eq)
  show ?thesis
    using ok queue_add_ok [OF ok, of "w_fresh w" now] fresh idle by (simp add: new_fx_def s Let_def w_fx_def)
qed

lemma queue_remove_ok:
  assumes ok: "\<forall>scope. distinct (q_effects (w_queues w scope)) \<and>
      (q_interval (w_queues w scope) \<longleftrightarrow> q_effects (w_queues w scope) \<noteq> []) \<and>
      (\<forall>j \<in> set (q_effects (w_queues w scope)). j < w_fresh w \<and> queue_scope (e_opt (w_fx w j)) = scope \<and>
        (j \<noteq> i \<longrightarrow> e_state (w_fx w j) \<noteq> Finished))"
  shows "queues_ok (queue_remove i w)"
  unfolding queues_ok_def
proof
  fix scope
  let ?s = "queue_scope (e_opt (w_fx w i))"
  show "queue_ok (queue_remove i w) scope"
  proof (cases "scope = ?s")
    case True
    then show ?thesis using ok by (auto simp: queue_ok_def queue_remove_def Let_def w_fx_def)
  next
    case False
    then have "i \<notin> set (q_effects (w_queues w scope))" using ok by auto
    then show ?thesis using ok False by (auto simp: queue_ok_def queue_remove_def Let_def w_fx_def)
  qed
qed

text \<open>What the loop does to an effect, whatever its kind.\<close>

lemma loop_frame:
  assumes "fx_loop opera timePos g d = (g', d', out)"
  shows "plan_of (fx_data g') = plan_of (fx_data g) \<and> fx_next g' = fx_next g \<and> (out \<noteq> Stays \<longrightarrow> e_state (fx_data g') = Finished)"
proof (cases "e_startOn (fx_data g) \<le> timePos \<and> e_finishOn (fx_data g) \<le> timePos")
  case True
  obtain g1 d1 where r: "fx_render opera 1 g d = (g1, d1)" by fastforce
  obtain g2 d2 th where k: "complete opera g d = (g2, d2, th)" by (metis prod_cases3)
  have "g' = g2" using assms True k by (simp add: fx_loop_def Let_def)
  then show ?thesis using complete_frame [OF k r] by simp
next
  case False
  let ?pos = "(timePos - e_startOn (fx_data g)) / fx_totalTime (fx_data g)"
  let ?frame = "js_round (?pos * fx_totalFrames (fx_data g))"
  obtain g1 d1 where r: "fx_render opera ?pos g d = (g1, d1)" by fastforce
  obtain f1 s1 n1 where g1: "g1 = Fx f1 s1 n1" by (cases g1)
  have "(g' = g \<or> g' = Fx (f1\<lparr>e_currentFrame := ?frame\<rparr>) s1 n1) \<and> out = Stays"
    using assms False unfolding fx_loop_def Let_def r by (auto simp: g1 split: if_splits)
  then show ?thesis using render_frame [OF r] g1 by (auto simp: plan_of_def)
qed

lemma loop_at_cases:
  assumes "loop_at opera timePos now scope i w = (w', th)"
  obtains "\<not> i < length (q_effects (w_queues w scope))" "w' = w" "\<not> th"
  | g d out where "i < length (q_effects (w_queues w scope))"
      "fx_loop opera timePos (w_heap w (q_effects (w_queues w scope) ! i)) (w_dom w) = (g, d, out)" "th \<longleftrightarrow> out = Threw"
      "w' = (if out = Ended then foldl (\<lambda>w g. new_fx opera now g w)
               (after_loop (q_effects (w_queues w scope) ! i) g d w) (fx_next g)
             else after_loop (q_effects (w_queues w scope) ! i) g d w)"
proof (cases "i < length (q_effects (w_queues w scope))")
  case True
  obtain g d out where f: "fx_loop opera timePos (w_heap w (q_effects (w_queues w scope) ! i)) (w_dom w) = (g, d, out)"
    by (metis prod_cases3)
  show thesis
    using that(2) [OF True f] assms True f by (auto simp: loop_at_def Let_def)
qed (use that(1) assms in \<open>simp add: loop_at_def\<close>)

lemma after_loop_ok:
  assumes ok: "queues_ok w" and f: "fx_loop opera timePos (w_heap w n) (w_dom w) = (g, d, out)"
  shows "queues_ok (after_loop n g d w)"
proof -
  let ?w = "w\<lparr>w_dom := d, w_heap := (w_heap w)(n := g)\<rparr>"
  have op: "e_opt (fx_data g) = e_opt (w_fx w n)" using loop_frame [OF f] by (simp add: plan_of_def w_fx_def)
  have all: "queue_ok w s" for s using ok by (simp add: queues_ok_def)
  show ?thesis
  proof (cases "e_state (fx_data g) = Finished")
    case True
    have "queues_ok (queue_remove n ?w)"
      by (rule queue_remove_ok) (use all op in \<open>auto simp: queue_ok_def w_fx_def\<close>)
    then show ?thesis using True by (simp add: after_loop_def)
  next
    case False
    have "queue_ok ?w s" for s using all [of s] op False by (auto simp: queue_ok_def w_fx_def)
    then show ?thesis using False by (simp add: after_loop_def queues_ok_def)
  qed
qed

text \<open>A queue only loses effects, and the plans of all effects stay.\<close>

lemma after_loop_frame:
  assumes "fx_loop opera timePos (w_heap w n) (w_dom w) = (g, d, out)"
  shows "\<exists>P. \<forall>t. q_effects (w_queues (after_loop n g d w) t) = filter (P t) (q_effects (w_queues w t))"
    and "plan_of (w_fx (after_loop n g d w) j) = plan_of (w_fx w j)"
    and "fx_next (w_heap (after_loop n g d w) j) = fx_next (w_heap w j)"
proof -
  show "\<exists>P. \<forall>t. q_effects (w_queues (after_loop n g d w) t) = filter (P t) (q_effects (w_queues w t))"
    by (rule exI [of _ "\<lambda>t j. \<not> (e_state (fx_data g) = Finished \<and> t = queue_scope (e_opt (fx_data g)) \<and> j = n)"])
       (auto simp: after_loop_def queue_remove_def Let_def w_fx_def)
  show "plan_of (w_fx (after_loop n g d w) j) = plan_of (w_fx w j)"
    "fx_next (w_heap (after_loop n g d w) j) = fx_next (w_heap w j)"
    using loop_frame [OF assms] by (simp_all add: after_loop_def queue_remove_def Let_def w_fx_def)
qed

lemma new_all_ok: "queues_ok v \<Longrightarrow> queues_ok (foldl (\<lambda>w g. new_fx opera now g w) v gs)"
  by (induction gs arbitrary: v) (simp_all add: new_fx_ok)

lemma loop_at_ok:
  assumes ok: "queues_ok w" and l: "loop_at opera timePos now scope i w = (w', th)"
  shows "queues_ok w'"
  using l by (cases rule: loop_at_cases) (auto simp: ok after_loop_ok intro!: new_all_ok)

lemma loop_from_ok: "queues_ok w \<Longrightarrow> queues_ok (loop_from_index opera timePos now scope i k w)"
proof (induction k arbitrary: i w)
  case (Suc k)
  obtain w' th where l: "loop_at opera timePos now scope i w = (w', th)" by fastforce
  show ?case using Suc.IH [OF loop_at_ok [OF Suc.prems l]] loop_at_ok [OF Suc.prems l] by (simp add: l)
qed simp

lemma tick_ok: "queues_ok w \<Longrightarrow> queues_ok (queue_tick opera timePos now scope w)"
  by (simp add: queue_tick_def queue_loop_def loop_from_ok)

section \<open>A queue of effects one after the other\<close>

text \<open>The options of an effect and of those that follow it.\<close>

fun all_opts :: "(fx_options \<Rightarrow> bool) \<Rightarrow> fx \<Rightarrow> bool" and all_opts_in :: "(fx_options \<Rightarrow> bool) \<Rightarrow> fx list \<Rightarrow> bool" where
  "all_opts P (Fx f subs nxt) \<longleftrightarrow> P (e_opt f) \<and> all_opts_in P nxt"
| "all_opts_in P [] \<longleftrightarrow> True"
| "all_opts_in P (g # gs) \<longleftrightarrow> all_opts P g \<and> all_opts_in P gs"

lemma all_opts_eq: "all_opts P g \<longleftrightarrow> P (e_opt (fx_data g)) \<and> all_opts_in P (fx_next g)"
  by (cases g) simp

lemma all_opts_in_iff: "all_opts_in P gs \<longleftrightarrow> (\<forall>g \<in> set gs. all_opts P g)"
  by (induction gs) auto

definition at_end :: "string \<Rightarrow> fx_options \<Rightarrow> bool" where
  "at_end scope op \<longleftrightarrow> (queue_scope op = scope \<longrightarrow> queue_position op = ''end'' \<and> 0 \<le> fx_delay op)"

definition in_turn :: "string \<Rightarrow> fx_world \<Rightarrow> bool" where
  "in_turn scope w \<longleftrightarrow> queues_ok w \<and>
     sorted_wrt (\<lambda>i j. e_finishOn (w_fx w i) \<le> e_startOn (w_fx w j)) (q_effects (w_queues w scope)) \<and>
     (\<forall>s. \<forall>i \<in> set (q_effects (w_queues w s)). all_opts (at_end scope) (w_heap w i))"

lemma max_or_ge: "t \<in> set ts \<Longrightarrow> 0 \<le> now \<Longrightarrow> t \<le> max_or ts now"
proof -
  assume t: "t \<in> set ts" and now: "0 \<le> now"
  have "t \<le> Max (set ts)" using t by simp
  moreover have "enum_max (\<lambda>t _. t) ts = Some (Max (set ts))" using t max_eq [of "\<lambda>x. x" ts] by auto
  ultimately show ?thesis using now by (auto simp: max_or_def)
qed

lemma member_scope:
  "queues_ok w \<Longrightarrow> j \<in> set (q_effects (w_queues w s)) \<Longrightarrow> queue_scope (e_opt (w_fx w j)) = s"
  by (simp add: queues_ok_def queue_ok_def)

text \<open>Adding an effect leaves the times of the other effects in the queues at the end alone.\<close>

lemma queue_add_times:
  assumes "queues_ok w" "at_end scope (e_opt (w_fx w i))" "j \<in> set (q_effects (w_queues w scope))" "j \<noteq> i"
  shows "w_heap (queue_add now i w) j = w_heap w j"
proof -
  let ?s = "queue_scope (e_opt (w_fx w i))"
  have "?s = scope \<Longrightarrow> queue_position (e_opt (w_fx w i)) \<noteq> ''front''" using assms(2) by (simp add: at_end_def)
  moreover have "?s \<noteq> scope \<Longrightarrow> j \<notin> set (q_effects (w_queues w ?s))"
    using member_scope [OF assms(1,3)] member_scope [OF assms(1), of j ?s] by auto
  ultimately have "queue_position (e_opt (w_fx w i)) = ''front'' \<Longrightarrow> j \<notin> set (q_effects (w_queues w ?s))" by blast
  then have "queue_position (e_opt (w_fx w i)) = ''front'' \<Longrightarrow>
      move_idle (e_finishOn (w_fx w i)) (q_effects (w_queues w ?s)) (w_heap w) j = w_heap w j"
    by (simp add: move_idle_def shift_fold_frame)
  then show ?thesis using assms(4) by (simp add: queue_add_def Let_def)
qed

lemma queue_add_after:
  assumes "queue_scope (e_opt (w_fx w i)) = scope" "at_end scope (e_opt (w_fx w i))" "0 \<le> now"
    "j \<in> set (q_effects (w_queues w scope))" "e_startOn (w_fx w i) = fx_delay (e_opt (w_fx w i)) * 1000"
  shows "e_finishOn (w_fx w j) \<le> e_startOn (w_fx (queue_add now i w) i)"
proof -
  have p: "queue_position (e_opt (w_fx w i)) = ''end''" and d: "0 \<le> fx_delay (e_opt (w_fx w i))"
    using assms(1,2) by (simp_all add: at_end_def)
  have "e_finishOn (w_fx w j) \<le> max_or (map (\<lambda>i. e_finishOn (w_fx w i)) (q_effects (w_queues w scope))) now"
    using assms(3,4) by (intro max_or_ge) auto
  then show ?thesis
    using p d assms(1,5) by (simp add: queue_add_def queue_timestamp_def Let_def w_fx_def)
qed

lemma turn_cong:
  "\<forall>j \<in> set q. w_fx v j = w_fx w j \<Longrightarrow> sorted_wrt (\<lambda>i j. e_finishOn (w_fx w i) \<le> e_startOn (w_fx w j)) q \<Longrightarrow>
     sorted_wrt (\<lambda>i j. e_finishOn (w_fx v i) \<le> e_startOn (w_fx v j)) q"
  by (induction q) auto

lemma new_fx_in_turn:
  assumes turn: "in_turn scope w" and g: "all_opts (at_end scope) g" and now: "0 \<le> now"
  shows "in_turn scope (new_fx opera now g w)"
proof -
  obtain f subs nxt where gf: "g = Fx f subs nxt" by (cases g)
  obtain g' d' where s: "fx_start opera g (w_dom w) = (g', d')" by fastforce
  let ?i = "w_fresh w"
  let ?w = "w\<lparr>w_fresh := ?i + 1, w_dom := d', w_heap := (w_heap w)(?i := g')\<rparr>"
  let ?v = "queue_add now ?i ?w"
  let ?q = "q_effects (w_queues w scope)"
  have g': "fx_next g' = fx_next g" "e_opt (fx_data g') = e_opt (fx_data g)"
    "e_startOn (fx_data g') = fx_delay (e_opt (fx_data g)) * 1000" "e_state (fx_data g') = Idle"
    using s by (auto simp: gf fx_start_def Let_def fx_event_def)
  have ok: "queues_ok w" using turn by (simp add: in_turn_def)
  have fresh: "?i \<notin> set (q_effects (w_queues w s))" for s using ok unfolding queues_ok_def queue_ok_def by blast
  have wok: "queues_ok ?w" using ok fresh unfolding queues_ok_def queue_ok_def w_fx_def by (auto simp: less_Suc_eq)
  have wfx: "w_fx ?w j = w_fx w j" "w_heap ?w j = w_heap w j" if "j \<in> set (q_effects (w_queues w s))" for j s
    using that fresh [of s] by (auto simp: w_fx_def)
  have "sorted_wrt (\<lambda>i j. e_finishOn (w_fx ?w i) \<le> e_startOn (w_fx ?w j)) ?q"
    by (rule turn_cong [where w = w]) (use turn wfx in \<open>auto simp: in_turn_def\<close>)
  then have wturn: "in_turn scope ?w" using turn wok wfx(2) by (simp add: in_turn_def)
  show ?thesis
  proof (cases "fx_sync (e_opt (fx_data g'))")
    case True
    then show ?thesis using wturn by (simp add: new_fx_def s Let_def)
  next
    case False
    have e: "new_fx opera now g w = ?v" using False by (simp add: new_fx_def s Let_def)
    have ae: "at_end scope (e_opt (w_fx ?w ?i))" using g g' by (simp add: w_fx_def all_opts_eq)
    have vok: "queues_ok ?v" using new_fx_ok [OF ok, of opera now g] e by simp
    have same: "w_heap ?v j = w_heap w j" if "j \<in> set ?q" for j
      using queue_add_times [OF wok ae, of j now] that fresh by (cases "j = ?i") auto
    obtain es where q: "w_queues ?v = (w_queues w)(queue_scope (e_opt (w_fx ?w ?i)) := \<lparr>q_effects = es, q_interval = True\<rparr>)"
      and es: "es = q_effects (w_queues w (queue_scope (e_opt (w_fx ?w ?i)))) @ [?i] \<or>
        es = q_effects (w_queues w (queue_scope (e_opt (w_fx ?w ?i))))"
      using queue_add_queue [of now ?i ?w] by auto
    have old: "sorted_wrt (\<lambda>i j. e_finishOn (w_fx ?v i) \<le> e_startOn (w_fx ?v j)) ?q"
      by (rule turn_cong [where w = w]) (use turn same in \<open>auto simp: in_turn_def w_fx_def\<close>)
    have "\<forall>j \<in> set ?q. e_finishOn (w_fx ?v j) \<le> e_startOn (w_fx ?v ?i)"
      if sc: "queue_scope (e_opt (w_fx ?w ?i)) = scope"
    proof
      fix j assume j: "j \<in> set ?q"
      have "e_finishOn (w_fx ?w j) \<le> e_startOn (w_fx ?v ?i)"
        by (rule queue_add_after [OF sc ae now]) (use j g' in \<open>simp_all add: w_fx_def\<close>)
      moreover have "w_fx ?v j = w_fx ?w j" using same [OF j] fresh j by (auto simp: w_fx_def)
      ultimately show "e_finishOn (w_fx ?v j) \<le> e_startOn (w_fx ?v ?i)" by simp
    qed
    then have sorted: "sorted_wrt (\<lambda>i j. e_finishOn (w_fx ?v i) \<le> e_startOn (w_fx ?v j)) (q_effects (w_queues ?v scope))"
      using old es q by (auto simp: sorted_wrt_append)
    have "all_opts (at_end scope) (w_heap ?v j)" if "j \<in> set (q_effects (w_queues ?v s))" for s j
    proof -
      have "all_opts (at_end scope) (w_heap ?w j)"
        using that es q turn g g' fresh
        by (cases "j = ?i") (auto simp: in_turn_def all_opts_eq split: if_splits)
      then show ?thesis
        using queue_add_frame(1,3) [of now ?i ?w j] by (simp add: all_opts_eq w_fx_def)
    qed
    then show ?thesis using e vok sorted by (auto simp: in_turn_def)
  qed
qed

lemma after_loop_in_turn:
  assumes turn: "in_turn scope w" and f: "fx_loop opera timePos (w_heap w n) (w_dom w) = (g, d, out)"
  shows "in_turn scope (after_loop n g d w)"
proof -
  let ?v = "after_loop n g d w"
  obtain P where sub: "\<And>t. q_effects (w_queues ?v t) = filter (P t) (q_effects (w_queues w t))"
    using after_loop_frame(1) [OF f] by auto
  note plan = after_loop_frame(2,3) [OF f]
  have t: "e_startOn (w_fx ?v j) = e_startOn (w_fx w j)" "e_finishOn (w_fx ?v j) = e_finishOn (w_fx w j)"
    "e_opt (w_fx ?v j) = e_opt (w_fx w j)" for j
    using plan(1) [of j] by (simp_all add: plan_of_def)
  have "all_opts (at_end scope) (w_heap ?v j)" if "j \<in> set (q_effects (w_queues ?v s))" for j s
    using that sub [of s] turn plan(2) [of j] t(3) [of j] by (auto simp: in_turn_def all_opts_eq w_fx_def)
  moreover have "sorted_wrt (\<lambda>i j. e_finishOn (w_fx ?v i) \<le> e_startOn (w_fx ?v j)) (q_effects (w_queues ?v scope))"
    using turn sub [of scope] t by (simp add: in_turn_def sorted_wrt_filter)
  moreover have "queues_ok ?v" using after_loop_ok [OF _ f] turn by (simp add: in_turn_def)
  ultimately show ?thesis by (simp add: in_turn_def)
qed

lemma new_all_in_turn:
  "in_turn scope v \<Longrightarrow> all_opts_in (at_end scope) gs \<Longrightarrow> 0 \<le> now \<Longrightarrow>
     in_turn scope (foldl (\<lambda>w g. new_fx opera now g w) v gs)"
  by (induction gs arbitrary: v) (simp_all add: new_fx_in_turn)

lemma loop_at_in_turn:
  assumes turn: "in_turn scope w" and l: "loop_at opera timePos now s i w = (w', th)" and now: "0 \<le> now"
  shows "in_turn scope w'"
  using l
proof (cases rule: loop_at_cases)
  case (2 g d out)
  have "fx_next g = fx_next (w_heap w (q_effects (w_queues w s) ! i))" using loop_frame [OF 2(2)] by simp
  moreover have "all_opts (at_end scope) (w_heap w (q_effects (w_queues w s) ! i))"
    using turn nth_mem [OF 2(1)] unfolding in_turn_def by blast
  ultimately have "all_opts_in (at_end scope) (fx_next g)" by (simp add: all_opts_eq)
  then show ?thesis
    using 2(4) after_loop_in_turn [OF turn 2(2)] new_all_in_turn now by auto
qed (use turn in simp)

lemma loop_from_in_turn:
  "in_turn scope w \<Longrightarrow> 0 \<le> now \<Longrightarrow> in_turn scope (loop_from_index opera timePos now s i k w)"
proof (induction k arbitrary: i w)
  case (Suc k)
  obtain w' th where l: "loop_at opera timePos now s i w = (w', th)" by fastforce
  show ?case
    using Suc.IH loop_at_in_turn [OF Suc.prems(1) l Suc.prems(2)] Suc.prems(2) by (simp add: l)
qed simp

lemma tick_in_turn: "in_turn scope w \<Longrightarrow> 0 \<le> now \<Longrightarrow> in_turn scope (queue_tick opera timePos now s w)"
  by (simp add: queue_tick_def queue_loop_def loop_from_in_turn)

text \<open>The worlds that pages reach with effects that satisfy \<open>P\<close>: new effects, and ticks of the queues.\<close>

inductive fx_reach :: "bool \<Rightarrow> (fx \<Rightarrow> bool) \<Rightarrow> fx_world \<Rightarrow> bool" for opera P where
  begin_world: "w_queues w = (\<lambda>_. empty_queue) \<Longrightarrow> fx_reach opera P w"
| new_effect: "fx_reach opera P w \<Longrightarrow> P g \<Longrightarrow> 0 \<le> now \<Longrightarrow> fx_reach opera P (new_fx opera now g w)"
| tick: "fx_reach opera P w \<Longrightarrow> 0 \<le> now \<Longrightarrow> fx_reach opera P (queue_tick opera timePos now scope w)"

lemma reach_in_turn: "fx_reach opera (all_opts (at_end scope)) w \<Longrightarrow> in_turn scope w"
proof (induction rule: fx_reach.induct)
  case (begin_world w)
  then show ?case by (simp add: in_turn_def queues_ok_def queue_ok_def empty_queue_def)
qed (simp_all add: new_fx_in_turn tick_in_turn)

text \<open>
  C19. When the effects of a scope are all put at the end of its queue and none has a negative
  delay, the queue runs them one after the other: at no time are two of them between their start
  and their end, whatever happens in other scopes.  The interval of the queue is set exactly
  while the queue has effects, and none of them has finished.
\<close>

theorem queue_runs_in_turn:
  assumes "fx_reach opera (all_opts (at_end scope)) w"
    and "i \<in> set (q_effects (w_queues w scope))" and "j \<in> set (q_effects (w_queues w scope))" and "i \<noteq> j"
    and "e_startOn (w_fx w i) \<le> time" and "time < e_finishOn (w_fx w i)"
  shows "\<not> (e_startOn (w_fx w j) \<le> time \<and> time < e_finishOn (w_fx w j)) \<and>
    (q_interval (w_queues w scope) \<longleftrightarrow> q_effects (w_queues w scope) \<noteq> []) \<and>
    e_state (w_fx w i) \<noteq> Finished"
proof -
  note turn = reach_in_turn [OF assms(1)]
  let ?q = "q_effects (w_queues w scope)"
  obtain a b where ab: "a < length ?q" "b < length ?q" "?q ! a = i" "?q ! b = j" "a \<noteq> b"
    using assms(2-4) by (metis in_set_conv_nth)
  then have "e_finishOn (w_fx w i) \<le> e_startOn (w_fx w j) \<or> e_finishOn (w_fx w j) \<le> e_startOn (w_fx w i)"
    using turn unfolding in_turn_def by (metis linorder_neqE_nat sorted_wrt_nth_less)
  then show ?thesis using assms(2,5,6) turn by (auto simp: in_turn_def queues_ok_def queue_ok_def)
qed

section \<open>The end of the effects of a queue\<close>

lemma reach_ok: "fx_reach opera P w \<Longrightarrow> queues_ok w"
proof (induction rule: fx_reach.induct)
  case (begin_world w)
  then show ?case by (simp add: queues_ok_def queue_ok_def empty_queue_def)
qed (simp_all add: new_fx_ok tick_ok)

text \<open>Every second element: what is left of a queue when all its effects are due.\<close>

fun odds :: "'a list \<Rightarrow> 'a list" where
  "odds [] = []"
| "odds [x] = []"
| "odds (x # y # xs) = y # odds xs"

lemma length_odds: "length (odds xs) = length xs div 2"
  by (induction xs rule: odds.induct) auto

lemma set_odds: "set (odds xs) \<subseteq> set xs"
  by (induction xs rule: odds.induct) auto

text \<open>An effect that is due, cannot throw and is followed by none.\<close>

definition due :: "real \<Rightarrow> fx \<Rightarrow> bool" where
  "due time g \<longleftrightarrow> calm g \<and> fx_next g = [] \<and> e_startOn (fx_data g) \<le> time \<and> e_finishOn (fx_data g) \<le> time"

lemma due_loop:
  assumes "due time g" "fx_loop opera time g d = (g', d', out)"
  shows "out = Ended \<and> e_state (fx_data g') = Finished \<and> fx_next g' = []"
proof -
  obtain g2 d2 th where k: "complete opera g d = (g2, d2, th)" by (metis prod_cases3)
  have "\<not> th" using complete_calm(1) [of g opera d] assms(1) k by (simp add: due_def)
  then have "out = Ended" using assms k by (simp add: fx_loop_def due_def Let_def)
  then show ?thesis using loop_frame [OF assms(2)] assms(1) by (simp add: due_def)
qed

lemma loop_at_due:
  assumes ok: "queues_ok w" and q: "q_effects (w_queues w scope) = as @ y # ys" and d: "due time (w_heap w y)"
    and l: "loop_at opera time now scope (length as) w = (w', th)"
  shows "\<not> th \<and> q_effects (w_queues w' scope) = as @ ys \<and> (\<forall>j. j \<noteq> y \<longrightarrow> w_heap w' j = w_heap w j)"
  using l
proof (cases rule: loop_at_cases)
  case (2 g dm out)
  have n: "q_effects (w_queues w scope) ! length as = y" using q by simp
  have e: "out = Ended" "e_state (fx_data g) = Finished" "fx_next g = []" using due_loop [OF d] 2(2) n by auto
  have "distinct (as @ y # ys)" using ok q unfolding queues_ok_def queue_ok_def by metis
  then have "filter (\<lambda>j. j \<noteq> y) as = as" "filter (\<lambda>j. j \<noteq> y) ys = ys" by (auto simp: filter_id_conv)
  then have "filter (\<lambda>j. j \<noteq> y) (as @ y # ys) = as @ ys" by simp
  moreover have "queue_scope (e_opt (fx_data g)) = scope"
    using loop_frame [OF 2(2)] member_scope [OF ok, of y scope] q n by (simp add: plan_of_def w_fx_def)
  ultimately show ?thesis using 2 e n q by (simp add: after_loop_def queue_remove_def Let_def w_fx_def)
qed (use q in simp)

lemma loop_from_due:
  "queues_ok w \<Longrightarrow> q_effects (w_queues w scope) = as @ ys \<Longrightarrow> \<forall>y \<in> set ys. due time (w_heap w y) \<Longrightarrow> length ys \<le> k \<Longrightarrow>
     q_effects (w_queues (loop_from_index opera time now scope (length as) k w) scope) = as @ odds ys \<and>
     (\<forall>j. j \<notin> set ys \<or> j \<in> set (odds ys) \<longrightarrow> w_heap (loop_from_index opera time now scope (length as) k w) j = w_heap w j)"
proof (induction ys arbitrary: as k w rule: odds.induct)
  case 1
  have "loop_from_index opera time now scope i k w = w" if "i \<ge> length as" for i k
    using that 1(2) by (induction k arbitrary: i) (simp_all add: loop_at_def)
  then show ?case using 1 by simp
next
  case (2 x)
  obtain m where k: "k = Suc m" using 2(4) by (cases k) auto
  obtain w' th where l: "loop_at opera time now scope (length as) w = (w', th)" by fastforce
  have r: "\<not> th" "q_effects (w_queues w' scope) = as" "\<forall>j. j \<noteq> x \<longrightarrow> w_heap w' j = w_heap w j"
    using loop_at_due [OF 2(1) 2(2) _ l] 2(3) by auto
  have "loop_from_index opera time now scope i m w' = w'" if "i \<ge> length as" for i m
    using that r(2) by (induction m arbitrary: i) (simp_all add: loop_at_def)
  then show ?case using r by (simp add: k l)
next
  case (3 x y ys)
  obtain m where k: "k = Suc m" using 3(5) by (cases k) auto
  obtain w' th where l: "loop_at opera time now scope (length as) w = (w', th)" by fastforce
  have r: "\<not> th" "q_effects (w_queues w' scope) = (as @ [y]) @ ys" "\<forall>j. j \<noteq> x \<longrightarrow> w_heap w' j = w_heap w j"
    using loop_at_due [OF 3(2) 3(3) _ l] 3(4) by auto
  have "distinct (as @ x # y # ys)" using 3(2,3) unfolding queues_ok_def queue_ok_def by metis
  then have ne: "x \<noteq> y" "x \<notin> set ys" by auto
  have ok: "queues_ok w'" by (rule loop_at_ok [OF 3(2) l])
  have due: "\<forall>z \<in> set ys. due time (w_heap w' z)" using 3(4) r(3) ne by auto
  have "loop_from_index opera time now scope (length as) k w = loop_from_index opera time now scope (length (as @ [y])) m w'"
    using r(1) by (simp add: k l)
  moreover have "length ys \<le> m" using 3(5) k by simp
  moreover have "x \<notin> set (odds ys)" using ne(2) set_odds [of ys] by blast
  ultimately show ?case
    using 3(1) [OF ok r(2) due, of m] r(3) \<open>distinct (as @ x # y # ys)\<close> by auto
qed

lemma tick_due:
  assumes ok: "queues_ok w" and due: "\<forall>y \<in> set (q_effects (w_queues w scope)). due time (w_heap w y)"
  shows "q_effects (w_queues (queue_tick opera time now scope w) scope) = odds (q_effects (w_queues w scope)) \<and>
    (\<forall>j \<in> set (odds (q_effects (w_queues w scope))). w_heap (queue_tick opera time now scope w) j = w_heap w j)"
proof (cases "q_effects (w_queues w scope) = []")
  case True
  moreover have "queue_ok w scope" using ok by (simp add: queues_ok_def)
  ultimately show ?thesis by (simp add: queue_tick_def queue_ok_def)
next
  case False
  moreover have "queue_ok w scope" using ok by (simp add: queues_ok_def)
  ultimately have "q_interval (w_queues w scope)" by (simp add: queue_ok_def)
  then show ?thesis
    using loop_from_due [OF ok, of scope "[]" "q_effects (w_queues w scope)" time
        "length (q_effects (w_queues w scope))" opera now] due
    by (simp add: queue_tick_def queue_loop_def)
qed

lemma due_mono: "due t g \<Longrightarrow> t \<le> t' \<Longrightarrow> due t' g"
  by (auto simp: due_def)

text \<open>
  C25. A queue whose effects are all due, cannot throw and are followed by none becomes empty and
  its interval is cleared, but not at once: as a finished effect leaves the list under the index
  of the loop, each tick passes over every second effect, so that of \<open>n\<close> effects \<open>n div 2 ^ m\<close>
  are left after \<open>m\<close> ticks.
\<close>

theorem queue_drains:
  assumes "fx_reach opera P w" and "\<forall>y \<in> set (q_effects (w_queues w scope)). due time (w_heap w y)"
    and "\<forall>t \<in> set ts. time \<le> t"
    and "w' = foldl (\<lambda>w t. queue_tick opera t now scope w) w ts"
  shows "length (q_effects (w_queues w' scope)) = length (q_effects (w_queues w scope)) div 2 ^ length ts \<and>
    (length (q_effects (w_queues w scope)) < 2 ^ length ts \<longrightarrow> \<not> q_interval (w_queues w' scope))"
proof -
  have "queues_ok w \<Longrightarrow> \<forall>y \<in> set (q_effects (w_queues w scope)). due time (w_heap w y) \<Longrightarrow> \<forall>t \<in> set ts. time \<le> t \<Longrightarrow>
      queues_ok (foldl (\<lambda>w t. queue_tick opera t now scope w) w ts) \<and>
      length (q_effects (w_queues (foldl (\<lambda>w t. queue_tick opera t now scope w) w ts) scope)) =
        length (q_effects (w_queues w scope)) div 2 ^ length ts" for w
  proof (induction ts arbitrary: w)
    case (Cons t ts)
    have "\<forall>y \<in> set (q_effects (w_queues w scope)). due t (w_heap w y)" using Cons.prems(2,3) due_mono by auto
    note tick = tick_due [OF Cons.prems(1) this, of opera now]
    have "\<forall>y \<in> set (q_effects (w_queues (queue_tick opera t now scope w) scope)).
        due time (w_heap (queue_tick opera t now scope w) y)"
      using tick Cons.prems(2) set_odds by fastforce
    from Cons.IH [OF tick_ok [OF Cons.prems(1)] this] Cons.prems(3) tick show ?case
      by (simp add: length_odds div_mult2_eq)
  qed simp
  then have "queues_ok w'" "length (q_effects (w_queues w' scope)) = length (q_effects (w_queues w scope)) div 2 ^ length ts"
    using reach_ok [OF assms(1)] assms(2-4) by auto
  then show ?thesis by (auto simp: queues_ok_def queue_ok_def)
qed

section \<open>Two effects of the global queue\<close>

definition sample_end :: fx where
  "sample_end = Fx \<lparr>e_opt = DefaultOptions\<lparr>fx_queue := QPosition ''end''\<rparr>, e_kind = KEvent, e_hooks = [],
     e_state = Idle, e_startOn = 0, e_finishOn = 0, e_currentFrame = 0, e_position = None, e_log = []\<rparr> [] []"

definition sample_world :: fx_world where
  "sample_world = new_fx False 1000 sample_end (new_fx False 1000 sample_end
     \<lparr>w_dom = undefined, w_heap = undefined, w_queues = (\<lambda>_. empty_queue), w_fresh = 0\<rparr>)"

lemmas sample_defs = sample_world_def sample_end_def DefaultOptions_def new_fx_def queue_add_def fx_start_def fx_event_def
  do_hook_def queue_scope_def queue_position_def queue_limit_def queue_timestamp_def shift_times_def empty_queue_def w_fx_def

lemma max_or_single [simp]: "max_or [x] t = (if x = 0 then t else x)" "max_or [] t = t"
  by (simp_all add: max_or_def max_eq [of "\<lambda>x. x", simplified])

lemma sample_reach: "(\<forall>g. g = sample_end \<longrightarrow> P g) \<Longrightarrow> fx_reach False P sample_world"
  unfolding sample_world_def by (intro fx_reach.intros) auto

lemma sample_queue: "q_effects (w_queues sample_world ''global'') = [0, 1]"
  by (simp add: sample_defs Let_def)

lemma sample_times:
  "e_startOn (w_fx sample_world 0) = 1000" "e_finishOn (w_fx sample_world 0) = 2000"
  "e_startOn (w_fx sample_world 1) = 2000" "e_finishOn (w_fx sample_world 1) = 3000"
  by (simp_all add: sample_defs Let_def)

theorem queue_runs_in_turn_witness:
  "\<not> (e_startOn (w_fx sample_world 1) \<le> 1500 \<and> 1500 < e_finishOn (w_fx sample_world 1))"
proof -
  have "fx_reach False (all_opts (at_end ''global'')) sample_world"
    by (rule sample_reach) (simp add: sample_end_def at_end_def queue_position_def DefaultOptions_def)
  from queue_runs_in_turn [OF this, of 0 1 1500] show ?thesis by (simp add: sample_queue sample_times)
qed

theorem queue_drains_witness:
  "length (q_effects (w_queues (queue_tick False 5000 5000 ''global'' sample_world) ''global'')) = 1 \<and>
   \<not> q_interval (w_queues (queue_tick False 5015 5000 ''global'' (queue_tick False 5000 5000 ''global'' sample_world)) ''global'')"
proof -
  have r: "fx_reach False (\<lambda>_. True) sample_world" by (rule sample_reach) simp
  have "calm (w_heap sample_world i) \<and> fx_next (w_heap sample_world i) = []" if "i \<in> {0, 1}" for i
    using that by (auto simp: sample_defs Let_def calm_kind_def)
  then have d: "\<forall>y \<in> set (q_effects (w_queues sample_world ''global'')). due 5000 (w_heap sample_world y)"
    using sample_times by (auto simp: sample_queue due_def w_fx_def)
  show ?thesis
    using queue_drains [OF r d, of "[5000]", OF _ refl, of 5000]
      queue_drains [OF r d, of "[5000, 5015]", OF _ refl, of 5000] by (simp add: sample_queue)
qed

end
