(* ===== verification/EffectLibrary.thy ===== *)
theory EffectLibrary
  imports EffectEngine
begin

text \<open>
  The combination effects of \<open>effects.js\<close>: each is given as the effect it makes, with the
  callbacks as actions on the page and the effects that follow as its successors, together with
  what the call does to the page at once.  The options of the caller are a function on the
  options of the effect.
\<close>

section \<open>Making effects\<close>

definition fx_new :: "fx_options \<Rightarrow> kind \<Rightarrow> (string \<times> dom_action list) list \<Rightarrow> fx list \<Rightarrow> fx list \<Rightarrow> fx" where
  "fx_new op k hooks subs nxt =
     Fx \<lparr>e_opt = op, e_kind = k, e_hooks = hooks, e_state = Idle, e_startOn = 0, e_finishOn = 0,
         e_currentFrame = 0, e_position = None, e_log = []\<rparr> subs nxt"

type_synonym fx_user = "fx_options \<Rightarrow> fx_options"

text \<open>\<open>x || d\<close> for a number\<close>

definition num_or :: "js_num \<Rightarrow> real \<Rightarrow> real" where
  "num_or x d = (case x of Fin r \<Rightarrow> if r = 0 then d else r | _ \<Rightarrow> d)"

definition opacity_options :: "nat \<Rightarrow> dom \<Rightarrow> fx_options" where
  "opacity_options i d = DefaultOptions\<lparr>fx_from := num_or (getOpacity (d i)) 0, fx_to := 1\<rparr>"

definition new_opacity :: "fx_user \<Rightarrow> nat \<Rightarrow> dom \<Rightarrow> fx" where
  "new_opacity user i d = fx_new (user (opacity_options i d)) (KOpacity i) [] [] []"

definition new_move :: "fx_user \<Rightarrow> nat \<Rightarrow> real \<Rightarrow> real \<Rightarrow> bool \<Rightarrow> (string \<times> dom_action list) list \<Rightarrow> fx list \<Rightarrow> fx" where
  "new_move user i x y absolute hooks nxt =
     fx_new (user DefaultOptions)
       (KMove i \<lparr>mv_x = Fin x, mv_y = Fin y, mv_absolute = absolute, mv_left = Fin 0, mv_top = Fin 0\<rparr>) hooks [] nxt"

definition MoveBy :: "fx_user \<Rightarrow> nat \<Rightarrow> real \<Rightarrow> real \<Rightarrow> fx" where
  "MoveBy user i toTop toLeft = new_move user i toLeft toTop False [] []"

definition default_scale :: "real \<Rightarrow> scale" where
  "default_scale pct =
     \<lparr>sc_x = True, sc_y = True, sc_content = True, sc_center = False, sc_mode = Box, sc_from = 100, sc_to = pct,
      sc_restore = False, sc_positioning = unset, sc_original = [], sc_top = 0, sc_left = 0, sc_font = None,
      sc_factor = 0, sc_dims = (0, 0)\<rparr>"

definition new_scale :: "fx_user \<Rightarrow> nat \<Rightarrow> scale \<Rightarrow> (string \<times> dom_action list) list \<Rightarrow> fx list \<Rightarrow> fx" where
  "new_scale user i s hooks nxt = fx_new (user DefaultOptions) (KScale i s) hooks [] nxt"

definition new_highlight :: "fx_user \<Rightarrow> nat \<Rightarrow> string \<Rightarrow> fx" where
  "new_highlight user i startcolor =
     fx_new (user DefaultOptions)
       (KHighlight i \<lparr>hl_start = startcolor, hl_end = None, hl_restore = None, hl_keep = False, hl_old = None,
                      hl_base = [], hl_target = []\<rparr>) [] [] []"

definition sync_opt :: fx_user where
  "sync_opt op = op\<lparr>fx_sync := True\<rparr>"

section \<open>Fading\<close>

definition Fade :: "fx_user \<Rightarrow> nat \<Rightarrow> dom \<Rightarrow> fx" where
  "Fade user i d =
     (let oldOpacity = getInlineOpacity (d i);
          op = user (DefaultOptions\<lparr>fx_from := num_or (getOpacity (d i)) 1, fx_to := 0\<rparr>)
      in fx_new op (KOpacity i)
           [(''afterFinishInternal'', if fx_to op \<noteq> 0 then [] else [AHide i, AStyle i [(''opacity'', oldOpacity)]])] [] [])"

definition appear_options :: "nat \<Rightarrow> dom \<Rightarrow> fx_options" where
  "appear_options i d =
     DefaultOptions\<lparr>fx_from := (if getStyle (d i) ''display'' = SText ''none'' then 0 else num_or (getOpacity (d i)) 0), fx_to := 1\<rparr>"

text \<open>\<open>nxt\<close> are the effects that a caller starts in place of the callback of \<open>Appear\<close>, which only redraws.\<close>

definition Appear :: "fx_user \<Rightarrow> fx list \<Rightarrow> nat \<Rightarrow> dom \<Rightarrow> fx" where
  "Appear user nxt i d =
     (let op = user (appear_options i d)
      in fx_new op (KOpacity i) [(''beforeSetup'', [AOpacity i (fx_from op), AShow i])] [] nxt)"

definition Pulsate :: "fx_user \<Rightarrow> (real \<Rightarrow> real) \<Rightarrow> real \<Rightarrow> nat \<Rightarrow> dom \<Rightarrow> fx" where
  "Pulsate user transition pulses i d =
     (let oldOpacity = getInlineOpacity (d i);
          reverser = (\<lambda>pos. 1 - transition (- cos ((pos * (if pulses = 0 then 5 else pulses) * 2) * pi) / 2 + 1 / 2));
          op = (user (DefaultOptions\<lparr>fx_duration := 2, fx_from := 0\<rparr>))\<lparr>fx_transition := reverser\<rparr>
      in fx_new op (KOpacity i) [(''afterFinishInternal'', [AStyle i [(''opacity'', oldOpacity)]])] [] [])"

section \<open>Scaling\<close>

text \<open>\<open>offsets\<close> is where the element is among the positioned elements.\<close>

definition Puff :: "fx_user \<Rightarrow> real \<times> real \<Rightarrow> nat \<Rightarrow> dom \<Rightarrow> fx" where
  "Puff user offsets i d =
     (let e = d i;
          oldStyle = [(''opacity'', getInlineOpacity e), (''position'', getStyle e ''position''),
                      (''top'', inline e ''top''), (''left'', inline e ''left''),
                      (''width'', inline e ''width''), (''height'', inline e ''height'')]
      in fx_new (user (DefaultOptions\<lparr>fx_duration := 1\<rparr>)) KParallel
           [(''beforeSetupInternal'', [AAbsolutize i offsets]),
            (''afterFinishInternal'', [AHide i, AStyle i oldStyle])]
           [new_scale sync_opt i ((default_scale 200)\<lparr>sc_center := True, sc_restore := True\<rparr>) [] [],
            fx_new (sync_opt ((opacity_options i d)\<lparr>fx_to := 0\<rparr>)) (KOpacity i) [] [] []] [])"

definition blind_scale :: "real \<Rightarrow> scale" where
  "blind_scale pct = (default_scale pct)\<lparr>sc_content := False, sc_x := False, sc_restore := True\<rparr>"

definition BlindUp :: "fx_user \<Rightarrow> nat \<Rightarrow> dom \<Rightarrow> fx \<times> dom" where
  "BlindUp user i d =
     (new_scale user i (blind_scale 0) [(''afterFinishInternal'', [AHide i, AUnclip i])] [], on_elem i makeClipping d)"

definition BlindDown :: "fx_user \<Rightarrow> nat \<Rightarrow> dom \<Rightarrow> fx" where
  "BlindDown user i d =
     (let (w, h) = getDimensions (d i)
      in new_scale user i ((blind_scale 100)\<lparr>sc_from := 0, sc_mode := Given h w\<rparr>)
           [(''afterSetup'', [AClip i, AStyle i [(''height'', px 0)], AShow i]),
            (''afterFinishInternal'', [AUnclip i])] [])"

definition SwitchOff :: "fx_user \<Rightarrow> real \<Rightarrow> nat \<Rightarrow> dom \<Rightarrow> fx" where
  "SwitchOff user random i d =
     (let oldOpacity = getInlineOpacity (d i);
          off = new_scale (\<lambda>op. op\<lparr>fx_duration := 3 / 10\<rparr>) i ((blind_scale 1)\<lparr>sc_center := True\<rparr>)
                  [(''beforeSetup'', [APosition i, AClip i]),
                   (''afterFinishInternal'', [AHide i, AUnclip i, AUnposition i, AStyle i [(''opacity'', oldOpacity)]])] []
      in Appear (\<lambda>op. user (op\<lparr>fx_duration := 4 / 10, fx_from := 0, fx_transition := flicker random\<rparr>)) [off] i d)"

definition Squish :: "bool \<Rightarrow> nat \<Rightarrow> fx" where
  "Squish opera i =
     new_scale (\<lambda>op. op) i ((default_scale (if opera then 1 else 0))\<lparr>sc_restore := True\<rparr>)
       [(''beforeSetup'', [AClip i]), (''afterFinishInternal'', [AHide i, AUnclip i])] []"

text \<open>\<open>j\<close> is the element in \<open>i\<close> that slides.\<close>

definition slide_scale :: "bool \<Rightarrow> real \<Rightarrow> real \<Rightarrow> dom \<Rightarrow> nat \<Rightarrow> scale" where
  "slide_scale opera from to d i =
     (let (w, h) = getDimensions (d i)
      in (blind_scale to)\<lparr>sc_from := from, sc_mode := Given h w\<rparr>)"

definition slide_setup :: "bool \<Rightarrow> nat \<Rightarrow> nat \<Rightarrow> dom_action list" where
  "slide_setup opera i j = [APosition i, APosition j] @ (if opera then [AStyle i [(''top'', unset)]] else []) @ [AClip i]"

definition SlideDown :: "bool \<Rightarrow> fx_user \<Rightarrow> nat \<Rightarrow> nat \<Rightarrow> dom \<Rightarrow> fx" where
  "SlideDown opera user i j d =
     (let oldInnerBottom = getStyle (d j) ''bottom''
      in new_scale user i (slide_scale opera (if opera then 0 else 1) 100 d i)
           [(''afterSetup'', slide_setup opera i j @ [AStyle i [(''height'', px 0)], AShow i]),
            (''afterUpdateInternal'', [AInnerBottom i j]),
            (''afterFinishInternal'', [AUnclip i, AUnposition i, AUnposition j, AStyle j [(''bottom'', oldInnerBottom)]])] [])"

definition SlideUp :: "bool \<Rightarrow> fx_user \<Rightarrow> nat \<Rightarrow> nat \<Rightarrow> dom \<Rightarrow> fx" where
  "SlideUp opera user i j d =
     (let oldInnerBottom = getStyle (d j) ''bottom''
      in new_scale user i (slide_scale opera 100 (if opera then 0 else 1) d i)
           [(''afterSetup'', slide_setup opera i j @ [AShow i]),
            (''afterUpdateInternal'', [AInnerBottom i j]),
            (''afterFinishInternal'',
               [AHide i, AUnclip i, AUnposition i, AUnposition j, AStyle j [(''bottom'', oldInnerBottom)]])] [])"

definition Fold :: "fx_user \<Rightarrow> nat \<Rightarrow> dom \<Rightarrow> fx \<times> dom" where
  "Fold user i d =
     (let e = d i;
          oldStyle = map (\<lambda>k. (k, inline e k)) [''top'', ''left'', ''width'', ''height''];
          second = new_scale (\<lambda>op. op) i ((default_scale 1)\<lparr>sc_content := False, sc_y := False\<rparr>)
                     [(''afterFinishInternal'', [AHide i, AUnclip i, AStyle i oldStyle])] []
      in (new_scale user i ((default_scale 5)\<lparr>sc_content := False, sc_x := False\<rparr>) [] [second],
          on_elem i makeClipping d))"

section \<open>Moving\<close>

definition DropOut :: "fx_user \<Rightarrow> nat \<Rightarrow> dom \<Rightarrow> fx" where
  "DropOut user i d =
     (let e = d i;
          oldStyle = [(''top'', getStyle e ''top''), (''left'', getStyle e ''left''), (''opacity'', getInlineOpacity e)]
      in fx_new (user (DefaultOptions\<lparr>fx_duration := 1 / 2\<rparr>)) KParallel
           [(''beforeSetup'', [APosition i]),
            (''afterFinishInternal'', [AHide i, AUnposition i, AStyle i oldStyle])]
           [new_move sync_opt i 0 100 False [] [],
            fx_new (sync_opt ((opacity_options i d)\<lparr>fx_to := 0\<rparr>)) (KOpacity i) [] [] []] [])"

text \<open>The six moves of \<open>Shake\<close>, each started by the end of the one before.\<close>

fun shake_moves :: "nat \<Rightarrow> dom_action list \<Rightarrow> (real \<times> real) list \<Rightarrow> fx list" where
  "shake_moves i final [] = []"
| "shake_moves i final ((x, dur) # ms) =
     [new_move (\<lambda>op. op\<lparr>fx_duration := dur\<rparr>) i x 0 False
        (if ms = [] then [(''afterFinishInternal'', final)] else []) (shake_moves i final ms)]"

definition Shake :: "real \<Rightarrow> real \<Rightarrow> nat \<Rightarrow> dom \<Rightarrow> fx" where
  "Shake distance duration i d =
     (let split = duration / 10;
          oldStyle = [(''top'', getStyle (d i) ''top''), (''left'', getStyle (d i) ''left'')]
      in hd (shake_moves i [AUnposition i, AStyle i oldStyle]
           [(distance, split), (- distance * 2, split * 2), (distance * 2, split * 2), (- distance * 2, split * 2),
            (distance * 2, split * 2), (- distance, split)]))"

section \<open>Growing and shrinking\<close>

datatype direction = TopLeft | TopRight | BottomLeft | BottomRight | Center

text \<open>Where the element grows from, and the way it moves then.\<close>

fun grow_moves :: "direction \<Rightarrow> real \<Rightarrow> real \<Rightarrow> (real \<times> real) \<times> (real \<times> real)" where
  "grow_moves TopLeft w h = ((0, 0), (0, 0))"
| "grow_moves TopRight w h = ((w, 0), (- w, 0))"
| "grow_moves BottomLeft w h = ((0, h), (0, - h))"
| "grow_moves BottomRight w h = ((w, h), (- w, - h))"
| "grow_moves Center w h = ((w / 2, h / 2), (- w / 2, - h / 2))"

fun shrink_move :: "direction \<Rightarrow> real \<Rightarrow> real \<Rightarrow> real \<times> real" where
  "shrink_move TopLeft w h = (0, 0)"
| "shrink_move TopRight w h = (w, 0)"
| "shrink_move BottomLeft w h = (0, h)"
| "shrink_move BottomRight w h = (w, h)"
| "shrink_move Center w h = (w / 2, h / 2)"

definition old_box :: "elem \<Rightarrow> styles" where
  "old_box e =
     map (\<lambda>k. (k, inline e k)) [''top'', ''left'', ''height'', ''width''] @ [(''opacity'', getInlineOpacity e)]"

definition Grow :: "bool \<Rightarrow> fx_user \<Rightarrow> direction \<Rightarrow> (real \<Rightarrow> real) \<Rightarrow> (real \<Rightarrow> real) \<Rightarrow> (real \<Rightarrow> real) \<Rightarrow> nat \<Rightarrow> dom \<Rightarrow> fx" where
  "Grow opera user direction moveTransition scaleTransition opacityTransition i d =
     (let (w, h) = getDimensions (d i);
          ((ix, iy), (mx, my)) = grow_moves direction w h;
          sync = (\<lambda>t op. sync_opt (op\<lparr>fx_transition := t\<rparr>));
          grow = fx_new (user DefaultOptions) KParallel
                   [(''beforeSetup'', [AStyle i [(''height'', px 0)], AShow i]),
                    (''afterFinishInternal'', [AUnclip i, AUnposition i, AStyle i (old_box (d i))])]
                   [fx_new (sync opacityTransition (DefaultOptions\<lparr>fx_from := 0, fx_to := 1\<rparr>)) (KOpacity i) [] [] [],
                    new_move (sync moveTransition) i mx my False [] [],
                    new_scale (sync scaleTransition) i
                      ((default_scale 100)\<lparr>sc_mode := Given h w, sc_from := (if opera then 1 else 0), sc_restore := True\<rparr>) [] []] []
      in new_move (\<lambda>op. op\<lparr>fx_duration := 1 / 100\<rparr>) i ix iy False
           [(''beforeSetup'', [AHide i, AClip i, APosition i])] [grow])"

definition Shrink :: "bool \<Rightarrow> fx_user \<Rightarrow> direction \<Rightarrow> (real \<Rightarrow> real) \<Rightarrow> (real \<Rightarrow> real) \<Rightarrow> (real \<Rightarrow> real) \<Rightarrow> nat \<Rightarrow> dom \<Rightarrow> fx" where
  "Shrink opera user direction moveTransition scaleTransition opacityTransition i d =
     (let (w, h) = getDimensions (d i); (mx, my) = shrink_move direction w h;
          sync = (\<lambda>t op. sync_opt (op\<lparr>fx_transition := t\<rparr>))
      in fx_new (user DefaultOptions) KParallel
           [(''beforeStartInternal'', [APosition i, AClip i]),
            (''afterFinishInternal'', [AHide i, AUnclip i, AUnposition i, AStyle i (old_box (d i))])]
           [fx_new (sync opacityTransition (DefaultOptions\<lparr>fx_from := 1, fx_to := 0\<rparr>)) (KOpacity i) [] [] [],
            new_scale (sync scaleTransition) i ((default_scale (if opera then 1 else 0))\<lparr>sc_restore := True\<rparr>) [] [],
            new_move (sync moveTransition) i mx my False [] []] [])"

section \<open>Choosing effects\<close>

datatype effect_pair = Slide | Blind | AppearFade

text \<open>\<open>PAIRS\<close> and \<open>toggle\<close>; an effect that has no pair is a \<open>TypeError\<close>.\<close>

definition effect_pairs :: "string \<Rightarrow> effect_pair option" where
  "effect_pairs name =
     (if name = ''slide'' then Some Slide else if name = ''blind'' then Some Blind
      else if name = ''appear'' then Some AppearFade else None)"

text \<open>The queue that \<open>toggle\<close> uses: one effect at a time, in a scope of the element.\<close>

definition toggle_user :: "string \<Rightarrow> fx_user \<Rightarrow> fx_user" where
  "toggle_user element_id user op =
     user (op\<lparr>fx_queue := QObject (if element_id = [] then ''global'' else element_id) (Some ''end'') (Some 1)\<rparr>)"

definition effect_toggle :: "bool \<Rightarrow> string \<Rightarrow> fx_user \<Rightarrow> string \<Rightarrow> nat \<Rightarrow> nat \<Rightarrow> dom \<Rightarrow> (fx \<times> dom) option" where
  "effect_toggle opera element_id user effect i j d =
     (let u = toggle_user element_id user
      in case effect_pairs (to_lower_case (if effect = [] then ''appear'' else effect)) of
           None \<Rightarrow> None
         | Some Slide \<Rightarrow> Some (if visible (d i) then SlideUp opera u i j d else SlideDown opera u i j d, d)
         | Some Blind \<Rightarrow> Some (if visible (d i) then BlindUp u i d else (BlindDown u i d, d))
         | Some AppearFade \<Rightarrow> Some (if visible (d i) then Fade u i d else Appear u [] i d, d))"

text \<open>\<open>multiple\<close>: the delays of the effects on a list of elements.\<close>

definition multiple_delays :: "real \<Rightarrow> real \<Rightarrow> nat list \<Rightarrow> (nat \<times> real) list" where
  "multiple_delays speed masterDelay elements =
     map (\<lambda>index. (elements ! index, real index * speed + masterDelay)) [0..<length elements]"

section \<open>What effects touch\<close>

text \<open>Two states of an element that agree on everything but the given inline properties.\<close>

definition agree :: "string set \<Rightarrow> elem \<Rightarrow> elem \<Rightarrow> bool" where
  "agree K e e' \<longleftrightarrow> (\<forall>k. k \<notin> K \<longrightarrow> inline e' k = inline e k) \<and> sheet e' = sheet e \<and>
     clip_overflow e' = clip_overflow e"

definition agree_dom :: "nat \<Rightarrow> string set \<Rightarrow> dom \<Rightarrow> dom \<Rightarrow> bool" where
  "agree_dom i K d d' \<longleftrightarrow> (\<forall>j. j \<noteq> i \<longrightarrow> d' j = d j) \<and> agree K (d i) (d' i)"

lemma agree_refl [simp]: "agree K e e" "agree_dom i K d d"
  by (simp_all add: agree_def agree_dom_def)

lemma agree_trans: "agree K e e' \<Longrightarrow> agree K e' e'' \<Longrightarrow> agree K e e''"
  by (simp add: agree_def)

lemma agree_dom_trans: "agree_dom i K d d' \<Longrightarrow> agree_dom i K d' d'' \<Longrightarrow> agree_dom i K d d''"
  by (auto simp: agree_dom_def intro: agree_trans)

lemma agree_on_elem: "agree K (d i) (f (d i)) \<Longrightarrow> agree_dom i K d (on_elem i f d)"
  by (simp add: agree_dom_def on_elem_def)

lemma agree_setStyle: "fst ` set ss \<subseteq> K \<Longrightarrow> agree K e (setStyle ss e)"
  unfolding agree_def using setStyle_frame [of ss e] by blast

lemma agree_setOpacity: "''opacity'' \<in> K \<Longrightarrow> agree K e (setOpacity v e)"
  unfolding agree_def using setOpacity_frame by metis

definition box_keys :: "string set" where
  "box_keys = {''top'', ''left'', ''width'', ''height'', ''fontSize''}"

lemma agree_scale_update: "box_keys \<subseteq> K \<Longrightarrow> agree K e (scale_update s p e)"
proof -
  assume K: "box_keys \<subseteq> K"
  have "agree K e (scale_font s c e)" for c
    using K by (auto simp: scale_font_def box_keys_def agree_def assign_inline split: option.split)
  moreover have "agree K e' (setDimensions s h w e')" for e' h w
    unfolding setDimensions_def Let_def by (rule agree_setStyle) (use K in \<open>auto simp: box_keys_def\<close>)
  ultimately show ?thesis unfolding scale_update_def Let_def using agree_trans by blast
qed

lemma agree_scale_finish: "box_keys \<subseteq> K \<Longrightarrow> fst ` set (sc_original s) \<subseteq> box_keys \<Longrightarrow> agree K e (scale_finish s e)"
  by (auto simp: scale_finish_def intro!: agree_setStyle)

section \<open>Running an effect to its end\<close>

text \<open>
  A property of effect and page that rendering keeps, and that does not depend on the number of
  the frame, holds until the tick that ends the effect.
\<close>

definition kept_by_render :: "bool \<Rightarrow> (fx \<Rightarrow> dom \<Rightarrow> bool) \<Rightarrow> bool" where
  "kept_by_render opera I \<longleftrightarrow>
     (\<forall>g d pos g' d'. I g d \<longrightarrow> fx_render opera pos g d = (g', d') \<longrightarrow> I g' d') \<and>
     (\<forall>f subs nxt d n. I (Fx f subs nxt) d \<longrightarrow> I (Fx (f\<lparr>e_currentFrame := n\<rparr>) subs nxt) d)"

lemma run_invariant:
  assumes kept: "kept_by_render opera I" and "I g d" and "fx_run opera ts g d = (g', d', Ended)"
  shows "\<exists>g1 d1. I g1 d1 \<and> complete opera g1 d1 = (g', d', False)"
  using assms(2,3)
proof (induction ts arbitrary: g d)
  case (Cons t ts)
  obtain g1 d1 o1 where l: "fx_loop opera t g d = (g1, d1, o1)" by (metis prod_cases3)
  show ?case
  proof (cases "e_startOn (fx_data g) \<le> t \<and> e_finishOn (fx_data g) \<le> t")
    case True
    obtain g2 d2 th where k: "complete opera g d = (g2, d2, th)" by (metis prod_cases3)
    have "(g1, d1, o1) = (g2, d2, if th then Threw else Ended)" using l True k by (simp add: fx_loop_def Let_def)
    then show ?thesis using Cons.prems k by (cases th) (auto simp: l)
  next
    case False
    let ?pos = "(t - e_startOn (fx_data g)) / fx_totalTime (fx_data g)"
    obtain g2 d2 where r: "fx_render opera ?pos g d = (g2, d2)" by fastforce
    obtain f2 s2 n2 where g2: "g2 = Fx f2 s2 n2" by (cases g2)
    have "o1 = Stays \<and> (g1 = g \<and> d1 = d \<or> (\<exists>n. g1 = Fx (f2\<lparr>e_currentFrame := n\<rparr>) s2 n2 \<and> d1 = d2))"
      using l False unfolding fx_loop_def Let_def r by (auto simp: g2 split: if_splits)
    moreover have "I (Fx f2 s2 n2) d2" using kept Cons.prems(1) r g2 unfolding kept_by_render_def by blast
    ultimately have "o1 = Stays \<and> I g1 d1" using Cons.prems(1) kept unfolding kept_by_render_def by blast
    then show ?thesis using Cons.IH [of g1 d1] Cons.prems(2) by (simp add: l)
  qed
qed simp

text \<open>An effect without callbacks before its end.\<close>

definition early_events :: "string list" where
  "early_events = [''beforeSetup'', ''afterSetup'', ''beforeUpdate'', ''afterUpdate'', ''beforeFinish'']"

definition late_hooks :: "(string \<times> dom_action list) list \<Rightarrow> bool" where
  "late_hooks hs \<longleftrightarrow> (\<forall>n \<in> set early_events. map_of hs n = None \<and> map_of hs (n @ ''Internal'') = None)"

lemma late_event:
  "late_hooks (e_hooks f) \<Longrightarrow> n \<in> set early_events \<Longrightarrow> fx_event opera n (f, d) = (f\<lparr>e_log := e_log f @ [n]\<rparr>, d)"
  by (simp add: fx_event_def late_hooks_def do_hook_def)

text \<open>Rendering such an effect when it runs no others: the methods of its kind and nothing else.\<close>

lemma advance_late:
  assumes h: "late_hooks (e_hooks f)" and a: "fx_advance opera pos f d = (f', d', p)"
  shows "e_hooks f' = e_hooks f \<and>
    (if e_state f = Finished then e_kind f' = e_kind f \<and> e_state f' = Finished \<and> d' = d \<and> p = None
     else case (if e_state f = Idle then kind_setup opera (e_kind f) d else (e_kind f, d, False)) of (k1, d1, c) \<Rightarrow>
       if c then e_kind f' = k1 \<and> e_state f' = Finished \<and> d' = d1 \<and> p = None
       else p \<noteq> None \<and> (e_kind f', d') = kind_update k1 (the p) d1 \<and> e_state f' = Running)"
proof -
  have ev: "n \<in> set early_events" if "n \<in> {''beforeSetup'', ''afterSetup'', ''beforeUpdate''}" for n
    using that by (auto simp: early_events_def)
  obtain k1 d1 c where s: "kind_setup opera (e_kind f) d = (k1, d1, c)" by (metis prod_cases3)
  have su: "fx_setup opera (f, d) = (f\<lparr>e_kind := k1, e_state := (if c then Finished else Running),
      e_log := e_log f @ [''beforeSetup'', ''afterSetup'']\<rparr>, d1)"
    using h s by (simp add: fx_setup_def late_event ev Let_def)
  consider "e_state f = Finished" | "e_state f = Running" | "e_state f = Idle" by (cases "e_state f") auto
  then show ?thesis
  proof cases
    case 1
    then show ?thesis using a by (simp add: fx_advance_def)
  next
    case 2
    obtain k2 d2 where u: "kind_update (e_kind f) (fx_update_pos f pos) d = (k2, d2)" by fastforce
    show ?thesis using 2 a h by (auto simp: fx_advance_def late_event ev fx_own_update_def u Let_def)
  next
    case 3
    show ?thesis
    proof (cases c)
      case True
      then show ?thesis using 3 a by (auto simp: fx_advance_def su s)
    next
      case False
      let ?f = "f\<lparr>e_kind := k1, e_state := Running, e_log := e_log f @ [''beforeSetup'', ''afterSetup'']\<rparr>"
      obtain k2 d2 where u: "kind_update k1 (fx_update_pos ?f pos) d1 = (k2, d2)" by fastforce
      show ?thesis using 3 False a h by (auto simp: fx_advance_def su s late_event ev fx_own_update_def u Let_def)
    qed
  qed
qed

lemma render_late:
  assumes h: "late_hooks (e_hooks f)" and r: "fx_render opera pos (Fx f [] nxt) d = (g', d')"
  shows "\<exists>f'. g' = Fx f' [] nxt \<and> e_hooks f' = e_hooks f \<and>
    (if e_state f = Finished then e_kind f' = e_kind f \<and> e_state f' = Finished \<and> d' = d
     else case (if e_state f = Idle then kind_setup opera (e_kind f) d else (e_kind f, d, False)) of (k1, d1, c) \<Rightarrow>
       if c then e_kind f' = k1 \<and> e_state f' = Finished \<and> d' = d1
       else (\<exists>p. (e_kind f', d') = kind_update k1 p d1) \<and> e_state f' = Running)"
proof -
  obtain f1 d1 p where a: "fx_advance opera pos f d = (f1, d1, p)" by (metis prod_cases3)
  note al = advance_late [OF h a]
  show ?thesis
  proof (cases p)
    case None
    then have g': "g' = Fx f1 [] nxt" "d' = d1" using r by (simp_all add: a)
    show ?thesis by (rule exI [of _ f1]) (use al g' None in \<open>auto split: prod.splits if_splits\<close>)
  next
    case (Some q)
    have l: "late_hooks (e_hooks f1)" using al h by simp
    have "''afterUpdate'' \<in> set early_events" by (simp add: early_events_def)
    then have g': "g' = Fx (f1\<lparr>e_log := e_log f1 @ [''afterUpdate'']\<rparr>) [] nxt" "d' = d1"
      using r l by (simp_all add: a Some late_event)
    show ?thesis
      by (rule exI [of _ "f1\<lparr>e_log := e_log f1 @ [''afterUpdate'']\<rparr>"])
         (use al g' Some in \<open>auto split: prod.splits if_splits\<close>)
  qed
qed

lemma complete_late:
  assumes h: "late_hooks (e_hooks f)" and c: "complete opera (Fx f [] nxt) d = (g', d', False)"
  shows "\<exists>f1 d1 d2. fx_render opera 1 (Fx f [] nxt) d = (Fx f1 [] nxt, d1) \<and> e_hooks f1 = e_hooks f \<and>
    kind_finish (e_kind f1) d1 = Some d2 \<and>
    d' = do_hook opera f1 ''afterFinish'' (do_hook opera f1 ''afterFinishInternal'' d2)"
proof -
  obtain g1 d1 where r: "fx_render opera 1 (Fx f [] nxt) d = (g1, d1)" by fastforce
  obtain f1 where f1: "g1 = Fx f1 [] nxt" "e_hooks f1 = e_hooks f" using render_late [OF h r] by auto
  have ev: "''beforeFinish'' \<in> set early_events" by (simp add: early_events_def)
  let ?f = "f1\<lparr>e_state := Finished\<rparr>"
  have e: "fx_event opera ''beforeFinish'' (?f, d1) = (?f\<lparr>e_log := e_log ?f @ [''beforeFinish'']\<rparr>, d1)"
    by (rule late_event [OF _ ev]) (use h f1 in simp)
  have hook: "do_hook opera (f1\<lparr>e_state := st, e_log := l\<rparr>) n = do_hook opera f1 n" for st l n
    by (rule ext) (simp add: do_hook_def split: option.split)
  have ea: "fx_event opera ''afterFinish'' (f1\<lparr>e_state := st, e_log := l\<rparr>, x) =
      (f1\<lparr>e_state := st, e_log := l @ [''afterFinish'']\<rparr>,
       do_hook opera f1 ''afterFinish'' (do_hook opera f1 ''afterFinishInternal'' x))" for st l x
    by (simp add: fx_event_def hook)
  obtain d2 where d2: "kind_finish (e_kind f1) d1 = Some d2"
    "d' = do_hook opera f1 ''afterFinish'' (do_hook opera f1 ''afterFinishInternal'' d2)"
    using c by (subst (asm) complete.simps)
      (auto simp: r f1 fx_own_finish_def e ea simp del: fx_render.simps split: option.splits)
  then show ?thesis using r f1 by blast
qed

section \<open>Restoring the style\<close>

text \<open>
  An inline style as a page sets it: valid values, an opacity that \<open>setOpacity\<close> keeps, no inline
  \<open>auto\<close> where the methods would lose it, and no clipping under way.
\<close>

definition keeps_opacity :: "sval \<Rightarrow> bool" where
  "keeps_opacity v \<longleftrightarrow>
     (case v of SText t \<Rightarrow> True
      | SNum x u \<Rightarrow> x \<noteq> Fin 1 \<and> (js_less x (Fin (1 / 100000)) \<longrightarrow> SNum x u = SNum (Fin 0) []))"

definition proper :: "elem \<Rightarrow> bool" where
  "proper e \<longleftrightarrow> (\<forall>k. valid_value (inline e k) \<and> valid_value (sheet e k)) \<and> keeps_opacity (inline e ''opacity'') \<and>
     inline e ''overflow'' \<noteq> SText ''auto'' \<and> inline e ''position'' \<noteq> SText ''auto'' \<and> clip_overflow e = None"

lemma setOpacity_keeps:
  "valid_value v \<Longrightarrow> keeps_opacity v \<Longrightarrow> inline (setOpacity v e) ''opacity'' = v"
  by (auto simp: setOpacity_def assign_inline keeps_opacity_def split: sval.splits if_splits)

lemma hide_inline [simp]: "inline (hide e) k = (if k = ''display'' then SText ''none'' else inline e k)"
  by (simp add: hide_def assign_inline)

lemma hide_frame [simp]: "sheet (hide e) = sheet e" "clip_overflow (hide e) = clip_overflow e"
  by (simp_all add: hide_def)

text \<open>Clipping and unclipping: the effective value comes back.\<close>

lemma makeClipping_frame: "sheet (makeClipping e) = sheet e" "k \<noteq> ''overflow'' \<Longrightarrow> inline (makeClipping e) k = inline e k"
  by (auto simp: makeClipping_def Let_def assign_inline)

lemma undoClipping_frame: "sheet (undoClipping e) = sheet e" "k \<noteq> ''overflow'' \<Longrightarrow> inline (undoClipping e) k = inline e k"
  by (auto simp: undoClipping_def assign_inline split: option.split)

lemma getStyle_valid: "proper e \<Longrightarrow> valid_value (getStyle e k)"
  by (simp add: getStyle_def effective_def proper_def Let_def)

lemma getStyle_effective:
  "inline e k \<noteq> SText ''auto'' \<Longrightarrow> getStyle e k = (if effective e k = SText ''auto'' then unset else effective e k)"
  by (simp add: getStyle_def effective_def Let_def)

text \<open>Setting the value that \<open>getStyle\<close> has read gives the element its effective value back.\<close>

lemma effective_getStyle:
  assumes "proper e" "inline e k \<noteq> SText ''auto''" "inline u k = getStyle e k" "sheet u = sheet e"
  shows "effective u k = effective e k"
  using assms by (auto simp: getStyle_def effective_def Let_def split: if_splits)

lemma undoClipping_restores:
  assumes p: "proper e" and c: "clip_overflow u = clip_overflow (makeClipping e)" "sheet u = sheet e"
  shows "effective (undoClipping u) ''overflow'' = effective e ''overflow''"
proof -
  let ?v = "if getStyle e ''overflow'' = unset then SText ''auto'' else getStyle e ''overflow''"
  have clip: "clip_overflow u = Some ?v"
    using p c by (auto simp: makeClipping_def Let_def proper_def)
  have auto: "inline e ''overflow'' \<noteq> SText ''auto''" using p by (simp add: proper_def)
  have "getStyle e ''overflow'' \<noteq> SText ''auto''" by (simp add: getStyle_def Let_def)
  then have "inline (undoClipping u) ''overflow'' = getStyle e ''overflow''"
    using getStyle_valid [OF p] by (simp add: undoClipping_def clip assign_inline)
  then show ?thesis
    by (intro effective_getStyle [OF p auto]) (simp_all add: undoClipping_def clip c)
qed

text \<open>What an effect has to leave: the element hidden and shown as before otherwise, the others untouched.\<close>

definition hidden_as_before :: "nat \<Rightarrow> dom \<Rightarrow> dom \<Rightarrow> bool" where
  "hidden_as_before i d d' \<longleftrightarrow> (\<forall>j. j \<noteq> i \<longrightarrow> d' j = d j) \<and> inline (d' i) ''display'' = SText ''none'' \<and>
     (\<forall>k. k \<noteq> ''display'' \<longrightarrow> effective (d' i) k = effective (d i) k)"

lemma late_single: "map_of [(''afterFinishInternal'', as)] n = (if n = ''afterFinishInternal'' then Some as else None)"
  by simp

lemma late_single_hooks [simp]: "late_hooks [(''afterFinishInternal'', as)]"
  by (simp add: late_hooks_def early_events_def)

text \<open>\<open>Fade\<close>\<close>

lemma fade_restores:
  assumes p: "proper (d i)" and to: "fx_to (user (DefaultOptions\<lparr>fx_from := num_or (getOpacity (d i)) 1, fx_to := 0\<rparr>)) = 0"
    and run: "fx_run opera ts (shift_times time (fst (fx_start opera (Fade user i d) d))) d = (g', d', Ended)"
  shows "hidden_as_before i d d'"
proof -
  let ?h = "[(''afterFinishInternal'', [AHide i, AStyle i [(''opacity'', getInlineOpacity (d i))]])]"
  define I where "I g u \<longleftrightarrow> (\<exists>f. g = Fx f [] [] \<and> e_hooks f = ?h \<and> e_kind f = KOpacity i \<and> agree_dom i {''opacity''} d u)" for g u
  have start: "I (shift_times time (fst (fx_start opera (Fade user i d) d))) d"
    using to by (simp add: I_def Fade_def fx_new_def fx_start_def shift_times_def Let_def fx_event_def)
  have keep: "I g' u'" if I: "I g u" and r: "fx_render opera pos g u = (g', u')" for g u pos g' u'
  proof -
    obtain f where f: "g = Fx f [] []" "e_hooks f = ?h" "e_kind f = KOpacity i" "agree_dom i {''opacity''} d u"
      using I by (auto simp: I_def)
    have h: "late_hooks (e_hooks f)" using f by simp
    obtain f' where f': "g' = Fx f' [] []" "e_hooks f' = ?h" "e_kind f' = KOpacity i"
      "u' = u \<or> (\<exists>p. u' = on_elem i (setOpacity (SNum (Fin p) [])) u)"
      using render_late [OF h r [unfolded f(1)]] f
      by (auto simp: kind_setup_def kind_update_def split: if_splits)
    have "agree_dom i {''opacity''} u u'"
      using f'(4) by (auto intro!: agree_on_elem agree_setOpacity)
    then show ?thesis using f f' agree_dom_trans by (auto simp: I_def)
  qed
  have frame: "I (Fx (f\<lparr>e_currentFrame := n\<rparr>) subs nxt) u" if "I (Fx f subs nxt) u" for f subs nxt u n
    using that by (simp add: I_def)
  have "kept_by_render opera I" unfolding kept_by_render_def using keep frame by blast
  from run_invariant [OF this start run]
  obtain g1 d1 where g1: "I g1 d1" and c: "complete opera g1 d1 = (g', d', False)" by blast
  obtain f where f: "g1 = Fx f [] []" "e_hooks f = ?h" using g1 by (auto simp: I_def)
  have h: "late_hooks (e_hooks f)" using f by simp
  obtain f1 d2 d3 where fin: "fx_render opera 1 (Fx f [] []) d1 = (Fx f1 [] [], d2)" "e_hooks f1 = ?h"
    "kind_finish (e_kind f1) d2 = Some d3"
    "d' = do_hook opera f1 ''afterFinish'' (do_hook opera f1 ''afterFinishInternal'' d3)"
    using complete_late [OF h c [unfolded f(1)]] f(2) by auto
  have "I (Fx f1 [] []) d2" using keep g1 f(1) fin(1) by simp
  then have a: "agree_dom i {''opacity''} d d2" "e_kind f1 = KOpacity i" by (auto simp: I_def)
  then have d3: "d3 = d2" using fin(3) by (simp add: kind_finish_def)
  have d': "d' = on_elem i (\<lambda>e. setOpacity (getInlineOpacity (d i)) (hide e)) d2"
    using fin(2,4) d3 by (simp add: do_hook_def do_action_def on_elem_def)
  moreover have "valid_value (inline (d i) ''opacity'')" "keeps_opacity (inline (d i) ''opacity'')"
    using p by (auto simp: proper_def)
  ultimately have "inline (d' i) k = (if k = ''display'' then SText ''none'' else inline (d i) k)" for k
    using a(1) setOpacity_keeps [of "inline (d i) ''opacity''" "hide (d2 i)"]
    by (cases "k = ''opacity''") (auto simp: agree_dom_def agree_def on_elem_def getInlineOpacity_def)
  moreover have "sheet (d' i) = sheet (d i)" "\<forall>j. j \<noteq> i \<longrightarrow> d' j = d j"
    using d' a(1) by (auto simp: agree_dom_def agree_def on_elem_def)
  ultimately show ?thesis by (simp add: hidden_as_before_def effective_def)
qed

text \<open>\<open>BlindUp\<close>\<close>

lemma setStyle_map:
  "distinct ks \<Longrightarrow> ''opacity'' \<notin> set ks \<Longrightarrow> \<forall>k \<in> set ks. valid_value (h k) \<Longrightarrow>
     inline (setStyle (map (\<lambda>k. (k, h k)) ks) e) k = (if k \<in> set ks then h k else inline e k)"
proof (induction ks arbitrary: e)
  case (Cons a ks)
  then show ?case by (auto simp: assign_inline)
qed simp

lemma scale_keys_box: "set scale_keys = box_keys" "distinct scale_keys" "''opacity'' \<notin> set scale_keys"
  by (auto simp: scale_keys_def box_keys_def)

text \<open>A scale that restores the style it found when it was set up on the page \<open>d\<close>.\<close>

definition scaling :: "nat \<Rightarrow> elem \<Rightarrow> fx_data \<Rightarrow> bool" where
  "scaling i e f \<longleftrightarrow> (\<exists>s. e_kind f = KScale i s \<and> sc_restore s \<and>
     (e_state f = Idle \<or> sc_original s = map (\<lambda>k. (k, inline e k)) scale_keys))"

lemma scale_setup_original:
  "sc_original (scale_setup s e) = map (\<lambda>k. (k, inline e k)) scale_keys" "sc_restore (scale_setup s e) = sc_restore s"
  by (simp_all add: scale_setup_def)

lemma scaling_render:
  assumes h: "late_hooks (e_hooks f)" and s: "scaling i e f" and u: "e_state f = Idle \<longrightarrow> (\<forall>k \<in> box_keys. inline (u i) k = inline e k)"
    and r: "fx_render opera pos (Fx f [] nxt) u = (g', u')"
  shows "\<exists>f'. g' = Fx f' [] nxt \<and> e_hooks f' = e_hooks f \<and> scaling i e f' \<and> e_state f' \<noteq> Idle \<and> agree_dom i box_keys u u'"
proof -
  obtain s0 where s0: "e_kind f = KScale i s0" "sc_restore s0"
    "e_state f = Idle \<or> sc_original s0 = map (\<lambda>k. (k, inline e k)) scale_keys"
    using s by (auto simp: scaling_def)
  have upd: "agree_dom i box_keys u (on_elem i (scale_update s1 p) u)" for s1 p
    by (intro agree_on_elem agree_scale_update) simp
  obtain f' where f': "g' = Fx f' [] nxt" "e_hooks f' = e_hooks f" and
    st: "if e_state f = Finished then e_kind f' = e_kind f \<and> e_state f' = Finished \<and> u' = u
     else case (if e_state f = Idle then kind_setup opera (e_kind f) u else (e_kind f, u, False)) of (k1, d1, c) \<Rightarrow>
       if c then e_kind f' = k1 \<and> e_state f' = Finished \<and> u' = d1
       else (\<exists>p. (e_kind f', u') = kind_update k1 p d1) \<and> e_state f' = Running"
    using render_late [OF h r] by blast
  have orig: "map (\<lambda>k. (k, inline (u i) k)) scale_keys = map (\<lambda>k. (k, inline e k)) scale_keys" if "e_state f = Idle"
    using u that scale_keys_box(1) by auto
  show ?thesis
    using st s0 f' upd orig
    by (cases "e_state f") (auto simp: scaling_def kind_setup_def kind_update_def scale_setup_original split: if_splits)
qed

lemma scaling_finish:
  assumes "scaling i e f" "e_state f \<noteq> Idle" "\<forall>k. valid_value (inline e k)" "kind_finish (e_kind f) u = Some u'"
  shows "\<forall>j. j \<noteq> i \<longrightarrow> u' j = u j" "inline (u' i) k = (if k \<in> box_keys then inline e k else inline (u i) k)"
    "sheet (u' i) = sheet (u i)" "clip_overflow (u' i) = clip_overflow (u i)"
proof -
  obtain s where s: "e_kind f = KScale i s" "sc_restore s" "sc_original s = map (\<lambda>k. (k, inline e k)) scale_keys"
    using assms(1,2) by (auto simp: scaling_def)
  have u': "u' = on_elem i (setStyle (map (\<lambda>k. (k, inline e k)) scale_keys)) u"
    using assms(4) s by (auto simp: kind_finish_def scale_finish_def on_elem_def)
  show "\<forall>j. j \<noteq> i \<longrightarrow> u' j = u j" by (simp add: u' on_elem_def)
  show "inline (u' i) k = (if k \<in> box_keys then inline e k else inline (u i) k)"
    using setStyle_map [OF scale_keys_box(2,3), of "inline e" "u i" k] assms(3) scale_keys_box(1)
    by (simp add: u' on_elem_def)
  show "sheet (u' i) = sheet (u i)" "clip_overflow (u' i) = clip_overflow (u i)"
    using setStyle_frame [of "map (\<lambda>k. (k, inline e k)) scale_keys" "u i"] by (simp_all add: u' on_elem_def)
qed

lemma blind_up_restores:
  assumes p: "proper (d i)" and b: "BlindUp user i d = (g, d0)"
    and run: "fx_run opera ts (shift_times time (fst (fx_start opera g d0))) d0 = (g', d', Ended)"
  shows "hidden_as_before i d d'"
proof -
  let ?h = "[(''afterFinishInternal'', [AHide i, AUnclip i])]"
  have d0: "d0 = on_elem i makeClipping d" and g: "g = new_scale user i (blind_scale 0) ?h []"
    using b by (simp_all add: BlindUp_def)
  define I where "I g u \<longleftrightarrow> (\<exists>f. g = Fx f [] [] \<and> e_hooks f = ?h \<and> scaling i (d0 i) f \<and>
    (e_state f = Idle \<longrightarrow> u = d0) \<and> agree_dom i box_keys d0 u)" for g u
  have start: "I (shift_times time (fst (fx_start opera g d0))) d0"
    by (simp add: I_def g new_scale_def fx_new_def fx_start_def shift_times_def Let_def fx_event_def scaling_def
        blind_scale_def default_scale_def)
  have keep: "I g' u'" if I: "I g u" and r: "fx_render opera pos g u = (g', u')" for g u pos g' u'
  proof -
    obtain f where f: "g = Fx f [] []" "e_hooks f = ?h" "scaling i (d0 i) f" "e_state f = Idle \<longrightarrow> u = d0"
      "agree_dom i box_keys d0 u" using I by (auto simp: I_def)
    have h: "late_hooks (e_hooks f)" and q: "e_state f = Idle \<longrightarrow> (\<forall>k \<in> box_keys. inline (u i) k = inline (d0 i) k)"
      using f by auto
    from scaling_render [OF h f(3) q r [unfolded f(1)]] f(2,5) show ?thesis
      by (auto simp: I_def intro: agree_dom_trans)
  qed
  have frame: "I (Fx (f\<lparr>e_currentFrame := n\<rparr>) subs nxt) u" if "I (Fx f subs nxt) u" for f subs nxt u n
    using that by (simp add: I_def scaling_def)
  have "kept_by_render opera I" unfolding kept_by_render_def using keep frame by blast
  from run_invariant [OF this start run]
  obtain g1 d1 where g1: "I g1 d1" and c: "complete opera g1 d1 = (g', d', False)" by blast
  obtain f where f: "g1 = Fx f [] []" "e_hooks f = ?h" using g1 by (auto simp: I_def)
  have h: "late_hooks (e_hooks f)" using f by simp
  obtain f1 d2 d3 where fin: "fx_render opera 1 (Fx f [] []) d1 = (Fx f1 [] [], d2)" "e_hooks f1 = ?h"
    "kind_finish (e_kind f1) d2 = Some d3"
    "d' = do_hook opera f1 ''afterFinish'' (do_hook opera f1 ''afterFinishInternal'' d3)"
    using complete_late [OF h c [unfolded f(1)]] f(2) by auto
  have i2: "I (Fx f1 [] []) d2" using keep g1 f(1) fin(1) by simp
  have run1: "e_state f1 \<noteq> Idle" using render_frame [OF fin(1)] by simp
  have a: "scaling i (d0 i) f1" "agree_dom i box_keys d0 d2" using i2 by (auto simp: I_def)
  have v: "\<forall>k. valid_value (inline (d0 i) k)"
    using p by (auto simp: d0 on_elem_def proper_def makeClipping_def assign_inline Let_def)
  note sf = scaling_finish [OF a(1) run1 v fin(3)]
  have in3: "inline (d3 i) k = inline (d0 i) k" for k using sf(2) a(2) by (simp add: agree_dom_def agree_def)
  have fr3: "sheet (d3 i) = sheet (d i)" "clip_overflow (d3 i) = clip_overflow (makeClipping (d i))"
    using sf(3,4) a(2) makeClipping_frame(1) [of "d i"] by (simp_all add: agree_dom_def agree_def d0 on_elem_def)
  have d': "d' = on_elem i (\<lambda>e. undoClipping (hide e)) d3"
    using fin(2,4) by (simp add: do_hook_def do_action_def on_elem_def)
  have inl: "inline (d' i) k = (if k = ''display'' then SText ''none'' else inline (d i) k)" if "k \<noteq> ''overflow''" for k
    using that in3 makeClipping_frame(2) [OF that, of "d i"] by (simp add: d' on_elem_def undoClipping_frame d0)
  have sh: "sheet (d' i) = sheet (d i)" using fr3 by (simp add: d' on_elem_def undoClipping_frame)
  have "effective (d' i) ''overflow'' = effective (d i) ''overflow''"
    using undoClipping_restores [OF p, of "hide (d3 i)"] fr3 by (simp add: d' on_elem_def)
  then have "effective (d' i) k = effective (d i) k" if "k \<noteq> ''display''" for k
    using that inl sh by (cases "k = ''overflow''") (auto simp: effective_def)
  moreover have "\<forall>j. j \<noteq> i \<longrightarrow> d' j = d j" using sf(1) a(2) by (simp add: d' on_elem_def agree_dom_def d0)
  ultimately show ?thesis using inl [of "''display''"] by (simp add: hidden_as_before_def)
qed

text \<open>
  C20. Toggling a visible element away with the pair \<open>appear\<close> or \<open>blind\<close>: when the effect has
  run to its end, however its ticks fell, the element is hidden, every other property of its style
  has the value in effect that it had before the call, and no other element has changed.
\<close>

theorem toggle_hides_and_restores:
  assumes "proper (d i)" and "visible (d i)" and "\<forall>op. fx_to (user op) = fx_to op"
    and "to_lower_case effect \<in> {''appear'', ''blind''}"
    and "effect_toggle opera element_id user effect i j d = Some (g, d0)"
    and "fx_run opera ts (shift_times time (fst (fx_start opera g d0))) d0 = (g', d', Ended)"
  shows "(\<forall>j. j \<noteq> i \<longrightarrow> d' j = d j) \<and> inline (d' i) ''display'' = SText ''none'' \<and>
    (\<forall>k. k \<noteq> ''display'' \<longrightarrow> effective (d' i) k = effective (d i) k)"
proof -
  let ?u = "toggle_user element_id user"
  have ne: "effect \<noteq> []" using assms(4) by (auto simp: to_lower_case_def)
  have "hidden_as_before i d d'"
  proof (cases "to_lower_case effect = ''appear''")
    case True
    then have g: "g = Fade ?u i d" "d0 = d" using assms(2,5) ne by (auto simp: effect_toggle_def effect_pairs_def)
    have "fx_to (?u op) = fx_to op" for op using assms(3) by (simp add: toggle_user_def)
    then show ?thesis using fade_restores [where d = d and i = i and user = ?u] assms(1,6) g by simp
  next
    case False
    then have "to_lower_case effect = ''blind''" using assms(4) by simp
    then have "BlindUp ?u i d = (g, d0)" using assms(2,5) ne by (auto simp: effect_toggle_def effect_pairs_def)
    then show ?thesis using blind_up_restores [where d = d and i = i and user = ?u] assms(1,6) by blast
  qed
  then show ?thesis by (simp add: hidden_as_before_def)
qed

definition sample_elem :: elem where
  "sample_elem = \<lparr>inline = (\<lambda>k. if k = ''height'' then px 30 else unset),
     sheet = (\<lambda>k. if k = ''overflow'' then SText ''visible'' else if k = ''display'' then SText ''block'' else unset),
     madePositioned = False, clip_overflow = None, abs_left = Fin 0, abs_top = Fin 0, abs_width = unset, abs_height = unset,
     offsetTop = 0, offsetLeft = 0, offsetWidth = 100, offsetHeight = 40, clientWidth = 100, clientHeight = 40,
     scrollWidth = 100, scrollHeight = 40\<rparr>"

lemma sample_proper: "proper sample_elem" "visible sample_elem"
  by (simp_all add: proper_def sample_elem_def keeps_opacity_def visible_def)

theorem toggle_hides_and_restores_witness:
  "\<exists>g d0 g' d'. effect_toggle False ''box'' (\<lambda>op. op\<lparr>fx_transition := linear\<rparr>) ''blind'' 3 4 (\<lambda>_. sample_elem) = Some (g, d0) \<and>
     fx_run False [1000, 1500, 2200] (shift_times 1000 (fst (fx_start False g d0))) d0 = (g', d', Ended) \<and>
     inline (d' 3) ''display'' = SText ''none'' \<and> effective (d' 3) ''height'' = px 30 \<and>
     effective (d' 3) ''overflow'' = SText ''visible''"
proof -
  let ?user = "\<lambda>op :: fx_options. op\<lparr>fx_transition := linear\<rparr>"
  let ?d = "\<lambda>_ :: nat. sample_elem"
  let ?h = "[(''afterFinishInternal'', [AHide 3, AUnclip 3])]"
  let ?g = "new_scale (toggle_user ''box'' ?user) 3 (blind_scale 0) ?h []"
  let ?clipped = "on_elem 3 makeClipping ?d"
  have low: "to_lower_case ''blind'' = ''blind''" by code_simp
  have t: "effect_toggle False ''box'' ?user ''blind'' 3 4 ?d = Some (?g, ?clipped)"
    by (simp add: effect_toggle_def effect_pairs_def low sample_proper BlindUp_def)
  obtain g' d' out where r: "fx_run False [1000, 1500, 2200] (shift_times 1000 (fst (fx_start False ?g ?clipped))) ?clipped = (g', d', out)"
    by (metis prod_cases3)
  have "out = Ended"
    using run_under_way [OF _ _ _ _ r] start_under_way [of ?g "shift_times 1000 (fst (fx_start False ?g ?clipped))" 1000 False ?clipped]
    by (simp add: new_scale_def fx_new_def calm_kind_def toggle_user_def DefaultOptions_def unit_transition_def linear_def)
  then show ?thesis
    using toggle_hides_and_restores [of ?d 3 ?user "''blind''" False "''box''" 4 ?g ?clipped "[1000, 1500, 2200]" 1000 g' d']
      sample_proper t r low by (auto simp: effective_def sample_elem_def)
qed

section \<open>Colours and other facts\<close>

text \<open>A short colour is the long one with its digits doubled, and a long one is kept.\<close>

lemma parseColor_short:
  "parseColor [] [CHR ''#'', a, b, c] = ''#'' @ to_lower_case [a, a, b, b, c, c]"
  by (simp add: parseColor_def Let_def to_lower_case_def)

lemma late_none [simp]: "late_hooks []"
  by (simp add: late_hooks_def)

text \<open>
  A highlight of an element that is not shown cancels itself when it is first rendered; when that
  is only at its end, \<open>finish\<close> throws because there is no former style.
\<close>

theorem hidden_highlight_throws:
  assumes "getStyle (d i) ''display'' = SText ''none''"
    and "g = shift_times time (fst (fx_start opera (new_highlight user i color) d))"
    and "0 \<le> fx_duration (user DefaultOptions)"
    and "time + (fx_delay (user DefaultOptions) + fx_duration (user DefaultOptions)) * 1000 \<le> t"
  shows "\<exists>g'. fx_loop opera t g d = (g', d, Threw)"
proof -
  obtain f where f: "g = Fx f [] []" "e_hooks f = []" "e_state f = Idle" "\<exists>h. e_kind f = KHighlight i h \<and> hl_old h = None"
    "e_startOn f \<le> t" "e_finishOn f \<le> t"
    using assms(2-4) by (simp add: new_highlight_def fx_new_def fx_start_def shift_times_def fx_event_def Let_def algebra_simps)
  obtain h where h: "e_kind f = KHighlight i h" "hl_old h = None" using f by blast
  have k: "kind_setup opera (e_kind f) d = (e_kind f, d, True)"
    using assms(1) h by (simp add: kind_setup_def highlight_setup_def)
  obtain g1 d1 where r: "fx_render opera 1 (Fx f [] []) d = (g1, d1)" by fastforce
  have "late_hooks (e_hooks f)" using f(2) by simp
  from render_late [OF this r] obtain f1 where f1: "g1 = Fx f1 [] []" "e_hooks f1 = []" "e_kind f1 = e_kind f" "d1 = d"
    using f(2,3) k by auto
  have "fx_event opera n (f2, u) = (f2\<lparr>e_log := e_log f2 @ [n]\<rparr>, u)" if "e_hooks f2 = []" for n f2 u
    using that by (simp add: fx_event_def do_hook_def)
  then have "\<exists>f2. fx_own_finish opera f1 d = (f2, d, True)"
    using f1 h by (simp add: fx_own_finish_def kind_finish_def highlight_finish_def)
  then obtain f2 where o: "fx_own_finish opera f1 d = (f2, d, True)" by blast
  have "complete opera g d = (Fx f2 [] [], d, True)"
    by (subst complete.simps) (simp add: f(1) r f1 o del: fx_render.simps)
  then show ?thesis using f by (simp add: fx_loop_def)
qed

theorem hidden_highlight_throws_witness:
  "\<exists>g'. fx_loop False 3000 (shift_times 1000 (fst (fx_start False (new_highlight (\<lambda>op. op) 0 ''#ffff99'') (\<lambda>_. hide sample_elem))))
     (\<lambda>_. hide sample_elem) = (g', \<lambda>_. hide sample_elem, Threw)"
  by (rule hidden_highlight_throws [OF _ refl]) (simp_all add: getStyle_def effective_def DefaultOptions_def)

end
