(* ===== verification/EffectMorph.thy ===== *)
theory EffectMorph
  imports EffectKinds
begin

text \<open>
  \<open>Effect.Morph\<close> and \<open>Effect.Transform\<close> of \<open>effects.js\<close>: the transforms that \<open>setup\<close> makes of a style,
  \<open>update\<close>, which sets the values on the way, the styles that are given as a text or as a class name, and
  the tracks of a \<open>Transform\<close>.  Values are those of \<open>ElementStyle\<close>: a text that does not begin with a number, or a
  number with its unit.  A call that throws is \<open>None\<close>.
\<close>

section \<open>Transforms\<close>

text \<open>The original and the target value of a property: parts of colours, or numbers with a unit.\<close>

datatype way = ColorWay "int option list" "int option list" | NumberWay js_num js_num string

record transform =
  tr_style :: string
  tr_way :: way

text \<open>\<open>parseColor\<close> of \<open>setup\<close>.\<close>

definition shown_color :: "string \<Rightarrow> string" where
  "shown_color color =
     parseColor [] (if color \<in> {[], ''rgba(0, 0, 0, 0)'', ''transparent''} then ''#ffffff'' else color)"

definition morph_color :: "string \<Rightarrow> int option list" where
  "morph_color color = color_base (shown_color color)"

text \<open>
  \<open>/^(([\+\-]?[0-9\.]+)(em|ex|px|in|cm|mm|pt|pc|\%))|0$/\<close>: the second choice is bound to the end only,
  so that every value that ends with a zero is a length.
\<close>

definition css_units :: "string list" where
  "css_units = [''em'', ''ex'', ''px'', ''in'', ''cm'', ''mm'', ''pt'', ''pc'', ''%'']"

definition ends_with_zero :: "string \<Rightarrow> bool" where
  "ends_with_zero t \<longleftrightarrow> t \<noteq> [] \<and> last t = CHR ''0''"

definition number_ends_with_zero :: "js_num \<Rightarrow> bool" where
  "number_ends_with_zero n = (case n of Fin x \<Rightarrow> of_int \<lfloor>x / 10\<rfloor> = x / 10 | _ \<Rightarrow> False)"

definition css_length :: "sval \<Rightarrow> bool" where
  "css_length v =
     (case v of
        SText t \<Rightarrow> ends_with_zero t
      | SNum n u \<Rightarrow>
          list_ex (\<lambda>w. take (length w) u = w) css_units \<or> ends_with_zero u \<or> u = [] \<and> number_ends_with_zero n)"

text \<open>
  The target and the unit of a value that is no colour; \<open>None\<close> when the pattern for a number finds nothing.
  A text that is no number is \<open>NaN\<close> where it is computed with, the empty text is zero.
\<close>

definition number_target :: "string \<Rightarrow> sval \<Rightarrow> (js_num \<times> string) option" where
  "number_target property v =
     (if property = ''opacity'' then Some (parseFloat v, [])
      else if css_length v then (case v of SNum n u \<Rightarrow> Some (n, u) | SText _ \<Rightarrow> None)
      else Some (case v of
                   SNum n u \<Rightarrow> if u = [] then n else NaN
                 | SText t \<Rightarrow> if t = [] then Fin 0 else NaN, []))"

definition is_color :: "sval \<Rightarrow> bool" where
  "is_color v = (case v of SText t \<Rightarrow> parseColor ''#zzzzzz'' t \<noteq> ''#zzzzzz'' | SNum _ _ \<Rightarrow> False)"

text \<open>\<open>getStyle\<close> of the property; that of the opacity is a number.\<close>

definition morph_original :: "elem \<Rightarrow> string \<Rightarrow> sval" where
  "morph_original e k = (if k = ''opacity'' then SNum (getOpacity e) [] else getStyle e k)"

definition transform_of :: "elem \<Rightarrow> string \<times> sval \<Rightarrow> transform option" where
  "transform_of e pair =
     (let (property, v) = pair; original = morph_original e (camelize property)
      in if is_color v
         then Some \<lparr>tr_style = camelize property,
                tr_way = ColorWay (morph_color (sval_text original)) (morph_color (parseColor [] (sval_text v)))\<rparr>
         else map_option (\<lambda>(target, unit).
                \<lparr>tr_style = camelize property, tr_way = NumberWay (parseFloat_or_zero original) target unit\<rparr>)
              (number_target property v))"

definition rejected :: "transform \<Rightarrow> bool" where
  "rejected t =
     (case tr_way t of
        ColorWay _ _ \<Rightarrow> False
      | NumberWay original target _ \<Rightarrow> js_eq original target \<or> original = NaN \<or> target = NaN)"

fun all_transforms :: "elem \<Rightarrow> styles \<Rightarrow> transform list option" where
  "all_transforms e [] = Some []"
| "all_transforms e (pair # style) =
     (case transform_of e pair of
        None \<Rightarrow> None
      | Some t \<Rightarrow> map_option (\<lambda>ts. t # ts) (all_transforms e style))"

definition morph_setup :: "elem \<Rightarrow> styles \<Rightarrow> transform list option" where
  "morph_setup e style = map_option (filter (\<lambda>t. \<not> rejected t)) (all_transforms e style)"

section \<open>Updates\<close>

definition way_value :: "way \<Rightarrow> real \<Rightarrow> sval" where
  "way_value w position =
     (case w of
        ColorWay original target \<Rightarrow> SText (mix_color original target position)
      | NumberWay original target unit \<Rightarrow>
          SNum (js_toFixed 3 (js_add original (js_mul (js_sub target original) (Fin position)))) unit)"

text \<open>The loop goes from the last transform to the first.\<close>

definition morph_update :: "transform list \<Rightarrow> real \<Rightarrow> elem \<Rightarrow> elem" where
  "morph_update ts position e =
     setStyle (object_extend [] (map (\<lambda>t. (tr_style t, way_value (tr_way t) position)) (rev ts))) e"

section \<open>The style of a morph\<close>

definition css_properties :: "string list" where
  "css_properties =
    [''backgroundColor'', ''backgroundPosition'', ''borderBottomColor'', ''borderBottomStyle'',
     ''borderBottomWidth'', ''borderLeftColor'', ''borderLeftStyle'', ''borderLeftWidth'',
     ''borderRightColor'', ''borderRightStyle'', ''borderRightWidth'', ''borderSpacing'',
     ''borderTopColor'', ''borderTopStyle'', ''borderTopWidth'', ''bottom'', ''clip'', ''color'',
     ''fontSize'', ''fontWeight'', ''height'', ''left'', ''letterSpacing'', ''lineHeight'',
     ''marginBottom'', ''marginLeft'', ''marginRight'', ''marginTop'', ''markerOffset'', ''maxHeight'',
     ''maxWidth'', ''minHeight'', ''minWidth'', ''opacity'', ''outlineColor'', ''outlineOffset'',
     ''outlineWidth'', ''paddingBottom'', ''paddingLeft'', ''paddingRight'', ''paddingTop'',
     ''right'', ''textIndent'', ''top'', ''width'', ''wordSpacing'', ''zIndex'']"

text \<open>\<open>parseStyle\<close>; the browser gives the values that a text of declarations sets.\<close>

definition parseStyle :: "(string \<Rightarrow> sval) \<Rightarrow> styles" where
  "parseStyle declared = map (\<lambda>k. (k, declared k)) (filter (\<lambda>k. declared k \<noteq> unset) css_properties)"

definition getStyles :: "(string \<Rightarrow> sval) \<Rightarrow> styles" where
  "getStyles computed = map (\<lambda>k. (k, computed k)) css_properties"

text \<open>
  A style is an object, a text of declarations or the name of a class; \<open>declared\<close> is what the browser
  reads from a text, \<open>computed\<close> the values of the element with a list of further classes.
\<close>

datatype morph_option = StyleObject styles | StyleText string

definition morph_style :: "(string \<Rightarrow> string \<Rightarrow> sval) \<Rightarrow> (string list \<Rightarrow> string \<Rightarrow> sval) \<Rightarrow> morph_option \<Rightarrow> styles" where
  "morph_style declared computed style =
     (case style of
        StyleObject s \<Rightarrow> s
      | StyleText t \<Rightarrow>
          if CHR '':'' \<in> set t then parseStyle (declared t)
          else filter (\<lambda>(k, v). v \<noteq> computed [] k) (getStyles (computed [t])))"

text \<open>After the end of a morph to a class the properties of the transforms are no longer set.\<close>

definition morph_class_finish :: "transform list \<Rightarrow> elem \<Rightarrow> elem" where
  "morph_class_finish ts e = foldl (\<lambda>e t. assign (tr_style t) unset e) e ts"

section \<open>Tracks\<close>

record track =
  track_ids :: string
  track_style :: morph_option

text \<open>The first property of each object is a track; an object is its first property and the rest.\<close>

definition addTracks :: "((string \<times> morph_option) \<times> (string \<times> morph_option) list) list \<Rightarrow> track list \<Rightarrow> track list" where
  "addTracks objects tracks =
     tracks @ map (\<lambda>((ids, data), _). \<lparr>track_ids = ids, track_style = data\<rparr>) objects"

text \<open>\<open>play\<close>: the elements with the styles of their morphs; \<open>by_id\<close> is \<open>$\<close>, \<open>by_selector\<close> is \<open>$$\<close>.\<close>

definition play_tracks :: "(string \<Rightarrow> nat option) \<Rightarrow> (string \<Rightarrow> nat list) \<Rightarrow> track list \<Rightarrow> (nat \<times> morph_option) list" where
  "play_tracks by_id by_selector tracks =
     concat (map (\<lambda>t.
       map (\<lambda>e. (e, track_style t)) (case by_id (track_ids t) of Some e \<Rightarrow> [e] | None \<Rightarrow> by_selector (track_ids t))) tracks)"

text \<open>\<open>visualEffect\<close>: the class of the name of an effect.\<close>

definition effect_class :: "string \<Rightarrow> string option" where
  "effect_class effect = map_option (\<lambda>s. upcase_first (camelize s)) (dasherize effect)"

section \<open>Where a morph ends\<close>

lemma setStyle_value:
  assumes "distinct (map fst ss)" "(k, v) \<in> set ss" "k \<noteq> ''opacity''" "valid_value v"
  shows "inline (setStyle ss e) k = v"
  using assms
proof (induction ss arbitrary: e)
  case (Cons a ss)
  obtain j w where a: "a = (j, w)" by (cases a)
  show ?case
  proof (cases "a = (k, v)")
    case True
    then have "k \<notin> fst ` set ss" using Cons.prems(1) by simp
    then show ?thesis using True Cons.prems(3,4) setStyle_frame [of ss] by (simp add: assign_inline)
  next
    case False
    then have "(k, v) \<in> set ss" "distinct (map fst ss)" using Cons.prems(1,2) by auto
    then show ?thesis using Cons.IH Cons.prems(3,4) by (simp add: a)
  qed
qed simp

lemma transform_name: "transform_of e pair = Some t \<Longrightarrow> tr_style t = camelize (fst pair)"
  by (auto simp: transform_of_def Let_def split: prod.splits if_splits)

lemma transform_names: "all_transforms e style = Some ts \<Longrightarrow> map tr_style ts = map (camelize \<circ> fst) style"
  by (induction style arbitrary: ts) (auto simp: transform_name split: option.splits)

lemma transform_mem:
  "all_transforms e style = Some ts \<Longrightarrow> pair \<in> set style \<Longrightarrow> \<exists>t. transform_of e pair = Some t \<and> t \<in> set ts"
  by (induction style arbitrary: ts) (auto split: option.splits)

text \<open>The values at a position: those of the transforms, and all other properties as they were.\<close>

lemma update_values:
  assumes st: "morph_setup e style = Some ts" and di: "distinct (map (camelize \<circ> fst) style)"
  shows "k \<notin> tr_style ` set ts \<Longrightarrow> inline (morph_update ts position d) k = inline d k"
    "t \<in> set ts \<Longrightarrow> tr_style t \<noteq> ''opacity'' \<Longrightarrow> valid_value (way_value (tr_way t) position) \<Longrightarrow>
      inline (morph_update ts position d) (tr_style t) = way_value (tr_way t) position"
proof -
  let ?ps = "map (\<lambda>t. (tr_style t, way_value (tr_way t) position)) (rev ts)"
  obtain us where us: "all_transforms e style = Some us" "ts = filter (\<lambda>t. \<not> rejected t) us"
    using st by (auto simp: morph_setup_def)
  have "distinct (map tr_style ts)" using transform_names [OF us(1)] di by (simp add: us(2) distinct_map_filter)
  then have dp: "distinct (map fst ?ps)" by (simp add: comp_def rev_map [symmetric])
  have u: "morph_update ts position d = setStyle ?ps d"
    using clone_distinct [of "[]" ?ps] dp by (simp add: morph_update_def)
  show "k \<notin> tr_style ` set ts \<Longrightarrow> inline (morph_update ts position d) k = inline d k"
    unfolding u using setStyle_frame [of ?ps d k] by force
  show "t \<in> set ts \<Longrightarrow> tr_style t \<noteq> ''opacity'' \<Longrightarrow> valid_value (way_value (tr_way t) position) \<Longrightarrow>
      inline (morph_update ts position d) (tr_style t) = way_value (tr_way t) position"
    unfolding u by (rule setStyle_value [OF dp]) auto
qed

text \<open>Colours that are written with six digits are read back.\<close>

definition lower_hex :: "char \<Rightarrow> bool" where
  "lower_hex c \<longleftrightarrow> is_hex c \<and> radix_digit (hex_digit_val c) = c"

definition hex_color :: "string \<Rightarrow> bool" where
  "hex_color c \<longleftrightarrow> length c = 7 \<and> hd c = CHR ''#'' \<and> list_all lower_hex (tl c)"

lemma hex_digit_less: "is_hex c \<Longrightarrow> hex_digit_val c < 16"
  by (auto simp: is_hex_def hex_digit_val_def is_digit_def digit_val_def is_lower_def)

lemma hex_not_ws: "is_hex c \<Longrightarrow> \<not> is_ws c"
  by (auto simp: is_hex_def is_digit_def is_ws_def)

lemma hex_pair:
  assumes "lower_hex a" "lower_hex b"
  shows "color_part (parse_hex [a, b]) = [a, b]" "parse_hex [a, b] \<noteq> None"
proof -
  let ?n = "16 * hex_digit_val a + hex_digit_val b"
  have h: "is_hex a" "is_hex b" "hex_digit_val a < 16" "hex_digit_val b < 16"
    using assms hex_digit_less by (simp_all add: lower_hex_def)
  have p: "parse_hex [a, b] = Some (int ?n)" using h hex_not_ws by (simp add: parse_hex_def ltrim_def)
  have "?n < 256" "?n div 16 = hex_digit_val a" "?n mod 16 = hex_digit_val b" using h by simp_all
  then show "color_part (parse_hex [a, b]) = [a, b]"
    using toPaddedString_byte [of ?n] assms unfolding p by (simp add: color_part_def toColorPart_def lower_hex_def)
  show "parse_hex [a, b] \<noteq> None" using p by simp
qed

lemma mix_part_end: "b \<noteq> None \<Longrightarrow> mix_part b t 1 = color_part t"
  by (auto simp: mix_part_def js_round_def color_part_def split: option.split)

lemma hex_color_parts:
  assumes "hex_color c"
  shows "\<exists>a1 b1 a2 b2 a3 b3. c = [CHR ''#'', a1, b1, a2, b2, a3, b3] \<and>
    color_base c = [parse_hex [a1, b1], parse_hex [a2, b2], parse_hex [a3, b3]] \<and>
    list_all lower_hex [a1, b1, a2, b2, a3, b3]"
proof -
  obtain h a1 b1 a2 b2 a3 b3 where c: "c = [h, a1, b1, a2, b2, a3, b3]"
    using assms by (auto simp: hex_color_def length_Suc_conv eval_nat_numeral)
  have "slice c 1 3 = [a1, b1]" "slice c 3 5 = [a2, b2]" "slice c 5 7 = [a3, b3]"
    using slice_nat [of c 1 3] slice_nat [of c 3 5] slice_nat [of c 5 7] by (simp_all add: c)
  moreover have "h = CHR ''#''" "list_all lower_hex [a1, b1, a2, b2, a3, b3]" using assms unfolding c hex_color_def by simp_all
  ultimately show ?thesis by (intro exI [of _ a1] exI [of _ b1] exI [of _ a2] exI [of _ b2] exI [of _ a3] exI [of _ b3])
    (simp add: c color_base_def)
qed

lemma color_base_known: "hex_color c \<Longrightarrow> None \<notin> set (color_base c) \<and> length (color_base c) = 3"
  using hex_color_parts [of c] hex_pair(2) by fastforce

lemma mix_color_end:
  assumes "hex_color c" "hex_color b"
  shows "mix_color (color_base b) (color_base c) 1 = c"
proof -
  obtain a1 b1 a2 b2 a3 b3 where c: "c = [CHR ''#'', a1, b1, a2, b2, a3, b3]"
      "color_base c = [parse_hex [a1, b1], parse_hex [a2, b2], parse_hex [a3, b3]]"
      "list_all lower_hex [a1, b1, a2, b2, a3, b3]"
    using hex_color_parts [OF assms(1)] by blast
  have "color_base b ! i \<noteq> None" if "i < 3" for i using color_base_known [OF assms(2)] that nth_mem by metis
  then have "mix_color (color_base b) (color_base c) 1 = ''#'' @ [a1, b1] @ [a2, b2] @ [a3, b3]"
    using c(3) unfolding c(2) by (simp add: mix_color_def mix_part_end hex_pair)
  then show ?thesis by (simp add: c(1))
qed

lemma lower_hex_lower: "lower_hex c \<Longrightarrow> lower_char c = c"
proof -
  assume c: "lower_hex c"
  define n where "n = (if hex_digit_val c < 10 then 48 + hex_digit_val c else 87 + hex_digit_val c)"
  have d: "hex_digit_val c < 16" and r: "radix_digit (hex_digit_val c) = c" using c hex_digit_less by (simp_all add: lower_hex_def)
  have n: "n < 256" "n < 58 \<or> 96 < n" using d by (simp_all add: n_def)
  have "c = char_of n" using r unfolding radix_digit_def n_def by (rule sym)
  then have "of_char c = n" using n(1) by simp
  then have "\<not> is_upper c" using n(2) by (simp add: is_upper_def) linarith
  then show ?thesis by (simp add: lower_char_def)
qed

lemma hex_color_fixed:
  assumes "hex_color c" shows "parseColor def c = c" "shown_color c = c"
proof -
  obtain a1 b1 a2 b2 a3 b3 where c: "c = [CHR ''#'', a1, b1, a2, b2, a3, b3]" "list_all lower_hex [a1, b1, a2, b2, a3, b3]"
    using hex_color_parts [OF assms] by blast
  have "lower_char (CHR ''#'') = CHR ''#''" by (simp add: lower_char_def is_upper_def)
  then show "parseColor def c = c" for def using c(2) by (simp add: c(1) parseColor_def to_lower_case_def lower_hex_lower)
  then show "shown_color c = c" by (simp add: shown_color_def) (simp add: c(1))
qed

lemma opacity_name: "camelize ''opacity'' = ''opacity''"
  by code_simp

lemma number_transform:
  assumes "camelize p \<noteq> ''opacity''" "u = [] \<or> u \<in> set css_units"
  shows "transform_of e (p, SNum (Fin x) u) =
    Some \<lparr>tr_style = camelize p, tr_way = NumberWay (parseFloat_or_zero (getStyle e (camelize p))) (Fin x) u\<rparr>"
proof -
  have "u \<in> set css_units \<Longrightarrow> css_length (SNum (Fin x) u)" by (simp add: css_length_def list_ex_iff) (metis take_all_iff order_refl)
  moreover have "p \<noteq> ''opacity''" using assms(1) opacity_name by auto
  ultimately show ?thesis using assms by (auto simp: transform_of_def number_target_def is_color_def morph_original_def)
qed

lemma color_transform:
  "camelize p \<noteq> ''opacity'' \<Longrightarrow> is_color (SText t) \<Longrightarrow> hex_color (parseColor [] t) \<Longrightarrow> transform_of e (p, SText t) =
    Some \<lparr>tr_style = camelize p, tr_way = ColorWay (color_base (shown_color (sval_text (getStyle e (camelize p))))) (color_base (parseColor [] t))\<rparr>"
  by (simp add: transform_of_def morph_color_def morph_original_def hex_color_fixed sval_text_def)

text \<open>Which transforms are kept.\<close>

lemma kept_transform:
  assumes st: "morph_setup e style = Some ts" and di: "distinct (map (camelize \<circ> fst) style)"
    and mem: "pair \<in> set style" and t: "transform_of e pair = Some t"
  shows "t \<in> set ts \<longleftrightarrow> \<not> rejected t" "tr_style t \<in> tr_style ` set ts \<longleftrightarrow> \<not> rejected t"
proof -
  obtain us where us: "all_transforms e style = Some us" "ts = filter (\<lambda>t. \<not> rejected t) us"
    using st by (auto simp: morph_setup_def)
  have tu: "t \<in> set us" using transform_mem [OF us(1) mem] t by simp
  have "inj_on tr_style (set us)" using transform_names [OF us(1)] di by (metis distinct_map)
  then show "t \<in> set ts \<longleftrightarrow> \<not> rejected t" "tr_style t \<in> tr_style ` set ts \<longleftrightarrow> \<not> rejected t"
    using tu by (auto simp: us(2) inj_on_def)
qed

text \<open>
  C38. At the end of a morph a property that is given as a number with a unit has this value, to three digits, unless the
  original has the same number; a property that is given as a colour has that colour; all others stay.
\<close>

theorem morph_reaches_style:
  assumes st: "morph_setup e style = Some ts" "distinct (map (camelize \<circ> fst) style)"
    and mem: "(p, v) \<in> set style" and op: "camelize p \<noteq> ''opacity''"
  shows "(\<forall>x u a. v = SNum (Fin x) u \<and> (u = [] \<or> u \<in> set css_units) \<and> parseFloat_or_zero (getStyle e (camelize p)) = Fin a \<longrightarrow>
      inline (morph_update ts 1 d) (camelize p) =
        (if a = x then inline d (camelize p) else SNum (Fin (round_half_away 3 x)) u)) \<and>
    (\<forall>t. v = SText t \<and> is_color v \<and> hex_color (parseColor [] t) \<and> hex_color (shown_color (sval_text (getStyle e (camelize p)))) \<longrightarrow>
      inline (morph_update ts 1 d) (camelize p) = SText (parseColor [] t)) \<and>
    (\<forall>k. k \<notin> camelize ` fst ` set style \<longrightarrow> inline (morph_update ts 1 d) k = inline d k)"
proof (intro conjI allI impI; (elim conjE)?)
  fix x u a
  assume v: "v = SNum (Fin x) u" "u = [] \<or> u \<in> set css_units" and a: "parseFloat_or_zero (getStyle e (camelize p)) = Fin a"
  have t: "transform_of e (p, v) = Some \<lparr>tr_style = camelize p, tr_way = NumberWay (Fin a) (Fin x) u\<rparr>"
    using number_transform [OF op v(2)] v(1) a by simp
  note k = kept_transform [OF st mem t]
  show "inline (morph_update ts 1 d) (camelize p) = (if a = x then inline d (camelize p) else SNum (Fin (round_half_away 3 x)) u)"
    using k update_values(1) [OF st, of "camelize p" 1 d] update_values(2) [OF st, of _ 1 d] op
    by (fastforce simp: rejected_def way_value_def js_toFixed_def)
next
  fix t
  assume v: "v = SText t" "is_color v" "hex_color (parseColor [] t)"
    and h: "hex_color (shown_color (sval_text (getStyle e (camelize p))))"
  let ?t = "\<lparr>tr_style = camelize p, tr_way = ColorWay (color_base (shown_color (sval_text (getStyle e (camelize p))))) (color_base (parseColor [] t))\<rparr>"
  have t: "transform_of e (p, v) = Some ?t" using color_transform [OF op] v by simp
  then have "?t \<in> set ts" using kept_transform(1) [OF st mem t] by (simp add: rejected_def)
  then show "inline (morph_update ts 1 d) (camelize p) = SText (parseColor [] t)"
    using update_values(2) [OF st, of ?t 1 d] op mix_color_end [OF v(3) h] by (simp add: way_value_def)
next
  fix k
  assume k: "k \<notin> camelize ` fst ` set style"
  obtain us where us: "all_transforms e style = Some us" "ts = filter (\<lambda>t. \<not> rejected t) us"
    using st by (auto simp: morph_setup_def)
  have "set (map tr_style us) = camelize ` fst ` set style" unfolding transform_names [OF us(1)] by auto
  then have "k \<notin> tr_style ` set ts" using k us(2) by auto
  then show "inline (morph_update ts 1 d) k = inline d k" by (rule update_values(1) [OF st])
qed

section \<open>Samples\<close>

definition morph_elem :: elem where
  "morph_elem = \<lparr>inline = (\<lambda>k. if k = ''width'' then px 20 else if k = ''fontSize'' then SNum (Fin 2) ''em''
      else if k = ''backgroundColor'' then SText ''rgb(255, 0, 16)'' else unset),
     sheet = (\<lambda>_. unset), madePositioned = False, clip_overflow = None, abs_left = Fin 0, abs_top = Fin 0,
     abs_width = unset, abs_height = unset, offsetTop = 0, offsetLeft = 0, offsetWidth = 20, offsetHeight = 10,
     clientWidth = 20, clientHeight = 10, scrollWidth = 20, scrollHeight = 10\<rparr>"

definition morph_sample :: styles where
  "morph_sample = [(''width'', px 120), (''background-color'', SText ''#0A0'')]"

lemma morph_sample_colors: "shown_color ''rgb(255, 0, 16)'' = ''#ff0010''" "parseColor [] ''#0A0'' = ''#00aa00''"
    "is_color (SText ''#0A0'')" "hex_color ''#ff0010''" "hex_color ''#00aa00''"
  by code_simp+

lemma morph_sample_names: "camelize ''width'' = ''width''" "camelize ''background-color'' = ''backgroundColor''"
  by code_simp+

theorem morph_reaches_style_witness:
  "\<exists>ts. morph_setup morph_elem morph_sample = Some ts \<and>
    inline (morph_update ts 1 morph_elem) ''width'' = SNum (Fin (round_half_away 3 120)) ''px'' \<and>
    inline (morph_update ts 1 morph_elem) ''backgroundColor'' = SText ''#00aa00''"
proof -
  have w: "transform_of morph_elem (''width'', px 120) \<noteq> None"
    using number_transform [of "''width''" "''px''"] by (simp add: css_units_def morph_sample_names)
  have b: "transform_of morph_elem (''background-color'', SText ''#0A0'') \<noteq> None"
    using color_transform [of "''background-color''" "''#0A0''"] morph_sample_colors by (simp add: morph_sample_names)
  obtain ts where ts: "morph_setup morph_elem morph_sample = Some ts"
    using w b by (auto simp: morph_setup_def morph_sample_def)
  have di: "distinct (map (camelize \<circ> fst) morph_sample)" by (simp add: morph_sample_def morph_sample_names)
  have g: "getStyle morph_elem ''width'' = px 20" "getStyle morph_elem ''backgroundColor'' = SText ''rgb(255, 0, 16)''"
    by (simp_all add: getStyle_def morph_elem_def Let_def)
  have "inline (morph_update ts 1 morph_elem) ''width'' = SNum (Fin (round_half_away 3 120)) ''px''"
    using morph_reaches_style [OF ts di, of "''width''" "px 120" morph_elem]
    by (simp add: morph_sample_def morph_sample_names g parseFloat_or_zero_def parseFloat_def css_units_def)
  moreover have "inline (morph_update ts 1 morph_elem) ''backgroundColor'' = SText ''#00aa00''"
    using morph_reaches_style [OF ts di, of "''background-color''" "SText ''#0A0''" morph_elem] morph_sample_colors
    by (simp add: morph_sample_def morph_sample_names g sval_text_def)
  ultimately show ?thesis using ts by blast
qed

text \<open>
  The unit of the original is not looked at: a morph from two ems to two pixels does nothing.  A value
  such as \<open>left 0\<close> passes for a length, and \<open>setup\<close> throws.
\<close>

lemma morph_ignores_unit: "morph_setup morph_elem [(''fontSize'', px 2)] = Some []"
proof -
  have "camelize ''fontSize'' = ''fontSize''" by code_simp
  then show ?thesis using number_transform [of "''fontSize''" "''px''" morph_elem 2]
    by (simp add: morph_setup_def css_units_def rejected_def parseFloat_or_zero_def parseFloat_def getStyle_def morph_elem_def)
qed

lemma morph_position_throws: "morph_setup morph_elem [(''backgroundPosition'', SText ''left 0'')] = None"
proof -
  have "\<not> is_color (SText ''left 0'')" by code_simp
  then show ?thesis by (simp add: morph_setup_def transform_of_def Let_def number_target_def css_length_def ends_with_zero_def)
qed

lemma effect_class_name: "effect_class ''blind_up'' = Some ''BlindUp''"
  by code_simp

end
