(* ===== verification/PageTree.thy ===== *)
theory PageTree
  imports ProtoArray JsNumber
begin

text \<open>
  The document as \<open>dragdrop.js\<close> uses it: elements with their parents and children, tags, ids,
  class names and boxes, the helpers \<open>Element.isParent\<close>, \<open>Element.findChildren\<close> and
  \<open>Element.offsetSize\<close>, and \<open>Position.within\<close> and \<open>Position.overlap\<close> of \<open>prototype.js\<close>.
\<close>

section \<open>The tree\<close>

text \<open>A box is left, top, width and height on the page.\<close>

record doc =
  par :: "nat \<Rightarrow> nat option"
  kids :: "nat \<Rightarrow> nat list"
  tag :: "nat \<Rightarrow> string"
  ident :: "nat \<Rightarrow> string"
  klass :: "nat \<Rightarrow> string list"
  box :: "nat \<Rightarrow> int \<times> int \<times> int \<times> int"
  treeNode :: "nat \<Rightarrow> nat option"

definition addClassName :: "nat \<Rightarrow> string \<Rightarrow> doc \<Rightarrow> doc" where
  "addClassName e c d = (if c \<in> set (klass d e) then d else d\<lparr>klass := (klass d)(e := klass d e @ [c])\<rparr>)"

definition removeClassName :: "nat \<Rightarrow> string \<Rightarrow> doc \<Rightarrow> doc" where
  "removeClassName e c d = d\<lparr>klass := (klass d)(e := remove1 c (klass d e))\<rparr>"

definition nextSibling :: "doc \<Rightarrow> nat \<Rightarrow> nat option" where
  "nextSibling d e =
     (case par d e of
        None \<Rightarrow> None
      | Some p \<Rightarrow> (case dropWhile (\<lambda>x. x \<noteq> e) (kids d p) of _ # y # _ \<Rightarrow> Some y | _ \<Rightarrow> None))"

definition previousSibling :: "doc \<Rightarrow> nat \<Rightarrow> nat option" where
  "previousSibling d e =
     (case par d e of
        None \<Rightarrow> None
      | Some p \<Rightarrow> (let before = takeWhile (\<lambda>x. x \<noteq> e) (kids d p) in if before = [] then None else Some (last before)))"

definition removeChild :: "nat \<Rightarrow> doc \<Rightarrow> doc" where
  "removeChild e d =
     (case par d e of
        None \<Rightarrow> d
      | Some p \<Rightarrow> d\<lparr>par := (par d)(e := None), kids := (kids d)(p := remove1 e (kids d p))\<rparr>)"

definition place_before :: "nat option \<Rightarrow> nat \<Rightarrow> nat list \<Rightarrow> nat list" where
  "place_before ref e xs =
     (case ref of
        None \<Rightarrow> xs @ [e]
      | Some r \<Rightarrow> takeWhile (\<lambda>x. x \<noteq> r) xs @ [e] @ dropWhile (\<lambda>x. x \<noteq> r) xs)"

text \<open>\<open>isParent\<close>: whether the element is above the child.\<close>

partial_function (option) isParent :: "doc \<Rightarrow> nat \<Rightarrow> nat \<Rightarrow> bool option" where
  "isParent d child element =
     (case par d child of
        None \<Rightarrow> Some False
      | Some p \<Rightarrow>
          if child = element then Some False
          else if p = element then Some True
          else isParent d p element)"

declare isParent.simps [code]

text \<open>
  \<open>insertBefore\<close> of the document: \<open>None\<close> when it refuses to put an element below itself or when
  the reference is no child.  An element that is put before itself stays where it is.
\<close>

definition settle_ref :: "doc \<Rightarrow> nat \<Rightarrow> nat option \<Rightarrow> nat option" where
  "settle_ref d e ref = (if ref = Some e then nextSibling d e else ref)"

definition insertBefore :: "nat \<Rightarrow> nat \<Rightarrow> nat option \<Rightarrow> doc \<Rightarrow> doc option" where
  "insertBefore p e ref d =
     (if p = e \<or> isParent d p e \<noteq> Some False \<or> (case ref of None \<Rightarrow> False | Some r \<Rightarrow> r \<notin> set (kids d p)) then None
      else
        let r = settle_ref d e ref; d' = removeChild e d
        in Some (d'\<lparr>par := (par d')(e := Some p), kids := (kids d')(p := place_before r e (kids d' p))\<rparr>))"

definition appendChild :: "nat \<Rightarrow> nat \<Rightarrow> doc \<Rightarrow> doc option" where
  "appendChild p e d = insertBefore p e None d"

section \<open>Finding children\<close>

text \<open>
  \<open>findChildren\<close>; the search below the children is bounded by \<open>n\<close> levels, of which a document
  has finitely many.  \<open>None\<close> is \<open>null\<close>, for an element without children.
\<close>

definition matches_child :: "doc \<Rightarrow> string list option \<Rightarrow> string \<Rightarrow> nat \<Rightarrow> bool" where
  "matches_child d only tagName e \<longleftrightarrow>
     to_upper_case (tag d e) = to_upper_case tagName \<and>
     (case only of None \<Rightarrow> True | Some cs \<Rightarrow> list_ex (\<lambda>v. v \<in> set cs) (klass d e))"

fun findChildren :: "nat \<Rightarrow> doc \<Rightarrow> nat \<Rightarrow> string list option \<Rightarrow> bool \<Rightarrow> string \<Rightarrow> nat list option" where
  "findChildren 0 d element only recursive tagName = None"
| "findChildren (Suc n) d element only recursive tagName =
     (if kids d element = [] then None
      else Some (concat (map (\<lambda>e.
        (if matches_child d only tagName e then [e] else []) @
        (if recursive then (case findChildren n d e only recursive tagName of None \<Rightarrow> [] | Some xs \<Rightarrow> xs) else []))
        (kids d element))))"

definition offsetSize :: "doc \<Rightarrow> nat \<Rightarrow> string \<Rightarrow> int" where
  "offsetSize d e type =
     (case box d e of (l, t, w, h) \<Rightarrow> if type = ''vertical'' \<or> type = ''height'' then h else w)"

section \<open>Position\<close>

definition pos_within :: "doc \<Rightarrow> nat \<Rightarrow> int \<times> int \<Rightarrow> bool" where
  "pos_within d e point =
     (case box d e of (l, t, w, h) \<Rightarrow>
        t \<le> snd point \<and> snd point < t + h \<and> l \<le> fst point \<and> fst point < l + w)"

text \<open>\<open>overlap\<close> of the point that \<open>within\<close> was asked about last.\<close>

definition pos_overlap :: "doc \<Rightarrow> string \<Rightarrow> nat \<Rightarrow> int \<times> int \<Rightarrow> real" where
  "pos_overlap d mode e point =
     (case box d e of (l, t, w, h) \<Rightarrow>
        if mode = ''vertical'' then real_of_int (t + h - snd point) / real_of_int h
        else if mode = ''horizontal'' then real_of_int (l + w - fst point) / real_of_int w
        else 0)"

section \<open>Well-formed documents\<close>

definition parent_rel :: "doc \<Rightarrow> (nat \<times> nat) set" where
  "parent_rel d = {(c, p). par d c = Some p}"

definition wf_doc :: "doc \<Rightarrow> bool" where
  "wf_doc d \<longleftrightarrow> (\<forall>c p. par d c = Some p \<longleftrightarrow> c \<in> set (kids d p)) \<and> (\<forall>p. distinct (kids d p)) \<and>
     finite (parent_rel d) \<and> acyclic (parent_rel d)"

lemma parent_wf: "wf_doc d \<Longrightarrow> wf ((parent_rel d)\<inverse>)"
  by (simp add: wf_doc_def finite_acyclic_wf_converse)

lemma par_rel: "par d c = Some p \<longleftrightarrow> (c, p) \<in> parent_rel d"
  by (simp add: parent_rel_def)

text \<open>\<open>isParent\<close> ends on every document and is the strict order of the tree.\<close>

lemma isParent_iff:
  assumes wd: "wf_doc d"
  shows "isParent d c e = Some ((c, e) \<in> (parent_rel d)\<^sup>+)"
proof (induction c rule: wf_induct_rule [OF parent_wf [OF wd]])
  case (1 c)
  have acyc: "acyclic (parent_rel d)" using wd by (simp add: wf_doc_def)
  show ?case
  proof (cases "par d c")
    case None
    then have "(c, e) \<notin> (parent_rel d)\<^sup>+" by (auto simp: parent_rel_def dest: tranclD)
    then show ?thesis using None by (subst isParent.simps) simp
  next
    case (Some p)
    have step: "(c, e) \<in> (parent_rel d)\<^sup>+ \<longleftrightarrow> p = e \<or> (p, e) \<in> (parent_rel d)\<^sup>+"
      using Some by (auto simp: parent_rel_def dest: tranclD intro: trancl_into_trancl2 elim: converse_tranclE)
    have "c = e \<Longrightarrow> (c, e) \<notin> (parent_rel d)\<^sup>+" using acyc by (auto simp: acyclic_def)
    moreover have "isParent d p e = Some ((p, e) \<in> (parent_rel d)\<^sup>+)"
      using 1 [of p] Some by (simp add: parent_rel_def)
    ultimately show ?thesis using Some step by (subst isParent.simps) auto
  qed
qed

lemma place_before_set [simp]: "set (place_before ref e xs) = insert e (set xs)"
proof (cases ref)
  case (Some r)
  have "set xs = set (takeWhile (\<lambda>x. x \<noteq> r) xs) \<union> set (dropWhile (\<lambda>x. x \<noteq> r) xs)"
    by (metis set_append takeWhile_dropWhile_id)
  then show ?thesis using Some by (auto simp: place_before_def)
qed (simp add: place_before_def)

lemma place_before_distinct: "distinct xs \<Longrightarrow> e \<notin> set xs \<Longrightarrow> distinct (place_before ref e xs)"
proof (cases ref)
  case (Some r)
  assume d: "distinct xs" and e: "e \<notin> set xs"
  obtain a b where ab: "takeWhile (\<lambda>x. x \<noteq> r) xs = a" "dropWhile (\<lambda>x. x \<noteq> r) xs = b" "xs = a @ b"
    by (metis takeWhile_dropWhile_id)
  have "place_before ref e xs = a @ e # b" using Some ab(1,2) by (simp add: place_before_def)
  then show ?thesis using d e ab(3) by auto
qed (simp add: place_before_def)

lemma removeChild_frame:
  assumes "wf_doc d"
  shows "par (removeChild e d) c = (if c = e then None else par d c)"
    "kids (removeChild e d) p = filter (\<lambda>x. x \<noteq> e) (kids d p)"
proof -
  show "par (removeChild e d) c = (if c = e then None else par d c)"
    by (auto simp: removeChild_def split: option.split)
  show "kids (removeChild e d) p = filter (\<lambda>x. x \<noteq> e) (kids d p)"
  proof (cases "par d e")
    case None
    then have "e \<notin> set (kids d p)" using assms by (metis option.distinct(1) wf_doc_def)
    then have "filter (\<lambda>x. x \<noteq> e) (kids d p) = kids d p" by (auto simp: filter_id_conv)
    then show ?thesis using None by (simp add: removeChild_def)
  next
    case (Some q)
    have "p \<noteq> q \<Longrightarrow> e \<notin> set (kids d p)" using Some assms by (metis option.inject wf_doc_def)
    then have "p \<noteq> q \<Longrightarrow> filter (\<lambda>x. x \<noteq> e) (kids d p) = kids d p" by (auto simp: filter_id_conv)
    moreover have "remove1 e (kids d q) = filter (\<lambda>x. x \<noteq> e) (kids d q)"
      using assms by (simp add: wf_doc_def distinct_remove1_removeAll removeAll_filter_not_eq)
        (metis (no_types) removeAll_filter_not_eq)
    ultimately show ?thesis using Some by (simp add: removeChild_def)
  qed
qed

lemma removeChild_wf:
  assumes "wf_doc d" shows "wf_doc (removeChild e d)"
proof -
  have sub: "parent_rel (removeChild e d) \<subseteq> parent_rel d"
    by (auto simp: parent_rel_def removeChild_frame [OF assms] split: if_splits)
  then have "finite (parent_rel (removeChild e d)) \<and> acyclic (parent_rel (removeChild e d))"
    using assms by (auto simp: wf_doc_def intro: finite_subset acyclic_subset)
  then show ?thesis using assms by (auto simp: wf_doc_def removeChild_frame [OF assms])
qed

lemma insertBefore_frame:
  assumes wd: "wf_doc d" and i: "insertBefore p e ref d = Some d'"
  shows "par d' = (par d)(e := Some p)"
    "kids d' q = (if q = p then place_before (settle_ref d e ref) e (filter (\<lambda>x. x \<noteq> e) (kids d p))
      else filter (\<lambda>x. x \<noteq> e) (kids d q))"
    "klass d' = klass d" "ident d' = ident d" "tag d' = tag d" "box d' = box d" "treeNode d' = treeNode d"
    "p \<noteq> e" "(p, e) \<notin> (parent_rel d)\<^sup>+" "\<forall>r. ref = Some r \<longrightarrow> r \<in> set (kids d p)"
proof -
  have pe: "p \<noteq> e" "isParent d p e = Some False"
    and d': "d' = (removeChild e d)\<lparr>par := (par (removeChild e d))(e := Some p),
      kids := (kids (removeChild e d))(p := place_before (settle_ref d e ref) e (kids (removeChild e d) p))\<rparr>"
    using i by (auto simp: insertBefore_def Let_def split: if_splits)
  show "p \<noteq> e" "(p, e) \<notin> (parent_rel d)\<^sup>+" using pe isParent_iff [OF wd, of p e] by simp_all
  show "\<forall>r. ref = Some r \<longrightarrow> r \<in> set (kids d p)" using i by (auto simp: insertBefore_def split: if_splits)
  show "par d' = (par d)(e := Some p)" by (rule ext) (simp add: d' removeChild_frame [OF wd])
  show "kids d' q = (if q = p then place_before (settle_ref d e ref) e (filter (\<lambda>x. x \<noteq> e) (kids d p))
      else filter (\<lambda>x. x \<noteq> e) (kids d q))"
    by (simp add: d' removeChild_frame [OF wd])
  show "klass d' = klass d" "ident d' = ident d" "tag d' = tag d" "box d' = box d" "treeNode d' = treeNode d"
    by (simp_all add: d' removeChild_def split: option.split)
qed

text \<open>The other elements keep their order.\<close>

lemma place_before_others: "filter (\<lambda>x. x \<noteq> e) (place_before ref e xs) = filter (\<lambda>x. x \<noteq> e) xs"
proof (cases ref)
  case (Some r)
  have "filter (\<lambda>x. x \<noteq> e) xs = filter (\<lambda>x. x \<noteq> e) (takeWhile (\<lambda>x. x \<noteq> r) xs) @ filter (\<lambda>x. x \<noteq> e) (dropWhile (\<lambda>x. x \<noteq> r) xs)"
    by (metis filter_append takeWhile_dropWhile_id)
  then show ?thesis using Some by (simp add: place_before_def)
qed (simp add: place_before_def)

lemma insertBefore_others:
  assumes "wf_doc d" "insertBefore p e ref d = Some d'"
  shows "filter (\<lambda>x. x \<noteq> e) (kids d' q) = filter (\<lambda>x. x \<noteq> e) (kids d q)"
  by (simp add: insertBefore_frame(2) [OF assms] place_before_others)

text \<open>The element stands right before the reference.\<close>

lemma dropWhile_next:
  assumes "distinct xs" "x \<in> set xs"
  shows "\<exists>ys zs. xs = ys @ x # zs \<and> x \<notin> set ys \<and> dropWhile (\<lambda>y. y \<noteq> x) xs = x # zs \<and> takeWhile (\<lambda>y. y \<noteq> x) xs = ys"
proof -
  obtain ys zs where yz: "xs = ys @ x # zs" "x \<notin> set ys" using split_list_first [OF assms(2)] by blast
  then have "dropWhile (\<lambda>y. y \<noteq> x) xs = x # zs" "takeWhile (\<lambda>y. y \<noteq> x) xs = ys"
    by (simp_all add: dropWhile_append takeWhile_append)
  with yz show ?thesis by blast
qed

lemma insertBefore_wf:
  assumes wd: "wf_doc d" and i: "insertBefore p e ref d = Some d'"
  shows "wf_doc d'"
proof -
  note fr = insertBefore_frame [OF wd i]
  have rel: "parent_rel d' = insert (e, p) {(c, q). (c, q) \<in> parent_rel d \<and> c \<noteq> e}"
    by (auto simp: parent_rel_def fr(1) split: if_splits)
  let ?r = "{(c, q). (c, q) \<in> parent_rel d \<and> c \<noteq> e}"
  have sub: "?r \<subseteq> parent_rel d" by auto
  have "acyclic ?r" using wd acyclic_subset [OF _ sub] by (simp add: wf_doc_def)
  moreover have "(p, e) \<notin> ?r\<^sup>*"
  proof
    assume "(p, e) \<in> ?r\<^sup>*"
    then have "(p, e) \<in> ?r\<^sup>+" using fr(8) by (simp add: rtrancl_eq_or_trancl)
    then show False using fr(9) trancl_mono [OF _ sub] by blast
  qed
  ultimately have "acyclic (parent_rel d')" by (simp add: rel acyclic_insert)
  moreover have "finite (parent_rel d')" using wd finite_subset [OF sub] by (simp add: rel wf_doc_def)
  moreover have "distinct (kids d' q)" for q
    using wd by (auto simp: fr(2) wf_doc_def intro!: place_before_distinct)
  moreover have "par d' c = Some q \<longleftrightarrow> c \<in> set (kids d' q)" for c q
  proof (cases "c = e")
    case True
    then show ?thesis using fr(8) by (auto simp: fr(1,2))
  next
    case False
    have "par d c = Some q \<longleftrightarrow> c \<in> set (kids d q)" using wd by (simp add: wf_doc_def)
    then show ?thesis using False by (simp add: fr(1,2))
  qed
  ultimately show ?thesis by (simp add: wf_doc_def)
qed

lemma insertBefore_some:
  assumes "wf_doc d" "p \<noteq> e" "(p, e) \<notin> (parent_rel d)\<^sup>+" "\<forall>r. ref = Some r \<longrightarrow> r \<in> set (kids d p)"
  shows "\<exists>d'. insertBefore p e ref d = Some d'"
  using assms isParent_iff [OF assms(1), of p e] by (auto simp: insertBefore_def Let_def split: option.split)

text \<open>An element that is in no place yet is put between two parts of the children.\<close>

lemma insert_fresh:
  assumes wd: "wf_doc d" and n: "par d n = None" "p \<noteq> n" "(p, n) \<notin> (parent_rel d)\<^sup>+"
    and k: "kids d p = xs @ zs" and ref: "ref = (case zs of [] \<Rightarrow> None | z # _ \<Rightarrow> Some z)"
  shows "\<exists>d'. insertBefore p n ref d = Some d' \<and> wf_doc d' \<and> par d' = (par d)(n := Some p) \<and>
    kids d' = (kids d)(p := xs @ n # zs)"
proof -
  have "\<forall>r. ref = Some r \<longrightarrow> r \<in> set (kids d p)" using k ref by (auto split: list.splits)
  then obtain d' where i: "insertBefore p n ref d = Some d'" using insertBefore_some [OF wd n(2,3)] by blast
  note fr = insertBefore_frame [OF wd i]
  have no: "n \<notin> set (kids d q)" for q using wd n(1) by (metis option.distinct(1) wf_doc_def)
  then have f: "filter (\<lambda>x. x \<noteq> n) (kids d q) = kids d q" for q by (auto simp: filter_id_conv)
  have "place_before (settle_ref d n ref) n (kids d p) = xs @ n # zs"
  proof (cases zs)
    case Nil
    then show ?thesis using k ref by (simp add: settle_ref_def place_before_def)
  next
    case (Cons z us)
    have "z \<noteq> n" "z \<notin> set xs" using no [of p] wd k Cons by (auto simp: wf_doc_def dest!: spec [of _ p])
    then show ?thesis using k ref Cons by (simp add: settle_ref_def place_before_def takeWhile_append dropWhile_append)
  qed
  then have "kids d' = (kids d)(p := xs @ n # zs)" by (intro ext) (simp add: fr(2) f)
  then show ?thesis using i fr(1) insertBefore_wf [OF wd i] by blast
qed

text \<open>A document that is given by a list of children with their parents, which have smaller numbers.\<close>

lemma listed_wf:
  assumes "par d = map_of ps" "kids d = (\<lambda>p. map fst (filter (\<lambda>(c, q). q = p) ps))"
    "distinct (map fst ps)" "\<forall>(c, p) \<in> set ps. p < c"
  shows "wf_doc d"
proof -
  have r: "parent_rel d = set ps" using assms(1,3) by (auto simp: parent_rel_def)
  have "acyclic (less_than\<inverse>)" by (simp add: wf_acyclic acyclic_converse)
  moreover have "set ps \<subseteq> less_than\<inverse>" using assms(4) by auto
  ultimately have "acyclic (parent_rel d)" unfolding r by (rule acyclic_subset)
  moreover have "par d c = Some p \<longleftrightarrow> c \<in> set (kids d p)" for c p unfolding par_rel r assms(2) by force
  moreover have "distinct (kids d p)" for p unfolding assms(2) using assms(3) by (simp add: distinct_map_filter)
  ultimately show ?thesis by (simp add: wf_doc_def r)
qed

section \<open>Neighbours\<close>

lemma nextSibling_at:
  assumes wd: "wf_doc d" and "par d x = Some p"
  shows "nextSibling d x = Some y \<longleftrightarrow> (\<exists>ys zs. kids d p = ys @ x # y # zs)"
proof -
  have m: "x \<in> set (kids d p)" "distinct (kids d p)" using assms by (simp_all add: wf_doc_def)
  obtain ys zs where yz: "kids d p = ys @ x # zs" "x \<notin> set ys" "dropWhile (\<lambda>u. u \<noteq> x) (kids d p) = x # zs"
    using dropWhile_next [OF m(2,1)] by blast
  have n: "nextSibling d x = (case zs of [] \<Rightarrow> None | y # _ \<Rightarrow> Some y)"
    using assms(2) yz(3) by (simp add: nextSibling_def split: list.split)
  show ?thesis
  proof
    assume "nextSibling d x = Some y"
    then show "\<exists>ys zs. kids d p = ys @ x # y # zs" using n yz(1) by (cases zs) auto
  next
    assume "\<exists>ys zs. kids d p = ys @ x # y # zs"
    then obtain as bs where ab: "kids d p = as @ x # y # bs" by blast
    then have "x \<notin> set as" using m(2) by simp
    then have "dropWhile (\<lambda>u. u \<noteq> x) (kids d p) = x # y # bs" using ab by (simp add: dropWhile_append)
    then show "nextSibling d x = Some y" using n yz(3) by simp
  qed
qed

lemma previous_at:
  assumes wd: "wf_doc d" and "par d x = Some p"
  shows "previousSibling d x = Some y \<longleftrightarrow> (\<exists>ys zs. kids d p = ys @ y # x # zs)"
proof
  have m: "x \<in> set (kids d p)" "distinct (kids d p)" using assms by (simp_all add: wf_doc_def)
  obtain ys zs where yz: "kids d p = ys @ x # zs" "x \<notin> set ys" "takeWhile (\<lambda>u. u \<noteq> x) (kids d p) = ys"
    using dropWhile_next [OF m(2,1)] by blast
  {
    assume "previousSibling d x = Some y"
    then have "ys \<noteq> []" "last ys = y" using assms(2) yz(3) by (auto simp: previousSibling_def Let_def split: if_splits)
    then have "kids d p = butlast ys @ y # x # zs" using yz(1) append_butlast_last_id [of ys] by simp
    then show "\<exists>ys zs. kids d p = ys @ y # x # zs" by blast
  }
  assume "\<exists>ys zs. kids d p = ys @ y # x # zs"
  then obtain as bs where ab: "kids d p = as @ y # x # bs" by blast
  then have "x \<notin> set as \<and> x \<noteq> y" using m(2) by auto
  then have "takeWhile (\<lambda>u. u \<noteq> x) (kids d p) = as @ [y]" using ab by (simp add: takeWhile_append)
  then show "previousSibling d x = Some y" using assms(2) by (simp add: previousSibling_def)
qed

lemma previous_next:
  assumes wd: "wf_doc d" and pd: "par d x = Some p" and pr: "previousSibling d x = Some y"
  shows "nextSibling d y = Some x"
proof -
  obtain ys zs where k: "kids d p = ys @ y # x # zs" using previous_at [OF wd pd] pr by blast
  then have "par d y = Some p" using wd by (simp add: wf_doc_def)
  then show ?thesis using nextSibling_at [OF wd] k by blast
qed

lemma neighbours:
  assumes wd: "wf_doc d"
  shows "nextSibling d y = Some x \<longleftrightarrow> previousSibling d x = Some y"
proof
  assume n: "nextSibling d y = Some x"
  then obtain p where p: "par d y = Some p" by (auto simp: nextSibling_def split: option.splits)
  then obtain ys zs where k: "kids d p = ys @ y # x # zs" using n nextSibling_at [OF wd p] by blast
  then have "par d x = Some p" using wd by (simp add: wf_doc_def)
  then show "previousSibling d x = Some y" using previous_at [OF wd] k by blast
next
  assume pr: "previousSibling d x = Some y"
  then obtain p where "par d x = Some p" by (auto simp: previousSibling_def split: option.splits)
  then show "nextSibling d y = Some x" by (rule previous_next [OF wd _ pr])
qed

end
