(* ===== verification/DragDrop.thy ===== *)
theory DragDrop
  imports PageTree
begin

text \<open>
  \<open>dragdrop.js\<close> without \<open>Sortable\<close>: the places where elements can be dropped, the manager of the
  draggable elements and the life of a drag.  Coordinates are integers; an element is placed by its
  style at a base that the layout gives it, so that its offset on the page is the base and its left
  and top added.
\<close>

section \<open>Droppables\<close>

text \<open>Which function a place calls while an element is over it: one of the page or those of \<open>Sortable\<close>.\<close>

datatype hover = PageHover | SortableHover | SortableEmptyHover

record drop =
  z_element :: nat
  z_containers :: "nat list option"
  z_tree :: bool
  z_accept :: "string list option"
  z_hoverclass :: "string option"
  z_overlap :: string
  z_onHover :: "hover option"
  z_onDrop :: bool

text \<open>The option \<open>containment\<close> before \<open>add\<close> makes a list of it.\<close>

datatype containment = NoContainment | Container nat | Containers "nat list"

definition drop_containers :: "containment \<Rightarrow> nat list option" where
  "drop_containers c = (case c of NoContainment \<Rightarrow> None | Container e \<Rightarrow> Some [e] | Containers es \<Rightarrow> Some es)"

text \<open>\<open>zs_hovers\<close> and \<open>zs_dropped\<close> are the calls of \<open>onHover\<close> and \<open>onDrop\<close>.\<close>

record zones =
  zs_doc :: doc
  zs_drops :: "drop list"
  zs_active :: "drop option"
  zs_hovers :: "(nat \<times> nat \<times> real) list"
  zs_dropped :: "(nat \<times> nat) list"

definition droppables_remove :: "nat \<Rightarrow> zones \<Rightarrow> zones" where
  "droppables_remove e z = z\<lparr>zs_drops := filter (\<lambda>d. z_element d \<noteq> e) (zs_drops z)\<rparr>"

definition droppables_add :: "drop \<Rightarrow> containment \<Rightarrow> zones \<Rightarrow> zones" where
  "droppables_add dr c z = z\<lparr>zs_drops := zs_drops z @ [dr\<lparr>z_containers := drop_containers c\<rparr>]\<rparr>"

text \<open>The loop of \<open>findDeepestChild\<close>.\<close>

definition deeper :: "doc \<Rightarrow> drop \<Rightarrow> drop \<Rightarrow> drop" where
  "deeper d deepest dr = (if isParent d (z_element dr) (z_element deepest) = Some True then dr else deepest)"

definition findDeepestChild :: "doc \<Rightarrow> drop list \<Rightarrow> drop" where
  "findDeepestChild d ds = foldl (deeper d) (hd ds) (tl ds)"

definition isContained :: "doc \<Rightarrow> nat \<Rightarrow> drop \<Rightarrow> nat list \<Rightarrow> bool" where
  "isContained d element dr containers =
     (case (if z_tree dr then treeNode d element else par d element) of
        None \<Rightarrow> False
      | Some n \<Rightarrow> n \<in> set containers)"

definition isAffected :: "doc \<Rightarrow> int \<times> int \<Rightarrow> nat \<Rightarrow> drop \<Rightarrow> bool" where
  "isAffected d point element dr \<longleftrightarrow>
     z_element dr \<noteq> element \<and>
     (case z_containers dr of None \<Rightarrow> True | Some cs \<Rightarrow> isContained d element dr cs) \<and>
     (case z_accept dr of None \<Rightarrow> True | Some as \<Rightarrow> list_ex (\<lambda>v. v \<in> set as) (klass d element)) \<and>
     pos_within d (z_element dr) point"

definition drop_deactivate :: "drop \<Rightarrow> zones \<Rightarrow> zones" where
  "drop_deactivate dr z =
     (let z = (case z_hoverclass dr of None \<Rightarrow> z | Some c \<Rightarrow> z\<lparr>zs_doc := removeClassName (z_element dr) c (zs_doc z)\<rparr>)
      in z\<lparr>zs_active := None\<rparr>)"

definition drop_activate :: "drop \<Rightarrow> zones \<Rightarrow> zones" where
  "drop_activate dr z =
     (let z = (case z_hoverclass dr of None \<Rightarrow> z | Some c \<Rightarrow> z\<lparr>zs_doc := addClassName (z_element dr) c (zs_doc z)\<rparr>)
      in z\<lparr>zs_active := Some dr\<rparr>)"

text \<open>\<open>hover\<close> is what the functions \<open>onHover\<close> do to the document.\<close>

type_synonym hover_fn = "hover \<Rightarrow> nat \<Rightarrow> nat \<Rightarrow> real \<Rightarrow> doc \<Rightarrow> doc"

definition drop_hover :: "hover_fn \<Rightarrow> int \<times> int \<Rightarrow> nat \<Rightarrow> drop \<Rightarrow> zones \<Rightarrow> zones" where
  "drop_hover hover point element dr z =
     (case z_onHover dr of
        None \<Rightarrow> z
      | Some h \<Rightarrow>
          let ov = pos_overlap (zs_doc z) (z_overlap dr) (z_element dr) point
          in z\<lparr>zs_doc := hover h element (z_element dr) ov (zs_doc z),
               zs_hovers := zs_hovers z @ [(element, z_element dr, ov)]\<rparr>)"

definition affected_drop :: "int \<times> int \<Rightarrow> nat \<Rightarrow> zones \<Rightarrow> drop option" where
  "affected_drop point element z =
     (let affected = filter (isAffected (zs_doc z) point element) (zs_drops z)
      in if affected = [] then None else Some (findDeepestChild (zs_doc z) affected))"

text \<open>The place that was active is left, unless it is the one that is shown.\<close>

definition leave_active :: "drop option \<Rightarrow> zones \<Rightarrow> zones" where
  "leave_active dr z =
     (case zs_active z of
        None \<Rightarrow> z
      | Some a \<Rightarrow> if dr = Some a then z else drop_deactivate a z)"

definition droppables_show :: "hover_fn \<Rightarrow> int \<times> int \<Rightarrow> nat \<Rightarrow> zones \<Rightarrow> zones" where
  "droppables_show hover point element z =
     (if zs_drops z = [] then z
      else
        let dr = affected_drop point element z;
            z = leave_active dr z
        in case dr of
             None \<Rightarrow> z
           | Some a \<Rightarrow>
               let z = drop_hover hover point element a z
               in if zs_active z \<noteq> Some a then drop_activate a z else z)"

definition droppables_fire :: "int \<times> int \<Rightarrow> nat \<Rightarrow> zones \<Rightarrow> zones \<times> bool" where
  "droppables_fire point element z =
     (case zs_active z of
        None \<Rightarrow> (z, False)
      | Some a \<Rightarrow>
          if isAffected (zs_doc z) point element a \<and> z_onDrop a
          then (z\<lparr>zs_dropped := zs_dropped z @ [(element, z_element a)]\<rparr>, True)
          else (z, False))"

definition droppables_reset :: "zones \<Rightarrow> zones" where
  "droppables_reset z = (case zs_active z of None \<Rightarrow> z | Some a \<Rightarrow> drop_deactivate a z)"

section \<open>Draggables\<close>

datatype revert = NoRevert | Revert | RevertFailure

datatype snap = NoSnap | SnapBy int | SnapXY int int

datatype axis = Both | Horizontal | Vertical

text \<open>
  \<open>go_scroll\<close> is the region on the page that is scrolled, for the option \<open>scroll\<close>;
  \<open>go_callbacks\<close> are the functions that the page gives among the options.
\<close>

record drag_options =
  go_delay :: bool
  go_revert :: revert
  go_reverteffect :: bool
  go_quiet :: bool
  go_ghosting :: bool
  go_zindex :: int
  go_starteffect :: bool
  go_endeffect :: bool
  go_scroll :: "(int \<times> int \<times> int \<times> int) option"
  go_sensitivity :: int
  go_scrollSpeed :: int
  go_snap :: snap
  go_constraint :: axis
  go_callbacks :: "string list"

record draggable =
  g_element :: nat
  g_opt :: drag_options
  g_dragging :: bool
  g_base :: "int \<times> int"
  g_left :: int
  g_top :: int
  g_offset :: "int \<times> int"
  g_delta :: "(int \<times> int) option"
  g_zIndex :: int
  g_originalZ :: "int option"
  g_clone :: bool
  g_scroll :: "(int \<times> int) option"
  g_reverts :: "(int \<times> int) list"

text \<open>Who is told of an event: an observer or the page that made the draggable.\<close>

datatype notified = ToObserver nat | ToPage nat

record observer =
  ob_element :: nat
  ob_events :: "string list"

text \<open>
  \<open>ds_busy\<close> is \<open>Draggable._dragging\<close>, which the text of an element indexes; \<open>ds_log\<close> are
  the calls of observers and of the page.
\<close>

record drag_sys =
  ds_zones :: zones
  ds_objects :: "nat \<Rightarrow> draggable"
  ds_drags :: "nat list"
  ds_listening :: bool
  ds_observers :: "observer list"
  ds_counts :: "string \<Rightarrow> nat"
  ds_active :: "nat option"
  ds_timeout :: "nat option"
  ds_lastPointer :: "(int \<times> int) option"
  ds_busy :: "string \<Rightarrow> bool"
  ds_log :: "(string \<times> notified) list"

definition draggables_register :: "nat \<Rightarrow> drag_sys \<Rightarrow> drag_sys" where
  "draggables_register n s =
     (let s = (if ds_drags s = [] then s\<lparr>ds_listening := True\<rparr> else s)
      in s\<lparr>ds_drags := ds_drags s @ [n]\<rparr>)"

definition draggables_unregister :: "nat \<Rightarrow> drag_sys \<Rightarrow> drag_sys" where
  "draggables_unregister n s =
     (let s = s\<lparr>ds_drags := filter (\<lambda>m. m \<noteq> n) (ds_drags s)\<rparr>
      in if ds_drags s = [] then s\<lparr>ds_listening := False\<rparr> else s)"

definition draggables_activate :: "nat \<Rightarrow> drag_sys \<Rightarrow> drag_sys" where
  "draggables_activate n s =
     (if go_delay (g_opt (ds_objects s n)) then s\<lparr>ds_timeout := Some n\<rparr> else s\<lparr>ds_active := Some n\<rparr>)"

text \<open>The delay is over.\<close>

definition delay_over :: "drag_sys \<Rightarrow> drag_sys" where
  "delay_over s = (case ds_timeout s of None \<Rightarrow> s | Some n \<Rightarrow> s\<lparr>ds_timeout := None, ds_active := Some n\<rparr>)"

definition cacheObserverCallbacks :: "drag_sys \<Rightarrow> drag_sys" where
  "cacheObserverCallbacks s =
     s\<lparr>ds_counts := (\<lambda>name. if name \<in> set [''onStart'', ''onEnd'', ''onDrag'']
        then length (filter (\<lambda>ob. name \<in> set (ob_events ob)) (ds_observers s)) else ds_counts s name)\<rparr>"

definition addObserver :: "observer \<Rightarrow> drag_sys \<Rightarrow> drag_sys" where
  "addObserver ob s = cacheObserverCallbacks (s\<lparr>ds_observers := ds_observers s @ [ob]\<rparr>)"

definition removeObserver :: "nat \<Rightarrow> drag_sys \<Rightarrow> drag_sys" where
  "removeObserver e s = cacheObserverCallbacks (s\<lparr>ds_observers := filter (\<lambda>ob. ob_element ob \<noteq> e) (ds_observers s)\<rparr>)"

definition call_page :: "string \<Rightarrow> nat \<Rightarrow> drag_sys \<Rightarrow> drag_sys" where
  "call_page name n s =
     (if name \<in> set (go_callbacks (g_opt (ds_objects s n)))
      then s\<lparr>ds_log := ds_log s @ [(name, ToPage (g_element (ds_objects s n)))]\<rparr> else s)"

definition drag_notify :: "string \<Rightarrow> nat \<Rightarrow> drag_sys \<Rightarrow> drag_sys" where
  "drag_notify name n s =
     call_page name n
       (if ds_counts s name > 0
        then s\<lparr>ds_log := ds_log s @ map (\<lambda>ob. (name, ToObserver (ob_element ob)))
                 (filter (\<lambda>ob. name \<in> set (ob_events ob)) (ds_observers s))\<rparr>
        else s)"

section \<open>A draggable\<close>

definition on_object :: "nat \<Rightarrow> (draggable \<Rightarrow> draggable) \<Rightarrow> drag_sys \<Rightarrow> drag_sys" where
  "on_object n f s = s\<lparr>ds_objects := (ds_objects s)(n := f (ds_objects s n))\<rparr>"

definition on_zones :: "(zones \<Rightarrow> zones) \<Rightarrow> drag_sys \<Rightarrow> drag_sys" where
  "on_zones f s = s\<lparr>ds_zones := f (ds_zones s)\<rparr>"

definition new_draggable :: "nat \<Rightarrow> draggable \<Rightarrow> drag_sys \<Rightarrow> drag_sys" where
  "new_draggable n g s = draggables_register n (s\<lparr>ds_objects := (ds_objects s)(n := g\<lparr>g_dragging := False\<rparr>)\<rparr>)"

definition currentDelta :: "draggable \<Rightarrow> int \<times> int" where
  "currentDelta g = (g_left g, g_top g)"

definition page_offset :: "draggable \<Rightarrow> int \<times> int" where
  "page_offset g = (fst (g_base g) + g_left g, snd (g_base g) + g_top g)"

text \<open>\<open>key\<close> is the text that an element is turned into as a property name.\<close>

definition initDrag :: "(nat \<Rightarrow> string) \<Rightarrow> bool \<Rightarrow> string \<Rightarrow> int \<times> int \<Rightarrow> nat \<Rightarrow> drag_sys \<Rightarrow> drag_sys" where
  "initDrag key leftClick tag_name pointer n s =
     (let g = ds_objects s n
      in if ds_busy s (key (g_element g)) then s
         else if leftClick then
           if tag_name \<in> set [''INPUT'', ''SELECT'', ''OPTION'', ''BUTTON'', ''TEXTAREA''] then s
           else
             let pos = page_offset g
             in draggables_activate n
                  (on_object n (\<lambda>g. g\<lparr>g_offset := (fst pointer - fst pos, snd pointer - snd pos)\<rparr>) s)
         else s)"

text \<open>The fields that \<open>startDrag\<close> sets; the default start effect marks the element as busy.\<close>

definition start_fields :: "draggable \<Rightarrow> draggable" where
  "start_fields g =
     (let g = g\<lparr>g_dragging := True, g_delta := (case g_delta g of None \<Rightarrow> Some (currentDelta g) | Some d \<Rightarrow> Some d)\<rparr>;
          g = (if go_zindex (g_opt g) \<noteq> 0 then g\<lparr>g_originalZ := Some (g_zIndex g), g_zIndex := go_zindex (g_opt g)\<rparr> else g)
      in if go_ghosting (g_opt g) then g\<lparr>g_clone := True\<rparr> else g)"

definition startDrag :: "(nat \<Rightarrow> string) \<Rightarrow> nat \<Rightarrow> drag_sys \<Rightarrow> drag_sys" where
  "startDrag key n s =
     (let s = drag_notify ''onStart'' n (on_object n start_fields s);
          g = ds_objects s n
      in if go_starteffect (g_opt g) then s\<lparr>ds_busy := (ds_busy s)(key (g_element g) := True)\<rparr> else s)"

definition snap_to :: "int \<Rightarrow> int \<Rightarrow> int" where
  "snap_to s v = \<lfloor>real_of_int v / real_of_int s + 1 / 2\<rfloor> * s"

definition snap_point :: "snap \<Rightarrow> int \<times> int \<Rightarrow> int \<times> int" where
  "snap_point s p =
     (case s of
        NoSnap \<Rightarrow> p
      | SnapBy k \<Rightarrow> (snap_to k (fst p), snap_to k (snd p))
      | SnapXY a b \<Rightarrow> (snap_to a (fst p), snap_to b (snd p)))"

definition draw :: "int \<times> int \<Rightarrow> draggable \<Rightarrow> draggable" where
  "draw point g =
     (let pos = page_offset g; d = currentDelta g;
          pos = (fst pos - fst d, snd pos - snd d);
          p = snap_point (go_snap (g_opt g)) (fst point - fst pos - fst (g_offset g), snd point - snd pos - snd (g_offset g));
          g = (if go_constraint (g_opt g) \<in> {Both, Horizontal} then g\<lparr>g_left := fst p\<rparr> else g)
      in if go_constraint (g_opt g) \<in> {Both, Vertical} then g\<lparr>g_top := snd p\<rparr> else g)"

definition stopScrolling :: "draggable \<Rightarrow> draggable" where
  "stopScrolling g = g\<lparr>g_scroll := None\<rparr>"

definition startScrolling :: "int \<times> int \<Rightarrow> draggable \<Rightarrow> draggable" where
  "startScrolling speed g =
     (if speed = (0, 0) then g
      else g\<lparr>g_scroll := Some (fst speed * go_scrollSpeed (g_opt g), snd speed * go_scrollSpeed (g_opt g))\<rparr>)"

text \<open>How far the pointer is beyond the border of the region in one direction.\<close>

definition scroll_speed :: "int \<Rightarrow> int \<Rightarrow> int \<Rightarrow> int \<Rightarrow> int" where
  "scroll_speed sensitivity low high x =
     (if x > high - sensitivity then x - (high - sensitivity)
      else if x < low + sensitivity then x - (low + sensitivity) else 0)"

definition drag_scroll :: "int \<times> int \<Rightarrow> draggable \<Rightarrow> draggable" where
  "drag_scroll pointer g =
     (case go_scroll (g_opt g) of
        None \<Rightarrow> g
      | Some (l, t, r, b) \<Rightarrow>
          startScrolling (scroll_speed (go_sensitivity (g_opt g)) l r (fst pointer),
                          scroll_speed (go_sensitivity (g_opt g)) t b (snd pointer)) (stopScrolling g))"

definition drag_update :: "(nat \<Rightarrow> string) \<Rightarrow> hover_fn \<Rightarrow> int \<times> int \<Rightarrow> nat \<Rightarrow> drag_sys \<Rightarrow> drag_sys" where
  "drag_update key hover pointer n s =
     (let s = (if g_dragging (ds_objects s n) then s else startDrag key n s);
          g = ds_objects s n;
          s = (if go_quiet (g_opt g) then s else on_zones (droppables_show hover pointer (g_element g)) s);
          s = drag_notify ''onDrag'' n s;
          s = call_page ''change'' n (on_object n (draw pointer) s)
      in on_object n (drag_scroll pointer) s)"

text \<open>
  \<open>finishDrag\<close>; the flag is an exception, of the removal of a copy that is not there or of the
  reading of a start position that is not there.
\<close>

definition drop_element :: "int \<times> int \<Rightarrow> bool \<Rightarrow> nat \<Rightarrow> drag_sys \<Rightarrow> drag_sys \<times> bool" where
  "drop_element pointer success n s =
     (if success
      then let (z, dropped) = droppables_fire pointer (g_element (ds_objects s n)) (ds_zones s)
           in (s\<lparr>ds_zones := z\<rparr>, dropped)
      else (s, False))"

definition revert_drag :: "bool \<Rightarrow> draggable \<Rightarrow> draggable \<times> bool" where
  "revert_drag dropped g =
     (let d = currentDelta g
      in if go_revert (g_opt g) \<noteq> NoRevert \<and> go_reverteffect (g_opt g) then
           if \<not> dropped \<or> go_revert (g_opt g) \<noteq> RevertFailure then
             (case g_delta g of
                None \<Rightarrow> (g, True)
              | Some d' \<Rightarrow> (g\<lparr>g_reverts := g_reverts g @ [(snd d - snd d', fst d - fst d')]\<rparr>, False))
           else (g, False)
         else (g\<lparr>g_delta := Some d\<rparr>, False))"

definition finish_fields :: "draggable \<Rightarrow> draggable" where
  "finish_fields g =
     (if go_zindex (g_opt g) \<noteq> 0
      then (case g_originalZ g of None \<Rightarrow> g | Some z \<Rightarrow> g\<lparr>g_zIndex := z\<rparr>) else g)"

definition finish_show :: "hover_fn \<Rightarrow> int \<times> int \<Rightarrow> nat \<Rightarrow> drag_sys \<Rightarrow> drag_sys" where
  "finish_show hover pointer n s =
     (let s = on_object n (\<lambda>g. g\<lparr>g_dragging := False\<rparr>) s; g = ds_objects s n
      in if go_quiet (g_opt g) then on_zones (droppables_show hover pointer (g_element g)) s else s)"

definition finish_drop :: "int \<times> int \<Rightarrow> bool \<Rightarrow> nat \<Rightarrow> drag_sys \<Rightarrow> drag_sys \<times> bool" where
  "finish_drop pointer success n s =
     (let (s, dropped) = drop_element pointer success n s;
          s = (if dropped then call_page ''onDropped'' n s else s);
          s = drag_notify ''onEnd'' n s;
          (g, thrown) = revert_drag dropped (ds_objects s n)
      in if thrown then (s, True)
         else
           let s = on_object n (\<lambda>_. finish_fields g) s
           in (on_zones droppables_reset (s\<lparr>ds_active := None\<rparr>), False))"

definition finishDrag :: "hover_fn \<Rightarrow> int \<times> int \<Rightarrow> bool \<Rightarrow> nat \<Rightarrow> drag_sys \<Rightarrow> drag_sys \<times> bool" where
  "finishDrag hover pointer success n s =
     (let s = finish_show hover pointer n s; g = ds_objects s n
      in if go_ghosting (g_opt g) \<and> \<not> g_clone g then (s, True)
         else finish_drop pointer success n (on_object n (\<lambda>g. g\<lparr>g_clone := False\<rparr>) s))"

section \<open>The events of the document\<close>

definition updateDrag :: "(nat \<Rightarrow> string) \<Rightarrow> hover_fn \<Rightarrow> int \<times> int \<Rightarrow> drag_sys \<Rightarrow> drag_sys" where
  "updateDrag key hover pointer s =
     (case ds_active s of
        None \<Rightarrow> s
      | Some n \<Rightarrow>
          if ds_lastPointer s = Some pointer then s
          else drag_update key hover pointer n (s\<lparr>ds_lastPointer := Some pointer\<rparr>))"

definition endDrag :: "hover_fn \<Rightarrow> int \<times> int \<Rightarrow> drag_sys \<Rightarrow> drag_sys \<times> bool" where
  "endDrag hover pointer s =
     (let s = s\<lparr>ds_timeout := None\<rparr>
      in case ds_active s of
           None \<Rightarrow> (s, False)
         | Some n \<Rightarrow>
             let s = s\<lparr>ds_lastPointer := None\<rparr>
             in if g_dragging (ds_objects s n)
                then let (s, thrown) = finishDrag hover pointer True n (on_object n stopScrolling s)
                     in if thrown then (s, True) else (s\<lparr>ds_active := None\<rparr>, False)
                else (s\<lparr>ds_active := None\<rparr>, False))"

definition drag_keyPress :: "hover_fn \<Rightarrow> bool \<Rightarrow> int \<times> int \<Rightarrow> drag_sys \<Rightarrow> drag_sys \<times> bool" where
  "drag_keyPress hover escape pointer s =
     (case ds_active s of
        None \<Rightarrow> (s, False)
      | Some n \<Rightarrow> if escape then finishDrag hover pointer False n s else (s, False))"

definition drag_destroy :: "nat \<Rightarrow> drag_sys \<Rightarrow> drag_sys" where
  "drag_destroy n s = draggables_unregister n s"

text \<open>The default end effect is over.\<close>

definition end_effect_over :: "(nat \<Rightarrow> string) \<Rightarrow> nat \<Rightarrow> drag_sys \<Rightarrow> drag_sys" where
  "end_effect_over key n s =
     (if go_endeffect (g_opt (ds_objects s n))
      then s\<lparr>ds_busy := (ds_busy s)(key (g_element (ds_objects s n)) := False)\<rparr> else s)"

datatype drag_event =
    MouseDown bool string "int \<times> int" nat
  | MouseMove "int \<times> int"
  | MouseUp "int \<times> int"
  | KeyPress bool "int \<times> int"
  | DelayOver
  | EffectOver nat

definition drag_step :: "(nat \<Rightarrow> string) \<Rightarrow> hover_fn \<Rightarrow> drag_sys \<Rightarrow> drag_event \<Rightarrow> drag_sys" where
  "drag_step key hover s e =
     (case e of
        MouseDown leftClick tag_name p n \<Rightarrow> initDrag key leftClick tag_name p n s
      | MouseMove p \<Rightarrow> updateDrag key hover p s
      | MouseUp p \<Rightarrow> fst (endDrag hover p s)
      | KeyPress escape p \<Rightarrow> fst (drag_keyPress hover escape p s)
      | DelayOver \<Rightarrow> delay_over s
      | EffectOver n \<Rightarrow> end_effect_over key n s)"

section \<open>The innermost place\<close>

lemma isParent_trans:
  assumes "wf_doc d" "isParent d a b = Some True" "isParent d b c = Some True"
  shows "isParent d a c = Some True"
  using assms by (auto simp: isParent_iff intro: trancl_trans)

lemma isParent_irrefl: "wf_doc d \<Longrightarrow> isParent d a a \<noteq> Some True"
  by (auto simp: isParent_iff wf_doc_def acyclic_def)

text \<open>What the loop keeps: nothing it has seen lies within the place it holds.\<close>

lemma deepest_loop:
  assumes wd: "wf_doc d" and seen: "\<forall>x \<in> S. isParent d (z_element x) (z_element a) \<noteq> Some True" and "a \<in> S"
  shows "foldl (deeper d) a ds \<in> S \<union> set ds \<and>
    (\<forall>x \<in> S \<union> set ds. isParent d (z_element x) (z_element (foldl (deeper d) a ds)) \<noteq> Some True)"
  using seen assms(3)
proof (induction ds arbitrary: a S)
  case (Cons y ds)
  let ?b = "deeper d a y"
  have b: "?b \<in> insert y S" using Cons.prems(2) by (simp add: deeper_def)
  have "isParent d (z_element x) (z_element ?b) \<noteq> Some True" if "x \<in> insert y S" for x
  proof (cases "isParent d (z_element y) (z_element a) = Some True")
    case True
    then show ?thesis
      using that Cons.prems(1) isParent_trans [OF wd, of "z_element x" "z_element y" "z_element a"] isParent_irrefl [OF wd]
      by (auto simp: deeper_def)
  qed (use that Cons.prems in \<open>auto simp: deeper_def\<close>)
  then have "foldl (deeper d) ?b ds \<in> insert y S \<union> set ds \<and>
    (\<forall>x \<in> insert y S \<union> set ds. isParent d (z_element x) (z_element (foldl (deeper d) ?b ds)) \<noteq> Some True)"
    using Cons.IH [of "insert y S" ?b] b by blast
  then show ?case by simp
qed simp

lemma deepest_innermost:
  assumes "wf_doc d" "ds \<noteq> []"
  shows "findDeepestChild d ds \<in> set ds \<and>
    (\<forall>x \<in> set ds. isParent d (z_element x) (z_element (findDeepestChild d ds)) \<noteq> Some True)"
  using deepest_loop [OF assms(1), of "{hd ds}" "hd ds" "tl ds"] isParent_irrefl [OF assms(1)] assms(2)
  by (cases ds) (auto simp: findDeepestChild_def)

lemma hover_frame:
  "zs_active (drop_hover hover point e a z) = zs_active z" "zs_drops (drop_hover hover point e a z) = zs_drops z"
  by (simp_all add: drop_hover_def Let_def split: option.split)

lemma show_active:
  assumes "zs_drops z \<noteq> []"
  shows "zs_active (droppables_show hover point e z) = affected_drop point e z"
proof -
  have l: "zs_active (leave_active dr z) = (if zs_active z = dr then dr else None)" for dr
    by (auto simp: leave_active_def drop_deactivate_def Let_def split: option.splits)
  show ?thesis
    using assms l by (auto simp: droppables_show_def Let_def hover_frame drop_activate_def split: option.splits)
qed

text \<open>
  C21. Moving over the page makes the innermost of the places active that take the element and lie
  under the pointer: it takes the element, the pointer is in it, and no other such place lies
  within it; without such a place none is active.
\<close>

theorem show_activates_innermost:
  assumes "wf_doc (zs_doc z)" and "zs_drops z \<noteq> []"
  shows "case zs_active (droppables_show hover point e z) of
      None \<Rightarrow> \<forall>x \<in> set (zs_drops z). \<not> isAffected (zs_doc z) point e x
    | Some a \<Rightarrow> a \<in> set (zs_drops z) \<and> isAffected (zs_doc z) point e a \<and>
        (\<forall>x \<in> set (zs_drops z). isAffected (zs_doc z) point e x \<longrightarrow>
           isParent (zs_doc z) (z_element x) (z_element a) = Some False)"
proof (cases "filter (isAffected (zs_doc z) point e) (zs_drops z) = []")
  case True
  then show ?thesis
    using show_active [OF assms(2), of hover point e] by (auto simp: affected_drop_def filter_empty_conv)
next
  case False
  let ?ds = "filter (isAffected (zs_doc z) point e) (zs_drops z)"
  have f: "isParent (zs_doc z) x y \<noteq> Some True \<longleftrightarrow> isParent (zs_doc z) x y = Some False" for x y
    by (simp add: isParent_iff [OF assms(1)])
  show ?thesis
    using show_active [OF assms(2), of hover point e] deepest_innermost [OF assms(1) False] False
    by (auto simp: affected_drop_def f)
qed

section \<open>A drag\<close>

lemma call_frame [simp]:
  "ds_objects (call_page name n s) = ds_objects s" "ds_active (call_page name n s) = ds_active s"
  "ds_lastPointer (call_page name n s) = ds_lastPointer s" "ds_zones (call_page name n s) = ds_zones s"
  "ds_timeout (call_page name n s) = ds_timeout s"
  by (simp_all add: call_page_def)

lemma notify_frame [simp]:
  "ds_objects (drag_notify name n s) = ds_objects s" "ds_active (drag_notify name n s) = ds_active s"
  "ds_lastPointer (drag_notify name n s) = ds_lastPointer s" "ds_zones (drag_notify name n s) = ds_zones s"
  "ds_timeout (drag_notify name n s) = ds_timeout s"
  by (simp_all add: drag_notify_def)

lemma start_frame:
  "ds_objects (startDrag key n s) = (ds_objects s)(n := start_fields (ds_objects s n))"
  "ds_active (startDrag key n s) = ds_active s" "ds_lastPointer (startDrag key n s) = ds_lastPointer s"
  by (simp_all add: startDrag_def Let_def on_object_def)

lemma start_fields_frame [simp]:
  "g_opt (start_fields g) = g_opt g" "g_base (start_fields g) = g_base g" "g_offset (start_fields g) = g_offset g"
  "g_left (start_fields g) = g_left g" "g_top (start_fields g) = g_top g" "g_dragging (start_fields g)"
  "g_scroll (start_fields g) = g_scroll g"
  by (simp_all add: start_fields_def Let_def)

lemma draw_frame [simp]:
  "g_opt (draw p g) = g_opt g" "g_base (draw p g) = g_base g" "g_offset (draw p g) = g_offset g"
  "g_dragging (draw p g) = g_dragging g" "g_delta (draw p g) = g_delta g"
  by (simp_all add: draw_def Let_def)

lemma scroll_frame [simp]:
  "g_opt (drag_scroll p g) = g_opt g" "g_base (drag_scroll p g) = g_base g" "g_offset (drag_scroll p g) = g_offset g"
  "g_left (drag_scroll p g) = g_left g" "g_top (drag_scroll p g) = g_top g" "g_dragging (drag_scroll p g) = g_dragging g"
  "g_delta (drag_scroll p g) = g_delta g"
  by (simp_all add: drag_scroll_def startScrolling_def stopScrolling_def split: option.split)

text \<open>Drawing does not depend on where the element was drawn before.\<close>

lemma draw_offset:
  "go_snap (g_opt g) = NoSnap \<Longrightarrow> go_constraint (g_opt g) = Both \<Longrightarrow>
     page_offset (draw p g) = (fst p - fst (g_offset g), snd p - snd (g_offset g))"
  by (simp add: draw_def Let_def snap_point_def page_offset_def currentDelta_def)

definition carried :: "nat \<Rightarrow> drag_options \<Rightarrow> int \<times> int \<Rightarrow> drag_sys \<Rightarrow> bool" where
  "carried n op off s \<longleftrightarrow> ds_active s = Some n \<and> g_opt (ds_objects s n) = op \<and> g_offset (ds_objects s n) = off"

lemma drag_update_object:
  "ds_objects (drag_update key hover p n s) n =
     drag_scroll p (draw p (if g_dragging (ds_objects s n) then ds_objects s n else start_fields (ds_objects s n)))"
  "ds_active (drag_update key hover p n s) = ds_active s"
  "ds_lastPointer (drag_update key hover p n s) = ds_lastPointer s"
  by (simp_all add: drag_update_def Let_def on_object_def on_zones_def start_frame)

lemma update_carried:
  assumes "carried n op off s"
  shows "carried n op off (updateDrag key hover p s)"
  using assms by (auto simp: carried_def updateDrag_def drag_update_object)

lemma update_offset:
  assumes "carried n op off s" "go_snap op = NoSnap" "go_constraint op = Both"
    and "ds_lastPointer s = Some p \<longrightarrow> page_offset (ds_objects s n) = (fst p - fst off, snd p - snd off)"
  shows "page_offset (ds_objects (updateDrag key hover p s) n) = (fst p - fst off, snd p - snd off) \<and>
    ds_lastPointer (updateDrag key hover p s) = Some p"
proof -
  have "page_offset (drag_scroll p g) = page_offset g" for g by (simp add: page_offset_def)
  then show ?thesis
    using assms draw_offset by (auto simp: carried_def updateDrag_def drag_update_object)
qed

lemma moves_offset:
  assumes "carried n op off s" "go_snap op = NoSnap" "go_constraint op = Both"
    and "\<forall>p. ds_lastPointer s = Some p \<longrightarrow> page_offset (ds_objects s n) = (fst p - fst off, snd p - snd off)"
  shows "carried n op off (foldl (\<lambda>s p. updateDrag key hover p s) s ps) \<and>
    (ps \<noteq> [] \<longrightarrow> page_offset (ds_objects (foldl (\<lambda>s p. updateDrag key hover p s) s ps) n) =
      (fst (last ps) - fst off, snd (last ps) - snd off))"
proof -
  have "carried n op off (foldl (\<lambda>s p. updateDrag key hover p s) s ps) \<and>
    (\<forall>p. ds_lastPointer (foldl (\<lambda>s p. updateDrag key hover p s) s ps) = Some p \<longrightarrow>
      page_offset (ds_objects (foldl (\<lambda>s p. updateDrag key hover p s) s ps) n) = (fst p - fst off, snd p - snd off)) \<and>
    (ps \<noteq> [] \<longrightarrow> ds_lastPointer (foldl (\<lambda>s p. updateDrag key hover p s) s ps) = Some (last ps))"
  proof (induction ps rule: rev_induct)
    case (snoc p ps)
    let ?s = "foldl (\<lambda>s p. updateDrag key hover p s) s ps"
    have c: "carried n op off ?s" and q: "ds_lastPointer ?s = Some p \<longrightarrow> page_offset (ds_objects ?s n) = (fst p - fst off, snd p - snd off)"
      using snoc by auto
    show ?case using update_carried [OF c] update_offset [OF c assms(2,3) q] by auto
  qed (use assms in simp)
  then show ?thesis by auto
qed


section \<open>The end of a drag\<close>

text \<open>When the end of a drag raises no exception.\<close>

definition can_revert :: "draggable \<Rightarrow> bool" where
  "can_revert g \<longleftrightarrow> (go_revert (g_opt g) \<noteq> NoRevert \<and> go_reverteffect (g_opt g) \<longrightarrow> g_delta g \<noteq> None)"

definition can_finish :: "draggable \<Rightarrow> bool" where
  "can_finish g \<longleftrightarrow> (go_ghosting (g_opt g) \<longrightarrow> g_clone g) \<and> can_revert g"

lemma revert_frame:
  "g_scroll (fst (revert_drag dropped g)) = g_scroll g" "g_dragging (fst (revert_drag dropped g)) = g_dragging g"
  "g_left (fst (revert_drag dropped g)) = g_left g" "g_top (fst (revert_drag dropped g)) = g_top g"
  by (auto simp: revert_drag_def Let_def split: option.splits)

lemma finish_fields_frame [simp]:
  "g_scroll (finish_fields g) = g_scroll g" "g_dragging (finish_fields g) = g_dragging g"
  "g_left (finish_fields g) = g_left g" "g_top (finish_fields g) = g_top g" "g_reverts (finish_fields g) = g_reverts g"
  by (simp_all add: finish_fields_def split: option.split)

lemma drop_element_frame:
  "ds_objects (fst (drop_element p success n s)) = ds_objects s"
  by (simp add: drop_element_def split: prod.split)

text \<open>The object at the end of \<open>finishDrag\<close>.\<close>

lemma finish_show_object:
  "ds_objects (finish_show hover p n s) = (ds_objects s)(n := (ds_objects s n)\<lparr>g_dragging := False\<rparr>)"
  by (simp add: finish_show_def Let_def on_object_def on_zones_def)

lemma finish_drop_object:
  assumes "can_revert (ds_objects s n)"
  shows "\<not> snd (finish_drop p success n s) \<and> ds_active (fst (finish_drop p success n s)) = None \<and>
    (\<exists>dropped. ds_objects (fst (finish_drop p success n s)) n = finish_fields (fst (revert_drag dropped (ds_objects s n))))"
proof -
  obtain s4 dropped where d: "drop_element p success n s = (s4, dropped)" by fastforce
  have o: "ds_objects s4 = ds_objects s" using drop_element_frame [of p success n s] by (simp add: d)
  have "\<not> snd (revert_drag dropped (ds_objects s n))"
    using assms by (auto simp: can_revert_def revert_drag_def Let_def split: option.splits)
  then obtain g where g: "revert_drag dropped (ds_objects s n) = (g, False)"
    by (cases "revert_drag dropped (ds_objects s n)") simp
  show ?thesis
    using d o g by (auto simp: finish_drop_def Let_def on_zones_def on_object_def intro!: exI [of _ dropped])
qed

lemma finish_object:
  assumes "can_finish (ds_objects s n)"
  shows "\<not> snd (finishDrag hover p success n s) \<and> ds_active (fst (finishDrag hover p success n s)) = None \<and>
    (\<exists>dropped. ds_objects (fst (finishDrag hover p success n s)) n =
      finish_fields (fst (revert_drag dropped ((ds_objects s n)\<lparr>g_dragging := False, g_clone := False\<rparr>))))"
proof -
  let ?s = "on_object n (\<lambda>g. g\<lparr>g_clone := False\<rparr>) (finish_show hover p n s)"
  have o: "ds_objects ?s n = (ds_objects s n)\<lparr>g_dragging := False, g_clone := False\<rparr>"
    by (simp add: on_object_def finish_show_object)
  have e: "finishDrag hover p success n s = finish_drop p success n ?s"
    using assms by (auto simp: finishDrag_def Let_def can_finish_def finish_show_object)
  have "can_revert (ds_objects ?s n)" using assms by (simp add: o can_finish_def can_revert_def)
  from finish_drop_object [OF this, of p success] show ?thesis unfolding e o .
qed

text \<open>
  The escape key ends a drag that scrolls, but it does not stop the scrolling: afterwards no
  draggable is active, the timer of the scrolling is as it was, and releasing the button does not
  stop it either.  Releasing the button instead of the key stops it.
\<close>

theorem escape_keeps_scrolling:
  assumes "ds_active s = Some n" and "g_dragging (ds_objects s n)" and "can_finish (ds_objects s n)"
    and "s' = fst (drag_keyPress hover True p s)" and "s'' = fst (endDrag hover q s')"
  shows "ds_active s' = None \<and> \<not> g_dragging (ds_objects s' n) \<and>
    g_scroll (ds_objects s' n) = g_scroll (ds_objects s n) \<and> g_scroll (ds_objects s'' n) = g_scroll (ds_objects s n) \<and>
    g_scroll (ds_objects (fst (endDrag hover p s)) n) = None"
proof -
  have k: "s' = fst (finishDrag hover p False n s)" using assms(1,4) by (simp add: drag_keyPress_def)
  have e: "ds_active s' = None" "\<not> g_dragging (ds_objects s' n)" "g_scroll (ds_objects s' n) = g_scroll (ds_objects s n)"
    using finish_object [OF assms(3), of hover p False] by (auto simp: k revert_frame)
  have u: "ds_objects s'' = ds_objects s'" using e(1) assms(5) by (simp add: endDrag_def)
  let ?t = "on_object n stopScrolling (s\<lparr>ds_timeout := None, ds_lastPointer := None\<rparr>)"
  have o: "ds_objects ?t n = (ds_objects s n)\<lparr>g_scroll := None\<rparr>" by (simp add: on_object_def stopScrolling_def)
  have "can_finish (ds_objects ?t n)" using assms(3) by (simp add: o can_finish_def can_revert_def)
  then have f: "\<not> snd (finishDrag hover p True n ?t)" "g_scroll (ds_objects (fst (finishDrag hover p True n ?t)) n) = None"
    using finish_object [of ?t n hover p True] by (auto simp: revert_frame o)
  then have "g_scroll (ds_objects (fst (endDrag hover p s)) n) = None"
    using assms(1,2) by (cases "finishDrag hover p True n ?t") (simp add: endDrag_def)
  then show ?thesis using e u by simp
qed

text \<open>
  The escape key between the press of the button and the first move raises an exception when the
  draggable shows a copy or returns to its start, and the draggable stays the active one.
\<close>

theorem escape_before_move_throws:
  assumes "ds_active s = Some n" and "g_delta (ds_objects s n) = None" and "\<not> g_clone (ds_objects s n)"
    and "go_ghosting (g_opt (ds_objects s n)) \<or>
      go_revert (g_opt (ds_objects s n)) \<noteq> NoRevert \<and> go_reverteffect (g_opt (ds_objects s n))"
  shows "snd (drag_keyPress hover True p s) \<and> ds_active (fst (drag_keyPress hover True p s)) = Some n"
  using assms
  by (auto simp: drag_keyPress_def finishDrag_def finish_drop_def finish_show_def Let_def on_object_def on_zones_def
    drop_element_def revert_drag_def)

section \<open>Samples\<close>

text \<open>A page with a list, an item in it and a box within the item, all of them places to drop on.\<close>

definition sample_doc :: doc where
  "sample_doc = \<lparr>par = (\<lambda>e. if e = 2 then Some 1 else if e = 3 then Some 2 else None),
     kids = (\<lambda>e. if e = 1 then [2] else if e = 2 then [3] else []), tag = (\<lambda>_. ''DIV''), ident = (\<lambda>_. []),
     klass = (\<lambda>_. []), box = (\<lambda>e. if e = 3 then (10, 10, 20, 20) else (0, 0, 100, 100)), treeNode = (\<lambda>_. None)\<rparr>"

definition sample_drop :: "nat \<Rightarrow> drop" where
  "sample_drop e = \<lparr>z_element = e, z_containers = None, z_tree = False, z_accept = None, z_hoverclass = Some ''over'',
     z_overlap = ''vertical'', z_onHover = None, z_onDrop = True\<rparr>"

definition sample_zones :: zones where
  "sample_zones = \<lparr>zs_doc = sample_doc, zs_drops = [sample_drop 3, sample_drop 1, sample_drop 2], zs_active = None,
     zs_hovers = [], zs_dropped = []\<rparr>"

definition sample_drag :: draggable where
  "sample_drag = \<lparr>g_element = 7,
     g_opt = \<lparr>go_delay = False, go_revert = Revert, go_reverteffect = True, go_quiet = False, go_ghosting = False,
       go_zindex = 1000, go_starteffect = True, go_endeffect = True, go_scroll = Some (0, 0, 500, 500),
       go_sensitivity = 20, go_scrollSpeed = 15, go_snap = NoSnap, go_constraint = Both, go_callbacks = [''onEnd'']\<rparr>,
     g_dragging = False, g_base = (30, 40), g_left = 0, g_top = 0, g_offset = (0, 0), g_delta = None, g_zIndex = 0,
     g_originalZ = None, g_clone = False, g_scroll = None, g_reverts = []\<rparr>"

definition sample_sys :: drag_sys where
  "sample_sys = \<lparr>ds_zones = sample_zones, ds_objects = (\<lambda>_. sample_drag), ds_drags = [0], ds_listening = True,
     ds_observers = [], ds_counts = (\<lambda>_. 0), ds_active = None, ds_timeout = None, ds_lastPointer = None,
     ds_busy = (\<lambda>_. False), ds_log = []\<rparr>"

lemma sample_wf: "wf_doc sample_doc"
proof -
  have r: "parent_rel sample_doc = {(2, 1), (3, 2)}"
    by (auto simp: parent_rel_def sample_doc_def split: if_splits)
  have "acyclic ({} :: (nat \<times> nat) set)" by (simp add: acyclic_def)
  then have "acyclic {(2::nat, 1::nat), (3, 2)}" by (simp add: acyclic_insert rtrancl_insert)
  moreover have "par sample_doc c = Some p \<longleftrightarrow> c \<in> set (kids sample_doc p)" for c p
    by (auto simp: sample_doc_def)
  moreover have "distinct (kids sample_doc p)" for p by (simp add: sample_doc_def)
  ultimately show ?thesis by (simp add: wf_doc_def r)
qed

theorem show_activates_innermost_witness:
  "zs_active (droppables_show (\<lambda>_ _ _ _ d. d) (15, 15) 7 sample_zones) = Some (sample_drop 3) \<and>
   isParent sample_doc 1 3 = Some False"
proof -
  have a: "zs_active (droppables_show (\<lambda>_ _ _ _ d. d) (15, 15) 7 sample_zones) = Some (sample_drop 3)" by code_simp
  show ?thesis
    using show_activates_innermost [where z = sample_zones and hover = "\<lambda>_ _ _ _ d. d" and point = "(15, 15)" and e = 7] sample_wf a
    by (simp add: sample_zones_def isAffected_def sample_drop_def pos_within_def sample_doc_def)
qed


text \<open>The sample drag at the border of its region, and right after the press.\<close>

definition sample_pressed :: drag_sys where
  "sample_pressed = initDrag (\<lambda>_. []) True ''LI'' (35, 45) 0 sample_sys"

definition sample_dragging :: drag_sys where
  "sample_dragging = updateDrag (\<lambda>_. []) (\<lambda>_ _ _ _ d. d) (495, 100) sample_pressed"

theorem escape_keeps_scrolling_witness:
  "g_scroll (ds_objects (fst (drag_keyPress (\<lambda>_ _ _ _ d. d) True (495, 100) sample_dragging)) 0) = Some (225, 0)"
proof -
  have "ds_active sample_dragging = Some 0" "g_dragging (ds_objects sample_dragging 0)"
    "can_finish (ds_objects sample_dragging 0)" "g_scroll (ds_objects sample_dragging 0) = Some (225, 0)"
    by code_simp+
  then show ?thesis
    using escape_keeps_scrolling [where s = sample_dragging and n = 0 and hover = "\<lambda>_ _ _ _ d. d" and p = "(495, 100)", OF _ _ _ refl refl] by simp
qed

theorem escape_before_move_throws_witness:
  "snd (drag_keyPress (\<lambda>_ _ _ _ d. d) True (35, 45) sample_pressed)"
proof -
  have "ds_active sample_pressed = Some 0" "g_delta (ds_objects sample_pressed 0) = None"
    "\<not> g_clone (ds_objects sample_pressed 0)" "go_revert (g_opt (ds_objects sample_pressed 0)) \<noteq> NoRevert"
    "go_reverteffect (g_opt (ds_objects sample_pressed 0))"
    by code_simp+
  then show ?thesis using escape_before_move_throws [where s = sample_pressed and n = 0 and hover = "\<lambda>_ _ _ _ d. d" and p = "(35, 45)"] by simp
qed

end
