(* ===== verification/Sortables.thy ===== *)
theory Sortables
  imports DragDrop ProtoHash
begin

text \<open>
  \<open>Sortable\<close> and \<open>SortableObserver\<close> of \<open>dragdrop.js\<close>: lists whose items are dragged to a new place,
  on the document of \<open>PageTree\<close> and the drags of \<open>DragDrop\<close>.  Operations that may raise return the
  state they have reached and a flag for the exception.  The identifiers are not names that
  \<open>Object.prototype\<close> defines, and the list nodes have no text nodes between them
  (\<open>cleanWhitespace\<close> removes them).
\<close>

section \<open>The options of a list\<close>

text \<open>
  \<open>so_starteffect\<close> and \<open>so_endeffect\<close> say whether the page gives effects of its own; \<open>so_format\<close>
  reads the part of an id that is serialised.
\<close>

record sortable =
  so_element :: nat
  so_tag :: string
  so_dropOnEmpty :: bool
  so_tree :: bool
  so_treeTag :: string
  so_overlap :: string
  so_constraint :: axis
  so_containment :: containment
  so_only :: "string list option"
  so_delay :: bool
  so_hoverclass :: "string option"
  so_ghosting :: bool
  so_quiet :: bool
  so_scroll :: "(int \<times> int \<times> int \<times> int) option"
  so_scrollSensitivity :: int
  so_scrollSpeed :: int
  so_zindex :: int
  so_starteffect :: bool
  so_endeffect :: bool
  so_elements :: "nat list option"
  so_format :: "string \<Rightarrow> string option"
  so_draggables :: "nat list"
  so_droppables :: "nat list"

text \<open>
  \<open>SERIALIZE_RULE\<close>: after the first character, which is no underscore and no hyphen, the rest of
  the last underscore in the run of letters, digits, hyphens and underscores.
\<close>

definition rule_char :: "char \<Rightarrow> bool" where
  "rule_char c \<longleftrightarrow> is_alpha c \<or> is_digit c \<or> c = CHR ''-'' \<or> c = CHR ''_''"

definition line_break :: "char \<Rightarrow> bool" where
  "line_break c \<longleftrightarrow> of_char c = (10 :: nat) \<or> of_char c = (13 :: nat)"

fun after_last_underscore :: "string \<Rightarrow> string option" where
  "after_last_underscore [] = None"
| "after_last_underscore (c # s) =
     (if \<not> rule_char c then None
      else case after_last_underscore s of
             Some r \<Rightarrow> Some r
           | None \<Rightarrow> if c = CHR ''_'' then Some s else None)"

definition serialize_rule :: "string \<Rightarrow> string option" where
  "serialize_rule s =
     (case s of
        [] \<Rightarrow> None
      | c # r \<Rightarrow>
          if c = CHR ''_'' \<or> c = CHR ''-'' then None
          else (case after_last_underscore r of
                  None \<Rightarrow> None
                | Some g \<Rightarrow> if list_ex line_break g then None else Some g))"

section \<open>The state\<close>

text \<open>
  The drags with the document, the lists by their ids, the number of the next draggable, the marker
  with its place and whether it is shown, the calls of \<open>onChange\<close> (the list and the item) and of
  \<open>onUpdate\<close>, the last value of the observer of a list, and the number of levels of the document.
\<close>

record sort_state =
  ss_drag :: drag_sys
  ss_sortables :: "sortable props"
  ss_next :: nat
  ss_marker :: "((int \<times> int) \<times> bool) option"
  ss_changes :: "(nat \<times> nat) list"
  ss_updates :: "nat list"
  ss_last :: "nat \<Rightarrow> string"
  ss_levels :: nat

definition sort_page :: "sort_state \<Rightarrow> doc" where
  "sort_page s = zs_doc (ds_zones (ss_drag s))"

definition set_page :: "doc \<Rightarrow> sort_state \<Rightarrow> sort_state" where
  "set_page d s = s\<lparr>ss_drag := on_zones (\<lambda>z. z\<lparr>zs_doc := d\<rparr>) (ss_drag s)\<rparr>"

definition and_then :: "'s \<times> bool \<Rightarrow> ('s \<Rightarrow> 's \<times> bool) \<Rightarrow> 's \<times> bool" where
  "and_then r f = (if snd r then r else f (fst r))"

section \<open>Finding the list of an element\<close>

datatype root = Root nat | NoRoot | RootThrows

text \<open>The loop goes up to the body of the page; above an element without parent it raises.\<close>

partial_function (option) findRootElement :: "sortable props \<Rightarrow> doc \<Rightarrow> nat option \<Rightarrow> root option" where
  "findRootElement sos d e =
     (case e of
        None \<Rightarrow> Some RootThrows
      | Some x \<Rightarrow>
          if to_upper_case (tag d x) = ''BODY'' then Some NoRoot
          else if ident d x \<noteq> [] \<and> map_of sos (ident d x) \<noteq> None then Some (Root x)
          else findRootElement sos d (par d x))"

declare findRootElement.simps [code]

text \<open>\<open>None\<close> is an exception, \<open>Some None\<close> is \<open>undefined\<close>.\<close>

definition sort_options :: "sortable props \<Rightarrow> doc \<Rightarrow> nat option \<Rightarrow> sortable option option" where
  "sort_options sos d e =
     (case findRootElement sos d e of
        Some (Root x) \<Rightarrow> Some (map_of sos (ident d x))
      | Some NoRoot \<Rightarrow> Some None
      | _ \<Rightarrow> None)"

definition options_of :: "sort_state \<Rightarrow> nat option \<Rightarrow> sortable option option" where
  "options_of s e = sort_options (ss_sortables s) (sort_page s) e"

definition findElements :: "nat \<Rightarrow> doc \<Rightarrow> nat \<Rightarrow> sortable \<Rightarrow> nat list option" where
  "findElements n d e so = findChildren (Suc n) d e (so_only so) (so_tree so) (so_tag so)"

definition findTreeElements :: "nat \<Rightarrow> doc \<Rightarrow> nat \<Rightarrow> sortable \<Rightarrow> nat list option" where
  "findTreeElements n d e so = findChildren (Suc n) d e (so_only so) (so_tree so) (so_treeTag so)"

text \<open>The call of \<open>onChange\<close> of the list of an element.\<close>

definition call_change :: "nat option \<Rightarrow> nat \<Rightarrow> sort_state \<Rightarrow> sort_state \<times> bool" where
  "call_change e item s =
     (case options_of s e of
        Some (Some so) \<Rightarrow> (s\<lparr>ss_changes := ss_changes s @ [(so_element so, item)]\<rparr>, False)
      | _ \<Rightarrow> (s, True))"

section \<open>The marker\<close>

definition unmark :: "sort_state \<Rightarrow> sort_state" where
  "unmark s = s\<lparr>ss_marker := map_option (\<lambda>m. (fst m, False)) (ss_marker s)\<rparr>"

definition place_marker :: "int \<times> int \<Rightarrow> sort_state \<Rightarrow> sort_state" where
  "place_marker p s =
     s\<lparr>ss_marker := Some (p, case ss_marker s of None \<Rightarrow> False | Some m \<Rightarrow> snd m)\<rparr>"

definition show_marker :: "sort_state \<Rightarrow> sort_state" where
  "show_marker s = s\<lparr>ss_marker := map_option (\<lambda>m. (fst m, True)) (ss_marker s)\<rparr>"

definition mark :: "nat \<Rightarrow> string \<Rightarrow> sort_state \<Rightarrow> sort_state \<times> bool" where
  "mark dropon position s =
     (case options_of s (par (sort_page s) dropon) of
        None \<Rightarrow> (s, True)
      | Some opt \<Rightarrow>
          if (case opt of None \<Rightarrow> False | Some so \<Rightarrow> \<not> so_ghosting so) then (s, False)
          else
            (case box (sort_page s) dropon of (l, t, w, h) \<Rightarrow>
               let s = place_marker (l, t) s
               in if position = ''after''
                  then (case opt of
                          None \<Rightarrow> (s, True)
                        | Some so \<Rightarrow>
                            (show_marker (place_marker (if so_overlap so = ''horizontal'' then (l + w, t) else (l, t + h)) s), False))
                  else (show_marker s, False)))"

section \<open>Hovering\<close>

text \<open>The item is put among the children of the parent of the element it is over.\<close>

definition move_item :: "nat \<Rightarrow> nat option \<Rightarrow> nat \<Rightarrow> sort_state \<Rightarrow> sort_state \<times> bool" where
  "move_item dropon ref item s =
     (case par (sort_page s) dropon of
        None \<Rightarrow> (s, True)
      | Some p \<Rightarrow>
          let old = par (sort_page s) item
          in case insertBefore p item ref (sort_page s) of
               None \<Rightarrow> (s, True)
             | Some d \<Rightarrow>
                 let s = set_page d s
                 in and_then (if Some p \<noteq> old then call_change old item s else (s, False)) (call_change (Some p) item))"

definition hover_before :: "nat \<Rightarrow> nat \<Rightarrow> sort_state \<Rightarrow> sort_state \<times> bool" where
  "hover_before item dropon s =
     and_then (mark dropon ''before'' s)
       (\<lambda>s. if previousSibling (sort_page s) dropon \<noteq> Some item then move_item dropon (Some dropon) item s else (s, False))"

definition hover_after :: "nat \<Rightarrow> nat \<Rightarrow> sort_state \<Rightarrow> sort_state \<times> bool" where
  "hover_after item dropon s =
     and_then (mark dropon ''after'' s)
       (\<lambda>s. let nextElement = nextSibling (sort_page s) dropon
            in if nextElement \<noteq> Some item then move_item dropon nextElement item s else (s, False))"

definition sort_onHover :: "nat \<Rightarrow> nat \<Rightarrow> real \<Rightarrow> sort_state \<Rightarrow> sort_state \<times> bool" where
  "sort_onHover item dropon overlap s =
     (if isParent (sort_page s) dropon item = Some True then (s, False)
      else
        let choice = (if overlap > 1/2 then hover_before item dropon s else hover_after item dropon s)
        in if 33/100 < overlap \<and> overlap < 66/100
           then (case options_of s (Some dropon) of
                   Some (Some so) \<Rightarrow> if so_tree so then (s, False) else choice
                 | _ \<Rightarrow> (s, True))
           else choice)"

text \<open>The loop over the children: the first one that the offset does not pass.\<close>

fun hover_child :: "doc \<Rightarrow> string \<Rightarrow> nat list \<Rightarrow> real \<Rightarrow> nat option" where
  "hover_child d overlap [] offset = None"
| "hover_child d overlap (c # cs) offset =
     (let w = real_of_int (offsetSize d c overlap)
      in if offset - w \<ge> 0 then hover_child d overlap cs (offset - w)
         else if offset - w / 2 \<ge> 0 then (case cs of [] \<Rightarrow> None | c' # _ \<Rightarrow> Some c')
         else Some c)"

definition empty_child :: "sortable \<Rightarrow> nat \<Rightarrow> real \<Rightarrow> doc \<Rightarrow> nat option" where
  "empty_child so dropon overlap d =
     (case findChildren 1 d dropon (so_only so) False (so_tag so) of
        None \<Rightarrow> None
      | Some children \<Rightarrow>
          hover_child d (so_overlap so) children (real_of_int (offsetSize d dropon (so_overlap so)) * (1 - overlap)))"

definition onEmptyHover :: "nat \<Rightarrow> nat \<Rightarrow> real \<Rightarrow> sort_state \<Rightarrow> sort_state \<times> bool" where
  "onEmptyHover item dropon overlap s =
     (case options_of s (Some dropon) of
        None \<Rightarrow> (s, True)
      | Some opt \<Rightarrow>
          let old = par (sort_page s) item
          in if isParent (sort_page s) dropon item = Some True then (s, False)
             else
               (case opt of
                  None \<Rightarrow> (s, True)
                | Some so \<Rightarrow>
                    (case insertBefore dropon item (empty_child so dropon overlap (sort_page s)) (sort_page s) of
                       None \<Rightarrow> (s, True)
                     | Some d \<Rightarrow>
                         let s = set_page d s
                         in and_then (call_change old item s)
                              (\<lambda>s. (s\<lparr>ss_changes := ss_changes s @ [(so_element so, item)]\<rparr>, False)))))"

text \<open>What the places of the lists do to the document while an item is over them.\<close>

definition sort_hover :: "sort_state \<Rightarrow> hover_fn" where
  "sort_hover s h item dropon overlap d =
     (case h of
        PageHover \<Rightarrow> d
      | SortableHover \<Rightarrow> sort_page (fst (sort_onHover item dropon overlap (set_page d s)))
      | SortableEmptyHover \<Rightarrow> sort_page (fst (onEmptyHover item dropon overlap (set_page d s))))"

section \<open>Reading and setting the order\<close>

definition item_ids :: "(string \<Rightarrow> string option) \<Rightarrow> doc \<Rightarrow> nat list \<Rightarrow> string list" where
  "item_ids format d es = map (\<lambda>e. case format (ident d e) of None \<Rightarrow> [] | Some i \<Rightarrow> i) es"

definition sequence :: "nat \<Rightarrow> sort_state \<Rightarrow> string list option" where
  "sequence e s =
     (case options_of s (Some e) of
        Some (Some so) \<Rightarrow>
          Some (item_ids (so_format so) (sort_page s)
                 (case findElements (ss_levels s) (sort_page s) e so of None \<Rightarrow> [] | Some es \<Rightarrow> es))
      | _ \<Rightarrow> None)"

text \<open>The first loop of \<open>setSequence\<close> takes the items out of the document.\<close>

definition take_item :: "(string \<Rightarrow> string option) \<Rightarrow> (nat \<times> nat option) props \<times> doc \<Rightarrow> nat \<Rightarrow> (nat \<times> nat option) props \<times> doc" where
  "take_item format st n =
     (let (nodeMap, d) = st;
          nodeMap = (case format (ident d n) of None \<Rightarrow> nodeMap | Some i \<Rightarrow> AList.update i (n, par d n) nodeMap)
      in (nodeMap, removeChild n d))"

text \<open>The second loop puts those back that the new sequence names.\<close>

definition put_item :: "(nat \<times> nat option) props \<times> doc \<Rightarrow> string \<Rightarrow> (nat \<times> nat option) props \<times> doc" where
  "put_item st i =
     (let (nodeMap, d) = st
      in case map_of nodeMap i of
           Some (n, Some p) \<Rightarrow>
             (AList.delete i nodeMap, case appendChild p n d of None \<Rightarrow> d | Some d' \<Rightarrow> d')
         | _ \<Rightarrow> st)"

definition setSequence :: "nat \<Rightarrow> string list \<Rightarrow> sort_state \<Rightarrow> sort_state \<times> bool" where
  "setSequence e new s =
     (case options_of s (Some e) of
        Some (Some so) \<Rightarrow>
          (case findElements (ss_levels s) (sort_page s) e so of
             None \<Rightarrow> (s, True)
           | Some es \<Rightarrow> (set_page (snd (foldl put_item (foldl (take_item (so_format so)) ([], sort_page s) es) new)) s, False))
      | _ \<Rightarrow> (s, True))"

section \<open>Serialising\<close>

datatype tree_item = Item (it_id: string) (it_position: nat) (it_children: "tree_item list")

text \<open>\<open>_tree\<close>; a document with \<open>n\<close> levels has no deeper lists.\<close>

definition down_tag :: "nat \<Rightarrow> doc \<Rightarrow> string \<Rightarrow> nat \<Rightarrow> nat option" where
  "down_tag n d t e =
     (case findChildren (Suc n) d e None True t of Some (x # _) \<Rightarrow> Some x | _ \<Rightarrow> None)"

fun tree_of :: "nat \<Rightarrow> nat \<Rightarrow> doc \<Rightarrow> sortable \<Rightarrow> nat \<Rightarrow> tree_item list" where
  "tree_of 0 n d so e = []"
| "tree_of (Suc k) n d so e =
     foldl (\<lambda>items c.
       case so_format so (ident d c) of
         None \<Rightarrow> items
       | Some i \<Rightarrow>
           items @ [Item (encodeURIComponent i) (length items)
             (case down_tag n d (so_treeTag so) c of None \<Rightarrow> [] | Some container \<Rightarrow> tree_of k n d so container)])
       [] (case findChildren 1 d e (so_only so) False (so_tag so) of None \<Rightarrow> [] | Some es \<Rightarrow> es)"

text \<open>The lines of a tree, with the index of \<open>_constructIndex\<close>, which skips empty ids.\<close>

primrec tree_lines :: "string \<Rightarrow> string \<Rightarrow> tree_item \<Rightarrow> string list" where
  "tree_lines name index (Item i position items) =
     (let index = (if i \<noteq> [] then index @ ''['' @ nat_to_string position @ '']'' else index)
      in (name @ index @ ''[id]='' @ encodeURIComponent i) # concat (map (tree_lines name index) items))"

definition serialize :: "nat \<Rightarrow> sort_state \<Rightarrow> string option" where
  "serialize e s =
     (let name = encodeURIComponent (ident (sort_page s) e)
      in case options_of s (Some e) of
           Some (Some so) \<Rightarrow>
             if so_tree so
             then Some (join ''&'' (concat (map (tree_lines name []) (tree_of (Suc (ss_levels s)) (ss_levels s) (sort_page s) so e))))
             else map_option (\<lambda>is. join ''&'' (map (\<lambda>i. name @ ''[]='' @ encodeURIComponent i) is)) (sequence e s)
         | _ \<Rightarrow> None)"

section \<open>The observer of a list\<close>

definition observer_onStart :: "nat \<Rightarrow> sort_state \<Rightarrow> sort_state \<times> bool" where
  "observer_onStart e s =
     (case serialize e s of None \<Rightarrow> (s, True) | Some v \<Rightarrow> (s\<lparr>ss_last := (ss_last s)(e := v)\<rparr>, False))"

definition observer_onEnd :: "nat \<Rightarrow> sort_state \<Rightarrow> sort_state \<times> bool" where
  "observer_onEnd e s =
     (let s = unmark s
      in case serialize e s of
           None \<Rightarrow> (s, True)
         | Some v \<Rightarrow> (if ss_last s e \<noteq> v then s\<lparr>ss_updates := ss_updates s @ [e]\<rparr> else s, False))"

section \<open>Making and removing a list\<close>

definition sort_destroy :: "nat \<Rightarrow> sort_state \<Rightarrow> sort_state" where
  "sort_destroy e s =
     (case map_of (ss_sortables s) (ident (sort_page s) e) of
        None \<Rightarrow> s
      | Some so \<Rightarrow>
          let s = s\<lparr>ss_drag := removeObserver (so_element so) (ss_drag s)\<rparr>;
              s = s\<lparr>ss_drag := on_zones (\<lambda>z. foldl (\<lambda>z x. droppables_remove x z) z (so_droppables so)) (ss_drag s)\<rparr>;
              s = s\<lparr>ss_drag := foldl (\<lambda>g n. drag_destroy n g) (ss_drag s) (so_draggables so)\<rparr>
          in s\<lparr>ss_sortables := AList.delete (ident (sort_page s) (so_element so)) (ss_sortables s)\<rparr>)"

definition drag_options_of :: "sortable \<Rightarrow> drag_options" where
  "drag_options_of so = \<lparr>go_delay = so_delay so, go_revert = Revert, go_reverteffect = True, go_quiet = so_quiet so,
     go_ghosting = so_ghosting so, go_zindex = (if so_zindex so = 0 then 1000 else so_zindex so),
     go_starteffect = (\<not> so_starteffect so \<and> \<not> so_endeffect so), go_endeffect = (\<not> so_endeffect so),
     go_scroll = so_scroll so, go_sensitivity = so_scrollSensitivity so, go_scrollSpeed = so_scrollSpeed so,
     go_snap = NoSnap, go_constraint = so_constraint so, go_callbacks = []\<rparr>"

definition drop_of :: "sortable \<Rightarrow> hover \<Rightarrow> bool \<Rightarrow> nat \<Rightarrow> drop" where
  "drop_of so h tree e = \<lparr>z_element = e, z_containers = None, z_tree = tree, z_accept = None, z_hoverclass = so_hoverclass so,
     z_overlap = so_overlap so, z_onHover = Some h, z_onDrop = False\<rparr>"

text \<open>\<open>layout\<close> gives the place of an element that becomes draggable.\<close>

definition add_zone :: "hover \<Rightarrow> bool \<Rightarrow> nat \<Rightarrow> sortable \<times> drag_sys \<Rightarrow> sortable \<times> drag_sys" where
  "add_zone h tree e st =
     (let (so, g) = st
      in (so\<lparr>so_droppables := so_droppables so @ [e]\<rparr>, on_zones (droppables_add (drop_of so h tree e) (so_containment so)) g))"

definition set_treeNode :: "nat \<Rightarrow> nat \<Rightarrow> sortable \<times> drag_sys \<Rightarrow> sortable \<times> drag_sys" where
  "set_treeNode base e st =
     (fst st, on_zones (\<lambda>z. z\<lparr>zs_doc := (zs_doc z)\<lparr>treeNode := (treeNode (zs_doc z))(e := Some base)\<rparr>\<rparr>) (snd st))"

definition add_item :: "(nat \<Rightarrow> draggable) \<Rightarrow> nat \<Rightarrow> sortable \<times> drag_sys \<Rightarrow> nat \<times> nat \<Rightarrow> sortable \<times> drag_sys" where
  "add_item layout base st ne =
     (let (n, e) = ne; (so, g) = st;
          st = (so\<lparr>so_draggables := so_draggables so @ [n]\<rparr>,
                new_draggable n ((layout e)\<lparr>g_element := e, g_opt := drag_options_of so\<rparr>) g);
          st = add_zone SortableHover (so_tree so) e st
      in if so_tree so then set_treeNode base e st else st)"

definition add_tree :: "nat \<Rightarrow> sortable \<times> drag_sys \<Rightarrow> nat \<Rightarrow> sortable \<times> drag_sys" where
  "add_tree base st e = set_treeNode base e (add_zone SortableEmptyHover False e st)"

definition sort_items :: "nat \<Rightarrow> doc \<Rightarrow> sortable \<Rightarrow> nat list" where
  "sort_items n d so =
     (case so_elements so of
        Some es \<Rightarrow> es
      | None \<Rightarrow> (case findElements n d (so_element so) so of None \<Rightarrow> [] | Some es \<Rightarrow> es))"

definition register_list :: "(nat \<Rightarrow> draggable) \<Rightarrow> sortable \<Rightarrow> sort_state \<Rightarrow> sort_state" where
  "register_list layout so s =
     (let e = so_element so;
          st = (so\<lparr>so_draggables := [], so_droppables := []\<rparr>, ss_drag s);
          st = (if so_dropOnEmpty so \<or> so_tree so then add_zone SortableEmptyHover False e st else st);
          items = sort_items (ss_levels s) (sort_page s) so;
          st = foldl (add_item layout e) st (zip [ss_next s..<ss_next s + length items] items);
          (so, g) = (if so_tree so
                    then foldl (add_tree e) st (case findTreeElements (ss_levels s) (sort_page s) e so of None \<Rightarrow> [] | Some es \<Rightarrow> es)
                    else st)
      in s\<lparr>ss_drag := g, ss_next := ss_next s + length items,
           ss_sortables := AList.update (ident (sort_page s) e) so (ss_sortables s)\<rparr>)"

definition sort_create :: "(nat \<Rightarrow> draggable) \<Rightarrow> sortable \<Rightarrow> sort_state \<Rightarrow> sort_state \<times> bool" where
  "sort_create layout so s =
     (let s = register_list layout so (sort_destroy (so_element so) s)
      in case serialize (so_element so) s of
           None \<Rightarrow> (s, True)
         | Some v \<Rightarrow>
             (s\<lparr>ss_last := (ss_last s)(so_element so := v),
                ss_drag := addObserver \<lparr>ob_element = so_element so, ob_events = [''onStart'', ''onEnd'']\<rparr> (ss_drag s)\<rparr>, False))"

section \<open>Sorting loses no element\<close>

lemma page_set_page [simp]: "sort_page (set_page d s) = d"
  by (simp add: sort_page_def set_page_def on_zones_def)

lemma set_page_sortables [simp]: "ss_sortables (set_page d s) = ss_sortables s"
  by (simp add: set_page_def)

lemma marker_frame [simp]:
  "sort_page (place_marker p s) = sort_page s" "sort_page (show_marker s) = sort_page s" "sort_page (unmark s) = sort_page s"
  "ss_sortables (place_marker p s) = ss_sortables s" "ss_sortables (show_marker s) = ss_sortables s"
  "ss_sortables (unmark s) = ss_sortables s" "ss_levels (unmark s) = ss_levels s" "ss_last (unmark s) = ss_last s"
  "ss_updates (unmark s) = ss_updates s"
  by (simp_all add: sort_page_def place_marker_def show_marker_def unmark_def)

lemma changes_frame [simp]: "sort_page (s\<lparr>ss_changes := c\<rparr>) = sort_page s"
  by (simp add: sort_page_def)

lemma mark_frame [simp]:
  "sort_page (fst (mark dropon position s)) = sort_page s" "ss_sortables (fst (mark dropon position s)) = ss_sortables s"
  by (auto simp: mark_def Let_def split: option.split prod.split)

lemma call_change_frame [simp]:
  "sort_page (fst (call_change e item s)) = sort_page s" "ss_sortables (fst (call_change e item s)) = ss_sortables s"
  by (auto simp: call_change_def sort_page_def split: option.split)

text \<open>What moving an item keeps: the document is a tree, no other element changes its parent or its
  place among the others, and the item is in the document.\<close>

definition keeps_others :: "nat \<Rightarrow> doc \<Rightarrow> doc \<Rightarrow> bool" where
  "keeps_others item d d' \<longleftrightarrow> wf_doc d' \<and>
     (\<forall>q. filter (\<lambda>x. x \<noteq> item) (kids d' q) = filter (\<lambda>x. x \<noteq> item) (kids d q)) \<and>
     (\<forall>c. c \<noteq> item \<longrightarrow> par d' c = par d c) \<and> (par d item \<noteq> None \<longrightarrow> par d' item \<noteq> None)"

lemma keeps_refl: "wf_doc d \<Longrightarrow> keeps_others item d d"
  by (simp add: keeps_others_def)

lemma keeps_trans: "keeps_others item a b \<Longrightarrow> keeps_others item b c \<Longrightarrow> keeps_others item a c"
  by (simp add: keeps_others_def)

lemma keeps_wf: "keeps_others item a b \<Longrightarrow> wf_doc b"
  by (simp add: keeps_others_def)

lemma insert_keeps: "wf_doc d \<Longrightarrow> insertBefore p item ref d = Some d' \<Longrightarrow> keeps_others item d d'"
  by (simp add: keeps_others_def insertBefore_wf insertBefore_others insertBefore_frame(1))

lemma and_then_page:
  assumes "sort_page (fst r) = d" "\<And>s. sort_page s = d \<Longrightarrow> sort_page (fst (f s)) = d"
  shows "sort_page (fst (and_then r f)) = d"
  using assms by (simp add: and_then_def)

lemma move_item_keeps:
  assumes "wf_doc (sort_page s)"
  shows "keeps_others item (sort_page s) (sort_page (fst (move_item dropon ref item s)))"
proof (cases "\<exists>p d. par (sort_page s) dropon = Some p \<and> insertBefore p item ref (sort_page s) = Some d")
  case True
  then obtain p d where pd: "par (sort_page s) dropon = Some p" "insertBefore p item ref (sort_page s) = Some d" by blast
  have "sort_page (fst (move_item dropon ref item s)) = d"
    by (auto simp: move_item_def pd Let_def intro!: and_then_page)
  then show ?thesis using insert_keeps [OF assms pd(2)] by simp
qed (use assms in \<open>auto simp: move_item_def keeps_refl Let_def split: option.splits\<close>)

lemma move_item_keeps_at: "sort_page t = d \<Longrightarrow> wf_doc d \<Longrightarrow> keeps_others item d (sort_page (fst (move_item dropon ref item t)))"
  using move_item_keeps by blast

lemma and_then_keeps:
  assumes "sort_page (fst r) = d" "\<And>s. sort_page s = d \<Longrightarrow> keeps_others item d (sort_page (fst (f s)))" "wf_doc d"
  shows "keeps_others item d (sort_page (fst (and_then r f)))"
  using assms by (simp add: and_then_def keeps_refl)

lemma hover_before_keeps:
  "wf_doc (sort_page s) \<Longrightarrow> keeps_others item (sort_page s) (sort_page (fst (hover_before item dropon s)))"
  unfolding hover_before_def by (rule and_then_keeps) (simp_all add: move_item_keeps_at keeps_refl)

lemma hover_after_keeps:
  "wf_doc (sort_page s) \<Longrightarrow> keeps_others item (sort_page s) (sort_page (fst (hover_after item dropon s)))"
  unfolding hover_after_def Let_def by (rule and_then_keeps) (simp_all add: move_item_keeps_at keeps_refl)

lemma sort_onHover_keeps:
  "wf_doc (sort_page s) \<Longrightarrow> keeps_others item (sort_page s) (sort_page (fst (sort_onHover item dropon overlap s)))"
  using hover_before_keeps hover_after_keeps keeps_refl
  by (auto simp: sort_onHover_def Let_def split: option.split)

lemma onEmptyHover_keeps:
  assumes "wf_doc (sort_page s)"
  shows "keeps_others item (sort_page s) (sort_page (fst (onEmptyHover item dropon overlap s)))"
proof (cases "\<exists>so d. options_of s (Some dropon) = Some (Some so) \<and>
    insertBefore dropon item (empty_child so dropon overlap (sort_page s)) (sort_page s) = Some d")
  case True
  then obtain so d where sd: "options_of s (Some dropon) = Some (Some so)"
    "insertBefore dropon item (empty_child so dropon overlap (sort_page s)) (sort_page s) = Some d" by blast
  have "sort_page (fst (and_then (call_change old item (set_page d s))
      (\<lambda>s. (s\<lparr>ss_changes := ss_changes s @ [(so_element so, item)]\<rparr>, False)))) = d" for old
    by (rule and_then_page) simp_all
  then show ?thesis
    using insert_keeps [OF assms sd(2)] assms sd by (simp add: onEmptyHover_def Let_def keeps_refl)
qed (use assms in \<open>auto simp: onEmptyHover_def keeps_refl Let_def split: option.splits\<close>)

lemma sort_hover_keeps: "wf_doc d \<Longrightarrow> keeps_others item d (sort_hover s h item dropon overlap d)"
  using sort_onHover_keeps [of "set_page d s"] onEmptyHover_keeps [of "set_page d s"]
  by (simp add: sort_hover_def keeps_refl split: hover.split)

text \<open>Class names are no part of the tree.\<close>

lemma klass_wf: "wf_doc (d\<lparr>klass := k\<rparr>) \<longleftrightarrow> wf_doc d"
  by (simp add: wf_doc_def parent_rel_def)

lemma klass_keeps: "keeps_others item d (d'\<lparr>klass := k\<rparr>) \<longleftrightarrow> keeps_others item d d'"
  by (simp add: keeps_others_def klass_wf)

lemma class_keeps:
  "keeps_others item d (zs_doc z) \<Longrightarrow> keeps_others item d (zs_doc (drop_activate a z))"
  "keeps_others item d (zs_doc z) \<Longrightarrow> keeps_others item d (zs_doc (drop_deactivate a z))"
  by (auto simp: drop_activate_def drop_deactivate_def Let_def addClassName_def removeClassName_def klass_keeps
      split: option.split)

lemma hover_keeps:
  "keeps_others item d (zs_doc z) \<Longrightarrow> keeps_others item d (zs_doc (drop_hover (sort_hover s) p item a z))"
  using keeps_trans sort_hover_keeps keeps_wf by (fastforce simp: drop_hover_def Let_def split: option.split)

lemma show_keeps:
  assumes "wf_doc (zs_doc z)"
  shows "keeps_others item (zs_doc z) (zs_doc (droppables_show (sort_hover s) p item z))"
proof -
  have "keeps_others item (zs_doc z) (zs_doc (leave_active dr z))" for dr
    using assms by (auto simp: leave_active_def keeps_refl intro: class_keeps split: option.split)
  then show ?thesis
    using assms by (auto simp: droppables_show_def Let_def keeps_refl intro!: class_keeps hover_keeps split: option.split)
qed

lemma update_keeps:
  assumes "ds_active g = Some n" "g_element (ds_objects g n) = item" "wf_doc (zs_doc (ds_zones g))"
  shows "keeps_others item (zs_doc (ds_zones g)) (zs_doc (ds_zones (updateDrag key (sort_hover s) p g))) \<and>
    ds_active (updateDrag key (sort_hover s) p g) = Some n \<and>
    g_element (ds_objects (updateDrag key (sort_hover s) p g) n) = item"
proof -
  have st: "ds_zones (startDrag key n g) = ds_zones g" for g
    by (simp add: startDrag_def Let_def on_object_def)
  have el: "g_element (start_fields g) = g_element g" "g_element (draw p g) = g_element g"
    "g_element (drag_scroll p g) = g_element g" for g
    by (simp_all add: start_fields_def draw_def drag_scroll_def startScrolling_def stopScrolling_def Let_def split: option.split)
  have "keeps_others item (zs_doc (ds_zones g)) (zs_doc (ds_zones (drag_update key (sort_hover s) p n g)))"
    if "g_element (ds_objects g n) = item" "wf_doc (zs_doc (ds_zones g))" for g
    using that show_keeps keeps_refl st
    by (auto simp: drag_update_def Let_def on_object_def on_zones_def start_frame el)
  from this [of "g\<lparr>ds_lastPointer := Some p\<rparr>"] show ?thesis
    using assms by (auto simp: updateDrag_def drag_update_object el keeps_refl)
qed


section \<open>Where a hover puts the item\<close>

text \<open>The search for the list of an element ends on every document.\<close>

lemma findRootElement_ends:
  assumes wd: "wf_doc d"
  shows "\<exists>r. findRootElement sos d e = Some r"
proof (cases e)
  case None
  then show ?thesis by (simp add: findRootElement.simps)
next
  case (Some x)
  have "\<exists>r. findRootElement sos d (Some x) = Some r" for x
  proof (induction x rule: wf_induct_rule [OF parent_wf [OF wd]])
    case (1 x)
    then show ?case
    proof (cases "par d x")
      case None
      then show ?thesis by (simp add: findRootElement.simps [of sos d "Some x"] findRootElement.simps [of sos d None])
    next
      case (Some p)
      then show ?thesis using 1 [of p] by (simp add: findRootElement.simps [of sos d "Some x"] parent_rel_def)
    qed
  qed
  then show ?thesis using Some by blast
qed

text \<open>It does not see an item that moves elsewhere.\<close>

lemma findRootElement_moved:
  assumes wd: "wf_doc d" and "par d' = (par d)(item := p)" "ident d' = ident d" "tag d' = tag d"
    and "x \<noteq> item" "(x, item) \<notin> (parent_rel d)\<^sup>+"
  shows "findRootElement sos d' (Some x) = findRootElement sos d (Some x)"
  using assms(5,6)
proof (induction x rule: wf_induct_rule [OF parent_wf [OF wd]])
  case (1 x)
  have eq: "par d' x = par d x" "ident d' x = ident d x" "tag d' x = tag d x" using 1(2) assms(2-4) by simp_all
  show ?case
  proof (cases "par d x")
    case None
    then show ?thesis
      by (simp add: findRootElement.simps [of sos d "Some x"] findRootElement.simps [of sos d' "Some x"] eq
          findRootElement.simps [of sos d None] findRootElement.simps [of sos d' None])
  next
    case (Some q)
    have q: "(x, q) \<in> parent_rel d" using Some by (simp add: parent_rel_def)
    then have "q \<noteq> item" "(q, item) \<notin> (parent_rel d)\<^sup>+" using 1(3) by (auto intro: trancl_into_trancl2)
    then have "findRootElement sos d' (Some q) = findRootElement sos d (Some q)" using 1(1) q by blast
    then show ?thesis
      using Some by (simp add: findRootElement.simps [of sos d "Some x"] findRootElement.simps [of sos d' "Some x"] eq)
  qed
qed

lemma options_moved:
  assumes "wf_doc (sort_page s)" "insertBefore p item ref (sort_page s) = Some d"
    and "x \<noteq> item" "(x, item) \<notin> (parent_rel (sort_page s))\<^sup>+" "sort_page t = d" "ss_sortables t = ss_sortables s"
  shows "options_of t (Some x) = options_of s (Some x)"
  using findRootElement_moved [OF assms(1) insertBefore_frame(1,4,5) [OF assms(1,2)] assms(3,4)] assms(5,6)
    insertBefore_frame(4) [OF assms(1,2)]
  by (simp add: options_of_def sort_options_def split: option.split root.split)

lemma inserted_before:
  assumes wd: "wf_doc d" and i: "insertBefore p e (Some r) d = Some d'" and "r \<noteq> e"
  shows "nextSibling d' e = Some r"
proof -
  note fr = insertBefore_frame [OF wd i]
  let ?xs = "filter (\<lambda>x. x \<noteq> e) (kids d p)"
  have r: "r \<in> set ?xs" "distinct ?xs" using fr(10) assms(3) wd by (simp_all add: wf_doc_def)
  obtain ys zs where "dropWhile (\<lambda>u. u \<noteq> r) ?xs = r # zs" "takeWhile (\<lambda>u. u \<noteq> r) ?xs = ys"
    using dropWhile_next [OF r(2,1)] by blast
  then have "kids d' p = ys @ e # r # zs" using assms(3) by (simp add: fr(2) settle_ref_def place_before_def)
  moreover have "par d' e = Some p" by (simp add: fr(1))
  ultimately show ?thesis using nextSibling_at [OF insertBefore_wf [OF wd i]] by blast
qed

lemma inserted_after:
  assumes wd: "wf_doc d" and pr: "par d r = Some p" and i: "insertBefore p e (nextSibling d r) d = Some d'"
    and "r \<noteq> e" "nextSibling d r \<noteq> Some e"
  shows "nextSibling d' r = Some e"
proof -
  note fr = insertBefore_frame [OF wd i]
  have r: "r \<in> set (kids d p)" "distinct (kids d p)" using wd pr by (simp_all add: wf_doc_def)
  obtain ys zs where yz: "kids d p = ys @ r # zs" "r \<notin> set ys" using split_list_first [OF r(1)] by blast
  let ?f = "filter (\<lambda>x. x \<noteq> e)"
  have "\<exists>us. kids d' p = ?f ys @ r # e # us"
  proof (cases zs)
    case Nil
    have "dropWhile (\<lambda>x. x \<noteq> r) (kids d p) = [r]" using yz Nil by (simp add: dropWhile_append)
    then have "nextSibling d r = None" using pr by (simp add: nextSibling_def)
    then show ?thesis using assms(4) yz Nil by (simp add: fr(2) settle_ref_def place_before_def)
  next
    case (Cons y us)
    have n: "nextSibling d r = Some y" using nextSibling_at [OF wd pr] yz(1) Cons by blast
    then have ye: "y \<noteq> e" using assms(5) by simp
    have k: "?f (kids d p) = (?f ys @ [r]) @ y # ?f us" using yz(1) Cons assms(4) ye by simp
    have "y \<notin> set (?f ys @ [r])" using r(2) yz(1) Cons by auto
    then have "takeWhile (\<lambda>u. u \<noteq> y) (?f (kids d p)) = ?f ys @ [r]" "dropWhile (\<lambda>u. u \<noteq> y) (?f (kids d p)) = y # ?f us"
      unfolding k by (auto simp: takeWhile_append dropWhile_append)
    then show ?thesis using n ye by (simp add: fr(2) settle_ref_def place_before_def)
  qed
  moreover have "par d' r = Some p" using pr assms(4) by (simp add: fr(1))
  ultimately show ?thesis using nextSibling_at [OF insertBefore_wf [OF wd i]] by blast
qed

text \<open>A move between lists that are both known ends without exception.\<close>

lemma move_item_ok:
  assumes wd: "wf_doc (sort_page s)" and pd: "par (sort_page s) dropon = Some p" and pi: "par (sort_page s) item = Some q"
    and ok: "\<exists>so. options_of s (Some p) = Some (Some so)" "\<exists>so. options_of s (Some q) = Some (Some so)"
    and up: "isParent (sort_page s) dropon item = Some False" and r: "\<forall>r. ref = Some r \<longrightarrow> r \<in> set (kids (sort_page s) p)"
  shows "\<exists>d. insertBefore p item ref (sort_page s) = Some d \<and> sort_page (fst (move_item dropon ref item s)) = d \<and>
    \<not> snd (move_item dropon ref item s)"
proof -
  have pr: "(dropon, p) \<in> parent_rel (sort_page s)" "(item, q) \<in> parent_rel (sort_page s)" using pd pi by (simp_all add: par_rel)
  have no: "p \<noteq> item" "(p, item) \<notin> (parent_rel (sort_page s))\<^sup>+"
    using isParent_iff [OF wd, of dropon item] up pr(1) by (auto intro: trancl_into_trancl2)
  have qi: "q \<noteq> item" "(q, item) \<notin> (parent_rel (sort_page s))\<^sup>+"
    using wd pr(2) by (auto simp: wf_doc_def acyclic_def intro: trancl_into_trancl2)
  obtain d where d: "insertBefore p item ref (sort_page s) = Some d" using insertBefore_some [OF wd no r] by blast
  have op: "\<exists>so. options_of t (Some p) = Some (Some so)" "\<exists>so. options_of t (Some q) = Some (Some so)"
    if "sort_page t = d" "ss_sortables t = ss_sortables s" for t
    using options_moved [OF wd d no that] options_moved [OF wd d qi that] ok by simp_all
  have c: "\<not> snd (call_change (Some p) item t)" "\<not> snd (call_change (Some q) item t)"
    if "sort_page t = d" "ss_sortables t = ss_sortables s" for t
    using op [OF that] by (auto simp: call_change_def)
  have "sort_page (fst (move_item dropon ref item s)) = d"
    by (auto simp: move_item_def pd d Let_def intro!: and_then_page)
  moreover have "\<not> snd (move_item dropon ref item s)"
    using c by (simp add: move_item_def pd pi d Let_def and_then_def)
  ultimately show ?thesis using d by blast
qed

lemma sort_mark_ok: "options_of s (par (sort_page s) dropon) = Some (Some so) \<Longrightarrow> \<not> snd (mark dropon position s)"
  by (auto simp: mark_def Let_def split: prod.split)

lemma mark_options [simp]: "options_of (fst (mark dropon position s)) e = options_of s e"
  by (simp add: options_of_def)

text \<open>
  C24. Hovering over an item of a list that is no tree: in the first half (an overlap above one half)
  the dragged item comes right before the other one, in the second half right after it, and no
  exception is raised.
\<close>

theorem hover_places_item:
  assumes wd: "wf_doc (sort_page s)" and pd: "par (sort_page s) dropon = Some p" and pi: "par (sort_page s) item = Some q"
    and ok: "options_of s (Some p) = Some (Some so)" "options_of s (Some q) = Some (Some so')"
    and dr: "options_of s (Some dropon) = Some (Some so'')" "\<not> so_tree so''"
    and up: "isParent (sort_page s) dropon item = Some False" and ne: "dropon \<noteq> item"
    and res: "(s', thrown) = sort_onHover item dropon overlap s"
  shows "\<not> thrown \<and>
    (if overlap > 1/2 then nextSibling (sort_page s') item = Some dropon else nextSibling (sort_page s') dropon = Some item)"
proof -
  have h: "(s', thrown) = (if overlap > 1/2 then hover_before item dropon s else hover_after item dropon s)"
    using res up dr by (simp add: sort_onHover_def Let_def split: if_splits)
  let ?t = "\<lambda>position. fst (mark dropon position s)"
  have t: "wf_doc (sort_page (?t position))" "par (sort_page (?t position)) dropon = Some p" "par (sort_page (?t position)) item = Some q"
    "\<exists>so. options_of (?t position) (Some p) = Some (Some so)" "\<exists>so. options_of (?t position) (Some q) = Some (Some so)"
    "isParent (sort_page (?t position)) dropon item = Some False" for position
    using wd pd pi ok up by simp_all
  have mk: "\<not> snd (mark dropon position s)" for position using sort_mark_ok ok(1) pd by simp
  have mem: "dropon \<in> set (kids (sort_page s) p)" using wd pd by (simp add: wf_doc_def)
  show ?thesis
  proof (cases "overlap > 1/2")
    case True
    let ?m = "move_item dropon (Some dropon) item (?t ''before'')"
    obtain d where d: "insertBefore p item (Some dropon) (sort_page s) = Some d" "sort_page (fst ?m) = d" "\<not> snd ?m"
      using move_item_ok [OF t, of "Some dropon"] mem by auto
    have "(s', thrown) = (if previousSibling (sort_page s) dropon \<noteq> Some item then ?m else (?t ''before'', False))"
      using h True mk by (simp add: hover_before_def and_then_def)
    then show ?thesis
      using True d inserted_before [OF wd d(1) ne] previous_next [OF wd pd] by (cases ?m) (auto split: if_splits)
  next
    case False
    let ?n = "nextSibling (sort_page s) dropon"
    let ?m = "move_item dropon ?n item (?t ''after'')"
    have r: "\<forall>r. ?n = Some r \<longrightarrow> r \<in> set (kids (sort_page s) p)"
    proof (intro allI impI)
      fix r assume "?n = Some r"
      then obtain ys zs where "kids (sort_page s) p = ys @ dropon # r # zs" using nextSibling_at [OF wd pd] by blast
      then show "r \<in> set (kids (sort_page s) p)" by simp
    qed
    then obtain d where d: "insertBefore p item ?n (sort_page s) = Some d" "sort_page (fst ?m) = d" "\<not> snd ?m"
      using move_item_ok [OF t, of ?n] by auto
    have "(s', thrown) = (if ?n \<noteq> Some item then ?m else (?t ''after'', False))"
      using h False mk by (simp add: hover_after_def and_then_def Let_def)
    then show ?thesis
      using False d inserted_after [OF wd pd d(1) ne] by (cases ?m) (auto split: if_splits)
  qed
qed

section \<open>Serialising a list\<close>

definition list_lines :: "string \<Rightarrow> string list \<Rightarrow> string list" where
  "list_lines name ids = map (\<lambda>i. encodeURIComponent name @ ''[]='' @ encodeURIComponent i) ids"

lemma serialize_list:
  assumes "options_of s (Some e) = Some (Some so)" and "\<not> so_tree so"
  shows "serialize e s = map_option (\<lambda>ids. join ''&'' (list_lines (ident (sort_page s) e) ids)) (sequence e s)"
    "\<exists>ids. sequence e s = Some ids"
  using assms by (simp_all add: serialize_def sequence_def list_lines_def Let_def)

lemma lines_no_amp: "w \<in> set (list_lines name ids) \<Longrightarrow> CHR ''&'' \<notin> set w"
  using encode_url url_char_excludes(1) by (auto simp: list_lines_def)

lemma lines_split: "ids \<noteq> [] \<Longrightarrow> split_char CHR ''&'' (join ''&'' (list_lines name ids)) = list_lines name ids"
  by (rule split_char_join) (use lines_no_amp in \<open>auto simp: list_lines_def\<close>)

lemma encode_inj: "encodeURIComponent a = encodeURIComponent b \<longleftrightarrow> a = b"
  by (metis decode_encode option.inject)

lemma lines_inj: "join ''&'' (list_lines name ids) = join ''&'' (list_lines name js) \<longleftrightarrow> ids = js"
proof
  assume eq: "join ''&'' (list_lines name ids) = join ''&'' (list_lines name js)"
  have ne: "join ''&'' (list_lines name ks) \<noteq> []" if "ks \<noteq> []" for ks
    using that by (cases ks rule: list.exhaust; cases "tl ks") (auto simp: list_lines_def)
  show "ids = js"
  proof (cases "ids = [] \<or> js = []")
    case True
    then show ?thesis using eq ne by (metis join.simps(1) list.map(1) list_lines_def)
  next
    case False
    then have "list_lines name ids = list_lines name js" using eq lines_split by metis
    moreover have "inj (\<lambda>i. encodeURIComponent name @ ''[]='' @ encodeURIComponent i)"
      by (rule injI) (simp add: encode_inj)
    ultimately show ?thesis by (simp add: list_lines_def inj_map_eq_map)
  qed
qed simp


lemma line_pair:
  "query_pair hash (encodeURIComponent name @ ''[]='' @ encodeURIComponent i) =
     Some (add_param hash (name @ ''[]'') (QText i))"
proof -
  have no: "CHR ''='' \<notin> set (encodeURIComponent x)" for x using encode_url [of _ x] url_char_excludes by blast
  have "split_char CHR ''='' (encodeURIComponent name @ ''[]='' @ encodeURIComponent i) =
      [encodeURIComponent name @ ''[]'', encodeURIComponent i]"
    using split_char_join [of "[encodeURIComponent name @ ''[]'', encodeURIComponent i]" "CHR ''=''"] no by simp
  then show ?thesis by (simp add: query_pair_def decode_encode decode_append Let_def)
qed

lemma lines_fold:
  assumes "ids \<noteq> []" and "\<not> inherited (name @ ''[]'')"
  shows "foldl (\<lambda>h pair. case h of None \<Rightarrow> None | Some hash \<Rightarrow> query_pair hash pair) (Some []) (list_lines name ids) =
    Some [(name @ ''[]'', read_values ids)]"
  using assms(1)
proof (induction ids rule: rev_induct)
  case (snoc i ids)
  show ?case
  proof (cases "ids = []")
    case True
    then show ?thesis
      using assms(2) by (simp add: list_lines_def line_pair [simplified] add_param_def query_lookup_def read_values_def)
  next
    case False
    then show ?thesis
      using snoc add_param_more [OF _ False, of "name @ ''[]''" "[]"] by (simp add: list_lines_def line_pair [simplified])
  qed
qed simp

lemma not_inherited_list: "\<not> inherited (name @ ''[]'')"
proof -
  have "inherited k \<Longrightarrow> CHR '']'' \<notin> set k" for k by (auto simp: inherited_def)
  then show ?thesis by force
qed

text \<open>
  What a list serialises to is read back by \<open>toQueryParams\<close> as one key, the id of the list with
  brackets, and the ids of its items in their order.
\<close>

theorem serialize_read_back:
  assumes "options_of s (Some e) = Some (Some so)" and "\<not> so_tree so" and "sequence e s = Some ids" and "ids \<noteq> []"
  shows "\<exists>q. serialize e s = Some q \<and>
    toQueryParams CHR ''&'' q = Some [(ident (sort_page s) e @ ''[]'', read_values ids)]"
proof -
  let ?name = "ident (sort_page s) e"
  let ?q = "join ''&'' (list_lines ?name ids)"
  have set_join: "set (join ''&'' ws) \<subseteq> insert CHR ''&'' (\<Union> (set ` set ws))" for ws
    by (induction "''&''" ws rule: join.induct) auto
  have ch: "url_char c \<or> c \<in> set ''&=[]''" if "c \<in> set ?q" for c
    using subsetD [OF set_join that] encode_url assms(4) by (auto simp: list_lines_def split: if_splits)
  have "\<not> is_ws c" if "c \<in> set ?q" for c using ch [OF that] url_not_ws by (auto simp: is_ws_def)
  then have "strip ?q = ?q" using trim_no_ws [of ?q] by (simp add: strip_def trim_def)
  moreover have "query_part ?q = ?q" by (rule query_part_id) (use ch url_char_excludes in auto)
  ultimately have "toQueryParams CHR ''&'' ?q = Some [(?name @ ''[]'', read_values ids)]"
    using lines_split [OF assms(4)] lines_fold [OF assms(4) not_inherited_list] by (simp add: toQueryParams_def)
  then show ?thesis using serialize_list(1) [OF assms(1,2)] assms(3) by simp
qed

section \<open>Setting the order\<close>

text \<open>The items that are taken out of the document.\<close>

lemma removeChild_data [simp]:
  "ident (removeChild n d) = ident d" "tag (removeChild n d) = tag d" "klass (removeChild n d) = klass d"
  by (simp_all add: removeChild_def split: option.split)

definition remove_all :: "nat list \<Rightarrow> doc \<Rightarrow> doc" where
  "remove_all es d = foldl (\<lambda>d n. removeChild n d) d es"

lemma remove_all_frame:
  assumes "wf_doc d"
  shows "wf_doc (remove_all es d) \<and> par (remove_all es d) c = (if c \<in> set es then None else par d c) \<and>
    kids (remove_all es d) q = filter (\<lambda>x. x \<notin> set es) (kids d q) \<and>
    ident (remove_all es d) = ident d \<and> tag (remove_all es d) = tag d \<and> klass (remove_all es d) = klass d"
  using assms
proof (induction es arbitrary: d)
  case (Cons e es)
  then show ?case
    using Cons.IH [OF removeChild_wf [OF Cons.prems, of e]] removeChild_frame [OF Cons.prems, of e]
    by (auto simp: remove_all_def conj_commute intro!: filter_cong)
qed (simp add: remove_all_def)

lemma take_items:
  assumes "wf_doc d" "\<forall>n \<in> set es. par d n = Some e \<and> f (ident d n) = Some (g n)" "distinct es" "distinct (map g es)"
    and "fst ` set m \<inter> set (map g es) = {}"
  shows "foldl (take_item f) (m, d) es = (m @ map (\<lambda>n. (g n, n, Some e)) es, remove_all es d)"
  using assms
proof (induction es arbitrary: m d)
  case (Cons n es)
  have t: "take_item f (m, d) n = (m @ [(g n, n, Some e)], removeChild n d)"
    using Cons.prems by (simp add: take_item_def update_fresh)
  have "foldl (take_item f) (m @ [(g n, n, Some e)], removeChild n d) es =
      ((m @ [(g n, n, Some e)]) @ map (\<lambda>n. (g n, n, Some e)) es, remove_all es (removeChild n d))"
  proof (rule Cons.IH)
    show "\<forall>x \<in> set es. par (removeChild n d) x = Some e \<and> f (ident (removeChild n d) x) = Some (g x)"
      using Cons.prems(2,3) removeChild_frame(1) [OF Cons.prems(1)] by auto
  qed (use Cons.prems removeChild_wf in auto)
  then show ?case using t by (simp add: remove_all_def)
qed (simp add: remove_all_def)

text \<open>The items that are put back; \<open>D\<close> is the document at the start.\<close>

definition node_of :: "(nat \<times> nat option) props \<Rightarrow> string \<Rightarrow> nat" where
  "node_of m i = fst (the (map_of m i))"

definition put_ready :: "doc \<Rightarrow> nat \<Rightarrow> (nat \<times> nat option) props \<Rightarrow> doc \<Rightarrow> bool" where
  "put_ready D e m d \<longleftrightarrow> wf_doc D \<and> wf_doc d \<and> parent_rel d \<subseteq> parent_rel D \<and> distinct (map fst m) \<and>
     distinct (map (\<lambda>x. fst (snd x)) m) \<and> (\<forall>(i, n, p) \<in> set m. p = Some e \<and> par D n = Some e \<and> par d n = None)"

lemma append_item:
  assumes r: "put_ready D e m d" and m: "map_of m i = Some (n, p)"
  shows "\<exists>d'. appendChild e n d = Some d' \<and> p = Some e \<and> kids d' e = kids d e @ [n] \<and> (\<forall>q. q \<noteq> e \<longrightarrow> kids d' q = kids d q) \<and>
    ident d' = ident d \<and> tag d' = tag d \<and> klass d' = klass d \<and> put_ready D e (AList.delete i m) d'"
proof -
  have mem: "(i, n, p) \<in> set m" using m by (rule map_of_SomeD)
  have n: "p = Some e" "par D n = Some e" "par d n = None" using r mem by (auto simp: put_ready_def)
  have wf: "wf_doc d" "wf_doc D" and sub: "parent_rel d \<subseteq> parent_rel D" using r by (simp_all add: put_ready_def)
  have "(n, e) \<in> parent_rel D" using n(2) by (simp add: par_rel)
  then have "e \<noteq> n" "(e, n) \<notin> (parent_rel D)\<^sup>+"
    using wf(2) by (auto simp: wf_doc_def acyclic_def intro: trancl_into_trancl2)
  then have "e \<noteq> n" "(e, n) \<notin> (parent_rel d)\<^sup>+" using trancl_mono [OF _ sub] by blast+
  then obtain d' where d': "insertBefore e n None d = Some d'" using insertBefore_some [OF wf(1)] by fastforce
  note fr = insertBefore_frame [OF wf(1) d']
  have nk: "n \<notin> set (kids d q)" for q using n(3) wf(1) by (metis option.distinct(1) wf_doc_def)
  have k: "kids d' q = (if q = e then kids d e @ [n] else kids d q)" for q
    using nk by (auto simp: fr(2) settle_ref_def place_before_def filter_id_conv)
  have other: "n' \<noteq> n" if "(i', n', p') \<in> set (AList.delete i m)" for i' n' p'
  proof
    assume eq: "n' = n"
    have i': "(i', n', p') \<in> set m" "i' \<noteq> i" using that by (auto simp: AList.delete_eq)
    have "inj_on (\<lambda>x. fst (snd x)) (set m)" using r by (simp add: put_ready_def distinct_map)
    from inj_onD [OF this _ i'(1) mem] have "(i', n', p') = (i, n, p)" using eq by simp
    then show False using i'(2) by simp
  qed
  have "parent_rel d' \<subseteq> parent_rel D" 
  proof (rule subrelI)
    fix a b assume "(a, b) \<in> parent_rel d'"
    then have "a = n \<and> b = e \<or> (a, b) \<in> parent_rel d" by (auto simp: parent_rel_def fr(1) split: if_splits)
    then show "(a, b) \<in> parent_rel D" using sub n(2) by (auto simp: par_rel)
  qed
  moreover have "distinct (map fst (AList.delete i m))" "distinct (map (\<lambda>x. fst (snd x)) (AList.delete i m))"
    using r by (auto simp: put_ready_def AList.delete_eq distinct_map inj_on_def intro: distinct_filter)
  ultimately have "put_ready D e (AList.delete i m) d'"
    using r insertBefore_wf [OF wf(1) d'] other
    by (auto simp: put_ready_def fr(1) AList.delete_eq)
  then show ?thesis using d' n(1) k fr(3-5) by (auto simp: appendChild_def)
qed

lemma put_items:
  assumes "put_ready D e m d" and "distinct new"
  shows "\<exists>m' d'. foldl put_item (m, d) new = (m', d') \<and> wf_doc d' \<and>
    kids d' e = kids d e @ map (node_of m) (filter (\<lambda>i. i \<in> fst ` set m) new) \<and> (\<forall>q. q \<noteq> e \<longrightarrow> kids d' q = kids d q) \<and>
    ident d' = ident d \<and> tag d' = tag d \<and> klass d' = klass d"
  using assms
proof (induction new arbitrary: m d)
  case Nil
  then show ?case by (simp add: put_ready_def)
next
  case (Cons i new)
  show ?case
  proof (cases "map_of m i")
    case None
    then have "i \<notin> fst ` set m" by (simp add: map_of_eq_None_iff)
    then show ?thesis using Cons.IH [OF Cons.prems(1)] Cons.prems(2) None by (simp add: put_item_def)
  next
    case (Some np)
    obtain n p where np: "np = (n, p)" by (cases np)
    obtain d' where d': "appendChild e n d = Some d'" "p = Some e" "kids d' e = kids d e @ [n]"
      "\<forall>q. q \<noteq> e \<longrightarrow> kids d' q = kids d q" "ident d' = ident d" "tag d' = tag d" "klass d' = klass d"
      "put_ready D e (AList.delete i m) d'"
      using append_item [OF Cons.prems(1) Some [unfolded np]] by blast
    have p: "put_item (m, d) i = (AList.delete i m, d')" using Some np d'(1,2) by (simp add: put_item_def)
    have i: "i \<in> fst ` set m" "node_of m i = n" using Some np by (force simp: node_of_def dest: map_of_SomeD)+
    have "j \<in> fst ` set (AList.delete i m) \<longleftrightarrow> j \<in> fst ` set m" "node_of (AList.delete i m) j = node_of m j" if "j \<in> set new" for j
    proof -
      have ji: "j \<noteq> i" using that Cons.prems(2) by auto
      then show "node_of (AList.delete i m) j = node_of m j" by (simp add: node_of_def AList.delete_conv')
      show "j \<in> fst ` set (AList.delete i m) \<longleftrightarrow> j \<in> fst ` set m" using ji by (auto simp: AList.delete_eq)
    qed
    then have "map (node_of (AList.delete i m)) (filter (\<lambda>j. j \<in> fst ` set (AList.delete i m)) new) =
        map (node_of m) (filter (\<lambda>j. j \<in> fst ` set m) new)"
      by (auto intro!: map_cong filter_cong)
    then show ?thesis using Cons.IH [OF d'(8)] Cons.prems(2) p d' i by auto
  qed
qed

text \<open>An element that is itself a list.\<close>

definition is_list :: "nat \<Rightarrow> sortable \<Rightarrow> sort_state \<Rightarrow> bool" where
  "is_list e so s \<longleftrightarrow> to_upper_case (tag (sort_page s) e) \<noteq> ''BODY'' \<and> ident (sort_page s) e \<noteq> [] \<and>
     map_of (ss_sortables s) (ident (sort_page s) e) = Some so"

lemma is_list_options: "is_list e so s \<Longrightarrow> options_of s (Some e) = Some (Some so)"
  by (simp add: options_of_def sort_options_def findRootElement.simps is_list_def)

definition list_items :: "sortable \<Rightarrow> nat \<Rightarrow> doc \<Rightarrow> nat list" where
  "list_items so e d = filter (matches_child d (so_only so) (so_tag so)) (kids d e)"

lemma findElements_list:
  "\<not> so_tree so \<Longrightarrow> findElements n d e so = (if kids d e = [] then None else Some (list_items so e d))"
proof -
  have "concat (map (\<lambda>e. if P e then [e] else []) xs) = filter P xs" for P and xs :: "nat list"
    by (induction xs) auto
  then show "\<not> so_tree so \<Longrightarrow> ?thesis" by (simp add: findElements_def list_items_def)
qed

lemma sequence_list:
  assumes "is_list e so s" "\<not> so_tree so"
  shows "sequence e s = Some (item_ids (so_format so) (sort_page s) (list_items so e (sort_page s)))"
  using is_list_options [OF assms(1)] assms(2) by (simp add: sequence_def findElements_list item_ids_def list_items_def)

lemma item_node:
  assumes "distinct (map g items)" "i \<in> g ` set items"
  shows "node_of (map (\<lambda>n. (g n, n, Some e)) items) i \<in> set items"
    "g (node_of (map (\<lambda>n. (g n, n, Some e)) items) i) = i"
proof -
  let ?m = "map (\<lambda>n. (g n, n, Some e)) items"
  obtain n where n: "n \<in> set items" "i = g n" using assms(2) by blast
  have "map_of ?m (g n) = Some (n, Some e)" using n(1) assms(1) by (intro map_of_is_SomeI) (auto simp: comp_def)
  then show "node_of ?m i \<in> set items" "g (node_of ?m i) = i" using n by (simp_all add: node_of_def)
qed

text \<open>
  Setting the order of a list whose items have different ids: afterwards the sequence of the list
  is the new one without the ids that the list does not have, the elements that are no items come
  first, and an item that the new sequence does not name is no longer in the document.
\<close>

theorem setSequence_orders:
  assumes "wf_doc (sort_page s)" and il: "is_list e so s" and nt: "\<not> so_tree so" and "kids (sort_page s) e \<noteq> []"
    and items: "items = list_items so e (sort_page s)" and fm: "\<forall>c \<in> set items. so_format so (ident (sort_page s) c) = Some (g c)"
    and "distinct (map g items)" and "distinct new"
    and res: "(s', thrown) = setSequence e new s"
  shows "\<not> thrown \<and> wf_doc (sort_page s') \<and> sequence e s' = Some (filter (\<lambda>i. i \<in> g ` set items) new) \<and>
    (\<exists>put. kids (sort_page s') e = filter (\<lambda>x. x \<notin> set items) (kids (sort_page s) e) @ put) \<and>
    (\<forall>c \<in> set items. g c \<notin> set new \<longrightarrow> par (sort_page s') c = None)"
proof -
  let ?D = "sort_page s" and ?m = "map (\<lambda>n. (g n, n, Some e)) items"
  let ?d = "remove_all items ?D"
  have mem: "par ?D n = Some e" if "n \<in> set items" for n
    using that assms(1) by (auto simp: items list_items_def wf_doc_def)
  have di: "distinct items" using assms(1) by (simp add: items list_items_def wf_doc_def)
  note rf = remove_all_frame [OF assms(1), of items]
  have t: "foldl (take_item (so_format so)) ([], ?D) items = (?m, ?d)"
    using take_items [of ?D items e "so_format so" g "[]"] assms(1,7) fm mem di by simp
  have ready: "put_ready ?D e ?m ?d"
    using assms(1,7) rf mem di by (auto simp: put_ready_def comp_def parent_rel_def split: if_splits)
  have keys: "fst ` set ?m = g ` set items" by force
  obtain m' d' where p: "foldl put_item (?m, ?d) new = (m', d')" "wf_doc d'"
      "kids d' e = kids ?d e @ map (node_of ?m) (filter (\<lambda>i. i \<in> g ` set items) new)"
      "\<forall>q. q \<noteq> e \<longrightarrow> kids d' q = kids ?d q" "ident d' = ident ?d" "tag d' = tag ?d" "klass d' = klass ?d"
    using put_items [OF ready assms(8)] unfolding keys by blast
  have s': "s' = set_page d' s" "\<not> thrown"
    using res is_list_options [OF il] nt assms(4) p(1) t by (simp_all add: setSequence_def findElements_list items)
  note node = item_node [OF assms(7), where e = e]
  let ?put = "map (node_of ?m) (filter (\<lambda>i. i \<in> g ` set items) new)"
  have "tag d' = tag ?D" "klass d' = klass ?D" using p(6,7) rf by simp_all
  then have mc: "matches_child d' = matches_child ?D" by (intro ext) (simp add: matches_child_def cong: option.case_cong)
  have k: "kids d' e = filter (\<lambda>x. x \<notin> set items) (kids ?D e) @ ?put" using p(3) rf by simp
  have "filter (matches_child ?D (so_only so) (so_tag so)) (filter (\<lambda>x. x \<notin> set items) (kids ?D e)) = []"
    by (auto simp: items list_items_def filter_empty_conv)
  moreover have "filter (matches_child ?D (so_only so) (so_tag so)) ?put = ?put"
    using node(1) by (auto simp: filter_id_conv items list_items_def)
  ultimately have li: "list_items so e d' = ?put" by (simp add: list_items_def mc k)
  have "item_ids (so_format so) d' ?put = filter (\<lambda>i. i \<in> g ` set items) new"
    using node fm p(5) rf by (auto simp: item_ids_def intro!: map_idI)
  moreover have "is_list e so s'" using il p(5,6) rf by (simp add: s' is_list_def)
  ultimately have sq: "sequence e s' = Some (filter (\<lambda>i. i \<in> g ` set items) new)"
    using sequence_list [OF _ nt] li by (simp add: s')
  have gone: "par d' c = None" if c: "c \<in> set items" "g c \<notin> set new" for c
  proof (rule ccontr)
    assume "par d' c \<noteq> None"
    then obtain q where q: "c \<in> set (kids d' q)" using p(2) by (auto simp: wf_doc_def)
    then have "c \<in> set ?put" using p(4) k rf c(1) by (cases "q = e") auto
    then show False using node(2) c(2) by auto
  qed
  show ?thesis using s' p(2) sq k gone by auto
qed

section \<open>Making a list and removing it\<close>

text \<open>What the steps of \<open>create\<close> add: the places \<open>ls\<close> and the draggables \<open>ns\<close>.\<close>

definition grown :: "sortable \<Rightarrow> drag_sys \<Rightarrow> nat list \<Rightarrow> nat list \<Rightarrow> sortable \<times> drag_sys \<Rightarrow> bool" where
  "grown so g ls ns st \<longleftrightarrow> so_element (fst st) = so_element so \<and> so_droppables (fst st) = ls \<and> so_draggables (fst st) = ns \<and>
     (\<exists>new. zs_drops (ds_zones (snd st)) = zs_drops (ds_zones g) @ new \<and> map z_element new = ls) \<and>
     ds_drags (snd st) = ds_drags g @ ns \<and> ds_observers (snd st) = ds_observers g \<and>
     ds_listening (snd st) = (ds_drags (snd st) \<noteq> []) \<and>
     ident (zs_doc (ds_zones (snd st))) = ident (zs_doc (ds_zones g))"

lemma grown_zone: "grown so g ls ns st \<Longrightarrow> grown so g (ls @ [e]) ns (add_zone h tree e st)"
  by (cases st) (auto simp: grown_def add_zone_def on_zones_def droppables_add_def drop_of_def)

lemma grown_treeNode: "grown so g ls ns st \<Longrightarrow> grown so g ls ns (set_treeNode base e st)"
  by (auto simp: grown_def set_treeNode_def on_zones_def)

lemma grown_item: "grown so g ls ns st \<Longrightarrow> grown so g (ls @ [e]) (ns @ [n]) (add_item layout base st (n, e))"
proof -
  assume st: "grown so g ls ns st"
  obtain so' g' where eq: "st = (so', g')" by (cases st)
  have "grown so g ls (ns @ [n]) (so'\<lparr>so_draggables := so_draggables so' @ [n]\<rparr>,
      new_draggable n ((layout e)\<lparr>g_element := e, g_opt := drag_options_of so'\<rparr>) g')"
    using st by (auto simp: grown_def eq new_draggable_def draggables_register_def Let_def)
  then show ?thesis by (auto simp: add_item_def eq Let_def intro!: grown_zone grown_treeNode)
qed

lemma grown_items:
  "grown so g ls ns st \<Longrightarrow> length ks = length es \<Longrightarrow>
     grown so g (ls @ es) (ns @ ks) (foldl (add_item layout base) st (zip ks es))"
proof (induction ks es arbitrary: ls ns st rule: list_induct2')
  case (4 k ks e es)
  show ?case using "4.IH" [OF grown_item [OF "4.prems"(1), of e k layout base]] "4.prems"(2) by simp
qed simp_all

lemma grown_trees: "grown so g ls ns st \<Longrightarrow> grown so g (ls @ es) ns (foldl (add_tree base) st es)"
proof (induction es arbitrary: ls st)
  case (Cons e es)
  show ?case using Cons.IH [OF grown_treeNode [OF grown_zone [OF Cons.prems, of e]]] by (simp add: add_tree_def)
qed simp

definition list_zones :: "sortable \<Rightarrow> sort_state \<Rightarrow> nat list" where
  "list_zones so s = (if so_dropOnEmpty so \<or> so_tree so then [so_element so] else []) @
     sort_items (ss_levels s) (sort_page s) so @
     (if so_tree so then (case findTreeElements (ss_levels s) (sort_page s) (so_element so) so of None \<Rightarrow> [] | Some es \<Rightarrow> es) else [])"

lemma register_list_grown:
  assumes "ds_listening (ss_drag s) = (ds_drags (ss_drag s) \<noteq> [])"
  shows "\<exists>so' ns. grown so (ss_drag s) (list_zones so s) ns (so', ss_drag (register_list layout so s)) \<and>
    set ns \<subseteq> {ss_next s..} \<and>
    ss_sortables (register_list layout so s) = AList.update (ident (sort_page s) (so_element so)) so' (ss_sortables s)"
proof -
  let ?g = "ss_drag s" and ?e = "so_element so" and ?items = "sort_items (ss_levels s) (sort_page s) so"
  let ?ns = "[ss_next s..<ss_next s + length ?items]"
  let ?trees = "case findTreeElements (ss_levels s) (sort_page s) ?e so of None \<Rightarrow> [] | Some es \<Rightarrow> es"
  let ?st = "(so\<lparr>so_draggables := [], so_droppables := []\<rparr>, ?g)"
  let ?st1 = "if so_dropOnEmpty so \<or> so_tree so then add_zone SortableEmptyHover False ?e ?st else ?st"
  let ?st2 = "foldl (add_item layout ?e) ?st1 (zip ?ns ?items)"
  let ?st3 = "if so_tree so then foldl (add_tree ?e) ?st2 ?trees else ?st2"
  have "grown so ?g [] [] ?st" using assms by (simp add: grown_def)
  then have "grown so ?g (if so_dropOnEmpty so \<or> so_tree so then [?e] else []) [] ?st1"
    using grown_zone [of so ?g "[]" "[]" ?st ?e] by simp
  from grown_items [OF this, of ?ns ?items layout ?e]
  have "grown so ?g ((if so_dropOnEmpty so \<or> so_tree so then [?e] else []) @ ?items) ?ns ?st2" by simp
  from this grown_trees [OF this, where base = ?e and es = ?trees] have st3: "grown so ?g (list_zones so s) ?ns ?st3"
    by (cases "so_tree so"; cases "so_dropOnEmpty so") (simp_all add: list_zones_def)
  have "register_list layout so s = s\<lparr>ss_drag := snd ?st3, ss_next := ss_next s + length ?items,
      ss_sortables := AList.update (ident (sort_page s) ?e) (fst ?st3) (ss_sortables s)\<rparr>"
    by (simp add: register_list_def Let_def split: prod.split)
  then have "ss_drag (register_list layout so s) = snd ?st3"
    "ss_sortables (register_list layout so s) = AList.update (ident (sort_page s) ?e) (fst ?st3) (ss_sortables s)" by simp_all
  then show ?thesis using st3 by (intro exI [of _ "fst ?st3"] exI [of _ ?ns]) auto
qed

lemma zones_removed:
  "foldl (\<lambda>z x. droppables_remove x z) z ls = z\<lparr>zs_drops := filter (\<lambda>d. z_element d \<notin> set ls) (zs_drops z)\<rparr>"
  by (induction ls arbitrary: z) (auto simp: droppables_remove_def intro!: arg_cong [where f = "\<lambda>x. _\<lparr>zs_drops := x\<rparr>"] filter_cong)

lemma drags_removed:
  assumes "ds_listening g = (ds_drags g \<noteq> [])" and "g' = foldl (\<lambda>g n. drag_destroy n g) g ns"
  shows "ds_drags g' = filter (\<lambda>n. n \<notin> set ns) (ds_drags g) \<and> ds_listening g' = (ds_drags g' \<noteq> []) \<and>
    ds_zones g' = ds_zones g \<and> ds_observers g' = ds_observers g"
  using assms
proof (induction ns arbitrary: g)
  case (Cons n ns)
  have d: "ds_drags (drag_destroy n g) = filter (\<lambda>m. m \<noteq> n) (ds_drags g)" "ds_zones (drag_destroy n g) = ds_zones g"
    "ds_observers (drag_destroy n g) = ds_observers g"
    "ds_listening (drag_destroy n g) = (ds_drags (drag_destroy n g) \<noteq> [])"
    using Cons.prems(1) by (auto simp: drag_destroy_def draggables_unregister_def Let_def)
  show ?case using Cons.IH [OF d(4)] Cons.prems(2) d by (auto simp: conj_commute intro!: filter_cong)
qed simp

text \<open>
  C26. Removing a list that was just made leaves the lists, the places, the draggables, the observers
  and the listening to the document as they were before it was made.
\<close>

theorem destroy_undoes_create:
  assumes "map_of (ss_sortables s) (ident (sort_page s) (so_element so)) = None"
    and "\<forall>n \<in> set (ds_drags (ss_drag s)). n < ss_next s"
    and "\<forall>dr \<in> set (zs_drops (ds_zones (ss_drag s))). z_element dr \<notin> set (list_zones so s)"
    and "\<forall>ob \<in> set (ds_observers (ss_drag s)). ob_element ob \<noteq> so_element so"
    and "ds_listening (ss_drag s) = (ds_drags (ss_drag s) \<noteq> [])"
    and "s' = sort_destroy (so_element so) (fst (sort_create layout so s))"
  shows "ss_sortables s' = ss_sortables s \<and> zs_drops (ds_zones (ss_drag s')) = zs_drops (ds_zones (ss_drag s)) \<and>
    ds_drags (ss_drag s') = ds_drags (ss_drag s) \<and> ds_observers (ss_drag s') = ds_observers (ss_drag s) \<and>
    ds_listening (ss_drag s') = ds_listening (ss_drag s)"
proof -
  let ?r = "register_list layout so s" and ?e = "so_element so" and ?k = "ident (sort_page s) (so_element so)"
  let ?c = "fst (sort_create layout so s)"
  obtain so' ns where gr: "grown so (ss_drag s) (list_zones so s) ns (so', ss_drag ?r)" and ns: "set ns \<subseteq> {ss_next s..}"
    and sos: "ss_sortables ?r = AList.update ?k so' (ss_sortables s)"
    using register_list_grown [OF assms(5)] by blast
  have d0: "sort_destroy ?e s = s" using assms(1) by (simp add: sort_destroy_def)
  have c: "ss_sortables ?c = ss_sortables ?r" "ds_zones (ss_drag ?c) = ds_zones (ss_drag ?r)"
    "ds_drags (ss_drag ?c) = ds_drags (ss_drag ?r)" "ds_listening (ss_drag ?c) = ds_listening (ss_drag ?r)"
    "filter (\<lambda>ob. ob_element ob \<noteq> ?e) (ds_observers (ss_drag ?c)) = filter (\<lambda>ob. ob_element ob \<noteq> ?e) (ds_observers (ss_drag ?r))"
    by (simp_all add: sort_create_def Let_def d0 addObserver_def cacheObserverCallbacks_def split: option.split)
  have pg: "ident (sort_page ?c) = ident (sort_page s)" using gr c(2) by (simp add: grown_def sort_page_def)
  let ?g1 = "on_zones (\<lambda>z. foldl (\<lambda>z x. droppables_remove x z) z (so_droppables so')) (removeObserver ?e (ss_drag ?c))"
  let ?g2 = "foldl (\<lambda>g n. drag_destroy n g) ?g1 (so_draggables so')"
  have el: "so_element so' = ?e" "so_droppables so' = list_zones so s" "so_draggables so' = ns" using gr by (simp_all add: grown_def)
  have look: "map_of (ss_sortables ?c) (ident (sort_page ?c) ?e) = Some so'" by (simp add: c(1) sos pg AList.update_conv')
  obtain new where new: "zs_drops (ds_zones (ss_drag ?r)) = zs_drops (ds_zones (ss_drag s)) @ new" "map z_element new = list_zones so s"
    using gr by (auto simp: grown_def)
  have "z_element x \<in> set (list_zones so s)" if "x \<in> set new" for x using that new(2) by (metis image_eqI set_map)
  then have dropped: "filter (\<lambda>d. z_element d \<notin> set (list_zones so s)) (zs_drops (ds_zones (ss_drag ?r))) = zs_drops (ds_zones (ss_drag s))"
    using assms(3) by (simp add: new(1) filter_id_conv filter_empty_conv)
  have g1: "ds_drags ?g1 = ds_drags (ss_drag s) @ ns" "ds_listening ?g1 = (ds_drags ?g1 \<noteq> [])"
    "zs_drops (ds_zones ?g1) = zs_drops (ds_zones (ss_drag s))" "ds_observers ?g1 = ds_observers (ss_drag s)"
    "ident (zs_doc (ds_zones ?g1)) = ident (sort_page s)"
    using gr c dropped assms(4)
    by (simp_all add: on_zones_def removeObserver_def cacheObserverCallbacks_def zones_removed el grown_def sort_page_def filter_id_conv)
  note g2 = drags_removed [OF g1(2) refl, of "so_draggables so'"]
  have "filter (\<lambda>n. n \<notin> set ns) (ds_drags (ss_drag s) @ ns) = ds_drags (ss_drag s)"
    using assms(2) ns by (fastforce simp: filter_id_conv filter_empty_conv)
  then have dd: "ds_drags ?g2 = ds_drags (ss_drag s)" using g2 g1(1) el(3) by simp
  have sd: "ss_drag s' = ?g2" "ss_sortables s' = AList.delete (ident (zs_doc (ds_zones ?g2)) ?e) (ss_sortables ?c)"
    using look by (simp_all add: assms(6) sort_destroy_def Let_def el(1) sort_page_def)
  have "AList.delete ?k (AList.update ?k so' (ss_sortables s)) = ss_sortables s"
    using assms(1) by (simp add: map_of_eq_None_iff update_fresh AList.delete_eq filter_id_conv) force
  then have "ss_sortables s' = ss_sortables s" using sd(2) g2 g1(5) by (simp add: c(1) sos)
  then show ?thesis using sd(1) dd g1 g2 assms(5) by simp
qed

section \<open>The depth of a search\<close>

text \<open>Enough levels give the same children as more levels: the search below an element ends.\<close>

lemma findChildren_enough:
  assumes wd: "wf_doc d"
  shows "\<exists>n. \<forall>m \<ge> n. findChildren (Suc m) d e only r t = findChildren (Suc n) d e only r t"
proof -
  have wf: "wf (parent_rel d)" using wd by (simp add: wf_doc_def finite_acyclic_wf)
  show ?thesis
  proof (induction e rule: wf_induct_rule [OF wf])
    case (1 e)
    have "\<exists>n. \<forall>m \<ge> n. findChildren (Suc m) d c only r t = findChildren (Suc n) d c only r t" if "c \<in> set (kids d e)" for c
      using 1 [of c] that wd by (simp add: parent_rel_def wf_doc_def)
    then obtain f where f: "\<And>c m. c \<in> set (kids d e) \<Longrightarrow> f c \<le> m \<Longrightarrow>
        findChildren (Suc m) d c only r t = findChildren (Suc (f c)) d c only r t" by metis
    define n where "n = Max (insert 0 (f ` set (kids d e)))"
    have n: "f c \<le> n" if "c \<in> set (kids d e)" for c using that by (simp add: n_def)
    have "findChildren (Suc (Suc m)) d e only r t = findChildren (Suc (Suc n)) d e only r t" if "n \<le> m" for m
    proof -
      have "findChildren (Suc m) d c only r t = findChildren (Suc n) d c only r t" if "c \<in> set (kids d e)" for c
        using f [OF that, of m] f [OF that, of n] n [OF that] \<open>n \<le> m\<close> by simp
      then show ?thesis
        unfolding findChildren.simps(2) [of "Suc m"] findChildren.simps(2) [of "Suc n"] by (auto simp del: findChildren.simps intro!: arg_cong [where f = concat] map_cong)
    qed
    then show ?case by (intro exI [of _ "Suc n"]) (metis Suc_le_D Suc_le_mono)
  qed
qed

section \<open>Samples\<close>

text \<open>A page with a list of three items.\<close>

definition list_doc :: doc where
  "list_doc = \<lparr>par = (\<lambda>e. if e = 1 then Some 0 else if e \<in> {2, 3, 4} then Some 1 else None),
     kids = (\<lambda>e. if e = 0 then [1] else if e = 1 then [2, 3, 4] else []),
     tag = (\<lambda>e. if e = 0 then ''BODY'' else if e = 1 then ''UL'' else ''LI''),
     ident = (\<lambda>e. if e = 1 then ''list'' else if e = 2 then ''item_a'' else if e = 3 then ''item_b&'' else if e = 4 then ''item_c'' else []),
     klass = (\<lambda>_. []), box = (\<lambda>e. if e = 2 then (0, 0, 50, 10) else if e = 3 then (0, 10, 50, 10) else (0, 20, 50, 10)),
     treeNode = (\<lambda>_. None)\<rparr>"

definition sample_list :: sortable where
  "sample_list = \<lparr>so_element = 1, so_tag = ''li'', so_dropOnEmpty = False, so_tree = False, so_treeTag = ''ul'',
     so_overlap = ''vertical'', so_constraint = Vertical, so_containment = Container 1, so_only = None, so_delay = False,
     so_hoverclass = None, so_ghosting = False, so_quiet = False, so_scroll = None, so_scrollSensitivity = 20,
     so_scrollSpeed = 15, so_zindex = 0, so_starteffect = False, so_endeffect = False, so_elements = None,
     so_format = serialize_rule, so_draggables = [], so_droppables = []\<rparr>"

definition empty_sort :: sort_state where
  "empty_sort = \<lparr>ss_drag = sample_sys\<lparr>ds_zones := sample_zones\<lparr>zs_doc := list_doc, zs_drops := []\<rparr>, ds_drags := [], ds_listening := False\<rparr>,
     ss_sortables = [], ss_next = 0, ss_marker = None, ss_changes = [], ss_updates = [], ss_last = (\<lambda>_. []), ss_levels = 3\<rparr>"

definition sample_sort :: sort_state where
  "sample_sort = empty_sort\<lparr>ss_sortables := [(''list'', sample_list)]\<rparr>"

text \<open>The first item is dragged over the list.\<close>

definition sample_moving :: drag_sys where
  "sample_moving = sample_sys\<lparr>ds_zones := sample_zones\<lparr>zs_doc := list_doc,
       zs_drops := map (\<lambda>e. (drop_of sample_list SortableHover False e)\<lparr>z_containers := Some [1]\<rparr>) [2, 3, 4]\<rparr>,
     ds_objects := (\<lambda>_. sample_drag\<lparr>g_element := 2, g_dragging := True\<rparr>), ds_active := Some 0\<rparr>"

lemma list_wf: "wf_doc list_doc"
proof -
  have r: "parent_rel list_doc = {(1, 0), (2, 1), (3, 1), (4, 1)}"
    by (auto simp: parent_rel_def list_doc_def split: if_splits)
  have "acyclic ({} :: (nat \<times> nat) set)" by (simp add: acyclic_def)
  then have "acyclic {(1 :: nat, 0 :: nat), (2, 1), (3, 1), (4, 1)}" by (simp add: acyclic_insert rtrancl_insert)
  moreover have "par list_doc c = Some p \<longleftrightarrow> c \<in> set (kids list_doc p)" for c p by (auto simp: list_doc_def)
  moreover have "distinct (kids list_doc p)" for p by (simp add: list_doc_def)
  ultimately show ?thesis by (simp add: wf_doc_def r)
qed

lemma sample_page: "sort_page sample_sort = list_doc"
  by (simp add: sample_sort_def empty_sort_def sort_page_def)


lemma sample_options:
  "options_of sample_sort (Some 1) = Some (Some sample_list)" "options_of sample_sort (Some 3) = Some (Some sample_list)"
  by (simp_all add: options_of_def sort_options_def sample_page findRootElement.simps)
     (simp_all add: list_doc_def sample_sort_def to_upper_case_def upper_char_def is_lower_def findRootElement.simps)

theorem hover_places_item_witness:
  "nextSibling (sort_page (fst (sort_onHover 2 3 (1/5) sample_sort))) 3 = Some 2"
proof -
  have p: "isParent list_doc 3 2 = Some False"
by code_simp
  show ?thesis
    using hover_places_item [where s = sample_sort and dropon = 3 and item = 2 and p = 1 and q = 1 and overlap = "1/5",
      OF _ _ _ sample_options(1) sample_options(1) sample_options(2) _ _ _ prod.collapse] list_wf p
    by (simp add: sample_page) (simp add: list_doc_def sample_list_def)
qed

lemma sample_is_list: "is_list 1 sample_list sample_sort"
  by (simp add: is_list_def sample_page) (simp add: list_doc_def sample_sort_def to_upper_case_def upper_char_def is_lower_def)

text \<open>The list after its first item was dragged to the end.\<close>

definition sorted_state :: sort_state where
  "sorted_state = set_page (list_doc\<lparr>kids := (kids list_doc)(1 := [3, 4, 2])\<rparr>) (fst (observer_onStart 1 sample_sort))"


theorem serialize_read_back_witness:
  "\<exists>q. serialize 1 sample_sort = Some q \<and>
    toQueryParams CHR ''&'' q = Some [(''list[]'', QMany [QText ''a'', QText ''b&'', QText ''c''])]"
proof -
  have "sequence 1 sample_sort = Some [''a'', ''b&'', ''c'']" by code_simp
  then show ?thesis
    using serialize_read_back [OF sample_options(1)] by (simp add: sample_page read_values_def) (simp add: sample_list_def list_doc_def)
qed

theorem setSequence_orders_witness:
  "sequence 1 (fst (setSequence 1 [''c'', ''x'', ''a''] sample_sort)) = Some [''c'', ''a''] \<and>
   par (sort_page (fst (setSequence 1 [''c'', ''x'', ''a''] sample_sort))) 3 = None"
proof -
  let ?g = "\<lambda>c. if c = (2 :: nat) then ''a'' else if c = 3 then ''b&'' else ''c''"
  have i: "list_items sample_list 1 (sort_page sample_sort) = [2, 3, 4]" by code_simp
  have f: "\<forall>c \<in> set [2, 3, 4]. so_format sample_list (ident (sort_page sample_sort) c) = Some (?g c)" by code_simp
  have nt: "\<not> so_tree sample_list" by (simp add: sample_list_def)
  show ?thesis
    using setSequence_orders [where s = sample_sort and new = "[''c'', ''x'', ''a'']" and g = ?g,
      OF _ sample_is_list nt _ i [symmetric] f _ _ prod.collapse] list_wf
    by (simp add: sample_page) (simp add: list_doc_def)
qed

theorem destroy_undoes_create_witness:
  "ds_drags (ss_drag (sort_destroy 1 (fst (sort_create (\<lambda>_. sample_drag) sample_list empty_sort)))) = [] \<and>
   \<not> ds_listening (ss_drag (sort_destroy 1 (fst (sort_create (\<lambda>_. sample_drag) sample_list empty_sort))))"
  using destroy_undoes_create [of empty_sort sample_list _ "\<lambda>_. sample_drag", OF _ _ _ _ _ refl]
  by (simp add: empty_sort_def sample_sys_def sample_zones_def sample_list_def)

text \<open>The ids of a tree are encoded twice, once by \<open>_tree\<close> and once by \<open>serialize\<close>.\<close>

lemma tree_encoded_twice:
  "serialize 1 (sample_sort\<lparr>ss_sortables := [(''list'', sample_list\<lparr>so_tree := True\<rparr>)]\<rparr>) =
     Some ''list[0][id]=a&list[1][id]=b%2526&list[2][id]=c''"
  by code_simp

end
