(* ===== verification/ProtoEvent.thy ===== *)
theory ProtoEvent
  imports ProtoHash
begin

text \<open>
  \<open>Event\<close> of \<open>prototype.js\<close>: the registry of the handlers (\<open>observe\<close>, \<open>stopObserving\<close>) with its
  cache, the dispatch of events by the document, \<open>fire\<close>, and the buttons and the pointer of a mouse
  event.  Elements and handlers are numbers, the empty name and a missing handler are what is false
  in a condition.  Names of events are not names that \<open>Object.prototype\<close> defines.
\<close>

section \<open>The registry\<close>

text \<open>A wrapper of a handler; the registry has at most one for an element, an event and a handler.\<close>

record wrapper =
  w_element :: nat
  w_event :: string
  w_handler :: nat

text \<open>
  The number of an element (\<open>_prototypeEventID\<close>), the last number, the cache, the listeners that the
  document has for an element and the name of an event, and the calls of handlers.
\<close>

record ev_state =
  ev_ids :: "nat \<Rightarrow> nat option"
  ev_last :: nat
  ev_cache :: "nat \<Rightarrow> wrapper list props option"
  ev_listeners :: "nat \<Rightarrow> string \<Rightarrow> wrapper list"
  ev_calls :: "(nat \<times> nat) list"

definition ev_init :: ev_state where
  "ev_init = \<lparr>ev_ids = (\<lambda>_. None), ev_last = 0, ev_cache = (\<lambda>_. None), ev_listeners = (\<lambda>_ _. []), ev_calls = []\<rparr>"

definition getEventID :: "nat \<Rightarrow> ev_state \<Rightarrow> ev_state \<times> nat" where
  "getEventID e s =
     (case ev_ids s e of
        Some i \<Rightarrow> (s, i)
      | None \<Rightarrow>
          let n = (if ev_last s = 0 then 1 else ev_last s) + 1
          in (s\<lparr>ev_last := n, ev_ids := (ev_ids s)(e := Some n)\<rparr>, n))"

definition getDOMEventName :: "string \<Rightarrow> string" where
  "getDOMEventName name = (if name \<noteq> [] \<and> CHR '':'' \<in> set name then ''dataavailable'' else name)"

definition getCacheForID :: "nat \<Rightarrow> ev_state \<Rightarrow> ev_state \<times> wrapper list props" where
  "getCacheForID i s =
     (case ev_cache s i of
        Some c \<Rightarrow> (s, c)
      | None \<Rightarrow> (s\<lparr>ev_cache := (ev_cache s)(i := Some [])\<rparr>, []))"

definition getWrappersForEventName :: "nat \<Rightarrow> string \<Rightarrow> ev_state \<Rightarrow> ev_state \<times> wrapper list" where
  "getWrappersForEventName i name s =
     (let (s, c) = getCacheForID i s
      in case map_of c name of
           Some ws \<Rightarrow> (s, ws)
         | None \<Rightarrow> (s\<lparr>ev_cache := (ev_cache s)(i := Some (AList.update name [] c))\<rparr>, []))"

definition createWrapper :: "nat \<Rightarrow> string \<Rightarrow> nat \<Rightarrow> ev_state \<Rightarrow> ev_state \<times> wrapper option" where
  "createWrapper e name h s =
     (let (s, i) = getEventID e s;
          (s, ws) = getWrappersForEventName i name s
      in if h \<in> set (map w_handler ws) then (s, None)
         else
           let w = \<lparr>w_element = e, w_event = name, w_handler = h\<rparr>
           in (s\<lparr>ev_cache := (ev_cache s)(i := map_option (AList.update name (ws @ [w])) (ev_cache s i))\<rparr>, Some w))"

definition findWrapper :: "nat \<Rightarrow> string \<Rightarrow> nat \<Rightarrow> ev_state \<Rightarrow> ev_state \<times> wrapper option" where
  "findWrapper i name h s =
     (let (s, ws) = getWrappersForEventName i name s
      in (s, find (\<lambda>w. w_handler w = h) ws))"

definition destroyWrapper :: "nat \<Rightarrow> string \<Rightarrow> nat \<Rightarrow> ev_state \<Rightarrow> ev_state" where
  "destroyWrapper i name h s =
     (let (s, c) = getCacheForID i s
      in case map_of c name of
           None \<Rightarrow> s
         | Some ws \<Rightarrow>
             let (s, w) = findWrapper i name h s
             in s\<lparr>ev_cache := (ev_cache s)(i := map_option (AList.update name (filter (\<lambda>x. Some x \<noteq> w) ws)) (ev_cache s i))\<rparr>)"

section \<open>Observing\<close>

definition observe :: "nat \<Rightarrow> string \<Rightarrow> nat \<Rightarrow> ev_state \<Rightarrow> ev_state" where
  "observe e name h s =
     (let (s, w) = createWrapper e name h s; d = getDOMEventName name
      in case w of
           None \<Rightarrow> s
         | Some w \<Rightarrow> s\<lparr>ev_listeners := (ev_listeners s)(e := (ev_listeners s e)(d := ev_listeners s e d @ [w]))\<rparr>)"

definition stop_handler :: "nat \<Rightarrow> string \<Rightarrow> nat \<Rightarrow> ev_state \<Rightarrow> ev_state" where
  "stop_handler e name h s =
     (let (s, i) = getEventID e s; d = getDOMEventName name;
          (s, w) = findWrapper i name h s
      in case w of
           None \<Rightarrow> s
         | Some w \<Rightarrow>
             let s = s\<lparr>ev_listeners := (ev_listeners s)(e := (ev_listeners s e)(d := filter (\<lambda>x. x \<noteq> w) (ev_listeners s e d)))\<rparr>
             in destroyWrapper i name h s)"

definition stop_event :: "nat \<Rightarrow> string \<Rightarrow> ev_state \<Rightarrow> ev_state" where
  "stop_event e name s =
     (let (s, i) = getEventID e s;
          (s, ws) = getWrappersForEventName i name s
      in foldl (\<lambda>s w. stop_handler e name (w_handler w) s) s ws)"

text \<open>
  All events of an element.  The names in the cache are not empty: after \<open>observe\<close> with an empty
  name the call for that name would lead back here without end.
\<close>

definition stop_all :: "nat \<Rightarrow> ev_state \<Rightarrow> ev_state" where
  "stop_all e s =
     (let (s, i) = getEventID e s;
          (s, c) = getCacheForID i s
      in foldl (\<lambda>s name. stop_event e name s) s (map fst c))"

definition stopObserving :: "nat \<Rightarrow> string \<Rightarrow> nat option \<Rightarrow> ev_state \<Rightarrow> ev_state" where
  "stopObserving e name h s =
     (if name = [] then stop_all e s
      else case h of None \<Rightarrow> stop_event e name s | Some h \<Rightarrow> stop_handler e name h s)"

section \<open>Dispatching\<close>

text \<open>
  A wrapper calls its handler unless the event has a name of its own that is another one.
  \<open>act\<close> is what a handler does to the registry.
\<close>

definition run_wrapper :: "(nat \<Rightarrow> ev_state \<Rightarrow> ev_state) \<Rightarrow> string option \<Rightarrow> wrapper \<Rightarrow> ev_state \<Rightarrow> ev_state" where
  "run_wrapper act own w s =
     (if (case own of None \<Rightarrow> False | Some name \<Rightarrow> name \<noteq> [] \<and> name \<noteq> w_event w) then s
      else act (w_handler w) (s\<lparr>ev_calls := ev_calls s @ [(w_element w, w_handler w)]\<rparr>))"

text \<open>The document goes up from the target; a listener that was removed meanwhile is not called.\<close>

definition dispatch_at :: "(nat \<Rightarrow> ev_state \<Rightarrow> ev_state) \<Rightarrow> string \<Rightarrow> string option \<Rightarrow> ev_state \<Rightarrow> nat \<Rightarrow> ev_state" where
  "dispatch_at act d own s e =
     foldl (\<lambda>s w. if w \<in> set (ev_listeners s e d) then run_wrapper act own w s else s) s (ev_listeners s e d)"

definition dispatchEvent :: "(nat \<Rightarrow> ev_state \<Rightarrow> ev_state) \<Rightarrow> string \<Rightarrow> string option \<Rightarrow> nat list \<Rightarrow> ev_state \<Rightarrow> ev_state" where
  "dispatchEvent act d own path s = foldl (dispatch_at act d own) s path"

definition fire :: "(nat \<Rightarrow> ev_state \<Rightarrow> ev_state) \<Rightarrow> nat list \<Rightarrow> string \<Rightarrow> ev_state \<Rightarrow> ev_state" where
  "fire act path name s = dispatchEvent act ''dataavailable'' (Some name) path s"

section \<open>Mouse events\<close>

datatype browser = IE | WebKit | OtherBrowser

record pressed =
  me_button :: int
  me_which :: int
  me_metaKey :: bool
  me_pageX :: int
  me_pageY :: int
  me_clientX :: int
  me_clientY :: int

definition isButton :: "browser \<Rightarrow> pressed \<Rightarrow> int \<Rightarrow> bool" where
  "isButton b ev code =
     (case b of
        IE \<Rightarrow> me_button ev = (if code = 0 then 1 else if code = 1 then 4 else 2)
      | WebKit \<Rightarrow>
          if code = 0 then me_which ev = 1 \<and> \<not> me_metaKey ev
          else if code = 1 then me_which ev = 1 \<and> me_metaKey ev else False
      | OtherBrowser \<Rightarrow> if me_which ev \<noteq> 0 then me_which ev = code + 1 else me_button ev = code)"

text \<open>\<open>pointer\<close>, with the scrolling and the border of the document element and of the body.\<close>

definition pointer_part :: "int \<Rightarrow> int \<Rightarrow> int \<Rightarrow> int \<Rightarrow> int \<Rightarrow> int" where
  "pointer_part on_page client doc_scroll body_scroll border =
     (if on_page \<noteq> 0 then on_page else client + (if doc_scroll \<noteq> 0 then doc_scroll else body_scroll) - border)"

section \<open>The specification\<close>

text \<open>What the registry promises: for an element and an event the handlers in the order they came.\<close>

type_synonym observers = "nat \<Rightarrow> string \<Rightarrow> nat list"

definition add_once :: "nat \<Rightarrow> nat list \<Rightarrow> nat list" where
  "add_once h hs = (if h \<in> set hs then hs else hs @ [h])"

datatype ev_cmd =
    Observe nat string nat
  | Stop nat string "nat option"
  | Fire "nat list" string

definition ev_run :: "ev_cmd \<Rightarrow> ev_state \<Rightarrow> ev_state" where
  "ev_run c s =
     (case c of
        Observe e name h \<Rightarrow> observe e name h s
      | Stop e name h \<Rightarrow> stopObserving e name h s
      | Fire path name \<Rightarrow> fire (\<lambda>_ s. s) path name s)"

definition spec_stop :: "nat \<Rightarrow> string \<Rightarrow> nat option \<Rightarrow> observers \<Rightarrow> observers" where
  "spec_stop e name h ob =
     (if name = [] then ob(e := (\<lambda>_. []))
      else ob(e := (ob e)(name := (case h of None \<Rightarrow> [] | Some h \<Rightarrow> removeAll h (ob e name)))))"

definition spec_run :: "ev_cmd \<Rightarrow> observers \<times> (nat \<times> nat) list \<Rightarrow> observers \<times> (nat \<times> nat) list" where
  "spec_run c st =
     (case c of
        Observe e name h \<Rightarrow> ((fst st)(e := (fst st e)(name := add_once h (fst st e name))), snd st)
      | Stop e name h \<Rightarrow> (spec_stop e name h (fst st), snd st)
      | Fire path name \<Rightarrow>
          (fst st, snd st @ (if getDOMEventName name = ''dataavailable''
             then concat (map (\<lambda>e. map (Pair e) (fst st e name)) path) else [])))"

section \<open>The registry keeps its promise\<close>

definition wrappers_of :: "ev_state \<Rightarrow> nat \<Rightarrow> string \<Rightarrow> wrapper list" where
  "wrappers_of s e name =
     (case ev_ids s e of
        None \<Rightarrow> []
      | Some i \<Rightarrow> (case ev_cache s i of None \<Rightarrow> [] | Some c \<Rightarrow> (case map_of c name of None \<Rightarrow> [] | Some ws \<Rightarrow> ws)))"

definition ids_ok :: "ev_state \<Rightarrow> bool" where
  "ids_ok s \<longleftrightarrow> (\<forall>a b i. ev_ids s a = Some i \<and> ev_ids s b = Some i \<longrightarrow> a = b) \<and>
     (\<forall>a i. ev_ids s a = Some i \<longrightarrow> i \<le> ev_last s) \<and> (\<forall>i. ev_cache s i \<noteq> None \<longrightarrow> i \<le> ev_last s)"

text \<open>The document listens with the wrappers of the cache, in their order for each event.\<close>

definition listen_ok :: "(nat \<Rightarrow> string \<Rightarrow> wrapper list) \<Rightarrow> (nat \<Rightarrow> string \<Rightarrow> wrapper list) \<Rightarrow> bool" where
  "listen_ok ls wr \<longleftrightarrow>
     (\<forall>e name. filter (\<lambda>w. w_event w = name) (ls e (getDOMEventName name)) = wr e name) \<and>
     (\<forall>e d. \<forall>w \<in> set (ls e d). w_element w = e \<and> getDOMEventName (w_event w) = d) \<and>
     (\<forall>e name. distinct (map w_handler (wr e name)))"

definition ev_inv :: "ev_state \<Rightarrow> bool" where
  "ev_inv s \<longleftrightarrow> ids_ok s \<and> listen_ok (ev_listeners s) (wrappers_of s)"

lemma listen_wrapper: "listen_ok ls wr \<Longrightarrow> w \<in> set (wr e name) \<Longrightarrow> w_element w = e \<and> w_event w = name"
proof -
  assume ok: "listen_ok ls wr" and w: "w \<in> set (wr e name)"
  have "wr e name = filter (\<lambda>w. w_event w = name) (ls e (getDOMEventName name))" using ok by (simp add: listen_ok_def)
  then have "w \<in> set (ls e (getDOMEventName name)) \<and> w_event w = name" using w by simp
  then show ?thesis using ok by (auto simp: listen_ok_def)
qed

lemma listen_add:
  assumes ok: "listen_ok ls wr" and "h \<notin> set (map w_handler (wr e name))" and w: "w = \<lparr>w_element = e, w_event = name, w_handler = h\<rparr>"
  shows "listen_ok (ls(e := (ls e)(getDOMEventName name := ls e (getDOMEventName name) @ [w])))
    (wr(e := (wr e)(name := wr e name @ [w])))"
proof -
  have fl: "filter (\<lambda>x. w_event x = n) (ls e (getDOMEventName n)) = wr e n" for n using ok by (simp add: listen_ok_def)
  let ?ls = "(ls e)(getDOMEventName name := ls e (getDOMEventName name) @ [w])"
  have "filter (\<lambda>x. w_event x = n) (?ls (getDOMEventName n)) = (if n = name then wr e n @ [w] else wr e n)" for n
    using fl [of n] w by (cases "getDOMEventName n = getDOMEventName name") auto
  moreover have "\<forall>x \<in> set (?ls d). w_element x = e \<and> getDOMEventName (w_event x) = d" for d
    using ok w by (auto simp: listen_ok_def)
  ultimately show ?thesis using ok assms(2) w by (auto simp: listen_ok_def)
qed

lemma listen_remove:
  assumes ok: "listen_ok ls wr" and m: "w \<in> set (wr e name)"
  shows "listen_ok (ls(e := (ls e)(getDOMEventName name := filter (\<lambda>x. x \<noteq> w) (ls e (getDOMEventName name)))))
    (wr(e := (wr e)(name := filter (\<lambda>x. x \<noteq> w) (wr e name))))"
proof -
  have we: "w_event w = name" using listen_wrapper [OF ok m] by simp
  have fl: "filter (\<lambda>x. w_event x = n) (ls e (getDOMEventName n)) = wr e n" for n using ok by (simp add: listen_ok_def)
  let ?ls = "(ls e)(getDOMEventName name := filter (\<lambda>x. x \<noteq> w) (ls e (getDOMEventName name)))"
  let ?wr = "(wr e)(name := filter (\<lambda>x. x \<noteq> w) (wr e name))"
  have a: "filter (\<lambda>x. w_event x = n) (?ls (getDOMEventName n)) = ?wr n" for n
  proof -
  have "filter (\<lambda>x. w_event x = n) (?ls (getDOMEventName n)) = (if n = name then filter (\<lambda>x. x \<noteq> w) (wr e n) else wr e n)"
  proof (cases "getDOMEventName n = getDOMEventName name")
    case True
    have "filter (\<lambda>x. w_event x = n) (?ls (getDOMEventName n)) =
        filter (\<lambda>x. x \<noteq> w) (filter (\<lambda>x. w_event x = n) (ls e (getDOMEventName n)))" using True by (simp add: conj_commute)
    also have "\<dots> = filter (\<lambda>x. x \<noteq> w) (wr e n)" by (simp only: fl)
    also have "\<dots> = (if n = name then filter (\<lambda>x. x \<noteq> w) (wr e n) else wr e n)"
      using listen_wrapper [OF ok, of _ e n] we by (auto simp: filter_id_conv)
    finally show ?thesis .
  qed (use fl [of n] in auto)
  then show ?thesis by simp
  qed
  have b: "\<forall>x \<in> set (?ls d). w_element x = e \<and> getDOMEventName (w_event x) = d" for d
    using ok by (auto simp: listen_ok_def)
  have c: "distinct (map w_handler (filter (\<lambda>x. x \<noteq> w) (wr e name)))"
    using ok by (simp add: listen_ok_def distinct_map_filter)
  show ?thesis
    unfolding listen_ok_def
  proof (intro conjI allI)
    show "filter (\<lambda>x. w_event x = n) ((ls(e := ?ls)) e' (getDOMEventName n)) = (wr(e := ?wr)) e' n" for e' n
    proof (cases "e' = e")
      case True
      show ?thesis unfolding True fun_upd_same by (rule a)
    next
      case False
      have "filter (\<lambda>x. w_event x = n) (ls e' (getDOMEventName n)) = wr e' n" using ok unfolding listen_ok_def by blast
      then show ?thesis unfolding fun_upd_other [OF False] .
    qed
    show "\<forall>x \<in> set ((ls(e := ?ls)) e' d). w_element x = e' \<and> getDOMEventName (w_event x) = d" for e' d
    proof (cases "e' = e")
      case True
      show ?thesis unfolding True fun_upd_same by (rule b)
    next
      case False
      have "\<forall>x \<in> set (ls e' d). w_element x = e' \<and> getDOMEventName (w_event x) = d" using ok unfolding listen_ok_def by blast
      then show ?thesis unfolding fun_upd_other [OF False] .
    qed
    show "distinct (map w_handler ((wr(e := ?wr)) e' n))" for e' n
      using c ok by (simp add: listen_ok_def)
  qed
qed

lemma getEventID_spec:
  assumes "ev_inv s" and "(s', i) = getEventID e s"
  shows "ev_inv s' \<and> ev_ids s' e = Some i \<and> wrappers_of s' = wrappers_of s \<and> ev_listeners s' = ev_listeners s \<and> ev_calls s' = ev_calls s"
proof (cases "ev_ids s e")
  case None
  define n where "n = (if ev_last s = 0 then 1 else ev_last s) + 1"
  have s': "s' = s\<lparr>ev_last := n, ev_ids := (ev_ids s)(e := Some n)\<rparr>" "i = n"
    using assms(2) None by (simp_all add: getEventID_def Let_def n_def)
  have iv: "ids_ok s" using assms(1) by (simp add: ev_inv_def)
  have lt: "ev_last s < n" by (simp add: n_def)
  then have c: "ev_cache s n = None" using iv unfolding ids_ok_def by (meson leD)
  have wr: "wrappers_of s' = wrappers_of s"
    using c None by (intro ext) (auto simp: wrappers_of_def s' split: option.split)
  have new: "ev_ids s a \<noteq> Some n" for a using iv lt unfolding ids_ok_def by (meson leD)
  have "ids_ok s'"
    unfolding ids_ok_def
  proof (intro conjI allI impI)
    show "a = b" if "ev_ids s' a = Some k \<and> ev_ids s' b = Some k" for a b k
      using that new iv unfolding s' ids_ok_def by (simp split: if_splits)
    show "k \<le> ev_last s'" if "ev_ids s' a = Some k" for a k
      using that iv unfolding s' ids_ok_def by (auto split: if_splits intro: order_trans [OF _ less_imp_le [OF lt]])
    show "k \<le> ev_last s'" if "ev_cache s' k \<noteq> None" for k
      using that iv unfolding s' ids_ok_def by (auto intro: order_trans [OF _ less_imp_le [OF lt]])
  qed
  then show ?thesis using assms(1) wr by (simp add: ev_inv_def s')
qed (use assms in \<open>simp add: getEventID_def\<close>)

text \<open>Writing the wrappers of one event into the cache.\<close>

lemma wrappers_set:
  assumes "ids_ok s" "ev_ids s e = Some i" "ev_cache s i = Some c"
  shows "wrappers_of (s\<lparr>ev_cache := (ev_cache s)(i := Some (AList.update name v c))\<rparr>) =
    (wrappers_of s)(e := (wrappers_of s e)(name := v))"
proof (intro ext)
  fix e' n
  have "ev_ids s e' = Some i \<longleftrightarrow> e' = e" using assms(1,2) by (auto simp: ids_ok_def)
  then show "wrappers_of (s\<lparr>ev_cache := (ev_cache s)(i := Some (AList.update name v c))\<rparr>) e' n =
    ((wrappers_of s)(e := (wrappers_of s e)(name := v))) e' n"
    using assms(2,3) by (auto simp: wrappers_of_def AList.update_conv' split: option.split)
qed

lemma ids_set:
  "ids_ok s \<Longrightarrow> ev_ids s e = Some i \<Longrightarrow> ids_ok (s\<lparr>ev_cache := (ev_cache s)(i := Some c)\<rparr>)"
  by (auto simp: ids_ok_def)

lemma getCacheForID_spec:
  assumes "ev_inv s" "ev_ids s e = Some i" "(s', c) = getCacheForID i s"
  shows "ev_inv s' \<and> ev_ids s' = ev_ids s \<and> wrappers_of s' = wrappers_of s \<and> ev_listeners s' = ev_listeners s \<and>
    ev_calls s' = ev_calls s \<and> ev_cache s' i = Some c"
proof (cases "ev_cache s i")
  case None
  have s': "s' = s\<lparr>ev_cache := (ev_cache s)(i := Some [])\<rparr>" "c = []" using assms(3) None by (simp_all add: getCacheForID_def)
  have wr: "wrappers_of s' = wrappers_of s" using None by (intro ext) (auto simp: wrappers_of_def s' split: option.split)
  have "ids_ok s'" using assms(1,2) ids_set by (auto simp: ev_inv_def s')
  then show ?thesis using assms(1) wr s' by (simp add: ev_inv_def)
qed (use assms in \<open>simp add: getCacheForID_def\<close>)

lemma getWrappers_spec:
  assumes "ev_inv s" "ev_ids s e = Some i" "(s', ws) = getWrappersForEventName i name s"
  shows "ev_inv s' \<and> ev_ids s' = ev_ids s \<and> wrappers_of s' = wrappers_of s \<and> ev_listeners s' = ev_listeners s \<and>
    ev_calls s' = ev_calls s \<and> ws = wrappers_of s e name \<and> (\<exists>c. ev_cache s' i = Some c \<and> map_of c name = Some ws)"
proof -
  obtain t c where t: "(t, c) = getCacheForID i s" by (metis surj_pair)
  note ts = getCacheForID_spec [OF assms(1,2) t]
  have it: "ids_ok t" "ev_ids t e = Some i" "ev_cache t i = Some c" using ts assms(2) by (simp_all add: ev_inv_def)
  have w: "wrappers_of s e name = (case map_of c name of None \<Rightarrow> [] | Some ws \<Rightarrow> ws)"
  proof -
    have "wrappers_of t e name = (case map_of c name of None \<Rightarrow> [] | Some ws \<Rightarrow> ws)" using it by (simp add: wrappers_of_def)
    then show ?thesis using ts by simp
  qed
  show ?thesis
  proof (cases "map_of c name")
    case None
    have s': "s' = t\<lparr>ev_cache := (ev_cache t)(i := Some (AList.update name [] c))\<rparr>" "ws = []"
      using assms(3) None by (simp_all add: getWrappersForEventName_def flip: t)
    have wr: "wrappers_of s' = wrappers_of s"
      using wrappers_set [OF it, of name "[]"] ts w None by (simp add: s' fun_upd_idem)
    have "ids_ok s'" using ids_set [OF it(1,2)] by (simp add: s')
    moreover have "listen_ok (ev_listeners s) (wrappers_of s)" using assms(1) by (simp add: ev_inv_def)
    ultimately show ?thesis using ts wr w None by (simp add: ev_inv_def s' AList.update_conv')
  next
    case (Some v)
    then show ?thesis using assms(3) ts w by (simp add: getWrappersForEventName_def flip: t)
  qed
qed

text \<open>A change of the wrappers of one event.\<close>

definition sets_wrappers :: "nat \<Rightarrow> string \<Rightarrow> wrapper list \<Rightarrow> ev_state \<Rightarrow> ev_state \<Rightarrow> bool" where
  "sets_wrappers e name v s s' \<longleftrightarrow> ev_inv s' \<and> wrappers_of s' = (wrappers_of s)(e := (wrappers_of s e)(name := v)) \<and>
     ev_calls s' = ev_calls s"

lemma set_both:
  assumes "ids_ok s" "ev_ids s e = Some i" "ev_cache s i = Some c"
    and "listen_ok ls ((wrappers_of s)(e := (wrappers_of s e)(name := v)))"
  shows "sets_wrappers e name v s
    (s\<lparr>ev_cache := (ev_cache s)(i := map_option (AList.update name v) (ev_cache s i)), ev_listeners := ls\<rparr>)"
proof -
  let ?t = "s\<lparr>ev_cache := (ev_cache s)(i := Some (AList.update name v c))\<rparr>"
  have "wrappers_of (?t\<lparr>ev_listeners := ls\<rparr>) = wrappers_of ?t" "ids_ok (?t\<lparr>ev_listeners := ls\<rparr>) = ids_ok ?t"
    by (auto simp: wrappers_of_def ids_ok_def fun_eq_iff split: option.split)
  then show ?thesis
    using assms ids_set [OF assms(1,2)] wrappers_set [OF assms(1-3)] by (simp add: sets_wrappers_def ev_inv_def)
qed

lemma observe_spec:
  assumes iv: "ev_inv s"
  shows "sets_wrappers e name
    (if h \<in> set (map w_handler (wrappers_of s e name)) then wrappers_of s e name
     else wrappers_of s e name @ [\<lparr>w_element = e, w_event = name, w_handler = h\<rparr>]) s (observe e name h s)"
proof -
  obtain t i where t: "(t, i) = getEventID e s" by (metis surj_pair)
  note ts = getEventID_spec [OF iv t]
  obtain u ws where u: "(u, ws) = getWrappersForEventName i name t" by (metis surj_pair)
  have us: "ev_inv u" "ev_ids u = ev_ids t" "wrappers_of u = wrappers_of s" "ev_listeners u = ev_listeners s" "ev_calls u = ev_calls s"
    "ws = wrappers_of s e name" "\<exists>c. ev_cache u i = Some c"
    using getWrappers_spec [OF _ _ u, of e] ts by auto
  then obtain c where c: "ev_cache u i = Some c" by blast
  let ?w = "\<lparr>w_element = e, w_event = name, w_handler = h\<rparr>" and ?d = "getDOMEventName name"
  show ?thesis
  proof (cases "h \<in> set (map w_handler ws)")
    case True
    then have "observe e name h s = u" by (simp add: observe_def createWrapper_def flip: t u)
    then show ?thesis using True us by (simp add: sets_wrappers_def)
  next
    case False
    let ?ls = "(ev_listeners u)(e := (ev_listeners u e)(?d := ev_listeners u e ?d @ [?w]))"
    have "observe e name h s =
        u\<lparr>ev_cache := (ev_cache u)(i := map_option (AList.update name (ws @ [?w])) (ev_cache u i)), ev_listeners := ?ls\<rparr>"
      using False by (simp add: observe_def createWrapper_def Let_def flip: t u)
    moreover have "sets_wrappers e name (ws @ [?w]) u
        (u\<lparr>ev_cache := (ev_cache u)(i := map_option (AList.update name (ws @ [?w])) (ev_cache u i)), ev_listeners := ?ls\<rparr>)"
    proof (rule set_both [OF _ _ c])
      show "ids_ok u" "ev_ids u e = Some i" using us ts by (simp_all add: ev_inv_def)
      show "listen_ok ?ls ((wrappers_of u)(e := (wrappers_of u e)(name := ws @ [?w])))"
        using listen_add [of "ev_listeners u" "wrappers_of u" h e name ?w] False us by (simp add: ev_inv_def)
    qed
    ultimately show ?thesis using False us by (simp add: sets_wrappers_def)
  qed
qed

lemma find_handler:
  assumes "distinct (map w_handler ws)"
  shows "find (\<lambda>w. w_handler w = h) ws = None \<and> filter (\<lambda>x. w_handler x \<noteq> h) ws = ws \<or>
    (\<exists>w. find (\<lambda>w. w_handler w = h) ws = Some w \<and> w \<in> set ws \<and> filter (\<lambda>x. x \<noteq> w) ws = filter (\<lambda>x. w_handler x \<noteq> h) ws)"
proof (cases "find (\<lambda>w. w_handler w = h) ws")
  case None
  then show ?thesis by (auto simp: find_None_iff filter_id_conv)
next
  case (Some w)
  then have w: "w \<in> set ws" "w_handler w = h" by (auto simp: find_Some_iff)
  have "x \<noteq> w \<longleftrightarrow> w_handler x \<noteq> h" if "x \<in> set ws" for x
    using assms w that by (auto simp: distinct_map dest: inj_onD)
  then have "filter (\<lambda>x. x \<noteq> w) ws = filter (\<lambda>x. w_handler x \<noteq> h) ws" by (simp cong: filter_cong)
  then show ?thesis using Some w by simp
qed

lemma destroyWrapper_known:
  assumes "ev_cache s i = Some c" "map_of c name = Some ws"
  shows "destroyWrapper i name h s = s\<lparr>ev_cache := (ev_cache s)(i := map_option
    (AList.update name (filter (\<lambda>x. Some x \<noteq> find (\<lambda>w. w_handler w = h) ws) ws)) (ev_cache s i))\<rparr>"
  using assms by (simp add: destroyWrapper_def findWrapper_def getCacheForID_def getWrappersForEventName_def)

lemma stop_handler_spec:
  assumes iv: "ev_inv s"
  shows "sets_wrappers e name (filter (\<lambda>x. w_handler x \<noteq> h) (wrappers_of s e name)) s (stop_handler e name h s)"
proof -
  obtain t i where t: "(t, i) = getEventID e s" by (metis surj_pair)
  note ts = getEventID_spec [OF iv t]
  obtain u ws where u: "(u, ws) = getWrappersForEventName i name t" by (metis surj_pair)
  have us: "ev_inv u" "ev_ids u e = Some i" "wrappers_of u = wrappers_of s" "ev_listeners u = ev_listeners s" "ev_calls u = ev_calls s"
    "ws = wrappers_of s e name" "\<exists>c. ev_cache u i = Some c \<and> map_of c name = Some ws"
    using getWrappers_spec [OF _ _ u, of e] ts by auto
  then obtain c where c: "ev_cache u i = Some c" "map_of c name = Some ws" by blast
  have dist: "distinct (map w_handler ws)" using iv us(6) by (simp add: ev_inv_def listen_ok_def)
  let ?d = "getDOMEventName name"
  from find_handler [OF dist, of h] show ?thesis
  proof (elim disjE exE conjE)
    assume "find (\<lambda>w. w_handler w = h) ws = None" "filter (\<lambda>x. w_handler x \<noteq> h) ws = ws"
    then show ?thesis using us by (simp add: stop_handler_def findWrapper_def sets_wrappers_def flip: t u)
  next
    fix w assume w: "find (\<lambda>w. w_handler w = h) ws = Some w" "w \<in> set ws"
      "filter (\<lambda>x. x \<noteq> w) ws = filter (\<lambda>x. w_handler x \<noteq> h) ws"
    let ?ls = "(ev_listeners u)(e := (ev_listeners u e)(?d := filter (\<lambda>x. x \<noteq> w) (ev_listeners u e ?d)))"
    let ?v = "filter (\<lambda>x. x \<noteq> w) ws"
    have "stop_handler e name h s = u\<lparr>ev_cache := (ev_cache u)(i := map_option (AList.update name ?v) (ev_cache u i)), ev_listeners := ?ls\<rparr>"
      using w(1) c by (simp add: stop_handler_def findWrapper_def destroyWrapper_known Let_def flip: t u)
    moreover have "sets_wrappers e name ?v u
        (u\<lparr>ev_cache := (ev_cache u)(i := map_option (AList.update name ?v) (ev_cache u i)), ev_listeners := ?ls\<rparr>)"
    proof (rule set_both [OF _ us(2) c(1)])
      show "ids_ok u" using us by (simp add: ev_inv_def)
      show "listen_ok ?ls ((wrappers_of u)(e := (wrappers_of u e)(name := ?v)))"
        using listen_remove [of "ev_listeners u" "wrappers_of u" w e name] w(2) us by (simp add: ev_inv_def)
    qed
    ultimately show ?thesis using w(3) us by (simp add: sets_wrappers_def)
  qed
qed

lemma stop_event_spec:
  assumes iv: "ev_inv s"
  shows "sets_wrappers e name [] s (stop_event e name s)"
proof -
  have stop_list: "sets_wrappers e name (filter (\<lambda>x. w_handler x \<notin> w_handler ` set vs) (wrappers_of s e name)) s
      (foldl (\<lambda>s w. stop_handler e name (w_handler w) s) s vs)" if "ev_inv s" for s vs
    using that
  proof (induction vs arbitrary: s)
    case (Cons v vs)
    have st: "sets_wrappers e name (filter (\<lambda>x. w_handler x \<noteq> w_handler v) (wrappers_of s e name)) s (stop_handler e name (w_handler v) s)"
      by (rule stop_handler_spec [OF Cons.prems])
    then have "ev_inv (stop_handler e name (w_handler v) s)" by (simp add: sets_wrappers_def)
    from Cons.IH [OF this] st show ?case by (simp add: sets_wrappers_def conj_commute)
  qed (simp add: sets_wrappers_def)
  obtain t i where t: "(t, i) = getEventID e s" by (metis surj_pair)
  note ts = getEventID_spec [OF iv t]
  obtain u ws where u: "(u, ws) = getWrappersForEventName i name t" by (metis surj_pair)
  have us: "ev_inv u" "wrappers_of u = wrappers_of s" "ev_calls u = ev_calls s" "ws = wrappers_of s e name"
    using getWrappers_spec [OF _ _ u, of e] ts by auto
  have "filter (\<lambda>x. w_handler x \<notin> w_handler ` set ws) ws = []" by (auto simp: filter_empty_conv)
  moreover have "stop_event e name s = foldl (\<lambda>s w. stop_handler e name (w_handler w) s) u ws"
    by (simp add: stop_event_def flip: t u)
  ultimately show ?thesis using stop_list [OF us(1), of ws] us by (simp add: sets_wrappers_def)
qed

lemma stop_all_spec:
  assumes iv: "ev_inv s"
  shows "ev_inv (stop_all e s) \<and> wrappers_of (stop_all e s) = (wrappers_of s)(e := (\<lambda>_. [])) \<and> ev_calls (stop_all e s) = ev_calls s"
proof -
  have stop_names: "ev_inv s' \<and> wrappers_of s' = (wrappers_of s)(e := (\<lambda>n. if n \<in> set ns then [] else wrappers_of s e n)) \<and>
      ev_calls s' = ev_calls s" if "ev_inv s" "s' = foldl (\<lambda>s name. stop_event e name s) s ns" for s s' ns
    using that
  proof (induction ns arbitrary: s)
    case (Cons n ns)
    have st: "sets_wrappers e n [] s (stop_event e n s)" by (rule stop_event_spec [OF Cons.prems(1)])
    then have "ev_inv (stop_event e n s)" by (simp add: sets_wrappers_def)
    from Cons.IH [OF this] Cons.prems(2) st show ?case by (auto simp: sets_wrappers_def fun_eq_iff)
  qed simp
  obtain t i where t: "(t, i) = getEventID e s" by (metis surj_pair)
  note ts = getEventID_spec [OF iv t]
  obtain u c where u: "(u, c) = getCacheForID i t" by (metis surj_pair)
  have us: "ev_inv u" "ev_ids u e = Some i" "wrappers_of u = wrappers_of s" "ev_calls u = ev_calls s" "ev_cache u i = Some c"
    using getCacheForID_spec [OF _ _ u, of e] ts by auto
  have "wrappers_of u e n = []" if "n \<notin> set (map fst c)" for n
    using that us(2,5) by (simp add: wrappers_of_def map_of_eq_None_iff [THEN iffD2])
  then have "(\<lambda>n. if n \<in> set (map fst c) then [] else wrappers_of u e n) = (\<lambda>_. [])" by auto
  moreover have "stop_all e s = foldl (\<lambda>s name. stop_event e name s) u (map fst c)" by (simp add: stop_all_def flip: t u)
  ultimately show ?thesis using stop_names [OF us(1) refl, of "map fst c"] us by simp
qed

text \<open>Firing an event calls the handlers of the elements on the way up.\<close>

lemma calls_frame [simp]:
  "wrappers_of (s\<lparr>ev_calls := c\<rparr>) = wrappers_of s" "ev_inv (s\<lparr>ev_calls := c\<rparr>) = ev_inv s"
proof -
  show w: "wrappers_of (s\<lparr>ev_calls := c\<rparr>) = wrappers_of s" by (auto simp: wrappers_of_def fun_eq_iff split: option.split)
  show "ev_inv (s\<lparr>ev_calls := c\<rparr>) = ev_inv s" by (simp add: ev_inv_def w ids_ok_def)
qed

lemma dispatch_at_calls:
  assumes iv: "ev_inv s" and "name \<noteq> []"
  shows "dispatch_at (\<lambda>_ s. s) ''dataavailable'' (Some name) s e =
    s\<lparr>ev_calls := ev_calls s @ (if getDOMEventName name = ''dataavailable''
       then map (\<lambda>w. (e, w_handler w)) (wrappers_of s e name) else [])\<rparr>"
proof -
  let ?d = "''dataavailable''"
  have ok: "listen_ok (ev_listeners s) (wrappers_of s)" using iv by (simp add: ev_inv_def)
  have run: "foldl (\<lambda>s w. if w \<in> set (ev_listeners s e ?d) then run_wrapper (\<lambda>_ s. s) (Some name) w s else s) t ws =
      t\<lparr>ev_calls := ev_calls t @ map (\<lambda>w. (e, w_handler w)) (filter (\<lambda>w. w_event w = name) ws)\<rparr>"
    if "set ws \<subseteq> set (ev_listeners t e ?d)" "ev_listeners t = ev_listeners s" for t ws
    using that
  proof (induction ws arbitrary: t)
    case (Cons w ws)
    have "w_element w = e" using Cons.prems ok by (auto simp: listen_ok_def)
    then show ?case using Cons assms(2) by (auto simp: run_wrapper_def)
  qed simp
  have "filter (\<lambda>w. w_event w = name) (ev_listeners s e ?d) =
      (if getDOMEventName name = ?d then wrappers_of s e name else [])"
  proof (cases "getDOMEventName name = ?d")
    case True
    have "filter (\<lambda>w. w_event w = name) (ev_listeners s e (getDOMEventName name)) = wrappers_of s e name"
      using ok unfolding listen_ok_def by blast
    then show ?thesis using True by simp
  next
    case False
    then show ?thesis using ok by (auto simp: filter_empty_conv listen_ok_def)
  qed
  then show ?thesis using run [of "ev_listeners s e ?d" s] by (simp add: dispatch_at_def)
qed

lemma fire_calls:
  assumes "ev_inv s" and "name \<noteq> []"
  shows "fire (\<lambda>_ s. s) path name s =
    s\<lparr>ev_calls := ev_calls s @ (if getDOMEventName name = ''dataavailable''
       then concat (map (\<lambda>e. map (Pair e) (map w_handler (wrappers_of s e name))) path) else [])\<rparr>"
  using assms
proof (induction path arbitrary: s)
  case (Cons e path)
  let ?t = "dispatch_at (\<lambda>_ s. s) ''dataavailable'' (Some name) s e"
  have t: "?t = s\<lparr>ev_calls := ev_calls s @ (if getDOMEventName name = ''dataavailable''
       then map (\<lambda>w. (e, w_handler w)) (wrappers_of s e name) else [])\<rparr>"
    by (rule dispatch_at_calls [OF Cons.prems])
  have "fire (\<lambda>_ s. s) (e # path) name s = fire (\<lambda>_ s. s) path name ?t" by (simp add: fire_def dispatchEvent_def)
  also have "\<dots> = ?t\<lparr>ev_calls := ev_calls ?t @ (if getDOMEventName name = ''dataavailable''
       then concat (map (\<lambda>e. map (Pair e) (map w_handler (wrappers_of ?t e name))) path) else [])\<rparr>"
    by (rule Cons.IH) (use t Cons.prems in simp_all)
  finally show ?case by (simp add: t comp_def)
qed (simp add: fire_def dispatchEvent_def)

section \<open>The interface of the registry\<close>

text \<open>What a client of a registry may rely on; \<open>ok\<close> is the invariant of the provider.\<close>

locale event_registry =
  fixes ok :: "'s \<Rightarrow> bool"
    and handlers :: "'s \<Rightarrow> nat \<Rightarrow> string \<Rightarrow> nat list"
    and obs :: "nat \<Rightarrow> string \<Rightarrow> nat \<Rightarrow> 's \<Rightarrow> 's"
    and stop :: "nat \<Rightarrow> string \<Rightarrow> nat \<Rightarrow> 's \<Rightarrow> 's"
  assumes obs_ok: "ok s \<Longrightarrow> ok (obs e name h s)"
    and stop_ok: "ok s \<Longrightarrow> ok (stop e name h s)"
    and obs_handlers: "ok s \<Longrightarrow> handlers (obs e name h s) = (handlers s)(e := (handlers s e)(name := add_once h (handlers s e name)))"
    and stop_handlers: "ok s \<Longrightarrow> handlers (stop e name h s) = (handlers s)(e := (handlers s e)(name := removeAll h (handlers s e name)))"
begin

lemma stop_undoes_obs:
  "ok s \<Longrightarrow> h \<notin> set (handlers s e name) \<Longrightarrow> handlers (stop e name h (obs e name h s)) = handlers s"
  by (simp add: stop_handlers obs_ok obs_handlers add_once_def)

lemma obs_list_ok: "ok s \<Longrightarrow> ok (foldl (\<lambda>s (e, name, h). obs e name h s) s os)"
  by (induction os arbitrary: s) (auto simp: obs_ok)

lemma obs_list_handlers:
  assumes "ok s" "distinct (map (\<lambda>(e, name, h). h) os)" "\<forall>(e, name, h) \<in> set os. \<forall>e' name'. h \<notin> set (handlers s e' name')"
  shows "handlers (foldl (\<lambda>s (e, name, h). obs e name h s) s os) e' name' =
    handlers s e' name' @ map (\<lambda>(e, name, h). h) (filter (\<lambda>(e, name, h). e = e' \<and> name = name') os)"
  using assms
proof (induction os arbitrary: s)
  case (Cons oh os)
  obtain e name h where oh: "oh = (e, name, h)" by (cases oh)
  have h: "h \<notin> set (handlers s e name)" using Cons.prems(3) oh by simp
  have hs: "handlers (obs e name h s) = (handlers s)(e := (handlers s e)(name := handlers s e name @ [h]))"
    using obs_handlers [OF Cons.prems(1), of e name h] h by (simp add: add_once_def)
  have fresh: "\<forall>(e2, name2, h2) \<in> set os. \<forall>e' name'. h2 \<notin> set (handlers (obs e name h s) e' name')"
  proof (clarify)
    fix e2 name2 h2 e3 name3 assume m: "(e2, name2, h2) \<in> set os" "h2 \<in> set (handlers (obs e name h s) e3 name3)"
    have "h2 \<noteq> h" using m(1) Cons.prems(2) by (force simp: oh)
    moreover have "h2 \<notin> set (handlers s e3 name3)" "h2 \<notin> set (handlers s e name)" using m(1) Cons.prems(3) by auto
    ultimately show False using m(2) by (auto simp: hs split: if_splits)
  qed
  have "handlers (foldl (\<lambda>s (e, name, h). obs e name h s) (obs e name h s) os) e' name' = handlers (obs e name h s) e' name' @
      map (\<lambda>(e, name, h). h) (filter (\<lambda>(e, name, h). e = e' \<and> name = name') os)"
    by (rule Cons.IH [OF obs_ok [OF Cons.prems(1)] _ fresh]) (use Cons.prems(2) in \<open>simp add: oh\<close>)
  then show ?case by (simp add: oh hs)
qed simp

end

interpretation reg: event_registry ev_inv "\<lambda>s e name. map w_handler (wrappers_of s e name)" observe stop_handler
proof
  have ra: "removeAll h (map w_handler ws) = map w_handler (filter (\<lambda>x. w_handler x \<noteq> h) ws)" for h ws
    by (induction ws) auto
  fix s e name h assume iv: "ev_inv s"
  show "ev_inv (observe e name h s)" "ev_inv (stop_handler e name h s)"
    using observe_spec [OF iv] stop_handler_spec [OF iv] by (simp_all add: sets_wrappers_def)
  show "(\<lambda>e' n. map w_handler (wrappers_of (observe e name h s) e' n)) = (\<lambda>e n. map w_handler (wrappers_of s e n))
      (e := (\<lambda>n. map w_handler (wrappers_of s e n))(name := add_once h (map w_handler (wrappers_of s e name))))"
    using observe_spec [OF iv, of e name h] by (auto simp: sets_wrappers_def add_once_def fun_eq_iff)
  show "(\<lambda>e' n. map w_handler (wrappers_of (stop_handler e name h s) e' n)) = (\<lambda>e n. map w_handler (wrappers_of s e n))
      (e := (\<lambda>n. map w_handler (wrappers_of s e n))(name := removeAll h (map w_handler (wrappers_of s e name))))"
    using stop_handler_spec [OF iv, of e name h] by (auto simp: sets_wrappers_def ra fun_eq_iff)
qed

section \<open>Refinement\<close>

definition ev_abs :: "ev_state \<Rightarrow> observers \<times> (nat \<times> nat) list" where
  "ev_abs s = (\<lambda>e name. map w_handler (wrappers_of s e name), ev_calls s)"

text \<open>Commands with names, as \<open>stop_all\<close> and the dispatch of an event need them.\<close>

definition named :: "ev_cmd \<Rightarrow> bool" where
  "named c = (case c of Observe e name h \<Rightarrow> name \<noteq> [] | Fire path name \<Rightarrow> name \<noteq> [] | Stop e name h \<Rightarrow> True)"

lemma removeAll_handlers: "removeAll h (map w_handler ws) = map w_handler (filter (\<lambda>x. w_handler x \<noteq> h) ws)"
  by (induction ws) auto

lemma run_refines:
  assumes "ev_inv s" "named c"
  shows "ev_inv (ev_run c s) \<and> ev_abs (ev_run c s) = spec_run c (ev_abs s)"
proof (cases c)
  case (Observe e name h)
  then show ?thesis
    using observe_spec [OF assms(1), of e name h]
    by (auto simp: ev_run_def spec_run_def ev_abs_def sets_wrappers_def add_once_def fun_eq_iff)
next
  case (Stop e name h)
  have "ev_inv (stopObserving e name h s) \<and> ev_abs (stopObserving e name h s) = (spec_stop e name h (fst (ev_abs s)), ev_calls s)"
    using stop_all_spec [OF assms(1), of e] stop_event_spec [OF assms(1), of e name] stop_handler_spec [OF assms(1), of e name]
    by (cases h) (auto simp: stopObserving_def spec_stop_def ev_abs_def sets_wrappers_def removeAll_handlers fun_eq_iff)
  then show ?thesis using Stop by (simp add: ev_run_def spec_run_def) (simp add: ev_abs_def)
next
  case (Fire path name)
  then show ?thesis
    using fire_calls [OF assms(1), of name path] assms by (simp add: ev_run_def spec_run_def ev_abs_def named_def)
qed

lemma init_ok: "ev_inv ev_init" "ev_abs ev_init = (\<lambda>_ _. [], [])"
  by (simp_all add: ev_inv_def ids_ok_def listen_ok_def ev_init_def wrappers_of_def ev_abs_def)

text \<open>
  C27. The registry implements its specification: after any sequence of \<open>observe\<close>, \<open>stopObserving\<close> (of
  a handler, of an event, of an element) and \<open>fire\<close> the handlers of every element and event are those
  of the specification in their order, each at most once, and exactly these were called by the events
  that were fired.
\<close>

theorem events_refine:
  assumes "\<forall>c \<in> set cmds. named c"
  shows "ev_abs (foldl (\<lambda>s c. ev_run c s) ev_init cmds) = foldl (\<lambda>st c. spec_run c st) (\<lambda>_ _. [], []) cmds"
proof -
  have "ev_inv (foldl (\<lambda>s c. ev_run c s) ev_init cmds) \<and>
    ev_abs (foldl (\<lambda>s c. ev_run c s) ev_init cmds) = foldl (\<lambda>st c. spec_run c st) (\<lambda>_ _. [], []) cmds"
    using assms
  proof (induction cmds rule: rev_induct)
    case (snoc c cmds)
    then show ?case using run_refines [of "foldl (\<lambda>s c. ev_run c s) ev_init cmds" c] by simp
  qed (simp add: init_ok)
  then show ?thesis by blast
qed

theorem events_refine_witness:
  "snd (ev_abs (foldl (\<lambda>s c. ev_run c s) ev_init
     [Observe 1 ''list:change'' 7, Observe 1 ''list:change'' 8, Observe 1 ''list:change'' 7, Observe 0 ''list:change'' 9,
      Fire [1, 0] ''list:change'', Stop 1 ''list:change'' (Some 7), Fire [1, 0] ''list:change''])) =
    [(1, 7), (1, 8), (0, 9), (1, 8), (0, 9)]"
  by (subst events_refine) (simp_all add: named_def spec_run_def spec_stop_def add_once_def getDOMEventName_def)

end
