(* ===== verification/ProtoForm.thy ===== *)
theory ProtoForm
  imports ProtoEvent ProtoAjax
begin

text \<open>
  \<open>Form\<close> of \<open>prototype.js\<close>: reading and setting the controls of a form, serialising them, and the
  observers that watch a control or a form by a timer or by events.  A form is the list of its
  controls in the order of the document.  The names of controls are not names that
  \<open>Object.prototype\<close> defines.
\<close>

section \<open>Controls\<close>

record opt =
  op_value :: "string option"
  op_text :: string
  op_selected :: bool

text \<open>\<open>fd_tabIndex\<close> is there when the control has the attribute.\<close>

record field =
  fd_tag :: string
  fd_type :: string
  fd_name :: string
  fd_value :: string
  fd_checked :: bool
  fd_disabled :: bool
  fd_options :: "opt list"
  fd_tabIndex :: "int option"

text \<open>The values that the serialisers return and take.\<close>

datatype fvalue = FNull | FText string | FMany "string list"

definition optionValue :: "opt \<Rightarrow> string" where
  "optionValue o' = (case op_value o' of Some v \<Rightarrow> v | None \<Rightarrow> op_text o')"

definition selectOne :: "field \<Rightarrow> fvalue" where
  "selectOne f = (case find op_selected (fd_options f) of Some o' \<Rightarrow> FText (optionValue o') | None \<Rightarrow> FNull)"

definition selectMany :: "field \<Rightarrow> fvalue" where
  "selectMany f =
     (if fd_options f = [] then FNull
      else FMany (map optionValue (filter op_selected (fd_options f))))"

definition input_get :: "field \<Rightarrow> fvalue" where
  "input_get f =
     (if to_lower_case (fd_type f) \<in> {''checkbox'', ''radio''}
      then (if fd_checked f then FText (fd_value f) else FNull)
      else FText (fd_value f))"

definition is_serializer :: "string \<Rightarrow> bool" where
  "is_serializer t \<longleftrightarrow> to_lower_case t \<in> {''input'', ''textarea'', ''select''}"

definition getValue :: "field \<Rightarrow> fvalue" where
  "getValue f =
     (if to_lower_case (fd_tag f) = ''input'' then input_get f
      else if to_lower_case (fd_tag f) = ''select''
      then (if fd_type f = ''select-one'' then selectOne f else selectMany f)
      else FText (fd_value f))"

text \<open>The text that a value becomes in a text control, and whether it counts as true.\<close>

definition fvalue_text :: "fvalue \<Rightarrow> string" where
  "fvalue_text v = (case v of FNull \<Rightarrow> [] | FText s \<Rightarrow> s | FMany vs \<Rightarrow> join '','' vs)"

definition fvalue_true :: "fvalue \<Rightarrow> bool" where
  "fvalue_true v = (case v of FNull \<Rightarrow> False | FText s \<Rightarrow> s \<noteq> [] | FMany vs \<Rightarrow> True)"

text \<open>
  Selecting an option: in a control for one choice the others are taken back, and when none is left
  the first one is chosen by the document.
\<close>

definition choose_option :: "bool \<Rightarrow> nat \<Rightarrow> bool \<Rightarrow> opt list \<Rightarrow> opt list" where
  "choose_option one i b os =
     (if \<not> one then os[i := (os ! i)\<lparr>op_selected := b\<rparr>]
      else if b then map (\<lambda>(o', k). o'\<lparr>op_selected := (k = i)\<rparr>) (zip os [0..<length os])
      else
        let os = os[i := (os ! i)\<lparr>op_selected := False\<rparr>]
        in if os \<noteq> [] \<and> list_all (\<lambda>o'. \<not> op_selected o') os then os[0 := (os ! 0)\<lparr>op_selected := True\<rparr>] else os)"

definition find_index :: "('a \<Rightarrow> bool) \<Rightarrow> 'a list \<Rightarrow> nat option" where
  "find_index P xs = find (\<lambda>i. P (xs ! i)) [0..<length xs]"

definition select_set :: "fvalue \<Rightarrow> field \<Rightarrow> field" where
  "select_set v f =
     (let one = (fd_type f = ''select-one'')
      in case v of
           FMany vs \<Rightarrow>
             f\<lparr>fd_options := foldl (\<lambda>os i. choose_option one i (optionValue (os ! i) \<in> set vs) os) (fd_options f) [0..<length (fd_options f)]\<rparr>
         | FText t \<Rightarrow>
             (case find_index (\<lambda>o'. optionValue o' = t) (fd_options f) of
                None \<Rightarrow> f
              | Some i \<Rightarrow> f\<lparr>fd_options := choose_option one i True (fd_options f)\<rparr>)
         | FNull \<Rightarrow> f)"

definition field_setValue :: "fvalue \<Rightarrow> field \<Rightarrow> field" where
  "field_setValue v f =
     (if to_lower_case (fd_tag f) = ''input'' \<and> to_lower_case (fd_type f) \<in> {''checkbox'', ''radio''}
      then f\<lparr>fd_checked := fvalue_true v\<rparr>
      else if to_lower_case (fd_tag f) = ''select'' then select_set v f
      else f\<lparr>fd_value := fvalue_text v\<rparr>)"

definition fd_clear :: "field \<Rightarrow> field" where
  "fd_clear f = f\<lparr>fd_value := []\<rparr>"

definition fd_present :: "field \<Rightarrow> bool" where
  "fd_present f \<longleftrightarrow> fd_value f \<noteq> []"

definition fd_disable :: "field \<Rightarrow> field" where
  "fd_disable f = f\<lparr>fd_disabled := True\<rparr>"

definition fd_enable :: "field \<Rightarrow> field" where
  "fd_enable f = f\<lparr>fd_disabled := False\<rparr>"

definition field_pair :: "string \<Rightarrow> fvalue \<Rightarrow> hval props" where
  "field_pair name v =
     (case v of FNull \<Rightarrow> [] | FText t \<Rightarrow> [(name, HPrim (Str t))] | FMany ts \<Rightarrow> [(name, HArr (map Str ts))])"

definition field_serialize :: "field \<Rightarrow> string" where
  "field_serialize f =
     (if \<not> fd_disabled f \<and> fd_name f \<noteq> [] then toQueryString (field_pair (fd_name f) (getValue f)) else [])"

section \<open>Forms\<close>

definition getElements :: "field list \<Rightarrow> field list" where
  "getElements fs = inject [] (\<lambda>elements child _. if is_serializer (fd_tag child) then elements @ [child] else elements) fs"

definition getInputs :: "string \<Rightarrow> string \<Rightarrow> field list \<Rightarrow> field list" where
  "getInputs typeName name fs =
     (let inputs = filter (\<lambda>f. to_lower_case (fd_tag f) = ''input'') fs
      in if typeName = [] \<and> name = [] then inputs
         else filter (\<lambda>f. \<not> (typeName \<noteq> [] \<and> fd_type f \<noteq> typeName \<or> name \<noteq> [] \<and> fd_name f \<noteq> name)) inputs)"

definition on_controls :: "(field \<Rightarrow> field) \<Rightarrow> field list \<Rightarrow> field list" where
  "on_controls g fs = map (\<lambda>f. if is_serializer (fd_tag f) then g f else f) fs"

definition form_disable :: "field list \<Rightarrow> field list" where
  "form_disable fs = on_controls fd_disable fs"

definition form_enable :: "field list \<Rightarrow> field list" where
  "form_enable fs = on_controls fd_enable fs"

definition findFirstElement :: "field list \<Rightarrow> field option" where
  "findFirstElement fs =
     (let elements = findAll (\<lambda>f _. fd_type f \<noteq> ''hidden'' \<and> \<not> fd_disabled f) (getElements fs);
          byIndex = sortBy (\<lambda>f _. the (fd_tabIndex f))
            (findAll (\<lambda>f _. case fd_tabIndex f of None \<Rightarrow> False | Some i \<Rightarrow> i \<ge> 0) elements)
      in case byIndex of
           f # _ \<Rightarrow> Some f
         | [] \<Rightarrow> detect (\<lambda>f _. to_lower_case (fd_tag f) \<in> {''input'', ''select'', ''textarea''}) elements)"

text \<open>
  \<open>serializeElements\<close>.  An entry of the result is a text or an array, into which an array that comes
  later is put as one item.  The option \<open>submit\<close> is not there, \<open>false\<close>, or the name of a button.
\<close>

datatype sitem = SText string | SNest "string list"

datatype sdata = SOne string | SMany "sitem list"

datatype submit = AnySubmit | NoSubmit | SubmitName string

definition item_of :: "fvalue \<Rightarrow> sitem" where
  "item_of v = (case v of FMany ts \<Rightarrow> SNest ts | _ \<Rightarrow> SText (fvalue_text v))"

definition entry_of :: "fvalue \<Rightarrow> sdata" where
  "entry_of v = (case v of FMany ts \<Rightarrow> SMany (map SText ts) | _ \<Rightarrow> SOne (fvalue_text v))"

definition add_value :: "string \<Rightarrow> fvalue \<Rightarrow> sdata props \<Rightarrow> sdata props" where
  "add_value key v result =
     (case map_of result key of
        None \<Rightarrow> AList.update key (entry_of v) result
      | Some (SOne t) \<Rightarrow> AList.update key (SMany [SText t, item_of v]) result
      | Some (SMany items) \<Rightarrow> AList.update key (SMany (items @ [item_of v])) result)"

definition may_submit :: "submit \<Rightarrow> bool \<Rightarrow> string \<Rightarrow> bool" where
  "may_submit submit submitted key \<longleftrightarrow>
     \<not> submitted \<and> submit \<noteq> NoSubmit \<and> (case submit of SubmitName n \<Rightarrow> n = [] \<or> key = n | _ \<Rightarrow> True)"

definition serialize_field :: "submit \<Rightarrow> sdata props \<times> bool \<Rightarrow> field \<Rightarrow> sdata props \<times> bool" where
  "serialize_field submit st f =
     (let (result, submitted) = st; key = fd_name f; v = getValue f
      in if \<not> fd_disabled f \<and> key \<noteq> [] \<and> v \<noteq> FNull \<and> fd_type f \<noteq> ''file'' \<and>
            (fd_type f \<noteq> ''submit'' \<or> may_submit submit submitted key)
         then (add_value key v result, submitted \<or> fd_type f = ''submit'')
         else st)"

definition serializeElements :: "submit \<Rightarrow> field list \<Rightarrow> sdata props" where
  "serializeElements submit fs = fst (inject ([], False) (\<lambda>st f _. serialize_field submit st f) fs)"

text \<open>An array within an array becomes its text.\<close>

definition item_text :: "sitem \<Rightarrow> string" where
  "item_text i = (case i of SText t \<Rightarrow> t | SNest ts \<Rightarrow> join '','' ts)"

definition data_hval :: "sdata \<Rightarrow> hval" where
  "data_hval d = (case d of SOne t \<Rightarrow> HPrim (Str t) | SMany items \<Rightarrow> HArr (map (\<lambda>i. Str (item_text i)) items))"

definition data_query :: "sdata props \<Rightarrow> string" where
  "data_query ds = toQueryString (map (\<lambda>(k, d). (k, data_hval d)) ds)"

definition form_serialize :: "submit \<Rightarrow> field list \<Rightarrow> string" where
  "form_serialize submit fs = data_query (serializeElements submit (getElements fs))"

text \<open>\<open>Form.request\<close>: the address, the method and the parameters of the request it makes.\<close>

definition form_request :: "string \<Rightarrow> string option \<Rightarrow> string option \<Rightarrow> string option \<Rightarrow> sdata props \<Rightarrow> field list \<Rightarrow>
    string \<times> string option \<times> sdata props" where
  "form_request href action form_method opt_method params fs =
     (let a = (case action of None \<Rightarrow> [] | Some a \<Rightarrow> a)
      in (if blank a then href else a,
          case opt_method of Some m \<Rightarrow> Some m | None \<Rightarrow> form_method,
          object_extend (serializeElements AnySubmit (getElements fs)) params))"

section \<open>Observers\<close>

text \<open>The last value that was seen and the values the callback was called with.\<close>

record timed_observer =
  to_last :: fvalue
  to_calls :: "fvalue list"

definition value_string :: "fvalue \<Rightarrow> string" where
  "value_string v = (case v of FNull \<Rightarrow> ''null'' | FText s \<Rightarrow> s | FMany vs \<Rightarrow> join '','' vs)"

definition timed_init :: "fvalue \<Rightarrow> timed_observer" where
  "timed_init v = \<lparr>to_last = v, to_calls = []\<rparr>"

definition timed_execute :: "timed_observer \<Rightarrow> fvalue \<Rightarrow> timed_observer" where
  "timed_execute t v =
     (if value_string (to_last t) \<noteq> value_string v
      then t\<lparr>to_calls := to_calls t @ [v], to_last := v\<rparr> else t)"

text \<open>An array that is read anew is another object than the one before.\<close>

definition same_value :: "fvalue \<Rightarrow> fvalue \<Rightarrow> bool" where
  "same_value v w = (case v of FMany _ \<Rightarrow> False | _ \<Rightarrow> v = w)"

definition onElementEvent :: "timed_observer \<Rightarrow> fvalue \<Rightarrow> timed_observer" where
  "onElementEvent t v =
     (if \<not> same_value (to_last t) v then t\<lparr>to_calls := to_calls t @ [v], to_last := v\<rparr> else t)"

text \<open>Every registration makes a function of its own, numbered from \<open>h\<close> on.\<close>

definition callback_event :: "field \<Rightarrow> string option" where
  "callback_event f =
     (if fd_type f = [] then None
      else if to_lower_case (fd_type f) \<in> {''checkbox'', ''radio''} then Some ''click'' else Some ''change'')"

definition registrations :: "nat \<Rightarrow> (nat \<times> field) list \<Rightarrow> (nat \<times> string \<times> nat) list" where
  "registrations h efs =
     concat (map (\<lambda>((e, f), k). case callback_event f of None \<Rightarrow> [] | Some name \<Rightarrow> [(e, name, k)]) (zip efs [h..<h + length efs]))"

definition registerFormCallbacks :: "nat \<Rightarrow> (nat \<times> field) list \<Rightarrow> ev_state \<Rightarrow> ev_state" where
  "registerFormCallbacks h efs s =
     foldl (\<lambda>s (e, name, k). observe e name k s) s (registrations h (filter (\<lambda>(e, f). is_serializer (fd_tag f)) efs))"

section \<open>A form and its query\<close>

text \<open>The texts of an entry.\<close>

definition data_texts :: "sdata \<Rightarrow> string list" where
  "data_texts d = (case d of SOne t \<Rightarrow> [t] | SMany items \<Rightarrow> map item_text items)"

lemma data_query_lines:
  "data_query ds = join ''&'' (query_lines (ungroup (map (\<lambda>(k, d). (k, data_texts d)) ds)))"
proof -
  let ?f = "\<lambda>results pair. let key = encodeURIComponent (fst pair) in case snd pair of
      HPrim p \<Rightarrow> results @ [toQueryPair key p] | HArr vs \<Rightarrow> results @ map (toQueryPair key) vs | HObject \<Rightarrow> results"
  have "foldl ?f acc (map (\<lambda>(k, d). (k, data_hval d)) ds) = acc @ query_lines (ungroup (map (\<lambda>(k, d). (k, data_texts d)) ds))" for acc
    by (induction ds arbitrary: acc)
       (auto simp: data_hval_def data_texts_def query_lines_def ungroup_def toQueryPair_def interpret_prim_def Let_def split: sdata.split)
  then show ?thesis by (simp only: data_query_def toQueryString_def inject_simple append_Nil)
qed

lemma update_keys: "fst ` set (AList.update k v r) = insert k (fst ` set r)"
  by (induction r) auto

lemma add_value_keys: "fst ` set (add_value k v r) = insert k (fst ` set r)"
  by (simp add: add_value_def update_keys split: option.split sdata.split)

lemma add_value_distinct: "distinct (map fst r) \<Longrightarrow> distinct (map fst (add_value k v r))"
  by (simp add: add_value_def AList.distinct_update split: option.split sdata.split)

definition serialize_run :: "submit \<Rightarrow> sdata props \<times> bool \<Rightarrow> field list \<Rightarrow> sdata props \<times> bool" where
  "serialize_run submit st fs = foldl (serialize_field submit) st fs"

lemma serializeElements_run: "serializeElements submit fs = fst (serialize_run submit ([], False) fs)"
  by (simp only: serializeElements_def inject_simple serialize_run_def)

lemma field_keys:
  assumes "distinct (map fst (fst st))" "fst ` set (fst st) \<subseteq> S" "fd_name f \<noteq> [] \<longrightarrow> fd_name f \<in> S"
  shows "distinct (map fst (fst (serialize_field submit st f))) \<and> fst ` set (fst (serialize_field submit st f)) \<subseteq> S"
proof (cases st)
  case (Pair r b)
  then show ?thesis
    using assms by (simp add: serialize_field_def Let_def add_value_distinct add_value_keys)
qed

lemma run_keys:
  assumes "distinct (map fst (fst st))" "fst ` set (fst st) \<subseteq> S" "\<forall>f \<in> set fs. fd_name f \<noteq> [] \<longrightarrow> fd_name f \<in> S"
  shows "distinct (map fst (fst (serialize_run submit st fs))) \<and> fst ` set (fst (serialize_run submit st fs)) \<subseteq> S"
  using assms
proof (induction fs arbitrary: st)
  case (Cons f fs)
  then show ?case using field_keys [OF Cons.prems(1,2), of f submit] by (simp add: serialize_run_def)
qed (simp add: serialize_run_def)

lemma getElements_filter: "getElements fs = filter (\<lambda>f. is_serializer (fd_tag f)) fs"
proof -
  have "foldl (\<lambda>elements child. if is_serializer (fd_tag child) then elements @ [child] else elements) acc fs =
      acc @ filter (\<lambda>f. is_serializer (fd_tag f)) fs" for acc
    by (induction fs arbitrary: acc) simp_all
  then show ?thesis by (simp only: getElements_def inject_simple append_Nil)
qed

text \<open>Entries that have names of their own are read back from their query.\<close>

definition names_ok :: "'v props \<Rightarrow> bool" where
  "names_ok ds \<longleftrightarrow> distinct (map fst ds) \<and> (\<forall>k \<in> fst ` set ds. k \<noteq> [] \<and> \<not> inherited k)"

definition read_entries :: "sdata props \<Rightarrow> qval props" where
  "read_entries ds = map (\<lambda>(k, vs). (k, read_values vs)) (filter (\<lambda>(k, vs). vs \<noteq> []) (map (\<lambda>(k, d). (k, data_texts d)) ds))"

lemma data_query_read:
  assumes "names_ok ds"
  shows "toQueryParams CHR ''&'' (data_query ds) = Some (read_entries ds)"
proof -
  let ?g = "map (\<lambda>(k, d). (k, data_texts d)) ds"
  have keys: "map fst ?g = map fst ds" "map fst (map (\<lambda>(k, vs). (k, read_values vs)) ?g) = map fst ds" by (simp_all add: comp_def split_beta)
  have "\<forall>(k, vs) \<in> set ?g. k \<noteq> [] \<and> \<not> inherited k" using assms unfolding names_ok_def by fastforce
  moreover have "distinct (map fst ([] @ map (\<lambda>(k, vs). (k, read_values vs)) ?g))"
    using assms unfolding append_Nil keys names_ok_def by blast
  ultimately show ?thesis
    using read_groups [of ?g "[]"] by (simp add: data_query_lines read_lines read_entries_def)
qed

lemma serialized_names:
  assumes "\<forall>f \<in> set fs. \<not> inherited (fd_name f)"
  shows "names_ok (serializeElements submit (getElements fs))"
proof -
  have "set (getElements fs) \<subseteq> set fs" by (auto simp: getElements_filter)
  then show ?thesis
    using run_keys [of "([], False)" "{k. k \<noteq> [] \<and> \<not> inherited k}" "getElements fs" submit] assms
    by (auto simp: serializeElements_run names_ok_def)
qed

text \<open>
  C28. What a form serialises to is read back by \<open>toQueryParams\<close>: the names in the order of their
  first control, each with the texts that \<open>serializeElements\<close> collects for it; names without a text
  (a list in which nothing is chosen) are left out.
\<close>

theorem form_query_read_back:
  assumes "\<forall>f \<in> set fs. \<not> inherited (fd_name f)"
  shows "toQueryParams CHR ''&'' (form_serialize submit fs) = Some (read_entries (serializeElements submit (getElements fs)))"
  unfolding form_serialize_def by (rule data_query_read [OF serialized_names [OF assms]])

section \<open>The values of a name\<close>

text \<open>The controls that count, apart from buttons.\<close>

definition successful :: "field \<Rightarrow> bool" where
  "successful f \<longleftrightarrow> \<not> fd_disabled f \<and> fd_name f \<noteq> [] \<and> getValue f \<noteq> FNull \<and> fd_type f \<noteq> ''file'' \<and> fd_type f \<noteq> ''submit''"

definition value_texts :: "fvalue \<Rightarrow> string list" where
  "value_texts v = (case v of FNull \<Rightarrow> [] | FText t \<Rightarrow> [t] | FMany ts \<Rightarrow> ts)"

definition is_many :: "fvalue \<Rightarrow> bool" where
  "is_many v = (case v of FMany _ \<Rightarrow> True | _ \<Rightarrow> False)"

text \<open>A list of choices is the first control of its name.\<close>

definition arrays_first :: "field list \<Rightarrow> bool" where
  "arrays_first fs \<longleftrightarrow> (\<forall>pre f post. fs = pre @ f # post \<longrightarrow> successful f \<and> is_many (getValue f) \<longrightarrow>
     (\<forall>g \<in> set pre. successful g \<longrightarrow> fd_name g \<noteq> fd_name f))"

lemma arrays_first_snoc:
  "arrays_first (fs @ [f]) \<Longrightarrow> arrays_first fs \<and>
     (successful f \<and> is_many (getValue f) \<longrightarrow> (\<forall>g \<in> set fs. successful g \<longrightarrow> fd_name g \<noteq> fd_name f))"
  unfolding arrays_first_def by (metis append_Cons append_assoc)

lemma add_value_texts:
  assumes "v \<noteq> FNull" and "is_many v \<longrightarrow> map_of r k = None"
  shows "map_option data_texts (map_of (add_value k v r) j) =
    (if j = k then Some ((case map_of r k of None \<Rightarrow> [] | Some d \<Rightarrow> data_texts d) @ value_texts v)
     else map_option data_texts (map_of r j))"
  using assms
  by (cases v) (auto simp: add_value_def AList.update_conv' data_texts_def entry_of_def item_of_def item_text_def value_texts_def
      fvalue_text_def is_many_def comp_def split: option.split sdata.split)


section \<open>Setting a control and reading it\<close>

lemma find_index_Some:
  "find_index P xs = Some i \<Longrightarrow> i < length xs \<and> P (xs ! i)"
  by (auto simp: find_index_def find_Some_iff)

lemma find_index_None: "find_index P xs = None \<longleftrightarrow> (\<forall>x \<in> set xs. \<not> P x)"
  by (simp add: find_index_def find_None_iff all_set_conv_all_nth)

lemma find_first: "i < length ys \<Longrightarrow> P (ys ! i) \<Longrightarrow> \<forall>j < i. \<not> P (ys ! j) \<Longrightarrow> find P ys = Some (ys ! i)"
  by (auto simp: find_Some_iff)

lemma choose_one:
  assumes "i < length os"
  shows "find op_selected (choose_option True i True os) = Some ((os ! i)\<lparr>op_selected := True\<rparr>)"
proof -
  let ?os = "map (\<lambda>(o', k). o'\<lparr>op_selected := (k = i)\<rparr>) (zip os [0..<length os])"
  have nth: "?os ! k = (os ! k)\<lparr>op_selected := (k = i)\<rparr>" if "k < length os" for k using that by simp
  have "find op_selected ?os = Some (?os ! i)"
    by (rule find_first) (use assms nth in simp_all)
  then show ?thesis using nth [OF assms] by (simp add: choose_option_def)
qed

lemma choose_many:
  "foldl (\<lambda>os i. choose_option False i (optionValue (os ! i) \<in> S) os) os [0..<n] =
     map (\<lambda>(o', k). if k < n then o'\<lparr>op_selected := (optionValue o' \<in> S)\<rparr> else o') (zip os [0..<length os])" if "n \<le> length os"
  using that
proof (induction n)
  case 0
  then show ?case by (simp add: case_prod_beta')
next
  case (Suc n)
  let ?f = "\<lambda>m (o', k). if k < m then o'\<lparr>op_selected := (optionValue o' \<in> S)\<rparr> else o'"
  have n: "n < length os" using Suc.prems by simp
  have "map (?f n) (zip os [0..<length os]) ! n = os ! n" using n by simp
  then have "foldl (\<lambda>os i. choose_option False i (optionValue (os ! i) \<in> S) os) os [0..<Suc n] =
      (map (?f n) (zip os [0..<length os]))[n := (os ! n)\<lparr>op_selected := (optionValue (os ! n) \<in> S)\<rparr>]"
    using Suc by (simp add: choose_option_def)
  also have "\<dots> = map (?f (Suc n)) (zip os [0..<length os])"
  proof (rule nth_equalityI)
    fix k assume "k < length ((map (?f n) (zip os [0..<length os]))[n := (os ! n)\<lparr>op_selected := (optionValue (os ! n) \<in> S)\<rparr>])"
    then have "k < length os" by simp
    then show "(map (?f n) (zip os [0..<length os]))[n := (os ! n)\<lparr>op_selected := (optionValue (os ! n) \<in> S)\<rparr>] ! k =
        map (?f (Suc n)) (zip os [0..<length os]) ! k"
      using n by (cases "k = n") (simp_all add: less_Suc_eq)
  qed simp
  finally show ?case .
qed

lemma selected_values: "optionValue (o'\<lparr>op_selected := b\<rparr>) = optionValue o'"
  by (simp add: optionValue_def split: option.split)

lemma select_rules:
  "to_lower_case (fd_tag f) = ''select'' \<Longrightarrow> field_setValue v f = select_set v f"
  "to_lower_case (fd_tag f) = ''select'' \<Longrightarrow> getValue f = (if fd_type f = ''select-one'' then selectOne f else selectMany f)"
  by (simp_all add: field_setValue_def getValue_def)

text \<open>
  Reading a control after setting it: a text control has the text, a box or radio button gives its
  value or nothing, a list for one choice has the choice if it offers it and is as before if not, and
  a list for several choices has exactly those of the choices that it offers, in its own order.
\<close>

theorem getValue_setValue:
  assumes "kind = to_lower_case (fd_tag f)" and "box = (to_lower_case (fd_type f) \<in> {''checkbox'', ''radio''})"
    and "is_serializer (fd_tag f)"
  shows "(kind \<noteq> ''select'' \<and> \<not> (kind = ''input'' \<and> box) \<longrightarrow> getValue (field_setValue (FText t) f) = FText t) \<and>
    (kind = ''input'' \<and> box \<longrightarrow> getValue (field_setValue v f) = (if fvalue_true v then FText (fd_value f) else FNull)) \<and>
    (kind = ''select'' \<and> fd_type f = ''select-one'' \<longrightarrow>
       (if t \<in> set (map optionValue (fd_options f)) then getValue (field_setValue (FText t) f) = FText t else field_setValue (FText t) f = f)) \<and>
    (kind = ''select'' \<and> fd_type f \<noteq> ''select-one'' \<and> fd_options f \<noteq> [] \<longrightarrow>
       getValue (field_setValue (FMany ts) f) = FMany (filter (\<lambda>x. x \<in> set ts) (map optionValue (fd_options f))))"
proof (intro conjI impI)
  assume "kind \<noteq> ''select'' \<and> \<not> (kind = ''input'' \<and> box)"
  then show "getValue (field_setValue (FText t) f) = FText t"
    using assms by (auto simp: field_setValue_def getValue_def input_get_def fvalue_text_def)
next
  assume "kind = ''input'' \<and> box"
  then show "getValue (field_setValue v f) = (if fvalue_true v then FText (fd_value f) else FNull)"
    using assms by (auto simp: field_setValue_def getValue_def input_get_def)
next
  assume k: "kind = ''select'' \<and> fd_type f = ''select-one''"
  let ?i = "find_index (\<lambda>o'. optionValue o' = t) (fd_options f)"
  show "if t \<in> set (map optionValue (fd_options f)) then getValue (field_setValue (FText t) f) = FText t else field_setValue (FText t) f = f"
  proof (cases ?i)
    case None
    then have "t \<notin> set (map optionValue (fd_options f))" by (auto simp: find_index_None)
    then show ?thesis using k assms(1) None by (simp add: select_rules select_set_def)
  next
    case (Some i)
    have i: "i < length (fd_options f)" "optionValue (fd_options f ! i) = t" using find_index_Some [OF Some] by auto
    then have "t \<in> set (map optionValue (fd_options f))" by auto
    then show ?thesis
      using k assms(1) Some i choose_one [OF i(1)] by (simp add: select_rules select_set_def selectOne_def selected_values)
  qed
next
  assume k: "kind = ''select'' \<and> fd_type f \<noteq> ''select-one'' \<and> fd_options f \<noteq> []"
  let ?os = "fd_options f" and ?S = "set ts"
  let ?set = "map (\<lambda>o'. o'\<lparr>op_selected := (optionValue o' \<in> ?S)\<rparr>) ?os"
  have "foldl (\<lambda>os i. choose_option False i (optionValue (os ! i) \<in> ?S) os) ?os [0..<length ?os] = ?set"
    unfolding choose_many [OF order_refl] by (rule nth_equalityI) simp_all
  moreover have "map optionValue (filter op_selected ?set) = filter (\<lambda>x. x \<in> ?S) (map optionValue ?os)"
    by (simp add: filter_map comp_def selected_values)
  ultimately show "getValue (field_setValue (FMany ts) f) = FMany (filter (\<lambda>x. x \<in> set ts) (map optionValue (fd_options f)))"
    using k assms(1) by (simp add: select_rules select_set_def selectMany_def)
qed

section \<open>Observers report changes\<close>

text \<open>
  An observer by a timer calls its callback exactly with the values whose text is not that of the
  value at the tick before.
\<close>

theorem timed_reports_changes:
  "to_calls (foldl timed_execute (timed_init v) vs) =
     map snd (filter (\<lambda>(a, b). value_string a \<noteq> value_string b) (zip (v # vs) vs))"
proof -
  have "to_calls (foldl timed_execute t vs) =
      to_calls t @ map snd (filter (\<lambda>(a, b). value_string a \<noteq> value_string b) (zip (v # vs) vs))"
    if "value_string (to_last t) = value_string v" for t
    using that
  proof (induction vs arbitrary: t v)
    case (Cons w vs)
    let ?t = "timed_execute t w"
    have t: "value_string (to_last ?t) = value_string w" using Cons.prems by (simp add: timed_execute_def)
    show ?case using Cons.IH [OF t] Cons.prems by (simp add: timed_execute_def)
  qed simp
  then show ?thesis by (simp add: timed_init_def)
qed

text \<open>
  An observer by events calls its callback at every event of a list for several choices, also when
  nothing has changed.
\<close>

lemma event_observer_repeats:
  "to_calls (foldl onElementEvent (timed_init (FMany ts)) (replicate n (FMany ts))) = replicate n (FMany ts)"
proof -
  have "to_last t = FMany ts \<Longrightarrow> to_calls (foldl onElementEvent t (replicate n (FMany ts))) = to_calls t @ replicate n (FMany ts)" for t
  proof (induction n arbitrary: t)
    case (Suc n)
    have "onElementEvent t (FMany ts) = t\<lparr>to_calls := to_calls t @ [FMany ts], to_last := FMany ts\<rparr>"
      using Suc.prems by (simp add: onElementEvent_def same_value_def)
    then show ?case using Suc.IH [of "onElementEvent t (FMany ts)"] by simp
  qed simp
  then show ?thesis by (simp add: timed_init_def)
qed

lemma registration_handlers:
  "map (\<lambda>(e, name, k). k) (registrations h efs) = map snd (filter (\<lambda>((e, f), k). callback_event f \<noteq> None) (zip efs [h..<h + length efs]))"
proof -
  have "map (\<lambda>(e, name, k). k) (concat (map (\<lambda>((e, f), k). case callback_event f of None \<Rightarrow> [] | Some name \<Rightarrow> [(e, name, k)]) xs)) =
      map snd (filter (\<lambda>((e, f), k). callback_event f \<noteq> None) xs)" for xs :: "((nat \<times> field) \<times> nat) list"
    by (induction xs) (auto split: option.split)
  then show ?thesis by (simp add: registrations_def)
qed

lemma registration_fresh:
  "distinct (map (\<lambda>(e, name, k). k) (registrations h efs))" "(e, name, k) \<in> set (registrations h efs) \<Longrightarrow> h \<le> k"
proof -
  have "map snd (zip efs [h..<h + length efs]) = [h..<h + length efs]" by simp
  then have "distinct (map snd (zip efs [h..<h + length efs]))" by simp
  then show "distinct (map (\<lambda>(e, name, k). k) (registrations h efs))"
    unfolding registration_handlers by (rule distinct_map_filter)
  show "(e, name, k) \<in> set (registrations h efs) \<Longrightarrow> h \<le> k"
    by (auto simp: registrations_def set_zip split: option.splits)
qed

text \<open>
  Watching a form by events: each control of the form with a type gets one handler of its own, for
  a click when it is a box or a radio button and for a change otherwise, and the handlers that were
  there stay.
\<close>

theorem form_callbacks_registered:
  assumes "ev_inv s" and "\<forall>e name. \<forall>k \<in> set (map w_handler (wrappers_of s e name)). k < h"
  shows "ev_inv (registerFormCallbacks h efs s) \<and>
    map w_handler (wrappers_of (registerFormCallbacks h efs s) e name) =
      map w_handler (wrappers_of s e name) @
      map (\<lambda>(e, name, k). k) (filter (\<lambda>(e', name', k). e' = e \<and> name' = name)
        (registrations h (filter (\<lambda>(e, f). is_serializer (fd_tag f)) efs)))"
proof -
  let ?os = "registrations h (filter (\<lambda>(e, f). is_serializer (fd_tag f)) efs)"
  have "\<forall>(e, name, k) \<in> set ?os. \<forall>e' name'. k \<notin> set (map w_handler (wrappers_of s e' name'))"
  proof (clarify)
    fix e name k e' name' assume m: "(e, name, k) \<in> set ?os" "k \<in> set (map w_handler (wrappers_of s e' name'))"
    have "h \<le> k" by (rule registration_fresh(2) [OF m(1)])
    moreover have "k < h" using assms(2) m(2) by blast
    ultimately show False by simp
  qed
  from reg.obs_list_handlers [OF assms(1) registration_fresh(1) this] reg.obs_list_ok [OF assms(1)]
  show ?thesis by (simp add: registerFormCallbacks_def)
qed

section \<open>Samples\<close>

definition text_field :: "string \<Rightarrow> string \<Rightarrow> field" where
  "text_field name value' = \<lparr>fd_tag = ''INPUT'', fd_type = ''text'', fd_name = name, fd_value = value', fd_checked = False,
     fd_disabled = False, fd_options = [], fd_tabIndex = None\<rparr>"

definition sample_select :: field where
  "sample_select = \<lparr>fd_tag = ''SELECT'', fd_type = ''select-multiple'', fd_name = ''day'', fd_value = ''mo'', fd_checked = False,
     fd_disabled = False, fd_options = [\<lparr>op_value = Some ''mo'', op_text = ''Monday'', op_selected = True\<rparr>,
       \<lparr>op_value = None, op_text = ''Tuesday'', op_selected = False\<rparr>, \<lparr>op_value = Some ''we'', op_text = ''Wednesday'', op_selected = True\<rparr>],
     fd_tabIndex = None\<rparr>"

definition sample_form :: "field list" where
  "sample_form = [sample_select, text_field ''host'' ''a b'', text_field ''day'' ''su'', (text_field ''off'' ''1'')\<lparr>fd_disabled := True\<rparr>,
     text_field ''host'' ''c&d'']"

theorem form_query_read_back_witness:
  "toQueryParams CHR ''&'' (form_serialize AnySubmit sample_form) =
     Some [(''day'', QMany [QText ''mo'', QText ''we'', QText ''su'']), (''host'', QMany [QText ''a b'', QText ''c&d''])]"
proof -
  have "\<forall>f \<in> set sample_form. \<not> inherited (fd_name f)" by code_simp
  moreover have "read_entries (serializeElements AnySubmit (getElements sample_form)) =
     [(''day'', QMany [QText ''mo'', QText ''we'', QText ''su'']), (''host'', QMany [QText ''a b'', QText ''c&d''])]" by code_simp
  ultimately show ?thesis using form_query_read_back [of sample_form AnySubmit] by simp
qed


theorem getValue_setValue_witness:
  "getValue (field_setValue (FMany [''we'', ''Tuesday'', ''x'']) sample_select) = FMany [''Tuesday'', ''we'']"
proof -
  have s: "is_serializer (fd_tag sample_select)" "to_lower_case (fd_tag sample_select) = ''select''" by code_simp+
  show ?thesis
    using getValue_setValue [OF refl refl s(1)] s(2)
    by (simp add: sample_select_def optionValue_def)
qed

theorem form_callbacks_registered_witness:
  "map w_handler (wrappers_of (registerFormCallbacks 5 [(1, sample_select), (2, text_field ''a'' ''b'')] ev_init) 2 ''change'') = [6]"
proof -
  have "registrations 5 (filter (\<lambda>(e, f). is_serializer (fd_tag f)) [(1, sample_select), (2, text_field ''a'' ''b'')]) =
      [(1, ''change'', 5), (2, ''change'', 6)]" by code_simp
  then show ?thesis
    using form_callbacks_registered [of ev_init 5 "[(1, sample_select), (2, text_field ''a'' ''b'')]" 2 "''change''"] init_ok(1)
    by (simp add: wrappers_of_def ev_init_def)
qed

text \<open>A list of choices that comes after a control of the same name is one text with commas.\<close>

lemma later_choices_joined:
  "form_serialize AnySubmit [text_field ''day'' ''su'', sample_select] = ''day=su&day=mo%2Cwe''"
  by code_simp

text \<open>Setting one value of a list for several choices leaves the others chosen.\<close>

lemma single_value_adds:
  "getValue (field_setValue (FText ''Tuesday'') sample_select) = FMany [''mo'', ''Tuesday'', ''we'']"
  by code_simp

end
