(* ===== verification/SelectorTokens.thy ===== *)
theory SelectorTokens
  imports ProtoString
begin

text \<open>
  How \<open>Selector\<close> of \<open>prototype.js\<close> cuts an expression into tokens: the patterns, the loop of
  \<open>compileMatcher\<close>, which takes the first pattern that matches, and the loop of \<open>match\<close>, which goes on
  with the next pattern.  A selector that is printed is cut into the tokens it was printed from.
  Values have no double quote and no backslash, which the code pastes into the text it evaluates.
\<close>

section \<open>Tokens\<close>

datatype combinator = Descendant | Child | Adjacent | LaterSibling

text \<open>An argument, an operator or a value that is missing is \<open>None\<close>.\<close>

datatype token =
    Comb combinator
  | TagName string
  | Ident string
  | ClassName string
  | AttrPresence string
  | Attr string "string option" "string option"
  | Pseudo string "string option"

section \<open>The patterns\<close>

definition word_char :: "char \<Rightarrow> bool" where
  "word_char c \<longleftrightarrow> is_alpha c \<or> is_digit c \<or> c = CHR ''_''"

definition name_char :: "char \<Rightarrow> bool" where
  "name_char c \<longleftrightarrow> word_char c \<or> c = CHR ''-''"

definition ident_char :: "char \<Rightarrow> bool" where
  "ident_char c \<longleftrightarrow> name_char c \<or> c = CHR ''*''"

text \<open>A pattern returns its token and the expression without the text that matched.\<close>

type_synonym sel_pattern = "string \<Rightarrow> (token \<times> string) option"

definition comb_pattern :: "char \<Rightarrow> combinator \<Rightarrow> sel_pattern" where
  "comb_pattern ch k e =
     (case dropWhile is_ws e of
        c # r \<Rightarrow> if c = ch then Some (Comb k, dropWhile is_ws r) else None
      | [] \<Rightarrow> None)"

definition descendant_pattern :: sel_pattern where
  "descendant_pattern e =
     (case e of c # r \<Rightarrow> if is_ws c then Some (Comb Descendant, r) else None | [] \<Rightarrow> None)"

definition tagName_pattern :: sel_pattern where
  "tagName_pattern e =
     (let r = dropWhile is_ws e; w = takeWhile name_char r
      in if r \<noteq> [] \<and> hd r = CHR ''*'' then Some (TagName ''*'', tl r)
         else if w \<noteq> [] then Some (TagName w, dropWhile name_char r) else None)"

text \<open>\<open>(\b|$)\<close> after the first \<open>k\<close> characters.\<close>

definition boundary :: "string \<Rightarrow> nat \<Rightarrow> bool" where
  "boundary s k \<longleftrightarrow> k \<ge> length s \<or> word_char (s ! (k - 1)) \<noteq> word_char (s ! k)"

definition named_pattern :: "char \<Rightarrow> (string \<Rightarrow> token) \<Rightarrow> sel_pattern" where
  "named_pattern ch tok e =
     (case e of
        [] \<Rightarrow> None
      | c # r \<Rightarrow>
          if c \<noteq> ch then None
          else (case find (boundary r) (rev [1..<Suc (length (takeWhile ident_char r))]) of
                  None \<Rightarrow> None
                | Some k \<Rightarrow> Some (tok (take k r), drop k r)))"

definition pseudo_names :: "string list" where
  "pseudo_names =
     concat (map (\<lambda>f. [f @ ''-child'', f @ ''-of-type'']) [''first'', ''last'', ''nth'', ''nth-last'', ''only'']) @
     [''empty'', ''checked'', ''enabled'', ''disabled'', ''not'']"

text \<open>What may come after the parenthesis, and the shortest argument that is followed by it.\<close>

definition pseudo_end :: "string \<Rightarrow> bool" where
  "pseudo_end r \<longleftrightarrow> r = [] \<or> word_char (hd r) \<or> is_ws (hd r) \<or> hd r \<in> set '':+~>''"

fun pseudo_arg :: "string \<Rightarrow> (string \<times> string) option" where
  "pseudo_arg [] = None"
| "pseudo_arg (c # r) =
     (if c = CHR '')'' \<and> pseudo_end r then Some ([], r)
      else if line_end c then None
      else map_option (\<lambda>(a, r). (c # a, r)) (pseudo_arg r))"

definition pseudo_rest :: "string \<Rightarrow> string \<Rightarrow> (token \<times> string) option" where
  "pseudo_rest name r =
     (case (if r \<noteq> [] \<and> hd r = CHR ''('' then pseudo_arg (tl r) else None) of
        Some (a, r) \<Rightarrow> Some (Pseudo name (Some a), r)
      | None \<Rightarrow> if r = [] \<or> \<not> word_char (hd r) then Some (Pseudo name None, r) else None)"

definition pseudo_pattern :: sel_pattern where
  "pseudo_pattern e =
     (case e of
        [] \<Rightarrow> None
      | c # r \<Rightarrow>
          if c \<noteq> CHR '':'' then None
          else (case find (\<lambda>n. take (length n) r = n) pseudo_names of
                  None \<Rightarrow> None
                | Some n \<Rightarrow> pseudo_rest n (drop (length n) r)))"

text \<open>The name of an attribute, with a prefix or without.\<close>

definition attr_name :: "(char \<Rightarrow> bool) \<Rightarrow> bool \<Rightarrow> string \<Rightarrow> (string \<times> string) option" where
  "attr_name P bare r =
     (let w = takeWhile P r; u = dropWhile P r
      in if u \<noteq> [] \<and> hd u = CHR '':'' \<and> (bare \<or> w \<noteq> [])
         then (let w' = takeWhile P (tl u)
               in if w' \<noteq> [] then Some (w @ '':'' @ w', dropWhile P (tl u)) else None)
         else if w \<noteq> [] then Some (w, u) else None)"

definition attrPresence_pattern :: sel_pattern where
  "attrPresence_pattern e =
     (case e of
        [] \<Rightarrow> None
      | c # r \<Rightarrow>
          if c \<noteq> CHR ''['' then None
          else (case attr_name word_char False r of
                  None \<Rightarrow> None
                | Some (a, u) \<Rightarrow> if u \<noteq> [] \<and> hd u = CHR '']'' then Some (AttrPresence a, tl u) else None))"

text \<open>
  A quoted value goes to the first quote of its kind before the bracket, any other one to the
  bracket.  The blanks before the value may also belong to it.
\<close>

fun quoted_value :: "char \<Rightarrow> string \<Rightarrow> (string \<times> string) option" where
  "quoted_value q [] = None"
| "quoted_value q (c # r) =
     (if c = q \<and> r \<noteq> [] \<and> hd r = CHR '']'' then Some ([], tl r)
      else if c = CHR 0x04 then None
      else map_option (\<lambda>(a, r). (c # a, r)) (quoted_value q r))"

definition attr_value :: "string \<Rightarrow> (string option \<times> string) option" where
  "attr_value r =
     (case r of
        [] \<Rightarrow> None
      | c # u \<Rightarrow>
          if c = CHR 0x27 \<or> c = CHR 0x22
          then map_option (\<lambda>(a, r). (if a = [] then None else Some a, r)) (quoted_value c u)
          else
            let w = takeWhile (\<lambda>x. x \<noteq> CHR '']'') u; r = dropWhile (\<lambda>x. x \<noteq> CHR '']'') u
            in if r = [] then None else Some (Some (c # w), tl r))"

definition attr_operator :: "string \<Rightarrow> (string \<times> string) option" where
  "attr_operator r =
     (if r \<noteq> [] \<and> hd r = CHR ''='' then Some (''='', tl r)
      else if 2 \<le> length r \<and> hd r \<in> set ''!^$*~|'' \<and> r ! 1 = CHR ''='' then Some (take 2 r, drop 2 r)
      else None)"

definition attr_test :: "string \<Rightarrow> (string option \<times> string option \<times> string) option" where
  "attr_test r =
     (case attr_operator r of
        None \<Rightarrow> if r \<noteq> [] \<and> hd r = CHR '']'' then Some (None, None, tl r) else None
      | Some (op, u) \<Rightarrow>
          map_option (\<lambda>(w, r). (Some op, w, r))
            (case filter (\<lambda>x. x \<noteq> None) (map (\<lambda>k. attr_value (drop k u)) (rev [0..<Suc (length (takeWhile is_ws u))])) of
               x # _ \<Rightarrow> x | [] \<Rightarrow> None))"

definition attr_here :: sel_pattern where
  "attr_here e =
     (case e of
        [] \<Rightarrow> None
      | c # r \<Rightarrow>
          if c \<noteq> CHR ''['' then None
          else (case attr_name name_char True r of
                  None \<Rightarrow> None
                | Some (a, u) \<Rightarrow> map_option (\<lambda>(op, w, r). (Attr a op w, r)) (attr_test (dropWhile is_ws u))))"

text \<open>The last pattern is not bound to the front of the expression.\<close>

fun attr_pattern :: sel_pattern where
  "attr_pattern [] = None"
| "attr_pattern (c # r) =
     (case attr_here (c # r) of
        Some x \<Rightarrow> Some x
      | None \<Rightarrow> map_option (\<lambda>(t, u). (t, c # u)) (attr_pattern r))"

definition sel_patterns :: "sel_pattern list" where
  "sel_patterns =
     [comb_pattern CHR ''~'' LaterSibling, comb_pattern CHR ''>'' Child, comb_pattern CHR ''+'' Adjacent,
      descendant_pattern, tagName_pattern, named_pattern CHR ''#'' Ident, named_pattern CHR ''.'' ClassName,
      pseudo_pattern, attrPresence_pattern, attr_pattern]"

section \<open>The loops\<close>

fun first_pattern :: "sel_pattern list \<Rightarrow> sel_pattern" where
  "first_pattern [] e = None"
| "first_pattern (p # ps) e = (case p e of Some x \<Rightarrow> Some x | None \<Rightarrow> first_pattern ps e)"

definition next_token :: sel_pattern where
  "next_token e = first_pattern sel_patterns e"

text \<open>The matcher of an expression; the expression of \<open>:not\<close> has a matcher of its own.\<close>

datatype sel = Tok token | Not "sel list"

definition shrinking :: "sel_pattern \<Rightarrow> bool" where
  "shrinking p \<longleftrightarrow> (\<forall>e t r. p e = Some (t, r) \<longrightarrow>
     length r < length e \<and> (\<forall>n a. t = Pseudo n (Some a) \<longrightarrow> length a < length e))"

lemma comb_shrinks: "shrinking (comb_pattern ch k)"
  unfolding shrinking_def
proof (intro allI impI)
  fix e t r assume p: "comb_pattern ch k e = Some (t, r)"
  then obtain c u where u: "dropWhile is_ws e = c # u" "r = dropWhile is_ws u" "t = Comb k"
    by (auto simp: comb_pattern_def split: list.splits if_splits)
  have "length (c # u) \<le> length e" using length_dropWhile_le [of is_ws e] u(1) by simp
  then show "length r < length e \<and> (\<forall>n a. t = Pseudo n (Some a) \<longrightarrow> length a < length e)"
    using length_dropWhile_le [of is_ws u] u by simp
qed

lemma descendant_shrinks: "shrinking descendant_pattern"
  by (auto simp: shrinking_def descendant_pattern_def split: list.splits if_splits)

lemma tagName_shrinks: "shrinking tagName_pattern"
  unfolding shrinking_def
proof (intro allI impI)
  fix e t r assume p: "tagName_pattern e = Some (t, r)"
  let ?u = "dropWhile is_ws e"
  have le: "length ?u \<le> length e" by (rule length_dropWhile_le)
  have "length (takeWhile name_char ?u) + length (dropWhile name_char ?u) = length ?u"
    by (metis length_append takeWhile_dropWhile_id)
  then have "length r < length ?u" using p by (cases ?u) (auto simp: tagName_pattern_def Let_def split: if_splits)
  moreover have "t \<noteq> Pseudo n a" for n a using p by (auto simp: tagName_pattern_def Let_def split: if_splits)
  ultimately show "length r < length e \<and> (\<forall>n a. t = Pseudo n (Some a) \<longrightarrow> length a < length e)"
    using le by auto
qed

lemma named_shrinks: "(\<And>s n a. tok s \<noteq> Pseudo n a) \<Longrightarrow> shrinking (named_pattern ch tok)"
  by (auto simp: shrinking_def named_pattern_def find_Some_iff split: list.splits if_splits option.splits)

lemma pseudo_arg_shorter: "pseudo_arg s = Some (a, r) \<Longrightarrow> length a + length r < length s"
  by (induction s arbitrary: a) (auto split: if_splits)

lemma pseudo_rest_shorter:
  "pseudo_rest n s = Some (t, r) \<Longrightarrow> length r \<le> length s \<and> (\<forall>m a. t = Pseudo m (Some a) \<longrightarrow> length a < length s)"
  by (cases s) (auto simp: pseudo_rest_def split: if_splits option.splits dest!: pseudo_arg_shorter)

lemma pseudo_shrinks: "shrinking pseudo_pattern"
  unfolding shrinking_def
proof (intro allI impI)
  fix e t r assume "pseudo_pattern e = Some (t, r)"
  then obtain u n where "e = CHR '':'' # u" "pseudo_rest n (drop (length n) u) = Some (t, r)"
    by (auto simp: pseudo_pattern_def split: list.splits if_splits option.splits)
  then show "length r < length e \<and> (\<forall>n a. t = Pseudo n (Some a) \<longrightarrow> length a < length e)"
    using pseudo_rest_shorter [of n "drop (length n) u" t r] by fastforce
qed

lemma attr_name_shorter: "attr_name P b s = Some (a, r) \<Longrightarrow> length r \<le> length s"
  using length_dropWhile_le [of P s] length_dropWhile_le [of P "tl (dropWhile P s)"]
  by (auto simp: attr_name_def Let_def split: if_splits)

lemma attrPresence_shrinks: "shrinking attrPresence_pattern"
  by (fastforce simp: shrinking_def attrPresence_pattern_def split: list.splits if_splits option.splits
      dest!: attr_name_shorter)

lemma quoted_shorter: "quoted_value q s = Some (a, r) \<Longrightarrow> length r \<le> length s"
  by (induction s arbitrary: a) (fastforce split: if_splits)+

lemma attr_value_shorter: "attr_value s = Some (a, r) \<Longrightarrow> length r \<le> length s"
  using length_dropWhile_le [of "\<lambda>x. x \<noteq> CHR '']''" "tl s"]
  by (cases s) (fastforce simp: attr_value_def Let_def split: if_splits dest: quoted_shorter)+

lemma attr_test_shorter: "attr_test s = Some (op, w, r) \<Longrightarrow> length r \<le> length s"
proof (cases "attr_operator s")
  case (Some x)
  assume t: "attr_test s = Some (op, w, r)"
  obtain o' u where x: "x = (o', u)" by (cases x)
  let ?ys = "map (\<lambda>k. attr_value (drop k u)) (rev [0..<Suc (length (takeWhile is_ws u))])"
  obtain y ys where "filter (\<lambda>x. x \<noteq> None) ?ys = y # ys" "y = Some (w, r)"
    using t Some x by (auto simp: attr_test_def split: list.splits)
  then have "Some (w, r) \<in> set ?ys" by (metis (no_types, lifting) filter_eq_ConsD in_set_conv_decomp)
  then obtain k where "attr_value (drop k u) = Some (w, r)" by auto
  then have "length r \<le> length u" using attr_value_shorter [of "drop k u"] by fastforce
  also have "\<dots> \<le> length s" using Some x by (auto simp: attr_operator_def split: if_splits)
  finally show ?thesis .
qed (auto simp: attr_test_def split: if_splits)

lemma attr_here_shrinks: "attr_here e = Some (t, r) \<Longrightarrow> length r < length e \<and> (\<exists>a op w. t = Attr a op w)"
proof -
  assume "attr_here e = Some (t, r)"
  then obtain s a u op w where h: "e = CHR ''['' # s" "attr_name name_char True s = Some (a, u)"
      "attr_test (dropWhile is_ws u) = Some (op, w, r)" "t = Attr a op w"
    by (auto simp: attr_here_def split: list.splits if_splits option.splits)
  then show ?thesis
    using attr_name_shorter [OF h(2)] attr_test_shorter [OF h(3)] length_dropWhile_le [of is_ws u] by simp
qed

lemma attr_shrinks: "shrinking attr_pattern"
proof -
  have "attr_pattern e = Some (t, r) \<Longrightarrow> length r < length e \<and> (\<exists>a op w. t = Attr a op w)" for e t r
    by (induction e arbitrary: r) (fastforce split: option.splits dest: attr_here_shrinks)+
  then show ?thesis unfolding shrinking_def by blast
qed

lemma patterns_shrink: "list_all shrinking sel_patterns"
  by (simp add: sel_patterns_def comb_shrinks descendant_shrinks tagName_shrinks named_shrinks pseudo_shrinks
      attrPresence_shrinks attr_shrinks)

lemma first_pattern_shrinks: "list_all shrinking ps \<Longrightarrow> shrinking (first_pattern ps)"
  by (induction ps) (auto simp: shrinking_def split: option.splits)

lemma next_token_shrinks: "shrinking next_token"
proof -
  have "shrinking (first_pattern sel_patterns)" by (rule first_pattern_shrinks [OF patterns_shrink])
  then show ?thesis by (simp add: shrinking_def next_token_def)
qed

lemma strip_shorter: "length (strip s) \<le> length s"
  using length_dropWhile_le [of is_ws "rev (dropWhile is_ws s)"] length_dropWhile_le [of is_ws s]
  by (simp add: strip_def ltrim_def rtrim_def)

function tokens_of :: "string \<Rightarrow> sel list" where
  "tokens_of e =
     (if list_all is_ws e then []
      else case next_token e of
             None \<Rightarrow> []
           | Some (t, r) \<Rightarrow>
               (case t of
                  Pseudo n (Some a) \<Rightarrow> if n = ''not'' then Not (tokens_of (strip a)) else Tok t
                | _ \<Rightarrow> Tok t) # tokens_of r)"
  by auto

termination
proof (relation "measure length")
  fix e x t r n y a
  assume "next_token e = Some x" "(t, r) = x" "t = Pseudo n y" "y = Some a"
  then show "(strip a, e) \<in> measure length"
    using next_token_shrinks strip_shorter [of a] unfolding shrinking_def by fastforce
next
  fix e x t r
  assume "next_token e = Some x" "(t, r) = x"
  then show "(r, e) \<in> measure length"
    using next_token_shrinks unfolding shrinking_def by fastforce
qed simp

text \<open>
  The loop of \<open>match\<close>: a pattern that matched is followed by the next one.  \<open>None\<close> is a token without
  an assertion, for which the whole document is searched.
\<close>

fun has_assertion :: "token \<Rightarrow> bool" where
  "has_assertion (Comb k) = False"
| "has_assertion (Pseudo n a) = False"
| "has_assertion t = True"

fun match_pass :: "sel_pattern list \<Rightarrow> string \<Rightarrow> token list \<Rightarrow> (string \<times> token list) option" where
  "match_pass [] e ts = Some (e, ts)"
| "match_pass (p # ps) e ts =
     (case p e of
        None \<Rightarrow> match_pass ps e ts
      | Some (t, r) \<Rightarrow> if has_assertion t then match_pass ps r (ts @ [t]) else None)"

lemma match_pass_shorter: "list_all shrinking ps \<Longrightarrow> match_pass ps e ts = Some (r, us) \<Longrightarrow> r = e \<or> length r < length e"
proof (induction ps arbitrary: e ts)
  case (Cons p ps)
  show ?case
  proof (cases "p e")
    case None
    then show ?thesis using Cons by simp
  next
    case (Some x)
    obtain t u where x: "x = (t, u)" by (cases x)
    have "length u < length e" using Cons.prems(1) Some x by (auto simp: shrinking_def)
    moreover have "r = u \<or> length r < length u"
      using Cons.IH [of u "ts @ [t]"] Cons.prems Some x by (auto split: if_splits)
    ultimately show ?thesis by auto
  qed
qed simp

function match_tokens :: "string \<Rightarrow> token list \<Rightarrow> token list option" where
  "match_tokens e ts =
     (if list_all is_ws e then Some ts
      else case match_pass sel_patterns e ts of
             None \<Rightarrow> None
           | Some (r, us) \<Rightarrow> if r = e then Some us else match_tokens r us)"
  by auto

termination
proof (relation "measure (\<lambda>(e, ts). length e)")
  fix e ts x r us
  assume "match_pass sel_patterns e ts = Some x" "(r, us) = x" "r \<noteq> e"
  then show "((r, us), (e, ts)) \<in> measure (\<lambda>(e, ts). length e)"
    using match_pass_shorter [OF patterns_shrink] by fastforce
qed simp

declare tokens_of.simps [simp del] match_tokens.simps [simp del]

section \<open>Printing a selector\<close>

fun tok_text :: "token \<Rightarrow> string" where
  "tok_text (Comb Descendant) = '' ''"
| "tok_text (Comb Child) = '' > ''"
| "tok_text (Comb Adjacent) = '' + ''"
| "tok_text (Comb LaterSibling) = '' ~ ''"
| "tok_text (TagName w) = w"
| "tok_text (Ident w) = CHR ''#'' # w"
| "tok_text (ClassName w) = CHR ''.'' # w"
| "tok_text (AttrPresence a) = ''['' @ a @ '']''"
| "tok_text (Attr a None w) = ''['' @ a @ '']''"
| "tok_text (Attr a (Some op) w) =
     ''['' @ a @ op @ [CHR 0x27] @ (case w of None \<Rightarrow> [] | Some w \<Rightarrow> w) @ [CHR 0x27] @ '']''"
| "tok_text (Pseudo n None) = CHR '':'' # n"
| "tok_text (Pseudo n (Some a)) = CHR '':'' # n @ ''('' @ a @ '')''"

fun sels_text :: "sel list \<Rightarrow> string" where
  "sels_text [] = []"
| "sels_text (Tok t # ss) = tok_text t @ sels_text ss"
| "sels_text (Not us # ss) = '':not('' @ sels_text us @ '')'' @ sels_text ss"

definition sel_operators :: "string list" where
  "sel_operators = [''='', ''!='', ''^='', ''$='', ''*='', ''~='', ''|='']"

fun token_ok :: "token \<Rightarrow> bool" where
  "token_ok (Comb k) = True"
| "token_ok (TagName w) = (w = ''*'' \<or> w \<noteq> [] \<and> list_all name_char w)"
| "token_ok (Ident w) = (w \<noteq> [] \<and> list_all name_char w \<and> word_char (last w))"
| "token_ok (ClassName w) = (w \<noteq> [] \<and> list_all name_char w \<and> word_char (last w))"
| "token_ok (AttrPresence a) = (a \<noteq> [] \<and> list_all word_char a)"
| "token_ok (Attr a op w) = (a \<noteq> [] \<and> list_all name_char a \<and>
     (case op of None \<Rightarrow> False | Some op \<Rightarrow> op \<in> set sel_operators) \<and>
     (case w of None \<Rightarrow> True | Some w \<Rightarrow> w \<noteq> [] \<and> list_all (\<lambda>c. c \<noteq> CHR 0x27 \<and> c \<noteq> CHR 0x04) w))"
| "token_ok (Pseudo n a) = (n \<in> set pseudo_names \<and>
     (case a of None \<Rightarrow> True | Some a \<Rightarrow> n \<noteq> ''not'' \<and> list_all (\<lambda>c. c \<noteq> CHR '')'' \<and> \<not> line_end c) a))"

text \<open>
  What may follow: a name is not followed by the name of a tag, and an argument only by a combinator
  or by another pseudo class.
\<close>

fun arg_last :: "sel \<Rightarrow> bool" where
  "arg_last (Tok (Pseudo n (Some a))) = True"
| "arg_last (Tok t) = False"
| "arg_last (Not us) = True"

fun after_arg :: "sel list \<Rightarrow> bool" where
  "after_arg (Tok (Comb k) # ss) = True"
| "after_arg (Tok (Pseudo n a) # ss) = True"
| "after_arg (Tok t # ss) = False"
| "after_arg (Not us # ss) = True"
| "after_arg [] = True"

fun sels_ok :: "bool \<Rightarrow> sel list \<Rightarrow> bool" where
  "sels_ok first [] = (\<not> first)"
| "sels_ok first (Tok (Comb k) # ss) = (\<not> first \<and> sels_ok True ss)"
| "sels_ok first (Tok t # ss) =
     (token_ok t \<and> (case t of TagName w \<Rightarrow> first | _ \<Rightarrow> True) \<and> (arg_last (Tok t) \<longrightarrow> after_arg ss) \<and> sels_ok False ss)"
| "sels_ok first (Not us # ss) =
     (sels_ok True us \<and>
      list_all (\<lambda>c. c \<noteq> CHR '')'' \<and> \<not> line_end c) (sels_text us) \<and> after_arg ss \<and> sels_ok False ss)"

lemma word_name: "word_char c \<Longrightarrow> name_char c" "name_char c \<Longrightarrow> ident_char c"
  by (simp_all add: name_char_def ident_char_def)

lemma name_char_not: "name_char c \<Longrightarrow> \<not> is_ws c \<and> c \<notin> set ''~>+#.:[]*=!^$|()''"
  by (auto simp: name_char_def word_char_def is_alpha_def is_lower_def is_upper_def is_digit_def is_ws_def)


text \<open>The text after a name, after an argument and after a combinator.\<close>

definition stop_text :: "string \<Rightarrow> bool" where
  "stop_text r \<longleftrightarrow> r = [] \<or> hd r \<in> set '' #.:[''"

definition arg_stop :: "string \<Rightarrow> bool" where
  "arg_stop r \<longleftrightarrow> r = [] \<or> hd r \<in> set '' :''"

definition start_text :: "string \<Rightarrow> bool" where
  "start_text r \<longleftrightarrow> r \<noteq> [] \<and> (name_char (hd r) \<or> hd r \<in> set ''#.:[*'')"

lemmas char_classes = ident_char_def name_char_def word_char_def is_alpha_def is_lower_def is_upper_def is_digit_def is_ws_def

lemma stop_not: "stop_text r \<Longrightarrow> r \<noteq> [] \<Longrightarrow> \<not> ident_char (hd r)"
  by (auto simp: stop_text_def char_classes)

lemma start_not: "start_text r \<Longrightarrow> r \<noteq> [] \<and> \<not> is_ws (hd r) \<and> hd r \<notin> set ''~>+''"
  using name_char_not [of "hd r"] by (auto simp: start_text_def is_ws_def)

lemma take_name: "list_all P w \<Longrightarrow> r = [] \<or> \<not> P (hd r) \<Longrightarrow> takeWhile P (w @ r) = w \<and> dropWhile P (w @ r) = r"
  by (induction w) (cases r; auto)+

text \<open>The combinators and the tag names do not match at the other tokens.\<close>

definition own_patterns :: "sel_pattern list" where
  "own_patterns = drop 5 sel_patterns"

lemma next_token_own:
  assumes "\<not> is_ws c" "c \<notin> set ''~>+*''" "\<not> name_char c"
  shows "next_token (c # r) = first_pattern own_patterns (c # r)"
  using assms
  by (simp add: next_token_def own_patterns_def sel_patterns_def comb_pattern_def descendant_pattern_def tagName_pattern_def)

lemma tag_whole:
  assumes "token_ok (TagName w)" "stop_text r"
  shows "tagName_pattern (w @ r) = Some (TagName w, r) \<and> \<not> is_ws (hd w) \<and> hd w \<notin> set ''~>+'' \<and> w \<noteq> []"
proof (cases "w = ''*''")
  case True
  then show ?thesis by (simp add: tagName_pattern_def char_classes)
next
  case False
  then obtain c u where w: "w = c # u" "list_all name_char w" using assms(1) by (cases w) auto
  have n: "\<not> is_ws c \<and> c \<notin> set ''~>+#.:[]*=!^$|()''" using w by (intro name_char_not) simp
  have "takeWhile name_char (w @ r) = w \<and> dropWhile name_char (w @ r) = r"
    using w(2) stop_not [OF assms(2)] word_name(2) by (intro take_name) blast+
  then show ?thesis using n w(1) by (simp add: tagName_pattern_def)
qed

lemma next_tag:
  assumes "token_ok (TagName w)" "stop_text r"
  shows "next_token (w @ r) = Some (TagName w, r)"
proof -
  note tn = tag_whole [OF assms]
  then obtain c u where w: "w = c # u" by (cases w) auto
  show ?thesis using tn unfolding w
    by (simp add: next_token_def sel_patterns_def comb_pattern_def descendant_pattern_def)
qed

lemma named_whole:
  assumes "w \<noteq> []" "list_all name_char w" "word_char (last w)" "stop_text r"
  shows "named_pattern ch tok (ch # w @ r) = Some (tok w, r)"
proof -
  have "takeWhile ident_char (w @ r) = w \<and> dropWhile ident_char (w @ r) = r"
    using assms(2) word_name(2) stop_not [OF assms(4)] by (intro take_name) (auto simp: list_all_iff)
  moreover have "boundary (w @ r) (length w)"
  proof (cases r)
    case (Cons c u)
    have "\<not> word_char c" using stop_not [OF assms(4)] word_name Cons by auto
    moreover have "(w @ r) ! (length w - 1) = last w" using assms(1) by (simp add: nth_append last_conv_nth)
    ultimately show ?thesis using Cons assms(3) by (simp add: boundary_def)
  qed (simp add: boundary_def)
  moreover have "Suc 0 \<le> length w" using assms(1) by (cases w) simp_all
  ultimately show ?thesis by (simp add: named_pattern_def)
qed

lemma next_ident: "token_ok (Ident w) \<Longrightarrow> stop_text r \<Longrightarrow> next_token (CHR ''#'' # w @ r) = Some (Ident w, r)"
  by (subst next_token_own) (simp_all add: own_patterns_def sel_patterns_def named_whole char_classes)

lemma next_className: "token_ok (ClassName w) \<Longrightarrow> stop_text r \<Longrightarrow> next_token (CHR ''.'' # w @ r) = Some (ClassName w, r)"
  by (subst next_token_own) (simp_all add: own_patterns_def sel_patterns_def named_whole char_classes named_pattern_def [of "CHR ''#''"])

lemma next_attrPresence:
  assumes "token_ok (AttrPresence a)"
  shows "next_token (''['' @ a @ '']'' @ r) = Some (AttrPresence a, r)"
proof -
  have "takeWhile word_char (a @ CHR '']'' # r) = a \<and> dropWhile word_char (a @ CHR '']'' # r) = CHR '']'' # r"
    using assms by (intro take_name) (simp_all add: char_classes)
  then have "attrPresence_pattern (CHR ''['' # a @ CHR '']'' # r) = Some (AttrPresence a, r)"
    using assms by (simp add: attrPresence_pattern_def attr_name_def)
  moreover have "next_token (CHR ''['' # a @ CHR '']'' # r) = first_pattern own_patterns (CHR ''['' # a @ CHR '']'' # r)"
    by (rule next_token_own) (simp_all add: char_classes)
  ultimately show ?thesis by (simp add: own_patterns_def sel_patterns_def named_pattern_def pseudo_pattern_def)
qed

lemma quoted_whole:
  "list_all (\<lambda>c. c \<noteq> CHR 0x27 \<and> c \<noteq> CHR 0x04) w \<Longrightarrow> quoted_value CHR 0x27 (w @ CHR 0x27 # CHR '']'' # r) = Some (w, r)"
  by (induction w) auto

lemma operator_head:
  assumes "op \<in> set sel_operators"
  shows "op \<noteq> []" "\<not> is_ws (hd op)" "\<not> name_char (hd op)" "hd op \<noteq> CHR '':'' \<and> hd op \<noteq> CHR '']''"
    "attr_operator (op @ CHR 0x27 # u) = Some (op, CHR 0x27 # u)"
  using assms by (auto simp: sel_operators_def char_classes attr_operator_def)

lemma attr_here_whole:
  assumes "a \<noteq> []" "list_all name_char a" "op \<in> set sel_operators" "list_all (\<lambda>c. c \<noteq> CHR 0x27 \<and> c \<noteq> CHR 0x04) w"
  shows "attr_here (CHR ''['' # a @ op @ CHR 0x27 # w @ CHR 0x27 # CHR '']'' # r) =
    Some (Attr a (Some op) (if w = [] then None else Some w), r)"
proof -
  let ?v = "CHR 0x27 # w @ CHR 0x27 # CHR '']'' # r"
  note h = operator_head [OF assms(3)]
  obtain c u where op: "op = c # u" using h(1) by (cases op) auto
  have "takeWhile name_char (a @ op @ ?v) = a \<and> dropWhile name_char (a @ op @ ?v) = op @ ?v"
    using assms(2) h(3) op by (intro take_name) simp_all
  then have name: "attr_name name_char True (a @ op @ ?v) = Some (a, op @ ?v)"
    using assms(1) h(4) op by (simp add: attr_name_def)
  have "dropWhile is_ws (op @ ?v) = op @ ?v" using h(2) op by simp
  moreover have "attr_value ?v = Some (if w = [] then None else Some w, r)"
    using quoted_whole [OF assms(4)] by (simp add: attr_value_def)
  then have "attr_test (op @ ?v) = Some (Some op, if w = [] then None else Some w, r)"
    using h(5) by (simp add: attr_test_def is_ws_def)
  ultimately show ?thesis using name by (simp add: attr_here_def)
qed

lemma next_attr:
  assumes "token_ok (Attr a op w)"
  shows "next_token (tok_text (Attr a op w) @ r) = Some (Attr a op w, r)"
proof -
  obtain o' where op: "op = Some o'" "o' \<in> set sel_operators" using assms by (auto split: option.splits)
  define u where "u = (case w of None \<Rightarrow> [] | Some w \<Rightarrow> w)"
  define e where "e = CHR ''['' # a @ o' @ CHR 0x27 # u @ CHR 0x27 # CHR '']'' # r"
  have u: "list_all (\<lambda>c. c \<noteq> CHR 0x27 \<and> c \<noteq> CHR 0x04) u" "(if u = [] then None else Some u) = w"
    using assms by (auto simp: u_def split: option.splits)
  have here: "attr_here e = Some (Attr a op w, r)"
    using attr_here_whole [OF _ _ op(2) u(1), of a r] assms u(2) op(1) by (simp add: e_def)
  obtain c x where oc: "o' = c # x" using operator_head(1) [OF op(2)] by (cases o') auto
  have "attrPresence_pattern e = None"
  proof (cases "list_all word_char a")
    case True
    have "takeWhile word_char (a @ o' @ CHR 0x27 # u @ CHR 0x27 # CHR '']'' # r) = a \<and>
        dropWhile word_char (a @ o' @ CHR 0x27 # u @ CHR 0x27 # CHR '']'' # r) = o' @ CHR 0x27 # u @ CHR 0x27 # CHR '']'' # r"
      using True operator_head(3) [OF op(2)] oc word_name(1) by (intro take_name) auto
    then show ?thesis using operator_head(4) [OF op(2)] oc assms
      by (simp add: e_def attrPresence_pattern_def attr_name_def)
  next
    case False
    let ?d = "dropWhile word_char a"
    have d: "?d \<noteq> []" "\<not> word_char (hd ?d)" using False hd_dropWhile [of word_char a] by (auto simp: list_all_iff dropWhile_eq_Nil_conv)
    have "hd ?d \<in> set a" using d(1) set_dropWhileD [of _ word_char a] hd_in_set by metis
    then have "hd ?d = CHR ''-''" using assms d(2) by (auto simp: list_all_iff name_char_def)
    moreover have "dropWhile word_char (a @ y) = ?d @ y" for y using False by (auto simp: dropWhile_append list_all_iff)
    ultimately show ?thesis using d(1) by (cases ?d) (simp_all add: e_def attrPresence_pattern_def attr_name_def Let_def)
  qed
  moreover have "next_token e = first_pattern own_patterns e"
    unfolding e_def by (rule next_token_own) (simp_all add: char_classes)
  moreover have "attr_pattern e = Some (Attr a op w, r)" using here by (simp add: e_def)
  ultimately have "next_token e = Some (Attr a op w, r)"
    by (simp add: own_patterns_def sel_patterns_def e_def named_pattern_def pseudo_pattern_def)
  then show ?thesis by (simp add: e_def u_def op(1))
qed

lemma pseudo_arg_whole:
  "list_all (\<lambda>c. c \<noteq> CHR '')'' \<and> \<not> line_end c) a \<Longrightarrow> arg_stop r \<Longrightarrow> pseudo_arg (a @ CHR '')'' # r) = Some (a, r)"
  by (induction a) (auto simp: pseudo_end_def arg_stop_def is_ws_def)

text \<open>No name of a pseudo class begins with another one.\<close>

lemma pseudo_name_found:
  assumes "n \<in> set pseudo_names"
  shows "find (\<lambda>m. take (length m) (n @ r) = m) pseudo_names = Some n"
proof -
  have names: "pseudo_names = [''first-child'', ''first-of-type'', ''last-child'', ''last-of-type'', ''nth-child'',
      ''nth-of-type'', ''nth-last-child'', ''nth-last-of-type'', ''only-child'', ''only-of-type'',
      ''empty'', ''checked'', ''enabled'', ''disabled'', ''not'']"
    by (simp add: pseudo_names_def)
  show ?thesis using assms unfolding names list.set insert_iff empty_iff by (elim disjE) simp_all
qed

lemma next_pseudo:
  assumes "n \<in> set pseudo_names"
  shows "next_token (CHR '':'' # n @ r) = (case pseudo_rest n r of Some x \<Rightarrow> Some x | None \<Rightarrow> attr_pattern (CHR '':'' # n @ r))"
proof -
  have "pseudo_pattern (CHR '':'' # n @ r) = pseudo_rest n r"
    using pseudo_name_found [OF assms] by (simp add: pseudo_pattern_def)
  moreover have "next_token (CHR '':'' # n @ r) = first_pattern own_patterns (CHR '':'' # n @ r)"
    by (rule next_token_own) (simp_all add: char_classes)
  ultimately show ?thesis
    by (simp add: own_patterns_def sel_patterns_def named_pattern_def attrPresence_pattern_def split: option.split del: attr_pattern.simps)
qed

lemma next_plain_pseudo:
  assumes "n \<in> set pseudo_names" "stop_text r"
  shows "next_token (CHR '':'' # n @ r) = Some (Pseudo n None, r)"
proof -
  have "r = [] \<or> hd r \<noteq> CHR ''('' \<and> \<not> word_char (hd r)"
    using stop_not [OF assms(2)] assms(2) word_name by (auto simp: stop_text_def)
  then have "pseudo_rest n r = Some (Pseudo n None, r)" by (auto simp: pseudo_rest_def)
  then show ?thesis by (simp add: next_pseudo [OF assms(1)])
qed

lemma next_arg_pseudo:
  assumes "n \<in> set pseudo_names" "list_all (\<lambda>c. c \<noteq> CHR '')'' \<and> \<not> line_end c) a" "arg_stop r"
  shows "next_token (CHR '':'' # n @ CHR ''('' # a @ CHR '')'' # r) = Some (Pseudo n (Some a), r)"
  using pseudo_arg_whole [OF assms(2,3)] by (simp add: next_pseudo [OF assms(1)] pseudo_rest_def)

lemma next_comb:
  assumes "start_text r"
  shows "next_token (tok_text (Comb k) @ r) = Some (Comb k, r)"
proof -
  obtain c u where r: "r = c # u" "\<not> is_ws c" "c \<notin> set ''~>+''" using start_not [OF assms] by (cases r) auto
  have "is_ws CHR '' '' \<and> \<not> is_ws CHR ''>'' \<and> \<not> is_ws CHR ''+'' \<and> \<not> is_ws CHR ''~''" by (simp add: is_ws_def)
  then show ?thesis using r
    by (cases k) (simp_all add: next_token_def sel_patterns_def comb_pattern_def descendant_pattern_def)
qed

section \<open>Cutting what was printed\<close>

lemma list_all_hd: "w \<noteq> [] \<Longrightarrow> list_all P w \<Longrightarrow> P (hd w)"
  by (cases w) simp_all

lemma comb_text: "tok_text (Comb k) \<noteq> [] \<and> hd (tok_text (Comb k) @ r) = CHR '' ''"
  by (cases k) simp_all

lemma token_start: "token_ok t \<Longrightarrow> (\<And>k. t \<noteq> Comb k) \<Longrightarrow> start_text (tok_text t @ r)"
  by (cases t rule: tok_text.cases) (auto simp: start_text_def list_all_hd)

lemma token_stop:
  "token_ok t \<Longrightarrow> (\<And>w. t \<noteq> TagName w) \<Longrightarrow>
     stop_text (tok_text t @ r) \<and> (after_arg (Tok t # ss) \<longrightarrow> arg_stop (tok_text t @ r))"
  by (cases t rule: tok_text.cases) (auto simp: stop_text_def arg_stop_def)

lemma sels_ok_Cons:
  assumes "sels_ok first (Tok t # ss)" "\<And>k. t \<noteq> Comb k"
  shows "token_ok t" "first \<or> (\<forall>w. t \<noteq> TagName w)" "arg_last (Tok t) \<longrightarrow> after_arg ss" "sels_ok False ss"
  using assms by (cases t; simp)+

lemma text_start: "sels_ok True ss \<Longrightarrow> start_text (sels_text ss)"
proof (cases ss rule: sels_text.cases)
  case (2 t ss')
  assume ok: "sels_ok True ss"
  then have "t \<noteq> Comb k" for k using 2 by auto
  then show ?thesis using sels_ok_Cons(1) [of True t ss'] ok 2 by (simp add: token_start)
qed (auto simp: start_text_def)

lemma text_stop: "sels_ok False ss \<Longrightarrow> stop_text (sels_text ss) \<and> (after_arg ss \<longrightarrow> arg_stop (sels_text ss))"
proof (cases ss rule: sels_text.cases)
  case (2 t ss')
  assume ok: "sels_ok False ss"
  show ?thesis
  proof (cases "\<exists>k. t = Comb k")
    case True
    then show ?thesis using 2 comb_text by (auto simp: stop_text_def arg_stop_def)
  next
    case False
    then show ?thesis using sels_ok_Cons(1,2) [of False t ss'] ok 2 token_stop [of t "sels_text ss'" ss'] by simp
  qed
qed (auto simp: stop_text_def arg_stop_def)

lemma next_token_printed:
  assumes "token_ok t" "\<And>k. t \<noteq> Comb k" "stop_text r" "arg_last (Tok t) \<longrightarrow> arg_stop r"
  shows "next_token (tok_text t @ r) = Some (t, r)"
proof (cases t)
  case (Attr a op w)
  then show ?thesis using assms(1) next_attr by blast
next
  case (Pseudo n a)
  then show ?thesis using assms next_plain_pseudo [of n r] next_arg_pseudo [of n _ r] by (cases a) simp_all
qed (use assms next_tag next_ident next_className next_attrPresence in auto)

lemma start_not_blank: "start_text e \<Longrightarrow> \<not> list_all is_ws (u @ e)"
  using start_not [of e] by (cases e) auto

definition sel_of :: "token \<Rightarrow> sel" where
  "sel_of t =
     (case t of Pseudo n (Some a) \<Rightarrow> if n = ''not'' then Not (tokens_of (strip a)) else Tok t | _ \<Rightarrow> Tok t)"

lemma tokens_of_next:
  "\<not> list_all is_ws e \<Longrightarrow> next_token e = Some (t, r) \<Longrightarrow> tokens_of e = sel_of t # tokens_of r"
  by (subst tokens_of.simps) (simp add: sel_of_def)

text \<open>
  A selector that is printed is cut into the tokens it was printed from.
\<close>

lemma token_last: "token_ok t \<Longrightarrow> (\<And>k. t \<noteq> Comb k) \<Longrightarrow> tok_text t \<noteq> [] \<and> \<not> is_ws (last (tok_text t))"
proof (cases t rule: tok_text.cases)
  case (5 w)
  assume "token_ok t"
  then consider "w = ''*''" | "w \<noteq> []" "name_char (last w)" using 5 by (auto simp: list_all_iff)
  then show ?thesis using 5 name_char_not [of "last w"] by cases (auto simp: is_ws_def)
next
  case (11 n)
  assume "token_ok t"
  moreover have "list_all (\<lambda>n. n \<noteq> [] \<and> \<not> is_ws (last n)) pseudo_names" by (simp add: pseudo_names_def is_ws_def)
  ultimately show ?thesis using 11 by (auto simp: list_all_iff)
qed (auto simp: is_ws_def word_char_def is_alpha_def is_digit_def is_lower_def is_upper_def)

lemma text_last: "sels_ok first ss \<Longrightarrow> ss \<noteq> [] \<Longrightarrow> sels_text ss \<noteq> [] \<and> \<not> is_ws (last (sels_text ss))"
proof (induction ss arbitrary: first rule: sels_text.induct)
  case (2 t ss)
  show ?case
  proof (cases "ss = []")
    case True
    then show ?thesis using 2 token_last [of t] sels_ok_Cons(1) [OF 2(2)] by fastforce
  next
    case False
    then have "\<exists>b. sels_ok b ss" using 2(2) sels_ok_Cons(4) [OF 2(2)] by (cases "\<exists>k. t = Comb k") auto
    then show ?thesis using 2(1) False by auto
  qed
next
  case (3 us ss)
  then show ?case by (cases "ss = []") (auto simp: is_ws_def)
qed simp

lemma strip_text:
  assumes "sels_ok True ss" "list_all is_ws p" "list_all is_ws q"
  shows "strip (p @ sels_text ss @ q) = sels_text ss"
proof -
  have "ss \<noteq> []" using assms(1) by auto
  then have l: "sels_text ss \<noteq> []" "\<not> is_ws (last (sels_text ss))" using text_last [OF assms(1)] by auto
  have h: "\<not> is_ws (hd (sels_text ss))" using start_not [OF text_start [OF assms(1)]] by simp
  have skip: "list_all is_ws p \<Longrightarrow> dropWhile is_ws (p @ x) = dropWhile is_ws x" for p x :: string by (induction p) simp_all
  have stay: "x \<noteq> [] \<Longrightarrow> \<not> is_ws (hd x) \<Longrightarrow> dropWhile is_ws (x @ y) = x @ y" for x y :: string by (cases x) simp_all
  have "dropWhile is_ws (p @ sels_text ss @ q) = sels_text ss @ q"
    by (simp add: skip [OF assms(2)] stay [OF l(1) h])
  moreover have "list_all is_ws (rev q)" using assms(3) by (simp add: list_all_iff)
  then have "dropWhile is_ws (rev q @ rev (sels_text ss)) = rev (sels_text ss)"
    using stay [of "rev (sels_text ss)" "[]"] l by (simp add: skip hd_rev)
  ultimately show ?thesis by (simp add: strip_def ltrim_def rtrim_def)
qed

lemma tokens_of_printed: "sels_ok first ss \<Longrightarrow> tokens_of (sels_text ss) = ss"
proof (induction ss arbitrary: first rule: sels_text.induct)
  case 1
  show ?case by (subst tokens_of.simps) simp
next
  case (2 t ss)
  let ?e = "tok_text t @ sels_text ss"
  have "sels_ok (\<exists>k. t = Comb k) ss \<and> next_token ?e = Some (t, sels_text ss) \<and> \<not> list_all is_ws ?e \<and> sel_of t = Tok t"
  proof (cases "\<exists>k. t = Comb k")
    case True
    then have st: "sels_ok True ss" "start_text (sels_text ss)" using 2 text_start by auto
    then show ?thesis using True next_comb [OF st(2)] start_not_blank [OF st(2)] by (auto simp: sel_of_def)
  next
    case False
    then have ok: "token_ok t" "arg_last (Tok t) \<longrightarrow> after_arg ss" "sels_ok False ss" using sels_ok_Cons [OF 2(2)] by blast+
    have st: "start_text ?e" using token_start [OF ok(1)] False by blast
    have "next_token ?e = Some (t, sels_text ss)"
      using ok False text_stop [OF ok(3)] by (intro next_token_printed) auto
    moreover have "sel_of t = Tok t" using ok(1) by (auto simp: sel_of_def split: token.split option.splits)
    ultimately show ?thesis using False ok(3) start_not_blank [OF st, of "[]"] by simp
  qed
  then show ?case using 2(1) tokens_of_next [of ?e t "sels_text ss"] by auto
next
  case (3 us ss)
  let ?a = "sels_text us"
  have ok: "list_all (\<lambda>c. c \<noteq> CHR '')'' \<and> \<not> line_end c) ?a" "arg_stop (sels_text ss)" using 3 text_stop [of ss] by simp_all
  have "next_token (CHR '':'' # ''not'' @ CHR ''('' # ?a @ CHR '')'' # sels_text ss) = Some (Pseudo ''not'' (Some ?a), sels_text ss)"
    by (rule next_arg_pseudo [OF _ ok]) (simp add: pseudo_names_def)
  then have "tokens_of ('':not('' @ ?a @ '')'' @ sels_text ss) = sel_of (Pseudo ''not'' (Some ?a)) # tokens_of (sels_text ss)"
    by (intro tokens_of_next) (simp_all add: is_ws_def)
  moreover have "tokens_of ?a = us" "tokens_of (sels_text ss) = ss" "strip ?a = ?a" using 3 strip_text [of us "[]" "[]"] by auto
  ultimately show ?case by (simp add: sel_of_def)
qed

text \<open>The expression is stripped before it is cut.\<close>

definition selector_tokens :: "string \<Rightarrow> sel list" where
  "selector_tokens e = tokens_of (strip e)"

lemma selector_tokens_printed:
  assumes "sels_ok True ss" "list_all is_ws p" "list_all is_ws q"
  shows "selector_tokens (p @ sels_text ss @ q) = ss"
  by (simp add: selector_tokens_def strip_text [OF assms] tokens_of_printed [OF assms(1)])


definition sample_sel :: "sel list" where
  "sample_sel =
     [Tok (TagName ''ul''), Tok (Ident ''apps''), Tok (Comb Child), Tok (TagName ''li''), Tok (Pseudo ''nth-child'' (Some ''2n+1'')),
      Not [Tok (ClassName ''off''), Tok (AttrPresence ''title'')], Tok (Comb Descendant),
      Tok (Attr ''href'' (Some ''^='') (Some ''/app'')), Tok (Pseudo ''first-child'' None)]"


text \<open>
  The argument of \<open>:not\<close> is lost when a class name follows it: the parenthesis must be followed by a
  blank, a word, a combinator or a colon.
\<close>

lemma not_argument_lost: "selector_tokens ''a:not(.b).c'' = [Tok (TagName ''a''), Tok (Pseudo ''not'' None)]"
  by code_simp

text \<open>What no pattern matches is left out together with all that follows.\<close>

lemma rest_ignored: "selector_tokens ''a:hover b'' = [Tok (TagName ''a'')]"
  by code_simp

text \<open>An attribute with a hyphen is not taken as one that is there, but as a test without an operator.\<close>

lemma hyphen_attribute: "selector_tokens ''[data-id]'' = [Tok (Attr ''data-id'' None None)]"
  by code_simp

section \<open>The tokens of \<open>match\<close>\<close>

text \<open>
  Tags, ids and class names.  With attributes the loop of \<open>match\<close> may find the last pattern, which is
  not bound to the front, before its turn.
\<close>

definition name_token :: "token \<Rightarrow> bool" where
  "name_token t \<longleftrightarrow> (case t of TagName w \<Rightarrow> True | Ident w \<Rightarrow> True | ClassName w \<Rightarrow> True | _ \<Rightarrow> False)"

definition is_tag :: "token \<Rightarrow> bool" where
  "is_tag t \<longleftrightarrow> (case t of TagName w \<Rightarrow> True | _ \<Rightarrow> False)"

fun compound_ok :: "token list \<Rightarrow> bool" where
  "compound_ok [] = True"
| "compound_ok (t # ts) = (token_ok t \<and> name_token t \<and> list_all (\<lambda>u. \<not> is_tag u) ts \<and> compound_ok ts)"

definition toks_text :: "token list \<Rightarrow> string" where
  "toks_text ts = concat (map tok_text ts)"

lemma compound_stop: "compound_ok ts \<Longrightarrow> list_all (\<lambda>u. \<not> is_tag u) ts \<Longrightarrow> stop_text (toks_text ts)"
  by (cases ts) (auto simp: toks_text_def stop_text_def is_tag_def name_token_def split: token.splits)

lemma compound_start: "compound_ok (t # ts) \<Longrightarrow> start_text (toks_text (t # ts))"
  using token_start [of t "toks_text ts"] by (cases t) (auto simp: toks_text_def name_token_def)

lemma no_bracket: "CHR ''['' \<notin> set e \<Longrightarrow> attr_pattern e = None"
  by (induction e) (auto simp: attr_here_def)

lemma compound_no_bracket: "compound_ok ts \<Longrightarrow> CHR ''['' \<notin> set (toks_text ts)"
proof (induction ts)
  case (Cons t ts)
  have "CHR ''['' \<notin> set w" if "list_all name_char w" for w
    using that by (auto simp: list_all_iff char_classes)
  then have "CHR ''['' \<notin> set (tok_text t)"
    using Cons.prems by (cases t) (auto simp: name_token_def)
  then show ?case using Cons by (simp add: toks_text_def)
qed (simp add: toks_text_def)

lemma named_other: "e = [] \<or> hd e \<noteq> ch \<Longrightarrow> named_pattern ch tok e = None"
  by (cases e) (auto simp: named_pattern_def)

definition first_char :: "token \<Rightarrow> char \<Rightarrow> bool" where
  "first_char t c \<longleftrightarrow> (case t of TagName w \<Rightarrow> name_char c \<or> c = CHR ''*'' | Ident w \<Rightarrow> c = CHR ''#'' | ClassName w \<Rightarrow> c = CHR ''.'' | _ \<Rightarrow> True)"

text \<open>At the text of a compound a pattern finds the first token or nothing.\<close>

lemma patterns_at_compound:
  assumes ok: "compound_ok (t # ts)" and e: "e = toks_text (t # ts)"
  shows "list_all (\<lambda>p. p e = None) (take 4 sel_patterns)"
    "tagName_pattern e = (if is_tag t then Some (t, toks_text ts) else None)"
    "named_pattern CHR ''#'' Ident e = (case t of Ident w \<Rightarrow> Some (t, toks_text ts) | _ \<Rightarrow> None)"
    "named_pattern CHR ''.'' ClassName e = (case t of ClassName w \<Rightarrow> Some (t, toks_text ts) | _ \<Rightarrow> None)"
    "list_all (\<lambda>p. p e = None) (drop 7 sel_patterns)"
proof -
  have st: "stop_text (toks_text ts)" using ok compound_stop by simp
  have et: "e = tok_text t @ toks_text ts" using e by (simp add: toks_text_def)
  obtain c u where c: "e = c # u" "\<not> is_ws c" "c \<notin> set ''~>+''"
    using start_not [OF compound_start [OF ok], folded e] by (cases e) auto
  have "tok_text t \<noteq> []" using ok by (cases t) (auto simp: name_token_def)
  then have hc: "c = hd (tok_text t)" using et c(1) by (metis hd_append2 list.sel(1))
  have fc: "first_char t c" using ok unfolding hc by (cases t) (auto simp: name_token_def first_char_def list_all_hd)
  show "list_all (\<lambda>p. p e = None) (take 4 sel_patterns)"
    using c by (simp add: sel_patterns_def comb_pattern_def descendant_pattern_def)
  have nc: "c \<noteq> CHR '':'' \<and> c \<noteq> CHR ''[''"
    using ok fc name_char_not [of c] by (auto simp: name_token_def first_char_def split: token.splits)
  then show "list_all (\<lambda>p. p e = None) (drop 7 sel_patterns)"
    using no_bracket [OF compound_no_bracket [OF ok]] c(1) e
    by (simp add: sel_patterns_def pseudo_pattern_def attrPresence_pattern_def del: attr_pattern.simps)
  show "tagName_pattern e = (if is_tag t then Some (t, toks_text ts) else None)"
  proof (cases "is_tag t")
    case True
    then obtain w where "t = TagName w" by (auto simp: is_tag_def split: token.splits)
    then show ?thesis using True tag_whole [OF _ st] ok et by simp
  next
    case False
    then have "\<not> name_char c \<and> c \<noteq> CHR ''*''"
      using ok fc by (auto simp: name_token_def first_char_def is_tag_def char_classes split: token.splits)
    then show ?thesis using False c by (simp add: tagName_pattern_def)
  qed
  have tc: "is_tag t \<Longrightarrow> c \<noteq> CHR ''#'' \<and> c \<noteq> CHR ''.''"
    using fc name_char_not [of c] by (auto simp: first_char_def is_tag_def split: token.splits)
  show "named_pattern CHR ''#'' Ident e = (case t of Ident w \<Rightarrow> Some (t, toks_text ts) | _ \<Rightarrow> None)"
    using ok et st fc tc hc named_other [of e "CHR ''#''" Ident] c(1)
    by (cases t) (auto simp: named_whole first_char_def name_token_def is_tag_def)
  show "named_pattern CHR ''.'' ClassName e = (case t of ClassName w \<Rightarrow> Some (t, toks_text ts) | _ \<Rightarrow> None)"
    using ok et st fc tc hc named_other [of e "CHR ''.''" ClassName] c(1)
    by (cases t) (auto simp: named_whole first_char_def name_token_def is_tag_def)
qed

lemma no_patterns_at_end: "list_all (\<lambda>p. p [] = None) sel_patterns"
  by (simp add: sel_patterns_def comb_pattern_def descendant_pattern_def tagName_pattern_def named_pattern_def
      pseudo_pattern_def attrPresence_pattern_def)

definition at_front :: "sel_pattern \<Rightarrow> bool" where
  "at_front p \<longleftrightarrow> (\<forall>ts. compound_ok ts \<longrightarrow> p (toks_text ts) = None \<or>
     ts \<noteq> [] \<and> p (toks_text ts) = Some (hd ts, toks_text (tl ts)))"

lemma patterns_at_front: "list_all at_front sel_patterns"
proof -
  have at: "p (toks_text ts) = None \<or> ts \<noteq> [] \<and> p (toks_text ts) = Some (hd ts, toks_text (tl ts))"
    if "compound_ok ts" "p \<in> set sel_patterns" for p ts
  proof (cases ts)
    case Nil
    then show ?thesis using that no_patterns_at_end by (simp add: toks_text_def list_all_iff)
  next
    case (Cons t us)
    note at = patterns_at_compound [OF that(1) [unfolded Cons] refl]
    have "sel_patterns = take 4 sel_patterns @
        [tagName_pattern, named_pattern CHR ''#'' Ident, named_pattern CHR ''.'' ClassName] @ drop 7 sel_patterns"
      by (simp add: sel_patterns_def)
    then have "p \<in> set (take 4 sel_patterns) \<or>
        p \<in> set [tagName_pattern, named_pattern CHR ''#'' Ident, named_pattern CHR ''.'' ClassName] \<or> p \<in> set (drop 7 sel_patterns)"
      using that(2) by (metis Un_iff set_append)
    then consider "p \<in> set (take 4 sel_patterns)" | "p = tagName_pattern" | "p = named_pattern CHR ''#'' Ident"
      | "p = named_pattern CHR ''.'' ClassName" | "p \<in> set (drop 7 sel_patterns)" unfolding list.set insert_iff empty_iff by blast
    then show ?thesis using at Cons by cases (auto simp: list_all_iff split: token.splits)
  qed
  show ?thesis unfolding list_all_iff at_front_def by (intro ballI allI impI) (rule at)
qed

lemma pass_compound:
  assumes "list_all at_front ps" "compound_ok ts"
  shows "\<exists>k. match_pass ps (toks_text ts) acc = Some (toks_text (drop k ts), acc @ take k ts) \<and>
    (first_pattern ps (toks_text ts) \<noteq> None \<longrightarrow> 0 < k \<and> ts \<noteq> [])"
  using assms
proof (induction ps arbitrary: ts acc)
  case (Cons p ps)
  show ?case
  proof (cases "p (toks_text ts)")
    case None
    then show ?thesis using Cons by simp
  next
    case (Some x)
    have "p (toks_text ts) = None \<or> ts \<noteq> [] \<and> p (toks_text ts) = Some (hd ts, toks_text (tl ts))"
      using Cons.prems by (simp add: at_front_def)
    then obtain t us where ts: "ts = t # us" "x = (t, toks_text us)" using Some by (cases ts) auto
    then have ok: "compound_ok us" "has_assertion t" using Cons.prems(2) by (auto simp: name_token_def split: token.splits)
    obtain k where "match_pass ps (toks_text us) (acc @ [t]) = Some (toks_text (drop k us), (acc @ [t]) @ take k us)"
      using Cons.IH [OF _ ok(1), of "acc @ [t]"] Cons.prems(1) by auto
    then show ?thesis using Some ts ok(2) by (intro exI [of _ "Suc k"]) simp
  qed
qed (auto intro: exI [of _ 0])

lemma compound_drop: "compound_ok ts \<Longrightarrow> compound_ok (drop k ts)"
proof (induction ts arbitrary: k)
  case (Cons t ts)
  then show ?case by (cases k) simp_all
qed simp

text \<open>\<open>match\<close> tests the tokens of a compound in their order.\<close>

lemma match_tokens_compound: "compound_ok ts \<Longrightarrow> match_tokens (toks_text ts) acc = Some (acc @ ts)"
proof (induction "length ts" arbitrary: ts acc rule: less_induct)
  case less
  show ?case
  proof (cases ts)
    case Nil
    then show ?thesis by (subst match_tokens.simps) (simp add: toks_text_def)
  next
    case (Cons t us)
    have st: "stop_text (toks_text us)" "\<not> list_all is_ws (toks_text ts)"
      using less.prems Cons compound_stop start_not_blank [OF compound_start, of t us "[]"] by auto
    have "next_token (tok_text t @ toks_text us) = Some (t, toks_text us)"
      using less.prems Cons st(1) by (intro next_token_printed) (auto simp: name_token_def split: token.splits)
    then have "first_pattern sel_patterns (toks_text ts) \<noteq> None"
      using Cons by (simp add: next_token_def toks_text_def)
    then obtain k where k: "match_pass sel_patterns (toks_text ts) acc = Some (toks_text (drop k ts), acc @ take k ts)" "0 < k"
      using pass_compound [OF patterns_at_front less.prems, of acc] by auto
    have "toks_text ts = toks_text (take k ts) @ toks_text (drop k ts)"
      by (metis append_take_drop_id concat_append map_append toks_text_def)
    moreover have "toks_text (take k ts) \<noteq> []"
      using Cons k(2) less.prems by (cases k; cases t) (auto simp: toks_text_def name_token_def)
    ultimately have "toks_text (drop k ts) \<noteq> toks_text ts" by simp
    then have "match_tokens (toks_text ts) acc = match_tokens (toks_text (drop k ts)) (acc @ take k ts)"
      using k(1) st(2) by (subst match_tokens.simps) simp
    then show ?thesis using less.hyps [of "drop k ts" "acc @ take k ts"] k(2) Cons compound_drop [OF less.prems] by simp
  qed
qed

end
