(* ===== verification/ProtoSelector.thy ===== *)
theory ProtoSelector
  imports PageTree SelectorTokens
begin

text \<open>
  \<open>Selector\<close> of \<open>prototype.js\<close> in its own mode, without the selectors and the path expressions of
  the browser: the compiled matcher as a run over the tokens of the expression, the handlers of tokens,
  combinators and pseudo classes, and \<open>match\<close> with its assertions.  The document is that of
  \<open>PageTree\<close>, which has elements only.  A call that throws is \<open>None\<close>.
\<close>

section \<open>The document\<close>

text \<open>
  \<open>se_root\<close> is the document itself; \<open>se_levels\<close> bounds the number of levels below it; \<open>se_text\<close> tells
  whether an element has text.
\<close>

record sel_env =
  se_doc :: doc
  se_root :: nat
  se_levels :: nat
  se_attr :: "nat \<Rightarrow> string \<Rightarrow> string option"
  se_text :: "nat \<Rightarrow> bool"
  se_disabled :: "nat \<Rightarrow> bool"
  se_checked :: "nat \<Rightarrow> bool"
  se_type :: "nat \<Rightarrow> string"

text \<open>\<open>getElementsByTagName\<close> in the order of the document.\<close>

fun descendants :: "nat \<Rightarrow> doc \<Rightarrow> nat \<Rightarrow> nat list" where
  "descendants 0 d e = []"
| "descendants (Suc n) d e = concat (map (\<lambda>c. c # descendants n d c) (kids d e))"

definition has_tag :: "sel_env \<Rightarrow> string \<Rightarrow> nat \<Rightarrow> bool" where
  "has_tag v t x \<longleftrightarrow> to_upper_case (tag (se_doc v) x) = to_upper_case t"

definition getElementsByTagName :: "sel_env \<Rightarrow> string \<Rightarrow> nat \<Rightarrow> nat list" where
  "getElementsByTagName v t e =
     (let ds = descendants (se_levels v) (se_doc v) e
      in if t = ''*'' then ds else filter (has_tag v t) ds)"

definition nextSiblings :: "doc \<Rightarrow> nat \<Rightarrow> nat list" where
  "nextSiblings d x =
     (case par d x of None \<Rightarrow> [] | Some p \<Rightarrow> tl (dropWhile (\<lambda>y. y \<noteq> x) (kids d p)))"

section \<open>Combinators\<close>

definition comb_descendant :: "sel_env \<Rightarrow> nat list \<Rightarrow> nat list" where
  "comb_descendant v nodes = concat (map (getElementsByTagName v ''*'') nodes)"

definition comb_child :: "sel_env \<Rightarrow> nat list \<Rightarrow> nat list" where
  "comb_child v nodes = concat (map (kids (se_doc v)) nodes)"

definition comb_adjacent :: "sel_env \<Rightarrow> nat list \<Rightarrow> nat list" where
  "comb_adjacent v nodes =
     concat (map (\<lambda>x. case nextSibling (se_doc v) x of None \<Rightarrow> [] | Some y \<Rightarrow> [y]) nodes)"

definition comb_laterSibling :: "sel_env \<Rightarrow> nat list \<Rightarrow> nat list" where
  "comb_laterSibling v nodes = concat (map (nextSiblings (se_doc v)) nodes)"

definition combine :: "sel_env \<Rightarrow> combinator \<Rightarrow> nat list \<Rightarrow> nat list" where
  "combine v c nodes =
     (case c of
        Descendant \<Rightarrow> comb_descendant v nodes
      | Child \<Rightarrow> comb_child v nodes
      | Adjacent \<Rightarrow> comb_adjacent v nodes
      | LaterSibling \<Rightarrow> comb_laterSibling v nodes)"

definition combined :: "sel_env \<Rightarrow> combinator option \<Rightarrow> nat list option \<Rightarrow> nat list option" where
  "combined v c nodes =
     (case nodes of
        None \<Rightarrow> None
      | Some ns \<Rightarrow> Some (case c of None \<Rightarrow> ns | Some c \<Rightarrow> combine v c ns))"

section \<open>Tokens\<close>

definition h_tagName :: "sel_env \<Rightarrow> nat list option \<Rightarrow> nat \<Rightarrow> string \<Rightarrow> combinator option \<Rightarrow> nat list" where
  "h_tagName v nodes r t c =
     (case nodes of
        None \<Rightarrow> getElementsByTagName v t r
      | Some ns \<Rightarrow>
          (case c of
             Some Descendant \<Rightarrow> concat (map (getElementsByTagName v t) ns)
           | Some c \<Rightarrow> (let ns = combine v c ns in if t = ''*'' then ns else filter (has_tag v t) ns)
           | None \<Rightarrow> filter (has_tag v t) ns))"

definition getElementById :: "sel_env \<Rightarrow> string \<Rightarrow> nat option" where
  "getElementById v i = find (\<lambda>x. ident (se_doc v) x = i) (descendants (se_levels v) (se_doc v) (se_root v))"

definition descendantOf :: "sel_env \<Rightarrow> nat \<Rightarrow> nat \<Rightarrow> bool" where
  "descendantOf v x a \<longleftrightarrow> isParent (se_doc v) x a = Some True"

definition h_id :: "sel_env \<Rightarrow> nat list option \<Rightarrow> nat \<Rightarrow> string \<Rightarrow> combinator option \<Rightarrow> nat list" where
  "h_id v nodes r i c =
     (case getElementById v i of
        None \<Rightarrow> []
      | Some target \<Rightarrow>
          (case nodes of
             None \<Rightarrow> if r = se_root v \<or> descendantOf v target r then [target] else []
           | Some ns \<Rightarrow>
               let found = (\<lambda>ns. if target \<in> set ns then [target] else [])
               in case c of
                    None \<Rightarrow> found ns
                  | Some Child \<Rightarrow> if list_ex (\<lambda>x. par (se_doc v) target = Some x) ns then [target] else found ns
                  | Some Descendant \<Rightarrow> if list_ex (descendantOf v target) ns then [target] else found ns
                  | Some Adjacent \<Rightarrow> if list_ex (\<lambda>x. previousSibling (se_doc v) target = Some x) ns then [target] else found ns
                  | Some LaterSibling \<Rightarrow> found (combine v LaterSibling ns)))"

text \<open>\<open>byClassName\<close> looks into the text of all class names.\<close>

definition className :: "sel_env \<Rightarrow> nat \<Rightarrow> string" where
  "className v x = join '' '' (klass (se_doc v) x)"

definition has_class :: "sel_env \<Rightarrow> string \<Rightarrow> nat \<Rightarrow> bool" where
  "has_class v k x \<longleftrightarrow> className v x \<noteq> [] \<and>
     (className v x = k \<or> str_include ('' '' @ className v x @ '' '') ('' '' @ k @ '' ''))"

definition h_className :: "sel_env \<Rightarrow> nat list option \<Rightarrow> nat \<Rightarrow> string \<Rightarrow> combinator option \<Rightarrow> nat list" where
  "h_className v nodes r k c =
     filter (has_class v k) (case combined v c nodes of None \<Rightarrow> comb_descendant v [r] | Some ns \<Rightarrow> ns)"

text \<open>Here a combinator is applied also to the elements below the root.\<close>

definition attr_nodes :: "sel_env \<Rightarrow> nat list option \<Rightarrow> nat \<Rightarrow> combinator option \<Rightarrow> nat list" where
  "attr_nodes v nodes r c =
     (let ns = (case nodes of None \<Rightarrow> getElementsByTagName v ''*'' r | Some ns \<Rightarrow> ns)
      in case c of None \<Rightarrow> ns | Some c \<Rightarrow> combine v c ns)"

definition h_attrPresence :: "sel_env \<Rightarrow> nat list option \<Rightarrow> nat \<Rightarrow> string \<Rightarrow> combinator option \<Rightarrow> nat list" where
  "h_attrPresence v nodes r a c = filter (\<lambda>x. se_attr v x a \<noteq> None) (attr_nodes v nodes r c)"

text \<open>The operators; of the two definitions of some of them the later one counts.\<close>

definition sel_operator :: "string \<Rightarrow> string \<Rightarrow> string \<Rightarrow> bool" where
  "sel_operator op nv w =
     (if op = ''='' then nv = w
      else if op = ''!='' then nv \<noteq> w
      else if op = ''^='' then nv = w \<or> nv \<noteq> [] \<and> startsWith nv w
      else if op = ''$='' then endsWith nv w
      else if op = ''*='' then str_include nv w
      else if op = ''~='' then str_include ('' '' @ nv @ '' '') ('' '' @ w @ '' '')
      else str_include (''-'' @ to_upper_case nv @ ''-'') (''-'' @ to_upper_case w @ ''-''))"

text \<open>Without an operator the first element that has the attribute makes the call throw.\<close>

definition h_attr :: "sel_env \<Rightarrow> nat list option \<Rightarrow> nat \<Rightarrow> string \<Rightarrow> string option \<Rightarrow> string \<Rightarrow> combinator option \<Rightarrow> nat list option" where
  "h_attr v nodes r a op w c =
     (let ns = attr_nodes v nodes r c
      in case op of
           None \<Rightarrow> if list_ex (\<lambda>x. se_attr v x a \<noteq> None) ns then None else Some []
         | Some op \<Rightarrow> Some (filter (\<lambda>x. case se_attr v x a of None \<Rightarrow> False | Some nv \<Rightarrow> sel_operator op nv w) ns))"

section \<open>Pseudo classes\<close>

text \<open>The nodes of a pseudo class.\<close>

definition pseudo_nodes :: "sel_env \<Rightarrow> nat list option \<Rightarrow> nat \<Rightarrow> combinator option \<Rightarrow> nat list" where
  "pseudo_nodes v nodes r c = (case combined v c nodes of None \<Rightarrow> getElementsByTagName v ''*'' r | Some ns \<Rightarrow> ns)"

definition sibling_pseudo :: "sel_env \<Rightarrow> string \<Rightarrow> nat \<Rightarrow> bool" where
  "sibling_pseudo v name x =
     (if name = ''first-child'' then previousSibling (se_doc v) x = None
      else if name = ''last-child'' then nextSibling (se_doc v) x = None
      else previousSibling (se_doc v) x = None \<and> nextSibling (se_doc v) x = None)"

definition state_pseudo :: "sel_env \<Rightarrow> string \<Rightarrow> nat \<Rightarrow> bool" where
  "state_pseudo v name x =
     (if name = ''enabled'' then \<not> se_disabled v x \<and> (se_type v x = [] \<or> se_type v x \<noteq> ''hidden'')
      else if name = ''disabled'' then se_disabled v x
      else se_checked v x)"

definition empty_pseudo :: "sel_env \<Rightarrow> nat \<Rightarrow> bool" where
  "empty_pseudo v x \<longleftrightarrow> \<not> (tag (se_doc v) x = ''!'' \<or> kids (se_doc v) x \<noteq> [] \<or> se_text v x)"

definition plain_pseudo :: "sel_env \<Rightarrow> string \<Rightarrow> nat \<Rightarrow> bool" where
  "plain_pseudo v name x =
     (if name \<in> {''first-child'', ''last-child'', ''only-child''} then sibling_pseudo v name x
      else if name = ''empty'' then empty_pseudo v x else state_pseudo v name x)"

text \<open>
  \<open>index\<close>: the children of a parent are numbered, for \<open>ofType\<close> only the marked ones; the parent is
  marked.
\<close>

type_synonym indices = "nat \<Rightarrow> int option"

fun number_from :: "int \<Rightarrow> nat list \<Rightarrow> indices \<Rightarrow> indices" where
  "number_from j [] ix = ix"
| "number_from j (x # xs) ix = number_from (j + 1) xs (ix(x := Some j))"

definition h_index :: "sel_env \<Rightarrow> nat \<Rightarrow> bool \<Rightarrow> bool \<Rightarrow> nat list \<times> indices \<Rightarrow> nat list \<times> indices" where
  "h_index v p backwards ofType st =
     (let marked = p # fst st;
          xs = filter (\<lambda>x. \<not> ofType \<or> x \<in> set marked) (kids (se_doc v) p)
      in (marked, number_from 1 (if backwards then rev xs else xs) (snd st)))"

definition index_parents :: "sel_env \<Rightarrow> bool \<Rightarrow> bool \<Rightarrow> nat list \<Rightarrow> indices \<Rightarrow> indices" where
  "index_parents v backwards ofType nodes ix =
     snd (foldl (\<lambda>st x. case par (se_doc v) x of
                  None \<Rightarrow> st
                | Some p \<Rightarrow> if p \<in> set (fst st) then st else h_index v p backwards ofType st) (nodes, ix) nodes)"

text \<open>The formula: a number, or \<open>an+b\<close>; anything else finds nothing.\<close>

datatype nth_formula = Position int | Progression int int | NoFormula

definition signed_number :: "string \<Rightarrow> int" where
  "signed_number s =
     (if s \<noteq> [] \<and> hd s = CHR ''-'' then - int (dec_val (tl s))
      else if s \<noteq> [] \<and> hd s = CHR ''+'' then int (dec_val (tl s)) else int (dec_val s))"

definition progression_of :: "string \<Rightarrow> nth_formula" where
  "progression_of f =
     (let sign = (if f \<noteq> [] \<and> hd f = CHR ''-'' then ''-'' else []);
          u = drop (length sign) f;
          m1 = sign @ takeWhile is_digit u; r = dropWhile is_digit u
      in if r = [] \<or> hd r \<noteq> CHR ''n'' then NoFormula
         else
           let t = tl r; ds = takeWhile is_digit (tl t);
               m2 = (if t \<noteq> [] \<and> hd t \<in> set ''+-'' \<and> ds \<noteq> [] then hd t # ds else [])
           in Progression (if m1 = ''-'' then -1 else if m1 = [] then 1 else signed_number m1)
                (if m2 = [] then 0 else signed_number m2))"

definition nth_formula_of :: "string \<Rightarrow> nth_formula" where
  "nth_formula_of formula =
     (let f = (if formula = ''even'' then ''2n+0'' else if formula = ''odd'' then ''2n+1'' else formula)
      in if f \<noteq> [] \<and> list_all is_digit f then Position (int (dec_val f)) else progression_of f)"

definition getIndices :: "int \<Rightarrow> int \<Rightarrow> nat \<Rightarrow> int list" where
  "getIndices a b count =
     (if a = 0 then (if b > 0 then [b] else [])
      else filter (\<lambda>i. (i - b) mod a = 0 \<and> (i - b) div a \<ge> 0) (map int [1..<Suc count]))"

definition nth_select :: "nth_formula \<Rightarrow> nat list \<Rightarrow> indices \<Rightarrow> nat list" where
  "nth_select f nodes ix =
     (case f of
        Position k \<Rightarrow> filter (\<lambda>x. ix x = Some k) nodes
      | Progression a b \<Rightarrow>
          concat (map (\<lambda>x. map (\<lambda>_. x) (filter (\<lambda>j. ix x = Some j) (getIndices a b (length nodes)))) nodes)
      | NoFormula \<Rightarrow> [])"

definition pseudo_nth :: "sel_env \<Rightarrow> nat list \<Rightarrow> string \<Rightarrow> bool \<Rightarrow> bool \<Rightarrow> indices \<Rightarrow> nat list \<times> indices" where
  "pseudo_nth v nodes formula backwards ofType ix =
     (if nodes = [] then ([], ix)
      else let ix = index_parents v backwards ofType nodes ix
           in (nth_select (nth_formula_of formula) nodes ix, ix))"

definition h_pseudo :: "sel_env \<Rightarrow> string \<Rightarrow> string \<Rightarrow> nat list \<Rightarrow> indices \<Rightarrow> nat list \<times> indices" where
  "h_pseudo v name arg nodes ix =
     (if name = ''nth-child'' then pseudo_nth v nodes arg False False ix
      else if name = ''nth-last-child'' then pseudo_nth v nodes arg True False ix
      else if name = ''nth-of-type'' then pseudo_nth v nodes arg False True ix
      else if name = ''nth-last-of-type'' then pseudo_nth v nodes arg True True ix
      else if name = ''first-of-type'' then pseudo_nth v nodes ''1'' False True ix
      else if name = ''last-of-type'' then pseudo_nth v nodes ''1'' True True ix
      else if name = ''only-of-type''
      then (let (ns, ix) = pseudo_nth v nodes ''1'' False True ix in pseudo_nth v ns ''1'' True True ix)
      else (filter (plain_pseudo v name) nodes, ix))"

section \<open>The matcher\<close>

text \<open>The variables of the compiled function, and the numbers that are left on the elements.\<close>

record sel_state =
  sl_nodes :: "nat list option"
  sl_comb :: "combinator option"
  sl_index :: indices

definition sel_start :: "indices \<Rightarrow> sel_state" where
  "sel_start ix = \<lparr>sl_nodes = None, sl_comb = None, sl_index = ix\<rparr>"

definition found_nodes :: "nat list \<Rightarrow> sel_state \<Rightarrow> sel_state" where
  "found_nodes ns s = s\<lparr>sl_nodes := Some ns, sl_comb := None\<rparr>"

definition exec_token :: "sel_env \<Rightarrow> nat \<Rightarrow> token \<Rightarrow> sel_state \<Rightarrow> sel_state option" where
  "exec_token v r t s =
     (let ns = sl_nodes s; c = sl_comb s
      in case t of
           Comb k \<Rightarrow> Some (s\<lparr>sl_comb := Some k\<rparr>)
         | TagName w \<Rightarrow> Some (found_nodes (h_tagName v ns r w c) s)
         | Ident w \<Rightarrow> Some (found_nodes (h_id v ns r w c) s)
         | ClassName w \<Rightarrow> Some (found_nodes (h_className v ns r w c) s)
         | AttrPresence a \<Rightarrow> Some (found_nodes (h_attrPresence v ns r a c) s)
         | Attr a op w \<Rightarrow>
             map_option (\<lambda>ns. found_nodes ns s) (h_attr v ns r a op (case w of None \<Rightarrow> [] | Some w \<Rightarrow> w) c)
         | Pseudo name arg \<Rightarrow>
             if name = ''not'' then None
             else let (ns, ix) = h_pseudo v name (case arg of None \<Rightarrow> [] | Some a \<Rightarrow> a) (pseudo_nodes v ns r c) (sl_index s)
                  in Some (found_nodes ns (s\<lparr>sl_index := ix\<rparr>)))"

text \<open>\<open>unique\<close>, with the elements it has marked.\<close>

fun unique_nodes :: "nat list \<Rightarrow> nat list \<Rightarrow> nat list" where
  "unique_nodes marked [] = []"
| "unique_nodes marked (n # ns) =
     (if n \<in> set marked then unique_nodes marked ns else n # unique_nodes (n # marked) ns)"

definition run_result :: "sel_state option \<Rightarrow> (nat list \<times> indices) option" where
  "run_result s =
     (case s of
        None \<Rightarrow> None
      | Some s \<Rightarrow> (case sl_nodes s of None \<Rightarrow> None | Some ns \<Rightarrow> Some (unique_nodes [] ns, sl_index s)))"

definition exclude :: "sel_env \<Rightarrow> nat \<Rightarrow> nat list \<Rightarrow> sel_state \<Rightarrow> sel_state" where
  "exclude v r ex s =
     found_nodes (filter (\<lambda>x. x \<notin> set ex) (pseudo_nodes v (sl_nodes s) r (sl_comb s))) s"

fun sel_run :: "sel_env \<Rightarrow> nat \<Rightarrow> sel list \<Rightarrow> sel_state \<Rightarrow> sel_state option" where
  "sel_run v r [] s = Some s"
| "sel_run v r (Tok t # ts) s = (case exec_token v r t s of None \<Rightarrow> None | Some s \<Rightarrow> sel_run v r ts s)"
| "sel_run v r (Not us # ts) s =
     (case run_result (sel_run v r us (sel_start (sl_index s))) of
        None \<Rightarrow> None
      | Some (ex, ix) \<Rightarrow> sel_run v r ts (exclude v r ex (s\<lparr>sl_index := ix\<rparr>)))"

definition sel_findElements :: "sel_env \<Rightarrow> nat \<Rightarrow> string \<Rightarrow> indices \<Rightarrow> (nat list \<times> indices) option" where
  "sel_findElements v r e ix = run_result (sel_run v r (selector_tokens e) (sel_start ix))"

section \<open>\<open>match\<close> and the functions over it\<close>

definition hasClassName :: "sel_env \<Rightarrow> string \<Rightarrow> nat \<Rightarrow> bool" where
  "hasClassName v k x \<longleftrightarrow> className v x \<noteq> [] \<and> (className v x = k \<or> k \<in> set (split_char CHR '' '' (className v x)))"

text \<open>The operators with a value that is undefined.\<close>

definition undefined_operator :: "string \<Rightarrow> string \<Rightarrow> bool option" where
  "undefined_operator op nv =
     (if op = ''='' then Some False
      else if op = ''!='' then Some True
      else if op = ''$='' then None
      else if op = ''|='' then Some (sel_operator op nv [])
      else Some (sel_operator op nv ''undefined''))"

definition assertion :: "sel_env \<Rightarrow> token \<Rightarrow> nat \<Rightarrow> bool option" where
  "assertion v t x =
     (case t of
        TagName w \<Rightarrow> Some (to_upper_case w = to_upper_case (tag (se_doc v) x))
      | ClassName k \<Rightarrow> Some (hasClassName v k x)
      | Ident w \<Rightarrow> Some (ident (se_doc v) x = w)
      | AttrPresence a \<Rightarrow> Some (se_attr v x a \<noteq> None)
      | Attr a op w \<Rightarrow>
          (case se_attr v x a of
             None \<Rightarrow> Some False
           | Some nv \<Rightarrow>
               if nv = [] then Some False
               else (case op of
                       None \<Rightarrow> None
                     | Some op \<Rightarrow> (case w of None \<Rightarrow> undefined_operator op nv | Some w \<Rightarrow> Some (sel_operator op nv w))))
      | _ \<Rightarrow> None)"

fun assert_all :: "sel_env \<Rightarrow> nat \<Rightarrow> token list \<Rightarrow> bool option" where
  "assert_all v x [] = Some True"
| "assert_all v x (t # ts) =
     (case assertion v t x of None \<Rightarrow> None | Some b \<Rightarrow> if b then assert_all v x ts else Some False)"

definition sel_match :: "sel_env \<Rightarrow> string \<Rightarrow> nat \<Rightarrow> indices \<Rightarrow> (bool \<times> indices) option" where
  "sel_match v e x ix =
     (case match_tokens (strip e) [] of
        Some ts \<Rightarrow> map_option (\<lambda>b. (b, ix)) (assert_all v x ts)
      | None \<Rightarrow> map_option (\<lambda>(ns, ix). (x \<in> set ns, ix)) (sel_findElements v (se_root v) e ix))"

text \<open>The expressions are those that \<open>split\<close> has made of the text between the commas.\<close>

fun find_each :: "sel_env \<Rightarrow> nat \<Rightarrow> string list \<Rightarrow> indices \<Rightarrow> (nat list \<times> indices) option" where
  "find_each v r [] ix = Some ([], ix)"
| "find_each v r (e # es) ix =
     (case sel_findElements v r (strip e) ix of
        None \<Rightarrow> None
      | Some (ns, ix) \<Rightarrow> map_option (\<lambda>(ms, ix). (ns @ ms, ix)) (find_each v r es ix))"

definition findChildElements :: "sel_env \<Rightarrow> nat \<Rightarrow> string list \<Rightarrow> indices \<Rightarrow> (nat list \<times> indices) option" where
  "findChildElements v r es ix =
     map_option (\<lambda>(ns, ix). (if 1 < length es then unique_nodes [] ns else ns, ix)) (find_each v r es ix)"

definition matchElements :: "sel_env \<Rightarrow> nat list \<Rightarrow> string list \<Rightarrow> indices \<Rightarrow> (nat list \<times> indices) option" where
  "matchElements v xs es ix =
     map_option (\<lambda>(ms, ix). (filter (\<lambda>x. x \<in> set ms) xs, ix)) (findChildElements v (se_root v) es ix)"

definition sel_findElement :: "sel_env \<Rightarrow> nat list \<Rightarrow> string list \<Rightarrow> nat \<Rightarrow> indices \<Rightarrow> (nat option \<times> indices) option" where
  "sel_findElement v xs es i ix =
     map_option (\<lambda>(ms, ix). (if i < length ms then Some (ms ! i) else None, ix))
       (matchElements v xs (if es = [] then [''*''] else es) ix)"

section \<open>What a selector means\<close>

text \<open>The element \<open>y\<close> stands before the combinator, \<open>x\<close> after it.\<close>

definition related :: "sel_env \<Rightarrow> combinator \<Rightarrow> nat \<Rightarrow> nat \<Rightarrow> bool" where
  "related v c y x =
     (case c of
        Descendant \<Rightarrow> descendantOf v x y
      | Child \<Rightarrow> par (se_doc v) x = Some y
      | Adjacent \<Rightarrow> previousSibling (se_doc v) x = Some y
      | LaterSibling \<Rightarrow>
          (case par (se_doc v) x of None \<Rightarrow> False | Some p \<Rightarrow> y \<in> set (takeWhile (\<lambda>z. z \<noteq> x) (kids (se_doc v) p))))"

definition tok_sat :: "sel_env \<Rightarrow> token \<Rightarrow> nat \<Rightarrow> bool" where
  "tok_sat v t x =
     (case t of
        Comb c \<Rightarrow> False
      | TagName w \<Rightarrow> w = ''*'' \<or> has_tag v w x
      | Ident w \<Rightarrow> ident (se_doc v) x = w
      | ClassName k \<Rightarrow> k \<in> set (klass (se_doc v) x)
      | AttrPresence a \<Rightarrow> se_attr v x a \<noteq> None
      | Attr a op w \<Rightarrow>
          (case (se_attr v x a, op) of
             (Some nv, Some op) \<Rightarrow> sel_operator op nv (case w of None \<Rightarrow> [] | Some w \<Rightarrow> w)
           | _ \<Rightarrow> False)
      | Pseudo n a \<Rightarrow> plain_pseudo v n x)"

lemma size_list_rev [simp]: "size_list f (rev xs) = size_list f xs"
  by (induction xs) (simp_all add: size_list_append)

definition page_elements :: "sel_env \<Rightarrow> nat list" where
  "page_elements v = descendants (se_levels v) (se_doc v) (se_root v)"

text \<open>
  Whether an element matches, from the last token to the first: the tokens of a compound hold of it,
  and a combinator leads to an element that matches what stands before.  The selector is given in reverse.
\<close>

function css :: "sel_env \<Rightarrow> nat \<Rightarrow> sel list \<Rightarrow> nat \<Rightarrow> bool" where
  "css v r [] x = descendantOf v x r"
| "css v r (Tok t # ts) x =
     (case t of
        Comb c \<Rightarrow> list_ex (\<lambda>y. related v c y x \<and> css v r ts y) (page_elements v)
      | _ \<Rightarrow> tok_sat v t x \<and> css v r ts x)"
| "css v r (Not us # ts) x = (\<not> css v r (rev us) x \<and> css v r ts x)"
  by pat_completeness auto

termination
  by (relation "measure (\<lambda>(v, r, ts, x). size_list size ts)") auto

text \<open>
  The selectors that the matcher handles as they mean: an id does not follow a combinator, and the
  pseudo classes do not count children.
\<close>

datatype phase = AtStart | AfterComb | InCompound

fun plain_token :: "phase \<Rightarrow> token \<Rightarrow> bool" where
  "plain_token ph (Comb c) = False"
| "plain_token ph (TagName w) = (ph \<noteq> InCompound)"
| "plain_token ph (Ident w) = (ph \<noteq> AfterComb \<and> w \<noteq> [])"
| "plain_token ph (ClassName k) = (k \<noteq> [] \<and> CHR '' '' \<notin> set k)"
| "plain_token ph (AttrPresence a) = True"
| "plain_token ph (Attr a op w) = (op \<noteq> None)"
| "plain_token ph (Pseudo n a) =
     (n \<in> {''first-child'', ''last-child'', ''only-child'', ''empty'', ''enabled'', ''disabled'', ''checked''})"

fun plain_sels :: "phase \<Rightarrow> sel list \<Rightarrow> bool" where
  "plain_sels ph [] = (ph = InCompound)"
| "plain_sels ph (Tok t # ts) =
     (case t of
        Comb c \<Rightarrow> ph = InCompound \<and> plain_sels AfterComb ts
      | _ \<Rightarrow> plain_token ph t \<and> plain_sels InCompound ts)"
| "plain_sels ph (Not us # ts) = (plain_sels AtStart us \<and> plain_sels InCompound ts)"

definition unique_ids :: "sel_env \<Rightarrow> bool" where
  "unique_ids v \<longleftrightarrow> (\<forall>x \<in> set (page_elements v). \<forall>y \<in> set (page_elements v).
     ident (se_doc v) x = ident (se_doc v) y \<longrightarrow> ident (se_doc v) x = [] \<or> x = y)"

definition page_ok :: "sel_env \<Rightarrow> bool" where
  "page_ok v \<longleftrightarrow> wf_doc (se_doc v) \<and> card (parent_rel (se_doc v)) \<le> se_levels v \<and> unique_ids v \<and>
     (\<forall>x. \<forall>k \<in> set (klass (se_doc v) x). k \<noteq> [] \<and> CHR '' '' \<notin> set k)"

section \<open>The handlers find what the tokens mean\<close>

lemma descendants_iff:
  assumes "wf_doc d"
  shows "x \<in> set (descendants n d e) \<longleftrightarrow> (\<exists>k. 0 < k \<and> k \<le> n \<and> (x, e) \<in> parent_rel d ^^ k)"
proof (induction n arbitrary: e)
  case (Suc n)
  have kid: "c \<in> set (kids d e) \<longleftrightarrow> (c, e) \<in> parent_rel d" for c using assms by (simp add: wf_doc_def par_rel [symmetric])
  have "x \<in> set (descendants (Suc n) d e) \<longleftrightarrow> (\<exists>c. (c, e) \<in> parent_rel d \<and> (x = c \<or> x \<in> set (descendants n d c)))"
    by (simp add: kid [symmetric] Bex_def)
  also have "\<dots> \<longleftrightarrow>
      (x, e) \<in> parent_rel d \<or> (\<exists>c k. 0 < k \<and> k \<le> n \<and> (x, c) \<in> parent_rel d ^^ k \<and> (c, e) \<in> parent_rel d)"
    unfolding Suc.IH by blast
  also have "\<dots> \<longleftrightarrow> (\<exists>k. 0 < k \<and> k \<le> Suc n \<and> (x, e) \<in> parent_rel d ^^ k)"
  proof
    assume "(x, e) \<in> parent_rel d \<or> (\<exists>c k. 0 < k \<and> k \<le> n \<and> (x, c) \<in> parent_rel d ^^ k \<and> (c, e) \<in> parent_rel d)"
    then show "\<exists>k. 0 < k \<and> k \<le> Suc n \<and> (x, e) \<in> parent_rel d ^^ k"
    proof
      assume "(x, e) \<in> parent_rel d"
      then show ?thesis by (intro exI [of _ 1]) simp
    next
      assume "\<exists>c k. 0 < k \<and> k \<le> n \<and> (x, c) \<in> parent_rel d ^^ k \<and> (c, e) \<in> parent_rel d"
      then obtain c k where "k \<le> n" "(x, c) \<in> parent_rel d ^^ k" "(c, e) \<in> parent_rel d" by blast
      then show ?thesis by (intro exI [of _ "Suc k"]) auto
    qed
  next
    assume "\<exists>k. 0 < k \<and> k \<le> Suc n \<and> (x, e) \<in> parent_rel d ^^ k"
    then obtain k where k: "k \<le> n" "(x, e) \<in> parent_rel d ^^ Suc k" by (metis Suc_le_mono gr0_implies_Suc)
    then obtain c where c: "(x, c) \<in> parent_rel d ^^ k" "(c, e) \<in> parent_rel d" by auto
    show "(x, e) \<in> parent_rel d \<or> (\<exists>c k. 0 < k \<and> k \<le> n \<and> (x, c) \<in> parent_rel d ^^ k \<and> (c, e) \<in> parent_rel d)"
    proof (cases "k = 0")
      case True
      then show ?thesis using c by simp
    next
      case False
      then show ?thesis using c k(1) by blast
    qed
  qed
  finally show ?case .
qed simp

lemma below_iff: "page_ok v \<Longrightarrow> descendantOf v x a \<longleftrightarrow> (x, a) \<in> (parent_rel (se_doc v))\<^sup>+"
  by (simp add: descendantOf_def page_ok_def isParent_iff)

lemma descendants_below:
  assumes "page_ok v"
  shows "x \<in> set (descendants (se_levels v) (se_doc v) e) \<longleftrightarrow> descendantOf v x e"
proof -
  have wd: "wf_doc (se_doc v)" and lv: "card (parent_rel (se_doc v)) \<le> se_levels v" using assms by (simp_all add: page_ok_def)
  have "(x, e) \<in> (parent_rel (se_doc v))\<^sup>+ \<longleftrightarrow> (\<exists>k. 0 < k \<and> k \<le> se_levels v \<and> (x, e) \<in> parent_rel (se_doc v) ^^ k)"
  proof
    assume "(x, e) \<in> (parent_rel (se_doc v))\<^sup>+"
    moreover have "finite (parent_rel (se_doc v))" using wd by (simp add: wf_doc_def)
    ultimately show "\<exists>k. 0 < k \<and> k \<le> se_levels v \<and> (x, e) \<in> parent_rel (se_doc v) ^^ k"
      using lv by (force simp: trancl_finite_eq_relpow)
  qed (auto simp: trancl_power)
  then show ?thesis by (simp add: descendants_iff [OF wd] below_iff [OF assms])
qed

lemma below_step: "par d c = Some p \<Longrightarrow> (c, e) \<in> (parent_rel d)\<^sup>+ \<longleftrightarrow> p = e \<or> (p, e) \<in> (parent_rel d)\<^sup>+"
  by (auto simp: parent_rel_def intro: trancl_into_trancl2 elim: converse_tranclE)

lemma before_sibling:
  assumes "wf_doc d" "par d x = Some p" "y \<in> set (takeWhile (\<lambda>z. z \<noteq> x) (kids d p))"
  shows "par d y = Some p"
  using assms set_takeWhileD [of y "\<lambda>z. z \<noteq> x" "kids d p"] by (simp add: wf_doc_def)

lemma related_page:
  assumes ok: "page_ok v" and rel: "related v c y x" and y: "descendantOf v y (se_root v)"
  shows "descendantOf v x (se_root v)"
proof -
  have wd: "wf_doc (se_doc v)" using ok by (simp add: page_ok_def)
  have sib: "(x, se_root v) \<in> (parent_rel (se_doc v))\<^sup>+"
    if "par (se_doc v) x = Some p" "par (se_doc v) y = Some p" for p
    using that y by (simp add: below_iff [OF ok] below_step)
  show ?thesis
  proof (cases c)
    case Descendant
    then show ?thesis using rel y by (auto simp: related_def below_iff [OF ok] intro: trancl_trans)
  next
    case Child
    then show ?thesis using rel y by (simp add: related_def below_iff [OF ok] below_step)
  next
    case Adjacent
    then have pr: "previousSibling (se_doc v) x = Some y" using rel by (simp add: related_def)
    then obtain p where p: "par (se_doc v) x = Some p" by (auto simp: previousSibling_def split: option.splits)
    then obtain ys zs where "kids (se_doc v) p = ys @ y # x # zs" using previous_at [OF wd p] pr by blast
    then have "par (se_doc v) y = Some p" using wd by (simp add: wf_doc_def)
    then show ?thesis using sib [OF p] by (simp add: below_iff [OF ok])
  next
    case LaterSibling
    then obtain p where p: "par (se_doc v) x = Some p" "y \<in> set (takeWhile (\<lambda>z. z \<noteq> x) (kids (se_doc v) p))"
      using rel by (auto simp: related_def split: option.splits)
    then show ?thesis using sib [OF p(1) before_sibling [OF wd p]] by (simp add: below_iff [OF ok])
  qed
qed

text \<open>The combinators lead to the related elements.\<close>

lemma later_siblings:
  assumes wd: "wf_doc d"
  shows "x \<in> set (nextSiblings d y) \<longleftrightarrow>
    (case par d x of None \<Rightarrow> False | Some p \<Rightarrow> y \<in> set (takeWhile (\<lambda>z. z \<noteq> x) (kids d p)))"
proof (cases "par d y")
  case None
  have "y \<notin> set (kids d p)" for p using None wd by (metis option.distinct(1) wf_doc_def)
  then show ?thesis using None set_takeWhileD by (fastforce simp: nextSiblings_def split: option.splits)
next
  case (Some p)
  have m: "y \<in> set (kids d p)" "distinct (kids d p)" using Some wd by (simp_all add: wf_doc_def)
  obtain ys zs where k: "kids d p = ys @ y # zs" "dropWhile (\<lambda>u. u \<noteq> y) (kids d p) = y # zs"
    using dropWhile_next [OF m(2,1)] by blast
  have n: "nextSiblings d y = zs" using Some k(2) by (simp add: nextSiblings_def)
  show ?thesis
  proof
    assume "x \<in> set (nextSiblings d y)"
    then obtain as bs where ab: "zs = as @ x # bs" using n split_list by fastforce
    then have "par d x = Some p" using wd k(1) by (simp add: wf_doc_def)
    moreover have "takeWhile (\<lambda>z. z \<noteq> x) (kids d p) = ys @ y # as"
      using m(2) unfolding k(1) ab by (auto simp: takeWhile_append)
    ultimately show "case par d x of None \<Rightarrow> False | Some p \<Rightarrow> y \<in> set (takeWhile (\<lambda>z. z \<noteq> x) (kids d p))" by simp
  next
    assume "case par d x of None \<Rightarrow> False | Some p \<Rightarrow> y \<in> set (takeWhile (\<lambda>z. z \<noteq> x) (kids d p))"
    then obtain q where q: "par d x = Some q" "y \<in> set (takeWhile (\<lambda>z. z \<noteq> x) (kids d q))" by (auto split: option.splits)
    then have "q = p" using before_sibling [OF wd q] Some by simp
    then have x: "x \<in> set (kids d p)" "y \<in> set (takeWhile (\<lambda>z. z \<noteq> x) (ys @ y # zs))" using q wd k(1) by (auto simp: wf_doc_def)
    have "x \<notin> set ys"
      using x(2) m(2) k(1) by (auto simp: takeWhile_append1 dest: set_takeWhileD)
    moreover have "x \<noteq> y" using x(2) by (auto dest: set_takeWhileD)
    ultimately show "x \<in> set (nextSiblings d y)" using x(1) k(1) n by simp
  qed
qed

lemma combine_related:
  assumes "page_ok v"
  shows "x \<in> set (combine v c ns) \<longleftrightarrow> (\<exists>y \<in> set ns. related v c y x)"
proof -
  have wd: "wf_doc (se_doc v)" using assms by (simp add: page_ok_def)
  show ?thesis
  proof (cases c)
    case Adjacent
    have "x \<in> set (combine v c ns) \<longleftrightarrow> (\<exists>y \<in> set ns. nextSibling (se_doc v) y = Some x)"
      using Adjacent by (simp add: combine_def comb_adjacent_def) (force split: option.splits)
    then show ?thesis using Adjacent by (simp add: related_def neighbours [OF wd])
  next
    case Child
    then show ?thesis using wd by (simp add: combine_def comb_child_def related_def wf_doc_def)
  qed (simp_all add: combine_def comb_descendant_def comb_laterSibling_def related_def getElementsByTagName_def
      descendants_below [OF assms] later_siblings [OF wd])
qed

text \<open>A class name is found in the text of all of them.\<close>

lemma str_include_iff: "str_include s p \<longleftrightarrow> (\<exists>a b. s = a @ p @ b)"
proof -
  have "str_include s p \<longleftrightarrow> 0 \<le> index_of_from s p 0" by (auto simp: str_include_def index_of_def)
  also have "\<dots> \<longleftrightarrow> (\<exists>k. starts_at s p k)" by (simp add: index_of_from_nonneg)
  also have "\<dots> \<longleftrightarrow> (\<exists>a b. s = a @ p @ b)"
  proof
    assume "\<exists>k. starts_at s p k"
    then obtain k where "take (length p) (drop k s) = p" by (auto simp: starts_at_def)
    then have "s = take k s @ p @ drop (length p) (drop k s)" by (metis append_take_drop_id)
    then show "\<exists>a b. s = a @ p @ b" by blast
  next
    assume "\<exists>a b. s = a @ p @ b"
    then obtain a b where "s = a @ p @ b" by blast
    then have "starts_at s p (length a)" by (simp add: starts_at_def)
    then show "\<exists>k. starts_at s p k" by blast
  qed
  finally show ?thesis .
qed

lemma split_char_middle: "split_char c (a @ c # b) = split_char c a @ split_char c b"
  by (induction a) (auto split: list.split)

lemma className_parts:
  assumes ok: "page_ok v" and ne: "klass (se_doc v) x \<noteq> []"
  shows "className v x \<noteq> [] \<and> split_char CHR '' '' (className v x) = klass (se_doc v) x"
proof -
  let ?ks = "klass (se_doc v) x"
  have words: "\<forall>w \<in> set ?ks. w \<noteq> [] \<and> CHR '' '' \<notin> set w" using ok by (simp add: page_ok_def)
  have "className v x \<noteq> []" using ne words by (cases ?ks rule: remdups_adj.cases) (auto simp: className_def)
  moreover have "split_char CHR '' '' (className v x) = ?ks" using split_char_join [OF ne] words by (simp add: className_def)
  ultimately show ?thesis by simp
qed

lemma className_single:
  "page_ok v \<Longrightarrow> CHR '' '' \<notin> set k \<Longrightarrow> klass (se_doc v) x \<noteq> [] \<Longrightarrow> className v x = k \<Longrightarrow> k \<in> set (klass (se_doc v) x)"
  using className_parts [of v x] split_char_no_sep [of "CHR '' ''" k] by (metis list.set_intros(1))

lemma has_class_iff:
  assumes ok: "page_ok v" and k: "k \<noteq> []" "CHR '' '' \<notin> set k"
  shows "has_class v k x \<longleftrightarrow> k \<in> set (klass (se_doc v) x)"
proof (cases "klass (se_doc v) x = []")
  case False
  let ?ks = "klass (se_doc v) x" and ?s = "CHR '' ''"
  have ne: "className v x \<noteq> []" and parts: "split_char ?s (className v x) = ?ks" using className_parts [OF ok False] by simp_all
  have whole: "split_char ?s ([?s] @ className v x @ [?s]) = [] # ?ks @ [[]]"
    using split_char_middle [of ?s "className v x" "[]"] parts by simp
  have "str_include ('' '' @ className v x @ '' '') ('' '' @ k @ '' '') \<longleftrightarrow> k \<in> set ?ks"
  proof
    assume "str_include ('' '' @ className v x @ '' '') ('' '' @ k @ '' '')"
    then obtain a b where "[?s] @ className v x @ [?s] = a @ ?s # k @ ?s # b" by (auto simp: str_include_iff)
    then have "[] # ?ks @ [[]] = split_char ?s a @ k # split_char ?s b"
      using whole split_char_append [OF k(2), of b] by (simp add: split_char_middle)
    then have "k \<in> set ([] # ?ks @ [[]])" by simp
    then show "k \<in> set ?ks" using k(1) by simp
  next
    assume "k \<in> set ?ks"
    then obtain ws us where "?ks = ws @ k # us" using split_list by fastforce
    moreover have j: "\<exists>a b. '' '' @ join '' '' (ws @ k # us) @ '' '' = a @ ('' '' @ k @ '' '') @ b"
    proof (induction ws)
      case Nil
      show ?case by (cases us) (auto intro: exI [of _ "[]"])
    next
      case (Cons w ws)
      then obtain a b where "'' '' @ join '' '' (ws @ k # us) @ '' '' = a @ ('' '' @ k @ '' '') @ b" by blast
      then have "'' '' @ join '' '' ((w # ws) @ k # us) @ '' '' = ('' '' @ w @ a) @ ('' '' @ k @ '' '') @ b"
        by (simp add: join_Cons)
      then show ?case by blast
    qed
    ultimately show "str_include ('' '' @ className v x @ '' '') ('' '' @ k @ '' '')"
      by (simp add: str_include_iff className_def)
  qed
  then show ?thesis using ne className_single [OF ok k(2) False] by (auto simp: has_class_def)
qed (simp add: has_class_def className_def)

lemma hasClassName_iff:
  assumes "page_ok v" "CHR '' '' \<notin> set k"
  shows "hasClassName v k x \<longleftrightarrow> k \<in> set (klass (se_doc v) x)"
  using className_parts [OF assms(1), of x] className_single [OF assms, of x]
  by (cases "klass (se_doc v) x = []") (auto simp: hasClassName_def className_def)

text \<open>The elements that a token looks at.\<close>

definition base_nodes :: "sel_env \<Rightarrow> nat \<Rightarrow> sel_state \<Rightarrow> nat list" where
  "base_nodes v r s = attr_nodes v (sl_nodes s) r (sl_comb s)"

definition state_ok :: "phase \<Rightarrow> sel_state \<Rightarrow> bool" where
  "state_ok ph s =
     (case ph of
        AtStart \<Rightarrow> sl_nodes s = None \<and> sl_comb s = None
      | AfterComb \<Rightarrow> sl_nodes s \<noteq> None \<and> sl_comb s \<noteq> None
      | InCompound \<Rightarrow> sl_nodes s \<noteq> None \<and> sl_comb s = None)"

lemma base_combined:
  assumes "state_ok ph s"
  shows "pseudo_nodes v (sl_nodes s) r (sl_comb s) = base_nodes v r s"
    "(case combined v (sl_comb s) (sl_nodes s) of None \<Rightarrow> comb_descendant v [r] | Some ns \<Rightarrow> ns) = base_nodes v r s"
  using assms
  by (auto simp: state_ok_def base_nodes_def attr_nodes_def pseudo_nodes_def combined_def comb_descendant_def Let_def
      split: phase.splits option.splits)

lemma tagName_found:
  assumes "page_ok v" "state_ok ph s" "ph \<noteq> InCompound"
  shows "x \<in> set (h_tagName v (sl_nodes s) r w (sl_comb s)) \<longleftrightarrow> x \<in> set (base_nodes v r s) \<and> (w = ''*'' \<or> has_tag v w x)"
proof (cases "sl_nodes s")
  case None
  then show ?thesis using assms
    by (auto simp: state_ok_def h_tagName_def base_nodes_def attr_nodes_def getElementsByTagName_def Let_def split: phase.splits)
next
  case (Some ns)
  then obtain c where c: "sl_comb s = Some c" using assms(2,3) by (auto simp: state_ok_def split: phase.splits)
  have "base_nodes v r s = combine v c ns" using Some c by (simp add: base_nodes_def attr_nodes_def)
  then show ?thesis using Some c
    by (cases c) (auto simp: h_tagName_def combine_def comb_descendant_def getElementsByTagName_def Let_def)
qed

definition in_page :: "sel_env \<Rightarrow> nat \<Rightarrow> bool" where
  "in_page v x \<longleftrightarrow> x = se_root v \<or> descendantOf v x (se_root v)"

lemma getElementById_iff:
  assumes "page_ok v" "i \<noteq> []" "descendantOf v x (se_root v)"
  shows "ident (se_doc v) x = i \<longleftrightarrow> getElementById v i = Some x"
proof -
  have px: "x \<in> set (page_elements v)" using assms descendants_below [OF assms(1)] by (simp add: page_elements_def)
  show ?thesis
  proof
    assume i: "ident (se_doc v) x = i"
    show "getElementById v i = Some x"
      unfolding getElementById_def page_elements_def [symmetric]
    proof (cases "find (\<lambda>x. ident (se_doc v) x = i) (page_elements v)")
      case None
      then show "find (\<lambda>x. ident (se_doc v) x = i) (page_elements v) = Some x" using px i by (auto simp: find_None_iff)
    next
      case (Some y)
      then have y: "y \<in> set (page_elements v)" "ident (se_doc v) y = i" by (auto simp: find_Some_iff)
      then have "y = x" using px i assms(1,2) unfolding page_ok_def unique_ids_def by metis
      then show "find (\<lambda>x. ident (se_doc v) x = i) (page_elements v) = Some x" using Some by simp
    qed
  qed (auto simp: getElementById_def find_Some_iff)
qed

lemma id_found:
  assumes ok: "page_ok v" and st: "state_ok ph s" "ph \<noteq> AfterComb" and i: "i \<noteq> []" and r: "in_page v r"
    and page: "\<And>x. x \<in> set (base_nodes v r s) \<Longrightarrow> descendantOf v x (se_root v)"
  shows "x \<in> set (h_id v (sl_nodes s) r i (sl_comb s)) \<longleftrightarrow> x \<in> set (base_nodes v r s) \<and> ident (se_doc v) x = i"
proof -
  have c: "sl_comb s = None" using st by (auto simp: state_ok_def split: phase.splits)
  have "x \<in> set (h_id v (sl_nodes s) r i (sl_comb s)) \<longleftrightarrow> x \<in> set (base_nodes v r s) \<and> getElementById v i = Some x"
  proof (cases "sl_nodes s")
    case None
    have "x \<in> set (base_nodes v r s) \<longleftrightarrow> descendantOf v x r"
      using None c by (simp add: base_nodes_def attr_nodes_def getElementsByTagName_def descendants_below [OF ok])
    moreover have "getElementById v i = Some y \<Longrightarrow> descendantOf v y (se_root v)" for y
      by (auto simp: getElementById_def find_Some_iff descendants_below [OF ok, symmetric])
    ultimately show ?thesis using None by (auto simp: h_id_def split: option.splits)
  next
    case (Some ns)
    then show ?thesis using c by (auto simp: h_id_def base_nodes_def attr_nodes_def Let_def split: option.splits)
  qed
  then show ?thesis using getElementById_iff [OF ok i] page by blast
qed

lemma found_inject [simp]: "found_nodes ns s = found_nodes ms s \<longleftrightarrow> ns = ms"
proof
  assume "found_nodes ns s = found_nodes ms s"
  then have "sl_nodes (found_nodes ns s) = sl_nodes (found_nodes ms s)" by simp
  then show "ns = ms" by (simp add: found_nodes_def)
qed simp

lemma exec_simple:
  assumes ok: "page_ok v" and st: "state_ok ph s" and t: "plain_token ph t" and r: "in_page v r"
    and page: "\<And>x. x \<in> set (base_nodes v r s) \<Longrightarrow> descendantOf v x (se_root v)"
  shows "\<exists>ns. exec_token v r t s = Some (found_nodes ns s) \<and>
    (\<forall>x. x \<in> set ns \<longleftrightarrow> x \<in> set (base_nodes v r s) \<and> tok_sat v t x)"
proof (cases t)
  case (TagName w)
  then show ?thesis using tagName_found [OF ok st] t by (simp add: exec_token_def tok_sat_def)
next
  case (Ident w)
  then show ?thesis using id_found [OF ok st _ _ r page] t by (simp add: exec_token_def tok_sat_def)
next
  case (ClassName k)
  then have "set (h_className v (sl_nodes s) r k (sl_comb s)) = {x \<in> set (base_nodes v r s). k \<in> set (klass (se_doc v) x)}"
    using t by (simp add: h_className_def base_combined(2) [OF st] has_class_iff [OF ok])
  then show ?thesis using ClassName by (simp add: exec_token_def tok_sat_def)
next
  case (AttrPresence a)
  then show ?thesis by (auto simp: exec_token_def tok_sat_def h_attrPresence_def base_nodes_def)
next
  case (Attr a op w)
  then show ?thesis using t
    by (auto simp: exec_token_def tok_sat_def h_attr_def base_nodes_def Let_def split: option.split option.splits)
next
  case (Pseudo n a)
  then have "h_pseudo v n arg ns ix = (filter (plain_pseudo v n) ns, ix)" for arg ns ix
    using t by (auto simp: h_pseudo_def)
  moreover have "n \<noteq> ''not''" using t Pseudo by auto
  ultimately show ?thesis using Pseudo
    by (auto simp: exec_token_def tok_sat_def base_combined(1) [OF st])
qed (use t in simp)

lemma base_found [simp]: "base_nodes v r (found_nodes ns s) = ns"
  by (simp add: base_nodes_def found_nodes_def attr_nodes_def)

lemma found_ok [simp]: "state_ok InCompound (found_nodes ns s)" "sl_index (found_nodes ns s) = sl_index s"
  by (simp_all add: state_ok_def found_nodes_def)

lemma css_page:
  assumes ok: "page_ok v" and r: "in_page v r"
  shows "css v r ss x \<Longrightarrow> descendantOf v x (se_root v)"
proof (induction ss arbitrary: x)
  case Nil
  then show ?case using r by (auto simp: in_page_def below_iff [OF ok] intro: trancl_trans)
next
  case (Cons s ss)
  show ?case
  proof (cases "\<exists>c. s = Tok (Comb c)")
    case True
    then show ?thesis using Cons related_page [OF ok] by (fastforce simp: list_ex_iff)
  next
    case False
    then have "css v r ss x" using Cons.prems by (cases s) (auto split: token.splits)
    then show ?thesis by (rule Cons.IH)
  qed
qed

lemma unique_nodes_spec: "distinct (unique_nodes m ns) \<and> set (unique_nodes m ns) = set ns - set m"
  by (induction m ns rule: unique_nodes.induct) auto

text \<open>The run over the tokens keeps the elements that match what was read so far.\<close>

lemma run_css:
  assumes ok: "page_ok v" and r: "in_page v r"
  shows "plain_sels ph ts \<Longrightarrow> state_ok ph s \<Longrightarrow> (\<And>x. x \<in> set (base_nodes v r s) \<longleftrightarrow> css v r (rev done) x) \<Longrightarrow>
    \<exists>s'. sel_run v r ts s = Some s' \<and> state_ok InCompound s' \<and> sl_index s' = sl_index s \<and>
      (\<forall>x. x \<in> set (base_nodes v r s') \<longleftrightarrow> css v r (rev (done @ ts)) x)"
proof (induction ts arbitrary: ph s "done" rule: sels_text.induct)
  case 1
  then show ?case by simp
next
  case (2 t ts)
  show ?case
  proof (cases "\<exists>c. t = Comb c")
    case True
    then obtain c where t: "t = Comb c" by blast
    then have ph: "ph = InCompound" "plain_sels AfterComb ts" using 2(2) by simp_all
    define s1 where "s1 = s\<lparr>sl_comb := Some c\<rparr>"
    obtain ns where ns: "sl_nodes s = Some ns" "sl_comb s = None" using 2(3) ph(1) by (auto simp: state_ok_def)
    have b: "base_nodes v r s = ns" "base_nodes v r s1 = combine v c ns"
      using ns by (simp_all add: base_nodes_def attr_nodes_def s1_def)
    have "x \<in> set (base_nodes v r s1) \<longleftrightarrow> css v r (rev (done @ [Tok t])) x" for x
    proof -
      have "y \<in> set ns \<Longrightarrow> y \<in> set (page_elements v)" for y
        using 2(4) [unfolded b] css_page [OF ok r] descendants_below [OF ok] by (auto simp: page_elements_def)
      then show ?thesis
        using 2(4) [unfolded b] by (auto simp: b combine_related [OF ok] t list_ex_iff)
    qed
    moreover have "state_ok AfterComb s1" using ns by (simp add: state_ok_def s1_def)
    ultimately have "\<exists>s'. sel_run v r ts s1 = Some s' \<and> state_ok InCompound s' \<and> sl_index s' = sl_index s1 \<and>
        (\<forall>x. x \<in> set (base_nodes v r s') \<longleftrightarrow> css v r (rev ((done @ [Tok t]) @ ts)) x)"
      by (intro 2(1) [OF ph(2)])
    then show ?thesis by (simp add: t exec_token_def s1_def)
  next
    case False
    then have pl: "plain_token ph t" "plain_sels InCompound ts" using 2(2) by (auto split: token.splits)
    obtain ns where ns: "exec_token v r t s = Some (found_nodes ns s)"
        "\<forall>x. x \<in> set ns \<longleftrightarrow> x \<in> set (base_nodes v r s) \<and> tok_sat v t x"
      using exec_simple [OF ok 2(3) pl(1) r] 2(4) css_page [OF ok r] by blast
    have "x \<in> set (base_nodes v r (found_nodes ns s)) \<longleftrightarrow> css v r (rev (done @ [Tok t])) x" for x
      using False ns(2) 2(4) by (auto split: token.split)
    then have "\<exists>s'. sel_run v r ts (found_nodes ns s) = Some s' \<and> state_ok InCompound s' \<and> sl_index s' = sl_index (found_nodes ns s) \<and>
        (\<forall>x. x \<in> set (base_nodes v r s') \<longleftrightarrow> css v r (rev ((done @ [Tok t]) @ ts)) x)"
      by (intro 2(1) [OF pl(2)]) (rule found_ok)
    then show ?thesis by (simp add: ns(1))
  qed
next
  case (3 us ts)
  have pl: "plain_sels AtStart us" "plain_sels InCompound ts" using 3(3) by simp_all
  let ?s0 = "sel_start (sl_index s)"
  have "x \<in> set (base_nodes v r ?s0) \<longleftrightarrow> css v r (rev []) x" for x
    by (simp add: base_nodes_def sel_start_def attr_nodes_def getElementsByTagName_def descendants_below [OF ok])
  then obtain u where u: "sel_run v r us ?s0 = Some u" "state_ok InCompound u" "sl_index u = sl_index s"
      "\<forall>x. x \<in> set (base_nodes v r u) \<longleftrightarrow> css v r (rev us) x"
    using 3(1) [OF pl(1), of ?s0 "[]"] by (auto simp: state_ok_def sel_start_def)
  obtain ex where ex: "sl_nodes u = Some ex" "base_nodes v r u = ex"
    using u(2) by (auto simp: state_ok_def base_nodes_def attr_nodes_def)
  have rr: "run_result (sel_run v r us ?s0) = Some (unique_nodes [] ex, sl_index s)"
    using u(1,3) ex(1) by (simp add: run_result_def)
  define s1 where "s1 = exclude v r (unique_nodes [] ex) (s\<lparr>sl_index := sl_index s\<rparr>)"
  have "x \<in> set (base_nodes v r s1) \<longleftrightarrow> css v r (rev (done @ [Not us])) x" for x
    using u(4) ex(2) 3(5) unique_nodes_spec [of "[]" ex] by (simp add: s1_def exclude_def base_combined(1) [OF 3(4)]) blast
  then have "\<exists>s'. sel_run v r ts s1 = Some s' \<and> state_ok InCompound s' \<and> sl_index s' = sl_index s1 \<and>
      (\<forall>x. x \<in> set (base_nodes v r s') \<longleftrightarrow> css v r (rev ((done @ [Not us]) @ ts)) x)"
    by (intro 3(2) [OF pl(2)]) (simp_all add: s1_def exclude_def)
  then show ?case by (simp add: rr s1_def exclude_def)
qed

lemma matcher_css:
  assumes "page_ok v" "in_page v r" "sels_ok True ss" "plain_sels AtStart ss"
  shows "\<exists>ns. sel_findElements v r (sels_text ss) ix = Some (ns, ix) \<and> distinct ns \<and>
    (\<forall>x. x \<in> set ns \<longleftrightarrow> css v r (rev ss) x)"
proof -
  have "x \<in> set (base_nodes v r (sel_start ix)) \<longleftrightarrow> css v r (rev []) x" for x
    by (simp add: base_nodes_def sel_start_def attr_nodes_def getElementsByTagName_def descendants_below [OF assms(1)])
  then obtain u where u: "sel_run v r ss (sel_start ix) = Some u" "state_ok InCompound u" "sl_index u = ix"
      "\<forall>x. x \<in> set (base_nodes v r u) \<longleftrightarrow> css v r (rev ss) x"
    using run_css [OF assms(1,2,4), of "sel_start ix" "[]"] by (auto simp: state_ok_def sel_start_def)
  obtain ns where "sl_nodes u = Some ns" "base_nodes v r u = ns"
    using u(2) by (auto simp: state_ok_def base_nodes_def attr_nodes_def)
  then show ?thesis
    using u unique_nodes_spec [of "[]" ns] selector_tokens_printed [OF assms(3), of "[]" "[]"]
    by (simp add: sel_findElements_def run_result_def)
qed

section \<open>\<open>match\<close> agrees with the matcher\<close>

lemma toks_sels: "sels_text (map Tok ts) = toks_text ts"
  by (induction ts) (simp_all add: toks_text_def)

lemma compound_sels: "compound_ok ts \<Longrightarrow> first \<or> list_all (\<lambda>t. \<not> is_tag t) ts \<Longrightarrow> ts \<noteq> [] \<or> \<not> first \<Longrightarrow> sels_ok first (map Tok ts)"
proof (induction ts arbitrary: first)
  case (Cons t ts)
  then have "sels_ok False (map Tok ts)" by simp
  then show ?case using Cons.prems by (cases t) (auto simp: name_token_def is_tag_def)
qed simp

lemma name_no_blank: "list_all name_char w \<Longrightarrow> CHR '' '' \<notin> set w"
  by (auto simp: list_all_iff char_classes)

lemma compound_plain:
  assumes "compound_ok ts" "ph = AtStart \<or> ph = InCompound \<and> list_all (\<lambda>t. \<not> is_tag t) ts" "ts \<noteq> [] \<or> ph = InCompound"
  shows "plain_sels ph (map Tok ts)"
  using assms
proof (induction ts arbitrary: ph)
  case (Cons t ts)
  then have "plain_sels InCompound (map Tok ts)" by simp
  then show ?case using Cons.prems by (cases t) (auto simp: name_token_def is_tag_def name_no_blank)
qed auto

lemma css_compound:
  "list_all name_token ts \<Longrightarrow> css v r (map Tok ts) x \<longleftrightarrow> descendantOf v x r \<and> (\<forall>t \<in> set ts. tok_sat v t x)"
proof (induction ts)
  case (Cons t ts)
  then show ?case by (cases t) (auto simp: name_token_def)
qed simp

lemma compound_names: "compound_ok ts \<Longrightarrow> list_all name_token ts"
  by (induction ts) simp_all

lemma assert_compound:
  assumes "page_ok v"
  shows "compound_ok ts \<Longrightarrow> TagName ''*'' \<notin> set ts \<Longrightarrow> assert_all v x ts = Some (\<forall>t \<in> set ts. tok_sat v t x)"
proof (induction ts)
  case (Cons t ts)
  have "assertion v t x = Some (tok_sat v t x)"
    using Cons.prems hasClassName_iff [OF assms] name_no_blank
    by (cases t) (auto simp: name_token_def assertion_def tok_sat_def has_tag_def)
  then show ?case using Cons by simp
qed simp

text \<open>
  For a compound of a tag, ids and class names \<open>match\<close> tells whether the element is among those that
  the matcher finds in the document.
\<close>

theorem match_agrees:
  assumes "page_ok v" "compound_ok ts" "ts \<noteq> []" "TagName ''*'' \<notin> set ts" "descendantOf v x (se_root v)"
  shows "\<exists>ns. sel_findElements v (se_root v) (toks_text ts) ix = Some (ns, ix) \<and>
    sel_match v (toks_text ts) x ix = Some (x \<in> set ns, ix)"
proof -
  have so: "sels_ok True (map Tok ts)" using assms(2,3) by (intro compound_sels) simp_all
  have "plain_sels AtStart (map Tok ts)" using assms(2,3) by (intro compound_plain) simp_all
  then obtain ns where ns: "sel_findElements v (se_root v) (toks_text ts) ix = Some (ns, ix)"
      "\<forall>x. x \<in> set ns \<longleftrightarrow> css v (se_root v) (rev (map Tok ts)) x"
    using matcher_css [OF assms(1) _ so, of "se_root v" ix] by (auto simp: toks_sels in_page_def)
  have "strip (toks_text ts) = toks_text ts" using strip_text [OF so, of "[]" "[]"] by (simp add: toks_sels)
  then have "sel_match v (toks_text ts) x ix = Some (\<forall>t \<in> set ts. tok_sat v t x, ix)"
    using match_tokens_compound [OF assms(2), of "[]"] assert_compound [OF assms(1,2,4)] by (simp add: sel_match_def)
  moreover have "css v (se_root v) (rev (map Tok ts)) x \<longleftrightarrow> (\<forall>t \<in> set ts. tok_sat v t x)"
    using css_compound [of "rev ts" v "se_root v" x] compound_names [OF assms(2)] assms(5) by (simp add: rev_map)
  ultimately show ?thesis using ns by simp
qed

section \<open>Counting children\<close>

definition child_pos :: "doc \<Rightarrow> bool \<Rightarrow> nat \<Rightarrow> int" where
  "child_pos d backwards x =
     (case par d x of
        None \<Rightarrow> 0
      | Some p \<Rightarrow> int (length (takeWhile (\<lambda>y. y \<noteq> x) (if backwards then rev (kids d p) else kids d p))) + 1)"

text \<open>The positions \<open>a m + b\<close>.\<close>

definition in_progression :: "int \<Rightarrow> int \<Rightarrow> int \<Rightarrow> bool" where
  "in_progression a b i \<longleftrightarrow> (\<exists>m \<ge> 0. i = a * m + b)"

lemma getIndices_iff: "i \<in> set (getIndices a b n) \<longleftrightarrow> in_progression a b i \<and> 0 < i \<and> (a = 0 \<or> i \<le> int n)"
proof (cases "a = 0")
  case True
  then show ?thesis by (auto simp: getIndices_def in_progression_def)
next
  case False
  have "in_progression a b i \<longleftrightarrow> (i - b) mod a = 0 \<and> (i - b) div a \<ge> 0"
  proof
    assume "in_progression a b i"
    then obtain m where "m \<ge> 0" "i - b = a * m" by (auto simp: in_progression_def)
    then show "(i - b) mod a = 0 \<and> (i - b) div a \<ge> 0" using False by simp
  next
    assume m: "(i - b) mod a = 0 \<and> (i - b) div a \<ge> 0"
    then have "i = a * ((i - b) div a) + b" using div_mult_mod_eq [of "i - b" a] by (simp add: mult.commute)
    then show "in_progression a b i" using m by (auto simp: in_progression_def)
  qed
  moreover have "i \<in> int ` {1..<Suc n} \<longleftrightarrow> 0 < i \<and> i \<le> int n"
    by (auto simp: image_iff intro!: bexI [of _ "nat i"])
  ultimately show ?thesis using False by (auto simp: getIndices_def simp del: upt_Suc)
qed

lemma getIndices_distinct: "distinct (getIndices a b n)"
  by (simp add: getIndices_def distinct_map inj_on_def del: upt_Suc)

lemma number_from_other: "x \<notin> set xs \<Longrightarrow> number_from j xs ix x = ix x"
  by (induction xs arbitrary: j ix) simp_all

lemma number_from_at:
  "distinct xs \<Longrightarrow> x \<in> set xs \<Longrightarrow> number_from j xs ix x = Some (j + int (length (takeWhile (\<lambda>y. y \<noteq> x) xs)))"
  by (induction xs arbitrary: j ix) (auto simp: number_from_other)

lemma h_index_numbers:
  assumes wd: "wf_doc (se_doc v)"
  shows "snd (h_index v p backwards False st) x =
    (if par (se_doc v) x = Some p then Some (child_pos (se_doc v) backwards x) else snd st x)"
proof (cases "par (se_doc v) x = Some p")
  case True
  have "x \<in> set (kids (se_doc v) p)" "distinct (kids (se_doc v) p)" using True wd by (simp_all add: wf_doc_def)
  then show ?thesis using True by (simp add: h_index_def Let_def number_from_at child_pos_def)
next
  case False
  then have "x \<notin> set (kids (se_doc v) p)" using wd by (simp add: wf_doc_def)
  then show ?thesis using False by (simp add: h_index_def Let_def number_from_other)
qed

text \<open>When no node is the parent of another one, the nodes are numbered by their positions.\<close>

lemma index_parents_numbers:
  assumes wd: "wf_doc (se_doc v)" and top: "\<And>x p. x \<in> set nodes \<Longrightarrow> par (se_doc v) x = Some p \<Longrightarrow> p \<notin> set nodes"
    and x: "x \<in> set nodes" "par (se_doc v) x \<noteq> None"
  shows "index_parents v backwards False nodes ix x = Some (child_pos (se_doc v) backwards x)"
proof -
  define step where "step = (\<lambda>st x. case par (se_doc v) x of
      None \<Rightarrow> st | Some p \<Rightarrow> if p \<in> set (fst st) then st else h_index v p backwards False st)"
  have st: "fst (h_index v p backwards False st) = p # fst st" for p st by (simp add: h_index_def Let_def)
  have inv: "set ys \<subseteq> set nodes \<Longrightarrow>
      (\<forall>p \<in> set (fst (foldl step (nodes, ix) ys)). p \<in> set nodes \<or>
        (\<forall>c. par (se_doc v) c = Some p \<longrightarrow> snd (foldl step (nodes, ix) ys) c = Some (child_pos (se_doc v) backwards c))) \<and>
      (\<forall>y \<in> set ys. \<forall>p. par (se_doc v) y = Some p \<longrightarrow> p \<in> set (fst (foldl step (nodes, ix) ys)))" for ys
  proof (induction ys rule: rev_induct)
    case (snoc y ys)
    let ?st = "foldl step (nodes, ix) ys"
    show ?case
    proof (cases "par (se_doc v) y")
      case None
      then show ?thesis using snoc by (simp add: step_def)
    next
      case (Some p)
      show ?thesis
      proof (cases "p \<in> set (fst ?st)")
        case True
        then show ?thesis using snoc Some by (auto simp: step_def)
      next
        case False
        then have "foldl step (nodes, ix) (ys @ [y]) = h_index v p backwards False ?st" using Some by (simp add: step_def)
        then show ?thesis using snoc Some by (auto simp: st h_index_numbers [OF wd])
      qed
    qed
  qed simp
  obtain p where p: "par (se_doc v) x = Some p" using x(2) by blast
  then have "p \<in> set (fst (foldl step (nodes, ix) nodes))" using inv [of nodes] x(1) by blast
  then have "snd (foldl step (nodes, ix) nodes) x = Some (child_pos (se_doc v) backwards x)"
    using inv [of nodes] top [OF x(1) p] p by blast
  then show ?thesis by (simp add: index_parents_def step_def)
qed

text \<open>What a formula selects; positions after the number of the nodes are not looked at.\<close>

definition nth_holds :: "nth_formula \<Rightarrow> nat \<Rightarrow> int \<Rightarrow> bool" where
  "nth_holds f n i =
     (case f of
        Position k \<Rightarrow> i = k
      | Progression a b \<Rightarrow> in_progression a b i \<and> (a = 0 \<or> i \<le> int n)
      | NoFormula \<Rightarrow> False)"

lemma filter_single: "distinct js \<Longrightarrow> filter (\<lambda>j. i = j) js = (if i \<in> set js then [i] else [])"
  by (induction js) (auto simp: filter_empty_conv)

lemma concat_choose: "concat (map (\<lambda>x. if P x then [x] else []) xs) = filter P xs"
  by (induction xs) simp_all

lemma select_positions:
  assumes "\<And>x. x \<in> set nodes \<Longrightarrow> ix x = Some (g x) \<and> 0 < g x"
  shows "nth_select f nodes ix = filter (\<lambda>x. nth_holds f (length nodes) (g x)) nodes"
proof (cases f)
  case (Position k)
  then show ?thesis using assms by (auto simp: nth_select_def nth_holds_def intro!: filter_cong)
next
  case (Progression a b)
  let ?is = "getIndices a b (length nodes)"
  have "(\<lambda>x. map (\<lambda>_. x) (filter (\<lambda>j. ix x = Some j) ?is)) x = (if g x \<in> set ?is then [x] else [])" if "x \<in> set nodes" for x
    using assms [OF that] filter_single [OF getIndices_distinct, of "g x" a b "length nodes"] by simp
  then have "nth_select f nodes ix = concat (map (\<lambda>x. if g x \<in> set ?is then [x] else []) nodes)"
    using Progression by (simp add: nth_select_def cong: map_cong)
  also have "\<dots> = filter (\<lambda>x. g x \<in> set ?is) nodes" by (rule concat_choose)
  also have "\<dots> = filter (\<lambda>x. nth_holds f (length nodes) (g x)) nodes"
    using assms Progression by (auto simp: nth_holds_def getIndices_iff intro!: filter_cong)
  finally show ?thesis .
qed (simp add: nth_select_def nth_holds_def)

text \<open>
  \<open>:nth-child\<close> and \<open>:nth-last-child\<close> keep the nodes whose position among the children of their parent
  is given by the formula, up to the number of the nodes, when no node is the parent of another one.
\<close>

theorem nth_child_positions:
  assumes "wf_doc (se_doc v)" "\<forall>x \<in> set nodes. \<exists>p. par (se_doc v) x = Some p \<and> p \<notin> set nodes"
  shows "fst (pseudo_nth v nodes formula backwards False ix) =
    filter (\<lambda>x. nth_holds (nth_formula_of formula) (length nodes) (child_pos (se_doc v) backwards x)) nodes"
proof (cases "nodes = []")
  case False
  have "index_parents v backwards False nodes ix x = Some (child_pos (se_doc v) backwards x) \<and> 0 < child_pos (se_doc v) backwards x"
    if x: "x \<in> set nodes" for x
  proof -
    obtain p where p: "par (se_doc v) x = Some p" using assms(2) x by blast
    have "index_parents v backwards False nodes ix x = Some (child_pos (se_doc v) backwards x)"
    proof (rule index_parents_numbers [OF assms(1) _ x])
      show "q \<notin> set nodes" if "y \<in> set nodes" "par (se_doc v) y = Some q" for y q
        using assms(2) that by (metis option.inject)
    qed (simp add: p)
    moreover have "0 < child_pos (se_doc v) backwards x" using p by (simp add: child_pos_def)
    ultimately show ?thesis by simp
  qed
  then show ?thesis using False select_positions by (simp add: pseudo_nth_def Let_def)
qed (simp add: pseudo_nth_def)

section \<open>The matcher and what a selector means\<close>


section \<open>Samples\<close>

text \<open>
  A page: the body (1) has a list (2) with three items (3, 4, 5) and a division (6) with a paragraph (7)
  and another division (8).
\<close>

definition sel_parents :: "(nat \<times> nat) list" where
  "sel_parents = [(1, 0), (2, 1), (3, 2), (4, 2), (5, 2), (6, 1), (7, 6), (8, 6)]"

definition sel_doc :: doc where
  "sel_doc = \<lparr>par = map_of sel_parents,
     kids = (\<lambda>p. map fst (filter (\<lambda>(c, q). q = p) sel_parents)),
     tag = (\<lambda>e. if e = 1 then ''BODY'' else if e = 2 then ''UL'' else if e \<in> {3, 4, 5} then ''LI'' else if e = 7 then ''P'' else ''DIV''),
     ident = (\<lambda>e. if e = 2 then ''apps'' else if e = 5 then ''last'' else []),
     klass = (\<lambda>e. if e = 3 then [''on''] else if e = 5 then [''big'', ''on''] else []),
     box = (\<lambda>_. (0, 0, 0, 0)), treeNode = (\<lambda>_. None)\<rparr>"

definition sel_page :: sel_env where
  "sel_page = \<lparr>se_doc = sel_doc, se_root = 0, se_levels = 8,
     se_attr = (\<lambda>e a. if e = 5 \<and> a = ''title'' then Some ''x'' else if e = 3 \<and> a = ''data-id'' then Some ''7'' else None),
     se_text = (\<lambda>e. e = 7), se_disabled = (\<lambda>_. False), se_checked = (\<lambda>_. False), se_type = (\<lambda>_. [])\<rparr>"

definition no_index :: indices where
  "no_index = (\<lambda>_. None)"

lemma sel_doc_rel: "parent_rel sel_doc = set sel_parents"
proof -
  have "distinct (map fst sel_parents)" by (simp add: sel_parents_def)
  then show ?thesis by (auto simp: parent_rel_def sel_doc_def)
qed

lemma sel_doc_wf: "wf_doc sel_doc"
proof -
  have "set sel_parents \<subseteq> less_than\<inverse>" by (auto simp: sel_parents_def)
  moreover have "acyclic (less_than\<inverse>)" by (simp add: wf_acyclic acyclic_converse)
  ultimately have "acyclic (parent_rel sel_doc)" unfolding sel_doc_rel by (rule acyclic_subset [rotated])
  moreover have "par sel_doc c = Some p \<longleftrightarrow> c \<in> set (kids sel_doc p)" for c p
    unfolding par_rel sel_doc_rel by (auto simp: sel_doc_def sel_parents_def)
  moreover have "distinct (kids sel_doc p)" for p by (simp add: sel_doc_def sel_parents_def)
  ultimately show ?thesis by (simp add: wf_doc_def sel_doc_rel)
qed

lemma sel_page_elements: "page_elements sel_page = [1, 2, 3, 4, 5, 6, 7, 8]"
  by code_simp

lemma sel_page_ok: "page_ok sel_page"
proof -
  have "card (set sel_parents) \<le> 8" using card_length [of sel_parents] by (simp add: sel_parents_def)
  moreover have "unique_ids sel_page"
    unfolding unique_ids_def sel_page_elements by (simp add: sel_page_def sel_doc_def)
  moreover have "\<forall>x. \<forall>k \<in> set (klass sel_doc x). k \<noteq> [] \<and> CHR '' '' \<notin> set k" by (auto simp: sel_doc_def)
  ultimately show ?thesis by (simp add: page_ok_def sel_page_def sel_doc_wf sel_doc_rel)
qed

definition sel_sample :: "sel list" where
  "sel_sample = [Tok (Ident ''apps''), Tok (Comb Child), Tok (TagName ''li''), Tok (ClassName ''on''), Not [Tok (AttrPresence ''title'')]]"


lemma sel_sample_found: "map_option fst (sel_findElements sel_page 0 (sels_text sel_sample) no_index) = Some [3]"
  by code_simp

theorem match_agrees_witness:
  "\<exists>ns. sel_findElements sel_page 0 ''li.on'' no_index = Some (ns, no_index) \<and>
    sel_match sel_page ''li.on'' 5 no_index = Some (5 \<in> set ns, no_index)"
proof -
  have t: "toks_text [TagName ''li'', ClassName ''on''] = ''li.on''" by (simp add: toks_text_def)
  have "compound_ok [TagName ''li'', ClassName ''on'']" by (simp add: char_classes name_token_def is_tag_def)
  moreover have "descendantOf sel_page 5 (se_root sel_page)" by code_simp
  ultimately have "\<exists>ns. sel_findElements sel_page (se_root sel_page) (toks_text [TagName ''li'', ClassName ''on'']) no_index = Some (ns, no_index) \<and>
      sel_match sel_page (toks_text [TagName ''li'', ClassName ''on'']) 5 no_index = Some (5 \<in> set ns, no_index)"
    by (intro match_agrees [OF sel_page_ok]) simp_all
  then show ?thesis unfolding t by (simp add: sel_page_def)
qed

theorem nth_child_positions_witness:
  "fst (pseudo_nth sel_page [3, 4, 5] ''2n+1'' False False no_index) =
    filter (\<lambda>x. nth_holds (Progression 2 1) 3 (child_pos sel_doc False x)) [3, 4, 5]"
proof -
  have "nth_formula_of ''2n+1'' = Progression 2 1" by code_simp
  moreover have "\<forall>x \<in> set [3, 4, 5]. \<exists>p. par (se_doc sel_page) x = Some p \<and> p \<notin> set [3, 4, 5]"
    by (simp add: sel_page_def sel_doc_def sel_parents_def)
  moreover have "se_doc sel_page = sel_doc" by (simp add: sel_page_def)
  ultimately show ?thesis
    using nth_child_positions [of sel_page "[3, 4, 5]" "''2n+1''" False no_index] sel_doc_wf by (simp add: numeral_3_eq_3 del: filter.simps)
qed

section \<open>Where the matcher finds something else\<close>

text \<open>An id after a combinator: when no node is related to the element, the element itself counts.\<close>

lemma id_after_combinator:
  "map_option fst (sel_findElements sel_page 0 ''li > #last'' no_index) = Some [5]"
  "css sel_page 0 (rev (selector_tokens ''li > #last'')) 5 = False"
  by code_simp+

text \<open>The positions end with the number of the nodes.\<close>

lemma nth_too_few: "map_option fst (sel_findElements sel_page 0 ''.big:nth-child(odd)'' no_index) = Some []"
  by code_simp

text \<open>The children of an element that is itself among the nodes are not numbered.\<close>

lemma nth_nested: "map_option fst (sel_findElements sel_page 0 ''div:nth-child(2)'' no_index) = Some [6]"
  by code_simp

text \<open>A test without an operator throws when an element has the attribute.\<close>

lemma hyphen_throws: "sel_findElements sel_page 0 ''[data-id]'' no_index = None"
  by code_simp

text \<open>\<open>:not\<close> without its argument throws.\<close>

lemma not_class_throws: "sel_findElements sel_page 0 ''li:not(.on).big'' no_index = None"
  by code_simp

text \<open>\<open>match\<close> and the universal selector; \<open>match\<close> and an attribute that comes before its turn.\<close>

lemma match_universal:
  "map_option fst (sel_match sel_page ''*'' 5 no_index) = Some False"
  "map_option (\<lambda>(ns, ix). 5 \<in> set ns) (sel_findElements sel_page 0 ''*'' no_index) = Some True"
  by code_simp+

lemma match_throws: "sel_match sel_page ''.on#last[title]'' 5 no_index = None"
  by code_simp

end
