(* ===== verification/ElementMethods.thy ===== *)
theory ElementMethods
  imports ProtoSelector
begin

text \<open>
  Methods of \<open>Element\<close> of \<open>prototype.js\<close> that walk and change the tree: the relatives of an element,
  \<open>up\<close>, \<open>down\<close>, \<open>previous\<close> and \<open>next\<close> with selectors, \<open>identify\<close>, the attributes, the class names,
  and inserting, wrapping and removing elements.  The page is that of \<open>ProtoSelector\<close>; a call that
  throws is \<open>None\<close>.
\<close>

section \<open>Relatives\<close>

text \<open>\<open>property\<close> leads to the next node; the document itself is no element.  Not ending is \<open>None\<close>.\<close>

partial_function (option) recursivelyCollect :: "(nat \<Rightarrow> nat option) \<Rightarrow> (nat \<Rightarrow> bool) \<Rightarrow> nat \<Rightarrow> nat list option" where
  "recursivelyCollect property is_element e =
     (case property e of
        None \<Rightarrow> Some []
      | Some x \<Rightarrow> Option.bind (recursivelyCollect property is_element x) (\<lambda>xs. Some (if is_element x then x # xs else xs)))"

declare recursivelyCollect.simps [code]

definition is_element :: "sel_env \<Rightarrow> nat \<Rightarrow> bool" where
  "is_element v x \<longleftrightarrow> x \<noteq> se_root v"

definition el_ancestors :: "sel_env \<Rightarrow> nat \<Rightarrow> nat list option" where
  "el_ancestors v e = recursivelyCollect (par (se_doc v)) (is_element v) e"

definition el_nextSiblings :: "sel_env \<Rightarrow> nat \<Rightarrow> nat list option" where
  "el_nextSiblings v e = recursivelyCollect (nextSibling (se_doc v)) (is_element v) e"

definition el_previousSiblings :: "sel_env \<Rightarrow> nat \<Rightarrow> nat list option" where
  "el_previousSiblings v e = recursivelyCollect (previousSibling (se_doc v)) (is_element v) e"

definition el_siblings :: "sel_env \<Rightarrow> nat \<Rightarrow> nat list option" where
  "el_siblings v e =
     Option.bind (el_previousSiblings v e) (\<lambda>ps. Option.bind (el_nextSiblings v e) (\<lambda>ns. Some (rev ps @ ns)))"

definition firstDescendant :: "sel_env \<Rightarrow> nat \<Rightarrow> nat option" where
  "firstDescendant v e = (case kids (se_doc v) e of [] \<Rightarrow> None | c # _ \<Rightarrow> Some c)"

definition immediateDescendants :: "sel_env \<Rightarrow> nat \<Rightarrow> nat list option" where
  "immediateDescendants v e =
     (case firstDescendant v e of None \<Rightarrow> Some [] | Some c \<Rightarrow> map_option (\<lambda>ns. c # ns) (el_nextSiblings v c))"

text \<open>
  \<open>up\<close>, \<open>previous\<close>, \<open>next\<close> and \<open>down\<close>: without an argument, with a number, or with an expression
  and an index.
\<close>

datatype step_arg = NoArg | Index nat | Expr string nat

definition nth_or_none :: "nat list \<Rightarrow> nat \<Rightarrow> nat option" where
  "nth_or_none xs i = (if i < length xs then Some (xs ! i) else None)"

definition pick :: "sel_env \<Rightarrow> nat option \<Rightarrow> nat list option \<Rightarrow> step_arg \<Rightarrow> indices \<Rightarrow> (nat option \<times> indices) option" where
  "pick v direct relatives a ix =
     (case a of
        NoArg \<Rightarrow> Some (direct, ix)
      | Index i \<Rightarrow> map_option (\<lambda>xs. (nth_or_none xs i, ix)) relatives
      | Expr e i \<Rightarrow> Option.bind relatives (\<lambda>xs. sel_findElement v xs (if e = [] then [] else [e]) i ix))"

definition el_up :: "sel_env \<Rightarrow> nat \<Rightarrow> step_arg \<Rightarrow> indices \<Rightarrow> (nat option \<times> indices) option" where
  "el_up v e a ix = pick v (par (se_doc v) e) (el_ancestors v e) a ix"

definition el_previous :: "sel_env \<Rightarrow> nat \<Rightarrow> step_arg \<Rightarrow> indices \<Rightarrow> (nat option \<times> indices) option" where
  "el_previous v e a ix = pick v (previousSibling (se_doc v) e) (el_previousSiblings v e) a ix"

definition el_next :: "sel_env \<Rightarrow> nat \<Rightarrow> step_arg \<Rightarrow> indices \<Rightarrow> (nat option \<times> indices) option" where
  "el_next v e a ix = pick v (nextSibling (se_doc v) e) (el_nextSiblings v e) a ix"

definition el_select :: "sel_env \<Rightarrow> nat \<Rightarrow> string list \<Rightarrow> indices \<Rightarrow> (nat list \<times> indices) option" where
  "el_select v e es ix = findChildElements v e es ix"

definition el_down :: "sel_env \<Rightarrow> nat \<Rightarrow> step_arg \<Rightarrow> indices \<Rightarrow> (nat option \<times> indices) option" where
  "el_down v e a ix =
     (case a of
        NoArg \<Rightarrow> Some (firstDescendant v e, ix)
      | Index i \<Rightarrow> map_option (\<lambda>(ns, ix). (nth_or_none ns i, ix)) (el_select v e [''*''] ix)
      | Expr ex i \<Rightarrow> map_option (\<lambda>(ns, ix). (nth_or_none ns i, ix)) (el_select v e [ex] ix))"

definition el_adjacent :: "sel_env \<Rightarrow> nat \<Rightarrow> string list \<Rightarrow> indices \<Rightarrow> (nat list \<times> indices) option" where
  "el_adjacent v e es ix =
     (case par (se_doc v) e of
        None \<Rightarrow> None
      | Some p \<Rightarrow> map_option (\<lambda>(ns, ix). (filter (\<lambda>x. x \<noteq> e) ns, ix)) (findChildElements v p es ix))"

section \<open>Ids and attributes\<close>

definition anonymous_id :: "nat \<Rightarrow> string" where
  "anonymous_id n = ''anonymous_element_'' @ nat_to_string n"

text \<open>What is written to an attribute; \<open>false\<close> and \<open>null\<close> remove it.\<close>

datatype written = WText string | WTrue | WRemove

text \<open>
  \<open>writeAttribute\<close>; the translation of names is that of the browsers other than the old ones.  The
  id and the class names of an element are those of its attributes.
\<close>

definition write_name :: "string \<Rightarrow> string" where
  "write_name a = (if a = ''className'' then ''class'' else if a = ''htmlFor'' then ''for'' else a)"

definition set_attribute :: "nat \<Rightarrow> string \<Rightarrow> string option \<Rightarrow> sel_env \<Rightarrow> sel_env" where
  "set_attribute e n x v =
     (let v = v\<lparr>se_attr := (se_attr v)(e := (se_attr v e)(n := x))\<rparr>;
          t = (case x of None \<Rightarrow> [] | Some t \<Rightarrow> t)
      in if n = ''id'' then v\<lparr>se_doc := (se_doc v)\<lparr>ident := (ident (se_doc v))(e := t)\<rparr>\<rparr>
         else if n = ''class''
         then v\<lparr>se_doc := (se_doc v)\<lparr>klass := (klass (se_doc v))(e := filter (\<lambda>k. k \<noteq> []) (split_char CHR '' '' t))\<rparr>\<rparr>
         else v)"

definition write_one :: "nat \<Rightarrow> string \<Rightarrow> written \<Rightarrow> sel_env \<Rightarrow> sel_env" where
  "write_one e a w v =
     (let n = write_name a
      in set_attribute e n (case w of WRemove \<Rightarrow> None | WTrue \<Rightarrow> Some n | WText t \<Rightarrow> Some t) v)"

definition writeAttribute :: "nat \<Rightarrow> (string \<times> written) list \<Rightarrow> sel_env \<Rightarrow> sel_env" where
  "writeAttribute e as v = foldl (\<lambda>v (a, w). write_one e a w v) v as"

definition readAttribute :: "sel_env \<Rightarrow> nat \<Rightarrow> string \<Rightarrow> string option" where
  "readAttribute v e a = se_attr v e a"

text \<open>The loop of \<open>identify\<close>: the first number from the counter on whose id is free.\<close>

partial_function (option) free_id :: "sel_env \<Rightarrow> nat \<Rightarrow> nat option" where
  "free_id v n = (if getElementById v (anonymous_id n) = None then Some n else free_id v (Suc n))"

declare free_id.simps [code]

text \<open>The page, the counter and the id.\<close>

definition identify :: "sel_env \<Rightarrow> nat \<Rightarrow> nat \<Rightarrow> (sel_env \<times> nat \<times> string) option" where
  "identify v counter e =
     (case readAttribute v e ''id'' of
        Some (c # i) \<Rightarrow> Some (v, counter, c # i)
      | _ \<Rightarrow>
          map_option (\<lambda>n. (writeAttribute e [(''id'', WText (anonymous_id n))] v, Suc n, anonymous_id n))
            (free_id v counter))"

text \<open>\<open>inspect\<close>\<close>

definition inspect_attribute :: "string option \<Rightarrow> string \<times> string \<Rightarrow> string option" where
  "inspect_attribute result pair =
     (let (attribute, content) = pair
      in if content = [] then result
         else Option.bind result
           (\<lambda>r. map_option (\<lambda>t. r @ '' '' @ attribute @ ''='' @ t) (str_inspect content True)))"

definition el_inspect :: "sel_env \<Rightarrow> nat \<Rightarrow> string option" where
  "el_inspect v e =
     map_option (\<lambda>r. r @ ''>'')
       (foldl inspect_attribute (Some (''<'' @ to_lower_case (tag (se_doc v) e)))
         [(''id'', ident (se_doc v) e), (''class'', className v e)])"

section \<open>Changing the tree\<close>

datatype insertion = Before | Top | Bottom | After

text \<open>\<open>_insertionTranslations\<close> for an element; without a parent the first and the last throw.\<close>

definition insert_at :: "insertion \<Rightarrow> nat \<Rightarrow> nat \<Rightarrow> doc \<Rightarrow> doc option" where
  "insert_at pos e node d =
     (case pos of
        Before \<Rightarrow> (case par d e of None \<Rightarrow> None | Some p \<Rightarrow> insertBefore p node (Some e) d)
      | Top \<Rightarrow> insertBefore e node (case kids d e of [] \<Rightarrow> None | c # _ \<Rightarrow> Some c) d
      | Bottom \<Rightarrow> appendChild e node d
      | After \<Rightarrow> (case par d e of None \<Rightarrow> None | Some p \<Rightarrow> insertBefore p node (nextSibling d e) d))"

fun el_insert :: "(insertion \<times> nat) list \<Rightarrow> nat \<Rightarrow> doc \<Rightarrow> doc option" where
  "el_insert [] e d = Some d"
| "el_insert ((pos, node) # ins) e d =
     (case insert_at pos e node d of None \<Rightarrow> None | Some d \<Rightarrow> el_insert ins e d)"

definition el_remove :: "nat \<Rightarrow> doc \<Rightarrow> doc option" where
  "el_remove e d = (if par d e = None then None else Some (removeChild e d))"

text \<open>\<open>replaceChild\<close> of the document; an element that replaces itself stays.\<close>

definition replaceChild :: "nat \<Rightarrow> nat \<Rightarrow> nat \<Rightarrow> doc \<Rightarrow> doc option" where
  "replaceChild p new old d =
     (if new = old then (if old \<in> set (kids d p) then Some d else None)
      else map_option (removeChild old) (insertBefore p new (Some old) d))"

definition el_replace :: "nat \<Rightarrow> nat \<Rightarrow> doc \<Rightarrow> doc option" where
  "el_replace e content d = (case par d e of None \<Rightarrow> None | Some p \<Rightarrow> replaceChild p content e d)"

definition el_wrap :: "nat \<Rightarrow> nat \<Rightarrow> doc \<Rightarrow> doc option" where
  "el_wrap e wrapper d =
     Option.bind (case par d e of None \<Rightarrow> Some d | Some p \<Rightarrow> replaceChild p wrapper e d) (appendChild wrapper e)"

definition toggleClassName :: "nat \<Rightarrow> string \<Rightarrow> doc \<Rightarrow> doc" where
  "toggleClassName e c d = (if c \<in> set (klass d e) then removeClassName e c d else addClassName e c d)"

section \<open>Collecting along a property\<close>

fun follows :: "(nat \<Rightarrow> nat option) \<Rightarrow> nat \<Rightarrow> nat list \<Rightarrow> bool" where
  "follows f e [] = (f e = None)"
| "follows f e (x # xs) = (f e = Some x \<and> follows f x xs)"

lemma collect_follows: "follows f e xs \<Longrightarrow> recursivelyCollect f P e = Some (filter P xs)"
  by (induction xs arbitrary: e) (subst recursivelyCollect.simps, simp)+

lemma kids_parent: "wf_doc d \<Longrightarrow> kids d p = ys @ x # zs \<Longrightarrow> par d x = Some p"
  by (simp add: wf_doc_def)

lemma next_follows:
  assumes wd: "wf_doc d"
  shows "kids d p = ys @ e # zs \<Longrightarrow> follows (nextSibling d) e zs"
proof (induction zs arbitrary: ys e)
  case Nil
  have "nextSibling d e \<noteq> Some y" for y
  proof
    assume "nextSibling d e = Some y"
    then obtain as bs where "kids d p = as @ e # y # bs" using nextSibling_at [OF wd kids_parent [OF wd Nil]] by blast
    moreover have "distinct (kids d p)" using wd by (simp add: wf_doc_def)
    ultimately show False using Nil by (auto simp: append_eq_append_conv2 append_eq_Cons_conv)
  qed
  then show ?case by (cases "nextSibling d e") auto
next
  case (Cons z zs)
  have "nextSibling d e = Some z" using nextSibling_at [OF wd kids_parent [OF wd Cons.prems]] Cons.prems by blast
  moreover have "follows (nextSibling d) z zs" by (rule Cons.IH [of "ys @ [e]"]) (simp add: Cons.prems)
  ultimately show ?case by simp
qed

lemma previous_follows:
  assumes wd: "wf_doc d"
  shows "kids d p = ys @ e # zs \<Longrightarrow> follows (previousSibling d) e (rev ys)"
proof (induction ys arbitrary: e zs rule: rev_induct)
  case Nil
  then show ?case using kids_parent [OF wd, of p "[]"] by (simp add: previousSibling_def)
next
  case (snoc y ys)
  have "previousSibling d e = Some y" using previous_at [OF wd kids_parent [OF wd snoc.prems]] snoc.prems by auto
  moreover have "follows (previousSibling d) y (rev ys)" by (rule snoc.IH [of _ "e # zs"]) (simp add: snoc.prems)
  ultimately show ?case by simp
qed

text \<open>The elements above an element, the nearest first.\<close>

lemma parents_follow:
  assumes wd: "wf_doc d"
  shows "\<exists>xs. follows (par d) e xs \<and> set xs = {a. (e, a) \<in> (parent_rel d)\<^sup>+} \<and>
    sorted_wrt (\<lambda>a b. (a, b) \<in> (parent_rel d)\<^sup>+) xs"
proof (induction e rule: wf_induct_rule [OF parent_wf [OF wd]])
  case (1 e)
  show ?case
  proof (cases "par d e")
    case None
    then have "(e, a) \<notin> (parent_rel d)\<^sup>+" for a by (auto simp: parent_rel_def dest: tranclD)
    then show ?thesis using None by (intro exI [of _ "[]"]) simp
  next
    case (Some p)
    then have ep: "(e, p) \<in> parent_rel d" by (simp add: parent_rel_def)
    then obtain xs where xs: "follows (par d) p xs" "set xs = {a. (p, a) \<in> (parent_rel d)\<^sup>+}"
        "sorted_wrt (\<lambda>a b. (a, b) \<in> (parent_rel d)\<^sup>+) xs" using 1 [of p] by auto
    have "(e, a) \<in> (parent_rel d)\<^sup>+ \<longleftrightarrow> a = p \<or> (p, a) \<in> (parent_rel d)\<^sup>+" for a
      using Some ep by (auto simp: parent_rel_def dest: tranclD intro: trancl_into_trancl2 elim: converse_tranclE)
    then show ?thesis using Some xs by (intro exI [of _ "p # xs"]) auto
  qed
qed

section \<open>Relatives of an element\<close>

lemma siblings_parts:
  assumes wd: "wf_doc (se_doc v)" and r: "par (se_doc v) (se_root v) = None" and k: "kids (se_doc v) p = ys @ e # zs"
  shows "el_previousSiblings v e = Some (rev ys)" "el_nextSiblings v e = Some zs"
proof -
  have el: "is_element v x" if "x \<in> set (kids (se_doc v) p)" for x
  proof -
    have "par (se_doc v) x = Some p" using wd that by (simp add: wf_doc_def)
    then show ?thesis using r by (auto simp: is_element_def)
  qed
  have f: "filter (is_element v) ys = ys" "filter (is_element v) zs = zs" using el by (auto simp: filter_id_conv k)
  show "el_previousSiblings v e = Some (rev ys)"
    using collect_follows [OF previous_follows [OF wd k]] f(1) by (simp add: el_previousSiblings_def rev_filter [symmetric])
  show "el_nextSiblings v e = Some zs"
    using collect_follows [OF next_follows [OF wd k]] f(2) by (simp add: el_nextSiblings_def)
qed

text \<open>
  \<open>siblings\<close> are the other children of the parent and \<open>immediateDescendants\<close> the children, both in the order of
  the document.
\<close>

theorem siblings_in_order:
  assumes "wf_doc (se_doc v)" "par (se_doc v) (se_root v) = None" "par (se_doc v) e = Some p"
  shows "el_siblings v e = Some (filter (\<lambda>x. x \<noteq> e) (kids (se_doc v) p)) \<and>
    immediateDescendants v p = Some (kids (se_doc v) p)"
proof -
  have m: "e \<in> set (kids (se_doc v) p)" "distinct (kids (se_doc v) p)" using assms(1,3) by (simp_all add: wf_doc_def)
  then obtain ys zs where k: "kids (se_doc v) p = ys @ e # zs" by (meson split_list)
  have "filter (\<lambda>x. x \<noteq> e) ys = ys" "filter (\<lambda>x. x \<noteq> e) zs = zs" using m(2) by (auto simp: k filter_id_conv)
  then have "filter (\<lambda>x. x \<noteq> e) (kids (se_doc v) p) = ys @ zs" by (simp add: k)
  moreover have "immediateDescendants v p = Some (kids (se_doc v) p)"
  proof (cases "kids (se_doc v) p")
    case (Cons c cs)
    then show ?thesis using siblings_parts(2) [OF assms(1,2), of p "[]" c cs]
      by (simp add: immediateDescendants_def firstDescendant_def)
  qed (use m in simp)
  ultimately show ?thesis using siblings_parts [OF assms(1,2) k] by (simp add: el_siblings_def)
qed

text \<open>Which of the relatives an expression picks.\<close>

lemma pick_matching:
  assumes "page_ok v" "sels_ok True ss" "plain_sels AtStart ss"
  shows "pick v x (Some xs) (Expr (sels_text ss) i) ix =
    Some (nth_or_none (filter (css v (se_root v) (rev ss)) xs) i, ix)"
proof -
  obtain ns where ns: "sel_findElements v (se_root v) (sels_text ss) ix = Some (ns, ix)"
      "\<And>x. x \<in> set ns \<longleftrightarrow> css v (se_root v) (rev ss) x"
    using matcher_css [OF assms(1) _ assms(2,3), of "se_root v" ix] by (auto simp: in_page_def)
  have t: "strip (sels_text ss) = sels_text ss" using strip_text [OF assms(2), of "[]" "[]"] by simp
  have "sels_text ss \<noteq> []" using start_not [OF text_start [OF assms(2)]] by simp
  then show ?thesis
    using ns t by (simp add: pick_def sel_findElement_def matchElements_def findChildElements_def nth_or_none_def)
qed


section \<open>Changing the tree\<close>

text \<open>An element that is in no place yet is inserted right before or after the element, or as its first or last child.\<close>

theorem insert_positions:
  assumes wd: "wf_doc d" and n: "par d n = None" "n \<noteq> e" "(e, n) \<notin> (parent_rel d)\<^sup>+" and k: "kids d p = ys @ e # zs"
  shows "map_option kids (insert_at Before e n d) = Some ((kids d)(p := ys @ n # e # zs)) \<and>
    map_option kids (insert_at After e n d) = Some ((kids d)(p := ys @ e # n # zs)) \<and>
    map_option kids (insert_at Top e n d) = Some ((kids d)(e := n # kids d e)) \<and>
    map_option kids (insert_at Bottom e n d) = Some ((kids d)(e := kids d e @ [n]))"
proof -
  have pe: "par d e = Some p" by (rule kids_parent [OF wd k])
  then have pn: "p \<noteq> n" "(p, n) \<notin> (parent_rel d)\<^sup>+"
    using n(3) by (auto simp: par_rel intro: trancl_into_trancl2)
  have nx: "nextSibling d e = (case zs of [] \<Rightarrow> None | z # _ \<Rightarrow> Some z)"
    using next_follows [OF wd k] by (cases zs) simp_all
  have "\<exists>d'. insertBefore p n (Some e) d = Some d' \<and> kids d' = (kids d)(p := ys @ n # e # zs)"
    using insert_fresh [OF wd n(1) pn k refl] by auto
  moreover have "\<exists>d'. insertBefore p n (nextSibling d e) d = Some d' \<and> kids d' = (kids d)(p := ys @ e # n # zs)"
    using insert_fresh [OF wd n(1) pn, of "ys @ [e]" zs, OF _ nx] k by auto
  moreover have "\<exists>d'. insertBefore e n (case kids d e of [] \<Rightarrow> None | c # _ \<Rightarrow> Some c) d = Some d' \<and> kids d' = (kids d)(e := n # kids d e)"
    using insert_fresh [OF wd n(1) n(2) [symmetric] n(3), of "[]", OF _ refl] by auto
  moreover have "\<exists>d'. insertBefore e n None d = Some d' \<and> kids d' = (kids d)(e := kids d e @ [n])"
    using insert_fresh [OF wd n(1) n(2) [symmetric] n(3), of "kids d e" "[]", OF _ refl] by auto
  ultimately show ?thesis using pe by (auto simp: insert_at_def appendChild_def)
qed

lemma replace_fresh:
  assumes wd: "wf_doc d" and n: "par d n = None" "n \<noteq> e" "(e, n) \<notin> (parent_rel d)\<^sup>+" and k: "kids d p = ys @ e # zs"
  shows "\<exists>d'. replaceChild p n e d = Some d' \<and> wf_doc d' \<and> par d' = (par d)(n := Some p, e := None) \<and>
    kids d' = (kids d)(p := ys @ n # zs) \<and> (n, e) \<notin> (parent_rel d')\<^sup>+"
proof -
  have pe: "par d e = Some p" by (rule kids_parent [OF wd k])
  then have pn: "p \<noteq> n" "(p, n) \<notin> (parent_rel d)\<^sup>+" using n(3) by (auto simp: par_rel intro: trancl_into_trancl2)
  obtain d1 where d1: "insertBefore p n (Some e) d = Some d1" "wf_doc d1" "par d1 = (par d)(n := Some p)"
      "kids d1 = (kids d)(p := ys @ n # e # zs)"
    using insert_fresh [OF wd n(1) pn k refl] by auto
  let ?d = "removeChild e d1"
  note fr = removeChild_frame [OF d1(2), of e]
  have dis: "distinct (ys @ e # zs)" using wd k by (metis wf_doc_def)
  have "filter (\<lambda>x. x \<noteq> e) ys = ys" "filter (\<lambda>x. x \<noteq> e) zs = zs" using dis by (auto simp: filter_id_conv)
  moreover have "e \<notin> set (kids d q)" if "q \<noteq> p" for q using that pe wd by (metis option.inject wf_doc_def)
  then have "filter (\<lambda>x. x \<noteq> e) (kids d q) = kids d q" if "q \<noteq> p" for q using that by (auto simp: filter_id_conv)
  ultimately have ks: "kids ?d = (kids d)(p := ys @ n # zs)" using n(2) by (intro ext) (simp add: fr(2) d1(4))
  have pr: "par ?d = (par d)(n := Some p, e := None)" using n(2) by (intro ext) (simp add: fr(1) d1(3))
  have "(n, e) \<notin> (parent_rel ?d)\<^sup>+"
  proof
    assume "(n, e) \<in> (parent_rel ?d)\<^sup>+"
    moreover have "parent_rel ?d \<subseteq> parent_rel d1" by (auto simp: parent_rel_def fr(1) split: if_splits)
    ultimately have "(n, e) \<in> (parent_rel d1)\<^sup>+" by (rule trancl_mono)
    then obtain q where "par d1 n = Some q" "(q, e) \<in> (parent_rel d1)\<^sup>*" by (auto simp: par_rel dest: tranclD)
    moreover have "(e, p) \<in> parent_rel d1" using pe n(2) by (simp add: par_rel [symmetric] d1(3))
    ultimately have "(e, e) \<in> (parent_rel d1)\<^sup>+" by (auto simp: d1(3) intro: rtrancl_into_trancl2)
    then show False using d1(2) by (auto simp: wf_doc_def acyclic_def)
  qed
  then show ?thesis using d1(1,2) n(2) pr ks removeChild_wf [OF d1(2)] by (simp add: replaceChild_def)
qed

text \<open>\<open>wrap\<close> puts the wrapper where the element was and the element at the end of the wrapper.\<close>

theorem wrap_in_place:
  assumes wd: "wf_doc d" and n: "par d n = None" "n \<noteq> e" "(e, n) \<notin> (parent_rel d)\<^sup>+" and k: "kids d p = ys @ e # zs"
  shows "\<exists>d'. el_wrap e n d = Some d' \<and> wf_doc d' \<and> par d' = (par d)(n := Some p, e := Some n) \<and>
    kids d' = (kids d)(p := ys @ n # zs, n := kids d n @ [e])"
proof -
  have pe: "par d e = Some p" by (rule kids_parent [OF wd k])
  then have pn: "p \<noteq> n" using n(3) by (auto simp: par_rel)
  obtain d1 where d1: "replaceChild p n e d = Some d1" "wf_doc d1" "par d1 = (par d)(n := Some p, e := None)"
      "kids d1 = (kids d)(p := ys @ n # zs)" "(n, e) \<notin> (parent_rel d1)\<^sup>+"
    using replace_fresh [OF wd n k] by blast
  have "\<exists>d'. insertBefore n e None d1 = Some d' \<and> wf_doc d' \<and> par d' = (par d1)(e := Some n) \<and>
      kids d' = (kids d1)(n := kids d1 n @ [e])"
    using insert_fresh [OF d1(2) _ n(2) d1(5), of "kids d1 n" "[]", OF _ _ refl] d1(3) by simp
  then show ?thesis using d1 pe pn n(2) by (auto simp: el_wrap_def appendChild_def)
qed

text \<open>C37. The changes of the tree, in any order, keep it well formed.\<close>

datatype tree_change = Insert "(insertion \<times> nat) list" nat | Remove nat | Replace nat nat | Wrap nat nat

definition change_tree :: "tree_change \<Rightarrow> doc \<Rightarrow> doc option" where
  "change_tree c d =
     (case c of
        Insert ins e \<Rightarrow> el_insert ins e d
      | Remove e \<Rightarrow> el_remove e d
      | Replace e n \<Rightarrow> el_replace e n d
      | Wrap e n \<Rightarrow> el_wrap e n d)"

fun change_all :: "tree_change list \<Rightarrow> doc \<Rightarrow> doc option" where
  "change_all [] d = Some d"
| "change_all (c # cs) d = Option.bind (change_tree c d) (change_all cs)"

lemma insert_at_wf: "wf_doc d \<Longrightarrow> insert_at pos e n d = Some d' \<Longrightarrow> wf_doc d'"
  by (auto simp: insert_at_def appendChild_def intro: insertBefore_wf split: insertion.splits option.splits)

lemma el_insert_wf: "wf_doc d \<Longrightarrow> el_insert ins e d = Some d' \<Longrightarrow> wf_doc d'"
  by (induction ins e d rule: el_insert.induct) (auto intro: insert_at_wf split: option.splits)

lemma replaceChild_wf: "wf_doc d \<Longrightarrow> replaceChild p n e d = Some d' \<Longrightarrow> wf_doc d'"
  by (auto simp: replaceChild_def intro: removeChild_wf insertBefore_wf split: if_splits)

lemma el_wrap_wf: "wf_doc d \<Longrightarrow> el_wrap e n d = Some d' \<Longrightarrow> wf_doc d'"
  unfolding el_wrap_def appendChild_def Option.bind_eq_Some_conv
  by (auto intro: insertBefore_wf replaceChild_wf split: option.splits)

lemma change_wf: "wf_doc d \<Longrightarrow> change_tree c d = Some d' \<Longrightarrow> wf_doc d'"
  by (cases c)
    (auto simp: change_tree_def el_remove_def el_replace_def
      intro: el_insert_wf el_wrap_wf replaceChild_wf removeChild_wf split: if_splits option.splits)

theorem changes_keep_tree: "wf_doc d \<Longrightarrow> change_all cs d = Some d' \<Longrightarrow> wf_doc d'"
  by (induction cs arbitrary: d) (auto simp: Option.bind_eq_Some_conv intro: change_wf)

section \<open>Ids\<close>

text \<open>The ids of the elements are their attributes.\<close>

definition ids_match :: "sel_env \<Rightarrow> bool" where
  "ids_match v \<longleftrightarrow> (\<forall>x. ident (se_doc v) x = (case readAttribute v x ''id'' of None \<Rightarrow> [] | Some i \<Rightarrow> i))"

lemma anonymous_inj: "inj anonymous_id"
  by (auto simp: inj_def anonymous_id_def nat_to_string_inj)

lemma free_id_from:
  "getElementById v (anonymous_id (c + k)) = None \<Longrightarrow>
    \<exists>n. c \<le> n \<and> free_id v c = Some n \<and> getElementById v (anonymous_id n) = None"
proof (induction k arbitrary: c)
  case 0
  then show ?case by (intro exI [of _ c]) (subst free_id.simps, simp)
next
  case (Suc k)
  show ?case
  proof (cases "getElementById v (anonymous_id c) = None")
    case True
    then show ?thesis by (intro exI [of _ c]) (subst free_id.simps, simp)
  next
    case False
    then have "free_id v c = free_id v (Suc c)" by (subst free_id.simps) auto
    then show ?thesis using Suc.IH [of "Suc c"] Suc.prems by (auto intro: Suc_leD)
  qed
qed

text \<open>The page has finitely many ids, so that the loop ends.\<close>

lemma free_id_returns: "\<exists>n. c \<le> n \<and> free_id v c = Some n \<and> getElementById v (anonymous_id n) = None"
proof -
  let ?used = "ident (se_doc v) ` set (page_elements v)"
  have "inj (\<lambda>k. anonymous_id (c + k))" by (auto simp: inj_def dest!: injD [OF anonymous_inj])
  then have "infinite (range (\<lambda>k. anonymous_id (c + k)))" by (metis finite_imageD infinite_UNIV_nat)
  then have "\<not> range (\<lambda>k. anonymous_id (c + k)) \<subseteq> ?used" by (meson finite_imageI finite_set finite_subset)
  then obtain k where "anonymous_id (c + k) \<notin> ?used" by blast
  then have "getElementById v (anonymous_id (c + k)) = None"
    by (auto simp: getElementById_def page_elements_def find_None_iff image_iff)
  then show ?thesis by (rule free_id_from)
qed

lemma descendants_ident: "descendants n (d\<lparr>ident := f\<rparr>) e = descendants n d e"
  by (induction n arbitrary: e) (simp_all cong: map_cong)

lemma parent_rel_ident: "parent_rel (d\<lparr>ident := f\<rparr>) = parent_rel d"
  by (simp add: parent_rel_def)

lemma id_written:
  "se_doc (writeAttribute e [(''id'', WText i)] v) = (se_doc v)\<lparr>ident := (ident (se_doc v))(e := i)\<rparr>"
  "readAttribute (writeAttribute e [(''id'', WText i)] v) x a =
    (if x = e \<and> a = ''id'' then Some i else readAttribute v x a)"
  "se_root (writeAttribute e [(''id'', WText i)] v) = se_root v"
  "se_levels (writeAttribute e [(''id'', WText i)] v) = se_levels v"
  by (simp_all add: writeAttribute_def write_one_def write_name_def set_attribute_def readAttribute_def Let_def)

lemma id_written_ok:
  assumes ok: "page_ok v" and im: "ids_match v" and fr: "getElementById v i = None"
  shows "page_ok (writeAttribute e [(''id'', WText i)] v)" "ids_match (writeAttribute e [(''id'', WText i)] v)"
    "descendantOf (writeAttribute e [(''id'', WText i)] v) x a \<longleftrightarrow> descendantOf v x a"
proof -
  let ?v = "writeAttribute e [(''id'', WText i)] v"
  have pe: "page_elements ?v = page_elements v" by (simp add: page_elements_def id_written descendants_ident)
  have "ident (se_doc v) x \<noteq> i" if "x \<in> set (page_elements v)" for x
    using fr that by (auto simp: getElementById_def page_elements_def find_None_iff)
  then have "unique_ids ?v" using ok unfolding unique_ids_def pe by (auto simp: page_ok_def unique_ids_def id_written)
  moreover have wd: "wf_doc (se_doc v)" using ok by (simp add: page_ok_def)
  then have wd': "wf_doc (se_doc ?v)" by (simp add: wf_doc_def id_written parent_rel_ident)
  ultimately show "page_ok ?v" using ok by (simp add: page_ok_def id_written parent_rel_ident)
  show "ids_match ?v" using im by (simp add: ids_match_def id_written)
  show "descendantOf ?v x a \<longleftrightarrow> descendantOf v x a"
    using isParent_iff [OF wd, of x a] isParent_iff [OF wd', of x a]
    by (simp add: descendantOf_def id_written parent_rel_ident)
qed

text \<open>
  C36. \<open>identify\<close> returns an id that leads to the element: the id it has, or one that was free and is given to it;
  the ids of the other elements stay and the counter never goes back.
\<close>

theorem identify_finds:
  assumes ok: "page_ok v" "ids_match v" and e: "descendantOf v e (se_root v)"
  shows "\<exists>v' n i. identify v counter e = Some (v', n, i) \<and> i \<noteq> [] \<and> getElementById v' i = Some e \<and>
    page_ok v' \<and> ids_match v' \<and> counter \<le> n \<and> (\<forall>x. x \<noteq> e \<longrightarrow> ident (se_doc v') x = ident (se_doc v) x) \<and>
    (ident (se_doc v) e \<noteq> [] \<longrightarrow> v' = v \<and> i = ident (se_doc v) e)"
proof (cases "ident (se_doc v) e = []")
  case True
  then have "readAttribute v e ''id'' = None \<or> readAttribute v e ''id'' = Some []"
    using ok(2) by (auto simp: ids_match_def split: option.splits dest: spec [of _ e])
  moreover obtain n where n: "counter \<le> n" "free_id v counter = Some n" "getElementById v (anonymous_id n) = None"
    using free_id_returns by blast
  ultimately have i: "identify v counter e =
      Some (writeAttribute e [(''id'', WText (anonymous_id n))] v, Suc n, anonymous_id n)"
    by (auto simp: identify_def)
  note w = id_written_ok [OF ok n(3), of e]
  have ne: "anonymous_id n \<noteq> []" by (simp add: anonymous_id_def)
  have "descendantOf (writeAttribute e [(''id'', WText (anonymous_id n))] v) e
      (se_root (writeAttribute e [(''id'', WText (anonymous_id n))] v))"
    using e w(3) by (simp add: id_written)
  from getElementById_iff [OF w(1) ne this]
  have "getElementById (writeAttribute e [(''id'', WText (anonymous_id n))] v) (anonymous_id n) = Some e"
    by (simp add: id_written)
  then show ?thesis using i ne w(1,2) n(1) True by (simp add: id_written)
next
  case False
  then obtain c i where ci: "ident (se_doc v) e = c # i" by (cases "ident (se_doc v) e") auto
  then have "readAttribute v e ''id'' = Some (c # i)"
    using ok(2) by (auto simp: ids_match_def split: option.splits dest: spec [of _ e])
  moreover have "getElementById v (c # i) = Some e" using getElementById_iff [OF ok(1) _ e, of "c # i"] ci by simp
  ultimately show ?thesis using ok ci by (simp add: identify_def)
qed

section \<open>Samples\<close>

lemma sel_root_top: "par (se_doc sel_page) (se_root sel_page) = None"
  by (simp add: sel_page_def sel_doc_def sel_parents_def)

lemma sel_doc_kids: "kids sel_doc 2 = [3, 4, 5]" "par sel_doc 4 = Some 2" "par sel_doc 9 = None" "kids sel_doc 9 = []"
  by (simp_all add: sel_doc_def sel_parents_def)

lemma sel_doc_fresh: "(4, 9) \<notin> (parent_rel sel_doc)\<^sup>+"
proof
  assume "(4, 9) \<in> (parent_rel sel_doc)\<^sup>+"
  then obtain c where "(c, 9) \<in> parent_rel sel_doc" by (auto dest: tranclD2)
  then show False by (simp add: sel_doc_rel sel_parents_def)
qed

theorem siblings_in_order_witness:
  "el_siblings sel_page 4 = Some [3, 5] \<and> immediateDescendants sel_page 2 = Some [3, 4, 5]"
  using siblings_in_order [of sel_page 4 2] sel_doc_wf sel_root_top sel_doc_kids by (simp add: sel_page_def)


theorem insert_positions_witness:
  "map_option (\<lambda>d. kids d 2) (insert_at After 4 9 sel_doc) = Some [3, 4, 9, 5]"
proof -
  have "kids sel_doc 2 = [3] @ 4 # [5]" by (simp add: sel_doc_kids)
  from insert_positions [OF sel_doc_wf sel_doc_kids(3) _ sel_doc_fresh this]
  show ?thesis by (cases "insert_at After 4 9 sel_doc") simp_all
qed

theorem wrap_in_place_witness:
  "map_option (\<lambda>d. (kids d 2, kids d 9)) (el_wrap 4 9 sel_doc) = Some ([3, 9, 5], [4])"
proof -
  have "kids sel_doc 2 = [3] @ 4 # [5]" by (simp add: sel_doc_kids)
  from wrap_in_place [OF sel_doc_wf sel_doc_kids(3) _ sel_doc_fresh this]
  show ?thesis by (auto simp: sel_doc_kids)
qed

theorem changes_keep_tree_witness:
  "\<exists>d. change_all [Wrap 4 9, Remove 7, Insert [(Top, 7), (After, 6)] 2, Replace 3 8] sel_doc = Some d \<and> wf_doc d"
proof -
  have "\<not> Option.is_none (change_all [Wrap 4 9, Remove 7, Insert [(Top, 7), (After, 6)] 2, Replace 3 8] sel_doc)"
    by code_simp
  then obtain d where d: "change_all [Wrap 4 9, Remove 7, Insert [(Top, 7), (After, 6)] 2, Replace 3 8] sel_doc = Some d"
    unfolding Option.is_none_def by blast
  then show ?thesis using changes_keep_tree [OF sel_doc_wf d] by blast
qed

text \<open>The page of the selectors with the ids as attributes.\<close>

definition id_page :: sel_env where
  "id_page = sel_page\<lparr>se_attr := (\<lambda>e a. if a = ''id'' \<and> e = 2 then Some ''apps'' else if a = ''id'' \<and> e = 5 then Some ''last'' else None)\<rparr>"

theorem identify_finds_witness:
  "map_option (\<lambda>(v, n, i). (n, i, getElementById v i)) (identify id_page 1 4) = Some (2, ''anonymous_element_1'', Some 4)"
proof -
  have "page_ok id_page" using sel_page_ok
    by (simp add: id_page_def page_ok_def unique_ids_def page_elements_def)
  moreover have "ids_match id_page"
    by (simp add: ids_match_def id_page_def readAttribute_def sel_page_def sel_doc_def)
  moreover have "descendantOf id_page 4 (se_root id_page)" by code_simp
  ultimately obtain v n i where r: "identify id_page 1 4 = Some (v, n, i)" "getElementById v i = Some 4"
    using identify_finds [of id_page 4 1] by blast
  moreover have "map_option snd (identify id_page 1 4) = Some (2, ''anonymous_element_1'')" by code_simp
  ultimately show ?thesis by simp
qed

text \<open>
  \<open>adjacent\<close> searches all that is below the parent: a paragraph within the neighbour of the list is found,
  which is no sibling of the list.
\<close>

lemma adjacent_finds_nephews:
  "map_option fst (el_adjacent sel_page 2 [''p''] no_index) = Some [7]" "el_siblings sel_page 2 = Some [6]"
  by code_simp+

lemma inspect_sample: "el_inspect sel_page 5 = Some ''<li id=\"last\" class=\"big on\">''"
  by code_simp

text \<open>A class name that an element does not have is put by \<open>toggleClassName\<close> and taken away again.\<close>

lemma toggle_twice: "c \<notin> set (klass d e) \<Longrightarrow> toggleClassName e c (toggleClassName e c d) = d"
  by (simp add: toggleClassName_def addClassName_def removeClassName_def remove1_append)

end
