(* ===== verification/ElementLayout.thy ===== *)
theory ElementLayout
  imports PageTree
begin

text \<open>
  The layout methods of \<open>Element\<close> of \<open>prototype.js\<close>: the offsets of an element on the page, in its offset parent and in the
  window, \<open>getOffsetParent\<close> and \<open>clonePosition\<close>.  The loops over offset parents and parents are one partial
  function, whose value \<open>None\<close> is a loop that does not end.
\<close>

section \<open>The page\<close>

text \<open>
  Offsets, scroll positions and sizes are pairs of the horizontal and the vertical number; \<open>la_style\<close> are the
  lengths in pixels that the style of an element sets.
\<close>

record page_layout =
  la_doc :: doc
  la_body :: nat
  la_offset :: "nat \<Rightarrow> real \<times> real"
  la_offsetParent :: "nat \<Rightarrow> nat option"
  la_scroll :: "nat \<Rightarrow> real \<times> real"
  la_position :: "nat \<Rightarrow> string"
  la_size :: "nat \<Rightarrow> real \<times> real"
  la_style :: "nat \<Rightarrow> string \<Rightarrow> real option"

definition add2 :: "real \<times> real \<Rightarrow> real \<times> real \<Rightarrow> real \<times> real" where
  "add2 a b = (fst a + fst b, snd a + snd b)"

definition sub2 :: "real \<times> real \<Rightarrow> real \<times> real \<Rightarrow> real \<times> real" where
  "sub2 a b = (fst a - fst b, snd a - snd b)"

text \<open>The loops: the values of an element and of those that follow it are added.\<close>

partial_function (option) sum_along :: "(nat \<Rightarrow> nat option) \<Rightarrow> (nat \<Rightarrow> real \<times> real) \<Rightarrow> nat \<Rightarrow> (real \<times> real) option" where
  "sum_along follow f e =
     (case follow e of
        None \<Rightarrow> Some (f e)
      | Some q \<Rightarrow> Option.bind (sum_along follow f q) (\<lambda>s. Some (add2 (f e) s)))"

declare sum_along.simps [code]

definition cumulativeOffset :: "page_layout \<Rightarrow> nat \<Rightarrow> (real \<times> real) option" where
  "cumulativeOffset l e = sum_along (la_offsetParent l) (la_offset l) e"

definition is_body :: "page_layout \<Rightarrow> nat \<Rightarrow> bool" where
  "is_body l e \<longleftrightarrow> to_upper_case (tag (la_doc l) e) = ''BODY''"

definition static_parent :: "page_layout \<Rightarrow> nat \<Rightarrow> nat option" where
  "static_parent l e =
     (case la_offsetParent l e of
        None \<Rightarrow> None
      | Some q \<Rightarrow> if is_body l q \<or> la_position l q \<noteq> ''static'' then None else Some q)"

definition positionedOffset :: "page_layout \<Rightarrow> nat \<Rightarrow> (real \<times> real) option" where
  "positionedOffset l e = sum_along (static_parent l) (la_offset l) e"

definition cumulativeScrollOffset :: "page_layout \<Rightarrow> nat \<Rightarrow> (real \<times> real) option" where
  "cumulativeScrollOffset l e = sum_along (par (la_doc l)) (la_scroll l) e"

text \<open>The loop of \<open>getOffsetParent\<close> over the parents.\<close>

partial_function (option) positioned_above :: "page_layout \<Rightarrow> nat \<Rightarrow> nat option" where
  "positioned_above l e =
     (case par (la_doc l) e of
        None \<Rightarrow> Some (la_body l)
      | Some p \<Rightarrow>
          if p = la_body l then Some (la_body l)
          else if la_position l p \<noteq> ''static'' then Some p
          else positioned_above l p)"

declare positioned_above.simps [code]

definition getOffsetParent :: "page_layout \<Rightarrow> nat \<Rightarrow> nat option" where
  "getOffsetParent l e =
     (case la_offsetParent l e of
        Some q \<Rightarrow> Some q
      | None \<Rightarrow> if e = la_body l then Some e else positioned_above l e)"

text \<open>\<open>viewportOffset\<close>; \<open>opera\<close> is whether the browser is Opera.\<close>

definition viewport_parent :: "page_layout \<Rightarrow> nat \<Rightarrow> nat option" where
  "viewport_parent l e =
     (if la_offsetParent l e = Some (la_body l) \<and> la_position l e = ''absolute'' then None else la_offsetParent l e)"

definition viewport_scroll :: "bool \<Rightarrow> page_layout \<Rightarrow> nat \<Rightarrow> real \<times> real" where
  "viewport_scroll opera l e = (if \<not> opera \<or> is_body l e then la_scroll l e else (0, 0))"

definition viewportOffset :: "bool \<Rightarrow> page_layout \<Rightarrow> nat \<Rightarrow> (real \<times> real) option" where
  "viewportOffset opera l e =
     Option.bind (sum_along (viewport_parent l) (la_offset l) e) (\<lambda>offset.
     Option.bind (sum_along (par (la_doc l)) (viewport_scroll opera l) e) (\<lambda>scroll.
     Some (sub2 offset scroll)))"

section \<open>\<open>clonePosition\<close>\<close>

record clone_options =
  co_setLeft :: bool
  co_setTop :: bool
  co_setWidth :: bool
  co_setHeight :: bool
  co_offset :: "real \<times> real"

definition default_clone :: clone_options where
  "default_clone = \<lparr>co_setLeft = True, co_setTop = True, co_setWidth = True, co_setHeight = True, co_offset = (0, 0)\<rparr>"

definition clone_delta :: "bool \<Rightarrow> page_layout \<Rightarrow> nat \<Rightarrow> (real \<times> real) option" where
  "clone_delta opera l e =
     (if la_position l e = ''absolute'' then
        Option.bind (getOffsetParent l e) (\<lambda>q.
        Option.bind (viewportOffset opera l q) (\<lambda>delta.
        Some (if q = la_body l then sub2 delta (la_offset l (la_body l)) else delta)))
      else Some (0, 0))"

definition set_length :: "bool \<Rightarrow> nat \<Rightarrow> string \<Rightarrow> real \<Rightarrow> page_layout \<Rightarrow> page_layout" where
  "set_length wanted e k x l =
     (if wanted then l\<lparr>la_style := (la_style l)(e := (la_style l e)(k := Some x))\<rparr> else l)"

definition clonePosition :: "bool \<Rightarrow> clone_options \<Rightarrow> nat \<Rightarrow> nat \<Rightarrow> page_layout \<Rightarrow> page_layout option" where
  "clonePosition opera opts e source l =
     Option.bind (viewportOffset opera l source) (\<lambda>p.
     Option.bind (clone_delta opera l e) (\<lambda>delta.
     let x = add2 (sub2 p delta) (co_offset opts)
     in Some (set_length (co_setHeight opts) e ''height'' (snd (la_size l source))
         (set_length (co_setWidth opts) e ''width'' (fst (la_size l source))
         (set_length (co_setTop opts) e ''top'' (snd x)
         (set_length (co_setLeft opts) e ''left'' (fst x) l))))))"

section \<open>The loops end\<close>

text \<open>An offset parent is above its element.\<close>

definition layout_ok :: "page_layout \<Rightarrow> bool" where
  "layout_ok l \<longleftrightarrow> wf_doc (la_doc l) \<and>
     (\<forall>e q. la_offsetParent l e = Some q \<longrightarrow> (e, q) \<in> (parent_rel (la_doc l))\<^sup>+)"

definition goes_up :: "doc \<Rightarrow> (nat \<Rightarrow> nat option) \<Rightarrow> bool" where
  "goes_up d follow \<longleftrightarrow> wf_doc d \<and> (\<forall>e q. follow e = Some q \<longrightarrow> (e, q) \<in> (parent_rel d)\<^sup>+)"

lemma above_wf: "wf_doc d \<Longrightarrow> wf (((parent_rel d)\<^sup>+)\<inverse>)"
  using wf_trancl [OF parent_wf] by (simp add: trancl_converse)

lemma sum_along_ends:
  assumes up: "goes_up d follow" shows "\<exists>s. sum_along follow f e = Some s"
proof -
  have wd: "wf_doc d" using up by (simp add: goes_up_def)
  show ?thesis
  proof (induction e rule: wf_induct_rule [OF above_wf [OF wd]])
    case (1 e)
    show ?case
    proof (cases "follow e")
      case None
      then show ?thesis by (subst sum_along.simps) simp
    next
      case (Some q)
      then have "(q, e) \<in> ((parent_rel d)\<^sup>+)\<inverse>" using up by (simp add: goes_up_def)
      then obtain s where "sum_along follow f q = Some s" using 1 by blast
      then show ?thesis using Some by (subst sum_along.simps) simp
    qed
  qed
qed

lemma layout_goes_up:
  assumes "layout_ok l"
  shows "goes_up (la_doc l) (la_offsetParent l)" "goes_up (la_doc l) (static_parent l)"
    "goes_up (la_doc l) (viewport_parent l)" "goes_up (la_doc l) (par (la_doc l))"
  using assms by (auto simp: goes_up_def layout_ok_def static_parent_def viewport_parent_def par_rel split: option.splits if_splits)

lemma positioned_above_ends:
  assumes wd: "wf_doc (la_doc l)" shows "\<exists>p. positioned_above l e = Some p"
proof (induction e rule: wf_induct_rule [OF parent_wf [OF wd]])
  case (1 e)
  show ?case
  proof (cases "par (la_doc l) e")
    case None
    then show ?thesis by (subst positioned_above.simps) simp
  next
    case (Some p)
    then have "(p, e) \<in> (parent_rel (la_doc l))\<inverse>" by (simp add: par_rel)
    then show ?thesis using 1 Some by (subst positioned_above.simps) auto
  qed
qed

lemma offsets_return:
  assumes "layout_ok l"
  shows "\<exists>s. cumulativeOffset l e = Some s" "\<exists>s. positionedOffset l e = Some s" "\<exists>s. cumulativeScrollOffset l e = Some s"
    "\<exists>s. viewportOffset opera l e = Some s" "\<exists>q. getOffsetParent l e = Some q"
proof -
  note up = layout_goes_up [OF assms] and ends = sum_along_ends
  show "\<exists>s. cumulativeOffset l e = Some s" "\<exists>s. positionedOffset l e = Some s" "\<exists>s. cumulativeScrollOffset l e = Some s"
    using ends [OF up(1)] ends [OF up(2)] ends [OF up(4)]
    by (simp_all add: cumulativeOffset_def positionedOffset_def cumulativeScrollOffset_def)
  show "\<exists>s. viewportOffset opera l e = Some s"
    using ends [OF up(3), of "la_offset l" e] ends [OF up(4), of "viewport_scroll opera l" e]
    by (auto simp: viewportOffset_def)
  show "\<exists>q. getOffsetParent l e = Some q"
    using positioned_above_ends assms by (simp add: getOffsetParent_def layout_ok_def split: option.split)
qed

section \<open>Where a clone is shown\<close>

text \<open>The sum depends only on the element and those above it.\<close>

lemma sum_along_cong:
  assumes up: "goes_up d follow" and same: "\<forall>x. x = e \<or> (e, x) \<in> (parent_rel d)\<^sup>+ \<longrightarrow> f x = g x"
  shows "sum_along follow f e = sum_along follow g e"
proof -
  have wd: "wf_doc d" using up by (simp add: goes_up_def)
  show ?thesis using same
  proof (induction e rule: wf_induct_rule [OF above_wf [OF wd]])
    case (1 e)
    show ?case
    proof (cases "follow e")
      case None
      then show ?thesis using 1(2) by (simp add: sum_along.simps [of follow _ e])
    next
      case (Some q)
      then have eq: "(e, q) \<in> (parent_rel d)\<^sup>+" using up by (simp add: goes_up_def)
      then have "\<forall>x. x = q \<or> (q, x) \<in> (parent_rel d)\<^sup>+ \<longrightarrow> f x = g x" using 1(2) by (blast intro: trancl_trans)
      then have "sum_along follow f q = sum_along follow g q" using 1(1) [of q] eq by simp
      then show ?thesis using Some 1(2) by (simp add: sum_along.simps [of follow _ e])
    qed
  qed
qed

text \<open>Elements below another one that are not scrolled do not count.\<close>

lemma sum_along_skip:
  assumes wd: "wf_doc d"
  shows "(e, q) \<in> (parent_rel d)\<^sup>+ \<Longrightarrow> f e = (0, 0) \<Longrightarrow>
    \<forall>x. (e, x) \<in> (parent_rel d)\<^sup>+ \<and> (x, q) \<in> (parent_rel d)\<^sup>+ \<longrightarrow> f x = (0, 0) \<Longrightarrow>
    sum_along (par d) f e = sum_along (par d) f q"
proof (induction e rule: wf_induct_rule [OF parent_wf [OF wd]])
  case (1 e)
  obtain p where ep: "(e, p) \<in> parent_rel d" and pq: "(p, q) \<in> (parent_rel d)\<^sup>*" using tranclD [OF 1(2)] by blast
  have p: "par d e = Some p" "p = q \<or> (p, q) \<in> (parent_rel d)\<^sup>+" using ep pq by (auto simp: par_rel rtrancl_eq_or_trancl)
  have "sum_along (par d) f p = sum_along (par d) f q"
  proof (cases "p = q")
    case False
    then have pq: "(p, q) \<in> (parent_rel d)\<^sup>+" using p(2) by simp
    have "f p = (0, 0)" using 1(4) ep pq by blast
    then show ?thesis using 1(1) [of p] ep pq 1(4) by (simp add: trancl_into_trancl2)
  qed simp
  moreover have "sum_along (par d) f e = Option.bind (sum_along (par d) f p) (\<lambda>s. Some (add2 (f e) s))"
    using p(1) by (simp add: sum_along.simps [of "par d" f e])
  ultimately show ?case using 1(3) by (simp add: add2_def)
qed

text \<open>
  What the browser shows: an element with an absolute position is at the lengths of its style from its offset
  parent.
\<close>

definition shown_absolute :: "nat \<Rightarrow> page_layout \<Rightarrow> page_layout" where
  "shown_absolute e l =
     l\<lparr>la_offset := (la_offset l)(e := (case la_style l e ''left'' of Some x \<Rightarrow> x | None \<Rightarrow> fst (la_offset l e),
                                      case la_style l e ''top'' of Some y \<Rightarrow> y | None \<Rightarrow> snd (la_offset l e)))\<rparr>"

lemma set_length_frame [simp]:
  "la_doc (set_length w e k x l) = la_doc l" "la_body (set_length w e k x l) = la_body l"
  "la_offset (set_length w e k x l) = la_offset l" "la_offsetParent (set_length w e k x l) = la_offsetParent l"
  "la_scroll (set_length w e k x l) = la_scroll l" "la_position (set_length w e k x l) = la_position l"
  "la_size (set_length w e k x l) = la_size l"
  "la_style (set_length w e k x l) d j = (if w \<and> d = e \<and> j = k then Some x else la_style l d j)"
  by (simp_all add: set_length_def)

text \<open>The offset in the window of an element that is moved within its offset parent.\<close>

lemma viewport_moved:
  assumes ok: "layout_ok l" and q: "la_offsetParent l e = Some q" "q \<noteq> la_body l"
    and still: "la_scroll l e = (0, 0)"
      "\<forall>x. (e, x) \<in> (parent_rel (la_doc l))\<^sup>+ \<and> (x, q) \<in> (parent_rel (la_doc l))\<^sup>+ \<longrightarrow> la_scroll l x = (0, 0)"
    and m: "la_doc m = la_doc l" "la_body m = la_body l" "la_offsetParent m = la_offsetParent l" "la_scroll m = la_scroll l"
      "la_position m = la_position l" "la_offset m = (la_offset l)(e := z)"
    and v: "viewportOffset opera l q = Some w"
  shows "viewportOffset opera m e = Some (add2 z w)"
proof -
  have wd: "wf_doc (la_doc l)" and eq: "(e, q) \<in> (parent_rel (la_doc l))\<^sup>+" using ok q(1) by (auto simp: layout_ok_def)
  note up = layout_goes_up(3) [OF ok]
  obtain a b where ab: "sum_along (viewport_parent l) (la_offset l) q = Some a"
      "sum_along (par (la_doc l)) (viewport_scroll opera l) q = Some b" "w = sub2 a b"
    using v by (auto simp: viewportOffset_def Option.bind_eq_Some_conv)
  have vp: "viewport_parent m = viewport_parent l" by (intro ext) (simp add: viewport_parent_def m)
  have vs: "viewport_scroll opera m = viewport_scroll opera l" by (intro ext) (simp add: viewport_scroll_def is_body_def m)
  have "(e, e) \<notin> (parent_rel (la_doc l))\<^sup>+" using wd by (simp add: wf_doc_def acyclic_def)
  then have "e \<noteq> q \<and> (q, e) \<notin> (parent_rel (la_doc l))\<^sup>+" using eq trancl_trans by metis
  then have "\<forall>x. x = q \<or> (q, x) \<in> (parent_rel (la_doc l))\<^sup>+ \<longrightarrow> la_offset m x = la_offset l x" by (auto simp: m(6))
  then have "sum_along (viewport_parent l) (la_offset m) q = Some a" using sum_along_cong [OF up] ab(1) by metis
  then have "sum_along (viewport_parent l) (la_offset m) e = Some (add2 z a)"
    using q by (simp add: sum_along.simps [of _ _ e] viewport_parent_def m(6))
  moreover have "sum_along (par (la_doc l)) (viewport_scroll opera l) e = Some b"
    using sum_along_skip [OF wd eq, of "viewport_scroll opera l"] still ab(2) by (simp add: viewport_scroll_def)
  ultimately show ?thesis
    by (simp add: viewportOffset_def vp vs m(1) ab(3) add2_def sub2_def)
qed

text \<open>
  C39. \<open>clonePosition\<close> sets the lengths of the style so that an element with an absolute position is shown over
  the source, moved by the given offset, when neither the element nor an element between it and its offset parent
  is scrolled; width and height become those of the source.
\<close>

theorem clone_covers_source:
  assumes ok: "layout_ok l" and pos: "la_position l e = ''absolute''" and q: "la_offsetParent l e = Some q" "q \<noteq> la_body l"
    and still: "la_scroll l e = (0, 0)"
      "\<forall>x. (e, x) \<in> (parent_rel (la_doc l))\<^sup>+ \<and> (x, q) \<in> (parent_rel (la_doc l))\<^sup>+ \<longrightarrow> la_scroll l x = (0, 0)"
    and all: "co_setLeft opts" "co_setTop opts" "co_setWidth opts" "co_setHeight opts"
  shows "\<exists>p l'. viewportOffset opera l source = Some p \<and> clonePosition opera opts e source l = Some l' \<and>
    viewportOffset opera (shown_absolute e l') e = Some (add2 p (co_offset opts)) \<and>
    la_style l' e ''width'' = Some (fst (la_size l source)) \<and> la_style l' e ''height'' = Some (snd (la_size l source))"
proof -
  obtain p w where p: "viewportOffset opera l source = Some p" and w: "viewportOffset opera l q = Some w"
    using offsets_return(4) [OF ok] by metis
  have "clone_delta opera l e = Some w" using pos q w by (simp add: clone_delta_def getOffsetParent_def)
  moreover define x where "x = add2 (sub2 p w) (co_offset opts)"
  moreover define l' where "l' = set_length True e ''height'' (snd (la_size l source))
      (set_length True e ''width'' (fst (la_size l source)) (set_length True e ''top'' (snd x) (set_length True e ''left'' (fst x) l)))"
  ultimately have l': "clonePosition opera opts e source l = Some l'" by (simp add: clonePosition_def p Let_def all)
  have "viewportOffset opera (shown_absolute e l') e = Some (add2 x w)"
    by (rule viewport_moved [OF ok q still _ _ _ _ _ _ w]) (simp_all add: shown_absolute_def l'_def)
  moreover have "add2 x w = add2 p (co_offset opts)" by (simp add: x_def add2_def sub2_def)
  ultimately show ?thesis using p l' by (simp add: l'_def)
qed

section \<open>Samples\<close>

text \<open>The body (1) has a box (2), which is scrolled and holds a menu (3), and a field (4).\<close>

definition layout_parents :: "(nat \<times> nat) list" where
  "layout_parents = [(1, 0), (2, 1), (3, 2), (4, 1)]"

definition layout_sample :: page_layout where
  "layout_sample = \<lparr>
     la_doc = \<lparr>par = map_of layout_parents, kids = (\<lambda>p. map fst (filter (\<lambda>(c, q). q = p) layout_parents)),
       tag = (\<lambda>e. if e = 1 then ''body'' else ''div''), ident = (\<lambda>_. []), klass = (\<lambda>_. []),
       box = (\<lambda>_. (0, 0, 0, 0)), treeNode = (\<lambda>_. None)\<rparr>,
     la_body = 1, la_offset = (\<lambda>e. if e = 2 then (10, 20) else if e = 4 then (100, 200) else (0, 0)),
     la_offsetParent = (\<lambda>e. if e = 3 then Some 2 else if e \<in> {2, 4} then Some 1 else None),
     la_scroll = (\<lambda>e. if e = 2 then (0, 30) else (0, 0)),
     la_position = (\<lambda>e. if e = 3 then ''absolute'' else if e = 2 then ''relative'' else ''static''),
     la_size = (\<lambda>_. (80, 16)), la_style = (\<lambda>_ _. None)\<rparr>"

lemma layout_sample_rel: "parent_rel (la_doc layout_sample) = set layout_parents"
  by (auto simp: parent_rel_def layout_sample_def layout_parents_def split: if_splits)

lemma layout_sample_ok: "layout_ok layout_sample"
proof -
  have "wf_doc (la_doc layout_sample)"
    by (rule listed_wf [of _ layout_parents]) (simp_all add: layout_sample_def layout_parents_def)
  moreover have "(3, 2) \<in> set layout_parents" "(2, 1) \<in> set layout_parents" "(4, 1) \<in> set layout_parents"
    by (simp_all add: layout_parents_def)
  then have "la_offsetParent layout_sample e = Some q \<Longrightarrow> (e, q) \<in> (set layout_parents)\<^sup>+" for e q
    by (auto simp: layout_sample_def split: if_splits)
  ultimately show ?thesis by (simp add: layout_ok_def layout_sample_rel)
qed

lemma layout_down: "(a, b) \<in> (set layout_parents)\<^sup>+ \<Longrightarrow> b < a"
  by (induction rule: trancl.induct) (auto simp: layout_parents_def)

theorem clone_covers_source_witness:
  "\<exists>p l'. viewportOffset False layout_sample 4 = Some p \<and> clonePosition False default_clone 3 4 layout_sample = Some l' \<and>
    viewportOffset False (shown_absolute 3 l') 3 = Some (add2 p (0, 0)) \<and> la_style l' 3 ''width'' = Some 80"
proof -
  have no: "(x, 2) \<notin> (set layout_parents)\<^sup>+" if "(3, x) \<in> (set layout_parents)\<^sup>+" for x
    using layout_down [OF that] layout_down [of x 2] by auto
  then have n: "\<forall>x. (3, x) \<in> (parent_rel (la_doc layout_sample))\<^sup>+ \<and> (x, 2) \<in> (parent_rel (la_doc layout_sample))\<^sup>+ \<longrightarrow>
      la_scroll layout_sample x = (0, 0)"
    unfolding layout_sample_rel by blast
  have f: "la_position layout_sample 3 = ''absolute''" "la_offsetParent layout_sample 3 = Some 2" "2 \<noteq> la_body layout_sample"
      "la_scroll layout_sample 3 = (0, 0)" "la_size layout_sample 4 = (80, 16)"
    by (simp_all add: layout_sample_def)
  have d: "co_setLeft default_clone" "co_setTop default_clone" "co_setWidth default_clone" "co_setHeight default_clone"
      "co_offset default_clone = (0, 0)"
    by (simp_all add: default_clone_def)
  from clone_covers_source [OF layout_sample_ok f(1-4) n d(1-4), of False 4] show ?thesis by (auto simp: f d)
qed

text \<open>
  \<open>viewportOffset\<close> takes off the scroll position of the element itself, which moves its contents only: the
  scrolled box, twenty pixels below the top of the window, is reported ten pixels above it.
\<close>

lemma viewport_own_scroll: "viewportOffset False layout_sample 2 = Some (10, - 10)"
  by (simp add: viewportOffset_def viewport_parent_def viewport_scroll_def layout_sample_def layout_parents_def
      sum_along.simps [of _ _ 2] sum_along.simps [of _ _ "Suc 0"] sum_along.simps [of _ _ 0] add2_def sub2_def)

end
