(* ===== verification/ClassNames.thy ===== *)
theory ClassNames
  imports ProtoArray
begin

text \<open>
  The class names of an element as the text that the document keeps: \<open>hasClassName\<close>, \<open>addClassName\<close> and
  \<open>removeClassName\<close> of \<open>Element\<close>, and \<open>Element.ClassNames\<close>, of \<open>prototype.js\<close>.  The text stands for the list of its
  words, on which the other theories work.  A class name is a word without characters that
  are special in a regular expression.
\<close>

section \<open>\<open>Element.ClassNames\<close>\<close>

definition cn_each :: "string \<Rightarrow> string list" where
  "cn_each className = filter (\<lambda>name. name \<noteq> []) (split_ws className)"

definition cn_add :: "string \<Rightarrow> string \<Rightarrow> string" where
  "cn_add c className =
     (if c \<in> set (cn_each className) then className else join '' '' (cn_each className @ [c]))"

definition cn_remove :: "string \<Rightarrow> string \<Rightarrow> string" where
  "cn_remove c className =
     (if c \<notin> set (cn_each className) then className else join '' '' (filter (\<lambda>name. name \<noteq> c) (cn_each className)))"

definition cn_toString :: "string \<Rightarrow> string" where
  "cn_toString className = join '' '' (cn_each className)"

section \<open>The methods of an element\<close>

text \<open>\<open>(^|\s)c(\s|$)\<close> at a position of the class name, and the test for it.\<close>

definition word_end :: "string \<Rightarrow> bool" where
  "word_end r \<longleftrightarrow> r = [] \<or> is_ws (hd r)"

definition name_at :: "string \<Rightarrow> string \<Rightarrow> nat \<Rightarrow> bool" where
  "name_at c s i \<longleftrightarrow> (i = 0 \<or> is_ws (s ! (i - 1))) \<and> take (length c) (drop i s) = c \<and> word_end (drop (i + length c) s)"

definition text_hasClassName :: "string \<Rightarrow> string \<Rightarrow> bool" where
  "text_hasClassName c s \<longleftrightarrow> s \<noteq> [] \<and> (s = c \<or> list_ex (name_at c s) [0..<length s])"

definition text_addClassName :: "string \<Rightarrow> string \<Rightarrow> string" where
  "text_addClassName c s =
     (if text_hasClassName c s then s else s @ (if s \<noteq> [] then '' '' else []) @ c)"

text \<open>
  \<open>(^|\s+)c(\s+|$)\<close>: what follows the first match; the white space before the name is part of it.  The
  first argument is whether this is the beginning of the text.
\<close>

definition removal_here :: "bool \<Rightarrow> string \<Rightarrow> string \<Rightarrow> string option" where
  "removal_here front c s =
     (let r = dropWhile is_ws s
      in if (front \<or> r \<noteq> s) \<and> take (length c) r = c \<and> word_end (drop (length c) r)
         then Some (dropWhile is_ws (drop (length c) r)) else None)"

fun remove_first :: "bool \<Rightarrow> string \<Rightarrow> string \<Rightarrow> string" where
  "remove_first front c [] = []"
| "remove_first front c (x # s) =
     (case removal_here front c (x # s) of
        Some r \<Rightarrow> '' '' @ r
      | None \<Rightarrow> x # remove_first False c s)"

definition text_removeClassName :: "string \<Rightarrow> string \<Rightarrow> string" where
  "text_removeClassName c s = strip (remove_first True c s)"

section \<open>Words\<close>

function word_list :: "string \<Rightarrow> string list" where
  "word_list s =
     (let r = dropWhile is_ws s
      in if r = [] then [] else takeWhile (\<lambda>c. \<not> is_ws c) r # word_list (dropWhile (\<lambda>c. \<not> is_ws c) r))"
  by pat_completeness auto
termination
proof (relation "measure length")
  fix s x assume x: "x = dropWhile is_ws s" "x \<noteq> []"
  then have "\<not> is_ws (hd x)" using hd_dropWhile by metis
  then have "length (dropWhile (\<lambda>c. \<not> is_ws c) x) < length x"
    using x(2) length_dropWhile_le [of "\<lambda>c. \<not> is_ws c" "tl x"] by (cases x) auto
  moreover have "length x \<le> length s" by (simp add: x(1) length_dropWhile_le)
  ultimately show "(dropWhile (\<lambda>c. \<not> is_ws c) x, s) \<in> measure length" by simp
qed simp

declare word_list.simps [simp del]

lemma word_list_Nil [simp]: "word_list [] = []"
  by (simp add: word_list.simps)

lemma word_list_ws: "is_ws x \<Longrightarrow> word_list (x # s) = word_list s"
  by (subst (1 2) word_list.simps) simp

lemma word_list_drop: "word_list (dropWhile is_ws s) = word_list s"
  by (induction s) (simp_all add: word_list_ws)

lemma word_list_word:
  "w \<noteq> [] \<Longrightarrow> list_all (\<lambda>c. \<not> is_ws c) w \<Longrightarrow> word_end r \<Longrightarrow> word_list (w @ r) = w # word_list r"
proof -
  assume w: "w \<noteq> []" "list_all (\<lambda>c. \<not> is_ws c) w" and r: "word_end r"
  have "dropWhile is_ws (w @ r) = w @ r" using w by (cases w) simp_all
  moreover have "takeWhile (\<lambda>c. \<not> is_ws c) (w @ r) = w" "dropWhile (\<lambda>c. \<not> is_ws c) (w @ r) = r"
    using w(2) r by (cases r; auto simp: word_end_def list_all_iff takeWhile_append dropWhile_append)+
  ultimately show ?thesis using w(1) by (subst word_list.simps) (simp add: Let_def)
qed

definition class_name :: "string \<Rightarrow> bool" where
  "class_name c \<longleftrightarrow> c \<noteq> [] \<and> list_all (\<lambda>x. \<not> is_ws x) c"

lemma skip_blank: "list_all is_ws u \<Longrightarrow> word_list (u @ r) = word_list r"
  by (induction u) (simp_all add: word_list_ws)

lemma word_list_step:
  "list_all is_ws u \<Longrightarrow> class_name w \<Longrightarrow> word_end q \<Longrightarrow> word_list (u @ w @ q) = w # word_list q"
  by (simp add: skip_blank class_name_def word_list_word)

text \<open>Induction over the words of a text.\<close>

lemma word_induct [case_names blank word]:
  assumes blank: "\<And>u. list_all is_ws u \<Longrightarrow> P u"
    and word: "\<And>u w q. list_all is_ws u \<Longrightarrow> class_name w \<Longrightarrow> word_end q \<Longrightarrow> P q \<Longrightarrow> P (u @ w @ q)"
  shows "P s"
proof (induction s rule: length_induct)
  case (1 s)
  define u r where "u = takeWhile is_ws s" and "r = dropWhile is_ws s"
  define w q where "w = takeWhile (\<lambda>c. \<not> is_ws c) r" and "q = dropWhile (\<lambda>c. \<not> is_ws c) r"
  have s: "s = u @ w @ q" by (simp add: u_def r_def w_def q_def)
  have u: "list_all is_ws u" by (auto simp: u_def list_all_iff dest: set_takeWhileD)
  have w: "list_all (\<lambda>c. \<not> is_ws c) w" by (auto simp: w_def list_all_iff dest: set_takeWhileD)
  have q: "word_end q" using hd_dropWhile [of "\<lambda>c. \<not> is_ws c" r] by (auto simp: word_end_def q_def)
  show ?case
  proof (cases "r = []")
    case True
    then have "s = u" by (metis append_Nil2 r_def takeWhile_dropWhile_id u_def)
    then show ?thesis using blank u by metis
  next
    case False
    then have "\<not> is_ws (hd r)" using hd_dropWhile [of is_ws s] unfolding r_def by blast
    then have "w \<noteq> []" using False by (cases r) (simp_all add: w_def)
    then show ?thesis using word [OF u _ q] w 1 s by (simp add: class_name_def)
  qed
qed

text \<open>Words of two parts with white space or an end between them.\<close>

lemma word_end_append: "word_end q \<Longrightarrow> word_end b \<Longrightarrow> word_end (q @ b)"
  by (cases q) (simp_all add: word_end_def)

lemma word_list_blank: "list_all is_ws b \<Longrightarrow> word_list b = []"
  by (induction b) (simp_all add: word_list_ws)

lemma word_list_append: "word_end b \<Longrightarrow> word_list (a @ b) = word_list a @ word_list b"
proof (induction a rule: word_induct)
  case (blank u)
  then show ?case by (simp add: skip_blank word_list_blank)
next
  case (word u w q)
  then show ?case using word_list_step [OF word(1,2), of "q @ b"] word_list_step [OF word(1-3)] word_end_append by simp
qed

lemma word_list_after: "a = [] \<or> is_ws (last a) \<Longrightarrow> word_list (a @ b) = word_list a @ word_list b"
proof (cases a rule: rev_cases)
  case (snoc a' x)
  assume "a = [] \<or> is_ws (last a)"
  then have "is_ws x" using snoc by simp
  then have "word_list (a' @ x # b) = word_list a' @ word_list b" "word_list (a' @ [x]) = word_list a'"
    using word_list_append [of "x # b" a'] word_list_append [of "[x]" a'] by (simp_all add: word_end_def word_list_ws)
  then show ?thesis by (simp add: snoc)
qed simp

text \<open>The words that \<open>_each\<close> hands on; the collection is one of the interface of \<open>Enumerable\<close>.\<close>

lemma each_words: "cn_each s = word_list s"
proof (induction s rule: split_ws.induct)
  case (1 s)
  define w r where "w = takeWhile (\<lambda>c. \<not> is_ws c) s" and "r = dropWhile (\<lambda>c. \<not> is_ws c) s"
  have e: "word_end r" using hd_dropWhile [of "\<lambda>c. \<not> is_ws c" s] by (auto simp: word_end_def r_def)
  have "list_all (\<lambda>c. \<not> is_ws c) w" by (auto simp: w_def list_all_iff dest: set_takeWhileD)
  then have w: "word_list w = (if w = [] then [] else [w])" using word_list_word [of w "[]"] by (auto simp: word_end_def)
  have "s = w @ r" by (simp add: w_def r_def)
  then have s: "word_list s = word_list w @ word_list (dropWhile is_ws r)"
    using word_list_append [OF e, of w] by (simp add: word_list_drop)
  have sp: "split_ws s = (if r = [] then [w] else w # split_ws (dropWhile is_ws r))"
    unfolding w_def r_def by (subst split_ws.simps) (simp only: Let_def)
  show ?case
  proof (cases "r = []")
    case True
    then show ?thesis using s w sp by (simp add: cn_each_def)
  next
    case False
    then show ?thesis using 1 [OF w_def r_def False] s w sp by (simp add: cn_each_def)
  qed
qed

interpretation class_names: enumerable cn_each "\<lambda>_. True" word_list
  by unfold_locales (simp add: each_words)

section \<open>The text refines the list\<close>

lemma words_around:
  assumes "class_name c" "a = [] \<or> is_ws (last a)" "word_end b"
  shows "word_list (a @ c @ b) = word_list a @ c # word_list b"
  using assms word_list_after [OF assms(2)] word_list_word [of c b] by (simp add: class_name_def)

lemma word_found:
  assumes c: "class_name c"
  shows "c \<in> set (word_list s) \<Longrightarrow> \<exists>a b. s = a @ c @ b \<and> (a = [] \<or> is_ws (last a)) \<and> word_end b"
proof (induction s rule: word_induct)
  case (blank u)
  then show ?case by (simp add: word_list_blank)
next
  case (word u w q)
  consider "c = w" | "c \<in> set (word_list q)" using word(5) word_list_step [OF word(1-3)] by auto
  then show ?case
  proof cases
    case 1
    have "u = [] \<or> is_ws (last u)" using word(1) by (cases u rule: rev_cases) simp_all
    then show ?thesis using 1 word(3) by blast
  next
    case 2
    then obtain a b where ab: "q = a @ c @ b" "a = [] \<or> is_ws (last a)" "word_end b" using word(4) by blast
    have "a \<noteq> []"
    proof
      assume "a = []"
      then show False using word(3) ab(1) c by (cases c) (auto simp: word_end_def class_name_def)
    qed
    then show ?thesis using ab by (intro exI [of _ "u @ w @ a"] exI [of _ b]) simp
  qed
qed

lemma name_at_words: "class_name c \<Longrightarrow> i < length s \<Longrightarrow> name_at c s i \<Longrightarrow> c \<in> set (word_list s)"
proof -
  assume c: "class_name c" and i: "i < length s" "name_at c s i"
  have "s = take i s @ take (length c) (drop i s) @ drop (length c) (drop i s)" by (metis append_take_drop_id)
  then have s: "s = take i s @ c @ drop (i + length c) s" using i(2) by (simp add: name_at_def add.commute)
  have "take i s = [] \<or> is_ws (last (take i s))"
    using i by (cases i) (auto simp: name_at_def take_Suc_conv_app_nth)
  then have "word_list (take i s @ c @ drop (i + length c) s) = word_list (take i s) @ c # word_list (drop (i + length c) s)"
    using words_around [OF c] i(2) by (simp add: name_at_def)
  then show ?thesis using s by (metis in_set_conv_decomp)
qed

lemma has_words:
  assumes c: "class_name c"
  shows "text_hasClassName c s \<longleftrightarrow> c \<in> set (word_list s)"
proof
  assume "text_hasClassName c s"
  then show "c \<in> set (word_list s)"
    using words_around [OF c, of "[]" "[]"] name_at_words [OF c]
    by (auto simp: text_hasClassName_def list_ex_iff word_end_def)
next
  assume "c \<in> set (word_list s)"
  then obtain a b where ab: "s = a @ c @ b" "a = [] \<or> is_ws (last a)" "word_end b" using word_found [OF c] by blast
  then have "length a = 0 \<or> is_ws (s ! (length a - 1))" by (cases a rule: rev_cases) (auto simp: nth_append)
  then have "name_at c s (length a)" using ab by (simp add: name_at_def)
  moreover have "length a < length s" using ab(1) c by (simp add: class_name_def)
  ultimately show "text_hasClassName c s" by (auto simp: text_hasClassName_def list_ex_iff)
qed

lemma add_words:
  assumes c: "class_name c"
  shows "word_list (text_addClassName c s) = (if c \<in> set (word_list s) then word_list s else word_list s @ [c])"
proof -
  have "word_list (s @ '' '' @ c) = word_list s @ [c]"
    using word_list_append [of "'' '' @ c" s] word_list_word [of c "[]"] c
    by (simp add: word_end_def class_name_def is_ws_def word_list_ws)
  moreover have "word_list c = [c]" using words_around [OF c, of "[]" "[]"] by (simp add: word_end_def)
  ultimately show ?thesis by (simp add: text_addClassName_def has_words [OF c])
qed

text \<open>How far the removal goes before the first match.\<close>

lemma remove_in_word:
  "list_all (\<lambda>x. \<not> is_ws x) u \<Longrightarrow> remove_first False c (u @ t) = u @ remove_first False c t"
  by (induction u) (simp_all add: removal_here_def)

lemma dropWhile_blank: "list_all is_ws u \<Longrightarrow> dropWhile is_ws (u @ r) = dropWhile is_ws r"
  by (induction u) simp_all

definition first_is :: "string \<Rightarrow> string \<Rightarrow> bool" where
  "first_is c r \<longleftrightarrow> take (length c) r = c \<and> word_end (drop (length c) r)"

lemma remove_blank:
  assumes "\<not> first_is c r" "r = [] \<or> \<not> is_ws (hd r)"
  shows "list_all is_ws u \<Longrightarrow> remove_first front c (u @ r) = u @ remove_first (front \<and> u = []) c r"
proof (induction u arbitrary: front)
  case (Cons x u)
  have "dropWhile is_ws r = r" using assms(2) by (cases r) simp_all
  then have "removal_here front c (x # u @ r) = None"
    using Cons.prems assms(1) dropWhile_blank [of "x # u" r] by (simp add: removal_here_def first_is_def)
  then show ?case using Cons by simp
qed simp

lemma first_is_word:
  assumes "class_name c" "class_name w" "word_end q"
  shows "first_is c (w @ q) \<longleftrightarrow> c = w"
proof
  assume f: "first_is c (w @ q)"
  then have s: "w @ q = c @ drop (length c) (w @ q)" by (metis append_take_drop_id first_is_def)
  have "word_list (w @ q) = w # word_list q" "word_list (c @ drop (length c) (w @ q)) = c # word_list (drop (length c) (w @ q))"
    using assms f word_list_word by (simp_all add: class_name_def first_is_def)
  then show "c = w" using s by (metis list.inject)
qed (use assms in \<open>simp add: first_is_def\<close>)

lemma remove_front:
  assumes "\<not> first_is c (x # s)" "\<not> is_ws x"
  shows "remove_first front c (x # s) = x # remove_first False c s"
proof -
  have "removal_here front c (x # s) = None" using assms by (auto simp: removal_here_def first_is_def Let_def)
  then show ?thesis by simp
qed

lemma remove_step:
  assumes c: "class_name c" and p: "list_all is_ws u" "class_name w" "word_end q"
  shows "remove_first front c (u @ w @ q) =
    (if c = w \<and> (front \<or> u \<noteq> []) then '' '' @ dropWhile is_ws q else u @ w @ remove_first False c q)"
proof -
  obtain x w' where w: "w = x # w'" "\<not> is_ws x" "list_all (\<lambda>x. \<not> is_ws x) w'" using p(2) by (cases w) (auto simp: class_name_def)
  have d: "dropWhile is_ws (u @ w @ q) = w @ q" using dropWhile_blank [OF p(1)] w by simp
  have fw: "first_is c (w @ q) \<longleftrightarrow> c = w" by (rule first_is_word [OF c p(2,3)])
  show ?thesis
  proof (cases "c = w")
    case True
    then have h: "removal_here f c (u @ w @ q) = (if f \<or> u \<noteq> [] then Some (dropWhile is_ws q) else None)" for f
      using d fw p(3) by (auto simp: removal_here_def Let_def first_is_def)
    show ?thesis
    proof (cases "front \<or> u \<noteq> []")
      case True
      then show ?thesis using h \<open>c = w\<close> w by (cases "u @ w @ q") auto
    next
      case False
      then show ?thesis using h [of False] \<open>c = w\<close> w remove_in_word [OF w(3)] by simp
    qed
  next
    case False
    have "remove_first f c (w @ q) = w @ remove_first False c q" for f
      using remove_front [of c x "w' @ q" f] fw False w remove_in_word [OF w(3)] by simp
    then show ?thesis using remove_blank [of c "w @ q" u front] p(1) fw False w by simp
  qed
qed

lemma remove_keeps_blank: "class_name c \<Longrightarrow> list_all is_ws u \<Longrightarrow> remove_first front c u = u"
  using remove_blank [of c "[]" u front] by (auto simp: first_is_def class_name_def)

lemma remove_first_words:
  assumes c: "class_name c"
  shows "front \<or> word_end s \<Longrightarrow> word_list (remove_first front c s) = remove1 c (word_list s) \<and>
    (word_end s \<longrightarrow> word_end (remove_first front c s))"
proof (induction s arbitrary: front rule: word_induct)
  case (blank u)
  then show ?case by (simp add: remove_keeps_blank [OF c] word_list_blank)
next
  case (word u w q)
  note st = remove_step [OF c word(1-3), of front] and wl = word_list_step [OF word(1,2)]
  have fu: "front \<or> u \<noteq> []" using word(5) word(2) by (cases w) (auto simp: word_end_def class_name_def)
  have ih: "word_list (remove_first False c q) = remove1 c (word_list q)" "word_end (remove_first False c q)"
    using word(4) [of False] word(3) by simp_all
  have e: "word_end (u @ w @ t)" if "word_end (u @ w @ q)" for t
    using that word(2) by (cases u) (auto simp: word_end_def class_name_def hd_append)
  show ?case
  proof (cases "c = w")
    case True
    then show ?thesis using st fu wl [OF word(3)] by (simp add: word_list_ws word_list_drop is_ws_def word_end_def)
  next
    case False
    then show ?thesis using st wl [OF word(3)] wl [OF ih(2)] ih(1) e by auto
  qed
qed

lemma strip_words: "word_list (strip s) = word_list s"
proof -
  have r: "word_list (rtrim t) = word_list t" for t
  proof -
    define b where "b = rev (takeWhile is_ws (rev t))"
    have t: "t = rtrim t @ b" by (simp add: rtrim_def b_def flip: rev_append)
    have b: "list_all is_ws b" by (auto simp: b_def list_all_iff dest: set_takeWhileD)
    then have "word_end b" by (cases b) (simp_all add: word_end_def)
    then have "word_list (rtrim t @ b) = word_list (rtrim t)" using word_list_append b by (simp add: word_list_blank)
    then show ?thesis using t by simp
  qed
  show ?thesis by (simp add: strip_def r ltrim_def word_list_drop)
qed

text \<open>
  C40. The methods of an element on the text of its class names do what their names say to the list of the names: the
  test finds a name exactly when it is one of the words, adding appends a name that is not there, and
  removing takes away its first occurrence.
\<close>

theorem class_text_refines:
  assumes "class_name c"
  shows "(text_hasClassName c s \<longleftrightarrow> c \<in> set (cn_each s)) \<and>
    cn_each (text_addClassName c s) = (if c \<in> set (cn_each s) then cn_each s else cn_each s @ [c]) \<and>
    cn_each (text_removeClassName c s) = remove1 c (cn_each s)"
  using has_words [OF assms] add_words [OF assms] remove_first_words [OF assms, of True s]
  by (simp add: each_words text_removeClassName_def strip_words)

theorem class_text_refines_witness:
  "(text_hasClassName ''on'' ''big  on last'' \<longleftrightarrow> ''on'' \<in> set (cn_each ''big  on last'')) \<and>
   cn_each (text_addClassName ''on'' ''big  on last'') =
     (if ''on'' \<in> set (cn_each ''big  on last'') then cn_each ''big  on last'' else cn_each ''big  on last'' @ [''on'']) \<and>
   cn_each (text_removeClassName ''on'' ''big  on last'') = remove1 ''on'' (cn_each ''big  on last'')"
  by (rule class_text_refines) (simp add: class_name_def is_ws_def)

lemma class_text_sample: "text_removeClassName ''on'' ''big  on last'' = ''big last''"
  by code_simp

text \<open>A name that stands twice is only removed once by the element, and altogether by \<open>ClassNames\<close>.\<close>

lemma removed_once: "text_hasClassName ''a'' (text_removeClassName ''a'' ''a b a'')" "cn_remove ''a'' ''a b a'' = ''b''"
  by code_simp+

lemma cn_words:
  assumes "class_name c"
  shows "cn_each (cn_add c s) = (if c \<in> set (cn_each s) then cn_each s else cn_each s @ [c])"
    "cn_each (cn_remove c s) = filter (\<lambda>name. name \<noteq> c) (cn_each s)" "cn_each (cn_toString s) = cn_each s"
proof -
  have j: "word_list (join '' '' ws) = ws" if "list_all class_name ws" for ws
    using that
  proof (induction ws)
    case (Cons w ws)
    have w: "class_name w" "word_list (join '' '' ws) = ws" using Cons by simp_all
    have "word_list (w @ '' '' @ join '' '' ws) = w # ws"
      using word_list_step [of "[]" w "'' '' @ join '' '' ws"] w by (simp add: word_end_def is_ws_def word_list_ws)
    then show ?case using word_list_step [of "[]" w "[]"] w by (cases "ws = []") (simp_all add: join_Cons word_end_def)
  qed simp
  have a: "list_all class_name (word_list s)"
    by (induction s rule: word_induct) (simp_all add: word_list_blank word_list_step)
  show "cn_each (cn_add c s) = (if c \<in> set (cn_each s) then cn_each s else cn_each s @ [c])"
    using j [of "word_list s @ [c]"] a assms by (simp add: cn_add_def each_words)
  have "list_all class_name (filter (\<lambda>name. name \<noteq> c) (word_list s))" using a by (simp add: list_all_iff)
  moreover have "c \<notin> set (word_list s) \<Longrightarrow> filter (\<lambda>name. name \<noteq> c) (word_list s) = word_list s" by (auto simp: filter_id_conv)
  ultimately show "cn_each (cn_remove c s) = filter (\<lambda>name. name \<noteq> c) (cn_each s)"
    using j by (simp add: cn_remove_def each_words)
  show "cn_each (cn_toString s) = cn_each s" using j [OF a] by (simp add: cn_toString_def each_words)
qed

end
