(* ===== verification/ProtoClass.thy ===== *)
theory ProtoClass
  imports ProtoHash
begin

text \<open>
  \<open>Class\<close> and the methods of functions of \<open>prototype.js\<close>: the names of the arguments of a function,
  \<open>Class.create\<close> and \<open>addMethods\<close> with the prototypes that inherit from each other, and the calls of
  \<open>$super\<close>.  Classes are numbered in the order they are made, so that a parent has a smaller number.
  A function is its text and whether its body calls its first argument.
\<close>

section \<open>Functions\<close>

record fn =
  fn_text :: string
  fn_number :: nat
  fn_calls_first :: bool

text \<open>\<open>/^[\s\(]*function[^(]*\(([^\)]*)\)/\<close>; without a match the code throws.\<close>

definition header_args :: "string \<Rightarrow> string option" where
  "header_args s =
     (let r = dropWhile (\<lambda>c. is_ws c \<or> c = CHR ''('') s
      in if take 8 r \<noteq> ''function'' then None
         else case dropWhile (\<lambda>c. c \<noteq> CHR ''('') (drop 8 r) of
                [] \<Rightarrow> None
              | _ # u \<Rightarrow>
                  if CHR '')'' \<in> set u then Some (takeWhile (\<lambda>c. c \<noteq> CHR '')'') u) else None)"

definition argumentNames :: "fn \<Rightarrow> string list option" where
  "argumentNames f =
     (case header_args (fn_text f) of
        None \<Rightarrow> None
      | Some args \<Rightarrow>
          let names = split_char CHR '','' (filter (\<lambda>c. \<not> is_ws c) args)
          in Some (if names = [[]] then [] else names))"

text \<open>
  \<open>bind\<close>, \<open>curry\<close> and \<open>methodize\<close>; a function takes \<open>this\<close> and its arguments.  Without
  an object and arguments \<open>bind\<close> returns the function itself.
\<close>

type_synonym 'v js_fn = "'v \<Rightarrow> 'v list \<Rightarrow> 'v"

definition fn_bind :: "'v js_fn \<Rightarrow> 'v option \<Rightarrow> 'v list \<Rightarrow> 'v \<Rightarrow> 'v js_fn" where
  "fn_bind f ob args undefined_value =
     (case ob of
        None \<Rightarrow> if args = [] then f else (\<lambda>_ xs. f undefined_value (args @ xs))
      | Some ob \<Rightarrow> (\<lambda>_ xs. f ob (args @ xs)))"

definition fn_curry :: "'v js_fn \<Rightarrow> 'v list \<Rightarrow> 'v js_fn" where
  "fn_curry f args = (if args = [] then f else (\<lambda>this xs. f this (args @ xs)))"

text \<open>A listener that gets no event uses that of the window.\<close>

definition bindAsEventListener :: "'v js_fn \<Rightarrow> 'v \<Rightarrow> 'v list \<Rightarrow> 'v \<Rightarrow> 'v js_fn" where
  "bindAsEventListener f ob args window_event =
     (\<lambda>_ xs. f ob ((case xs of [] \<Rightarrow> window_event | event # _ \<Rightarrow> event) # args))"

definition fn_methodize :: "'v js_fn \<Rightarrow> 'v \<Rightarrow> 'v js_fn" where
  "fn_methodize f null = (\<lambda>this xs. f null (this # xs))"

text \<open>\<open>wrap\<close>; \<open>as_value\<close> makes a value of a function.\<close>

definition fn_wrap :: "('v js_fn \<Rightarrow> 'v) \<Rightarrow> 'v js_fn \<Rightarrow> 'v js_fn \<Rightarrow> 'v js_fn" where
  "fn_wrap as_value f wrapper = (\<lambda>this xs. wrapper this (as_value (\<lambda>_ ys. f this ys) # xs))"

section \<open>Classes\<close>

text \<open>
  A property of a prototype: a value that is no function and not falsy, a function, or a function
  that gets the method of the same name of the ancestor as its first argument.  The properties that
  every object has from the language, such as \<open>toString\<close>, are left out.
\<close>

datatype member =
    Plain string
  | Method fn
  | Super fn nat

record js_class =
  k_superclass :: "nat option"
  k_subclasses :: "nat list"
  k_members :: "member props"

type_synonym classes = "js_class list"

datatype source_value = SVal string | SFun fn

text \<open>The value that \<open>addMethods\<close> stores; \<open>None\<close> when the names of the arguments cannot be read.\<close>

definition stored_value :: "nat option \<Rightarrow> source_value \<Rightarrow> member option" where
  "stored_value ancestor value =
     (case value of
        SVal s \<Rightarrow> Some (Plain s)
      | SFun f \<Rightarrow>
          (case ancestor of
             None \<Rightarrow> Some (Method f)
           | Some a \<Rightarrow>
               (case argumentNames f of
                  None \<Rightarrow> None
                | Some names \<Rightarrow>
                    Some (if names \<noteq> [] \<and> hd names = ''$super'' then Super f a else Method f))))"

definition set_member :: "nat \<Rightarrow> string \<Rightarrow> member \<Rightarrow> classes \<Rightarrow> classes" where
  "set_member c name m ks = ks[c := (ks ! c)\<lparr>k_members := AList.update name m (k_members (ks ! c))\<rparr>]"

fun addMethods :: "nat \<Rightarrow> source_value props \<Rightarrow> classes \<Rightarrow> classes option" where
  "addMethods c [] ks = Some ks"
| "addMethods c ((name, value) # source) ks =
     (case stored_value (k_superclass (ks ! c)) value of
        None \<Rightarrow> None
      | Some m \<Rightarrow> addMethods c source (set_member c name m ks))"

fun add_all :: "nat \<Rightarrow> source_value props list \<Rightarrow> classes \<Rightarrow> classes option" where
  "add_all c [] ks = Some ks"
| "add_all c (source # sources) ks =
     (case addMethods c source ks of None \<Rightarrow> None | Some ks \<Rightarrow> add_all c sources ks)"

text \<open>Reading a property goes up the prototypes; \<open>n\<close> bounds the number of steps.\<close>

fun lookup :: "nat \<Rightarrow> classes \<Rightarrow> nat \<Rightarrow> string \<Rightarrow> (nat \<times> member) option" where
  "lookup 0 ks c name = None"
| "lookup (Suc n) ks c name =
     (case map_of (k_members (ks ! c)) name of
        Some m \<Rightarrow> Some (c, m)
      | None \<Rightarrow> (case k_superclass (ks ! c) of None \<Rightarrow> None | Some p \<Rightarrow> lookup n ks p name))"

definition member_of :: "classes \<Rightarrow> nat \<Rightarrow> string \<Rightarrow> (nat \<times> member) option" where
  "member_of ks c name = lookup (length ks) ks c name"

definition emptyFunction :: fn where
  "emptyFunction = \<lparr>fn_text = ''function() { }'', fn_number = 0, fn_calls_first = False\<rparr>"

definition new_class :: "nat option \<Rightarrow> classes \<Rightarrow> classes" where
  "new_class parent ks =
     (let ks' = ks @ [\<lparr>k_superclass = parent, k_subclasses = [], k_members = []\<rparr>]
      in case parent of
           None \<Rightarrow> ks'
         | Some p \<Rightarrow> ks'[p := (ks' ! p)\<lparr>k_subclasses := k_subclasses (ks' ! p) @ [length ks]\<rparr>])"

definition finish_class :: "nat \<Rightarrow> classes \<Rightarrow> classes" where
  "finish_class c ks =
     (let ks = (if member_of ks c ''initialize'' = None then set_member c ''initialize'' (Method emptyFunction) ks else ks)
      in set_member c ''constructor'' (Plain ''klass'') ks)"

definition class_create :: "nat option \<Rightarrow> source_value props list \<Rightarrow> classes \<Rightarrow> (classes \<times> nat) option" where
  "class_create parent sources ks =
     (let c = length ks
      in map_option (\<lambda>ks. (finish_class c ks, c)) (add_all c sources (new_class parent ks)))"

section \<open>Calls\<close>

text \<open>
  The functions that a call of a method runs, in their order.  A function that calls its first
  argument, \<open>$super\<close>, runs the method of the ancestor, which is looked up at the time of the call.
  \<open>None\<close> is a call of something that is no function.
\<close>

fun call_method :: "nat \<Rightarrow> classes \<Rightarrow> nat \<Rightarrow> string \<Rightarrow> nat list option" where
  "call_method 0 ks c name = None"
| "call_method (Suc n) ks c name =
     (case member_of ks c name of
        None \<Rightarrow> None
      | Some (_, Plain s) \<Rightarrow> None
      | Some (_, Method f) \<Rightarrow> Some [fn_number f]
      | Some (_, Super f a) \<Rightarrow>
          if fn_calls_first f then map_option (\<lambda>fs. fn_number f # fs) (call_method n ks a name)
          else Some [fn_number f])"

definition js_call :: "classes \<Rightarrow> nat \<Rightarrow> string \<Rightarrow> nat list option" where
  "js_call ks c name = call_method (Suc (length ks)) ks c name"

definition js_new :: "classes \<Rightarrow> nat \<Rightarrow> nat list option" where
  "js_new ks c = js_call ks c ''initialize''"

section \<open>The order of the ancestors\<close>

definition classes_ok :: "classes \<Rightarrow> bool" where
  "classes_ok ks \<longleftrightarrow> (\<forall>c < length ks.
     (\<forall>p. k_superclass (ks ! c) = Some p \<longrightarrow> p < c) \<and>
     (\<forall>name f a. map_of (k_members (ks ! c)) name = Some (Super f a) \<longrightarrow> k_superclass (ks ! c) = Some a))"

lemma parent_less: "classes_ok ks \<Longrightarrow> c < length ks \<Longrightarrow> k_superclass (ks ! c) = Some p \<Longrightarrow> p < c"
  by (simp add: classes_ok_def)

lemma lookup_enough:
  "classes_ok ks \<Longrightarrow> c < length ks \<Longrightarrow> c < n \<Longrightarrow> c < m \<Longrightarrow> lookup n ks c name = lookup m ks c name"
proof (induction c arbitrary: n m rule: less_induct)
  case (less c)
  obtain n' m' where nm: "n = Suc n'" "m = Suc m'" using less.prems by (cases n; cases m) auto
  have "lookup n' ks p name = lookup m' ks p name" if "k_superclass (ks ! c) = Some p" for p
    using parent_less [OF less.prems(1,2) that] less.prems nm by (intro less.IH) simp_all
  then show ?case by (simp add: nm split: option.split)
qed

lemma member_of_step:
  assumes "classes_ok ks" "c < length ks"
  shows "member_of ks c name =
    (case map_of (k_members (ks ! c)) name of
       Some m \<Rightarrow> Some (c, m)
     | None \<Rightarrow> (case k_superclass (ks ! c) of None \<Rightarrow> None | Some p \<Rightarrow> member_of ks p name))"
proof -
  have "member_of ks c name = lookup (Suc (length ks)) ks c name"
    using lookup_enough [OF assms, of "length ks" "Suc (length ks)"] assms(2) by (simp add: member_of_def)
  then show ?thesis by (simp add: member_of_def split: option.split)
qed

lemma member_of_super:
  "classes_ok ks \<Longrightarrow> c < length ks \<Longrightarrow> member_of ks c name = Some (d, Super f a) \<Longrightarrow> a < c"
proof (induction c rule: less_induct)
  case (less c)
  show ?case
  proof (cases "map_of (k_members (ks ! c)) name")
    case None
    then obtain p where p: "k_superclass (ks ! c) = Some p" "member_of ks p name = Some (d, Super f a)"
      using less.prems by (auto simp: member_of_step split: option.splits)
    then show ?thesis using less.IH [of p] parent_less [OF less.prems(1,2) p(1)] less.prems by simp
  next
    case (Some m)
    then have "k_superclass (ks ! c) = Some a" using less.prems by (auto simp: member_of_step classes_ok_def)
    then show ?thesis using parent_less less.prems by blast
  qed
qed

lemma call_enough:
  "classes_ok ks \<Longrightarrow> c < length ks \<Longrightarrow> c < n \<Longrightarrow> c < m \<Longrightarrow> call_method n ks c name = call_method m ks c name"
proof (induction c arbitrary: n m rule: less_induct)
  case (less c)
  obtain n' m' where nm: "n = Suc n'" "m = Suc m'" using less.prems by (cases n; cases m) auto
  have "call_method n' ks a name = call_method m' ks a name" if "member_of ks c name = Some (d, Super f a)" for d f a
    using member_of_super [OF less.prems(1,2) that] less.prems nm by (intro less.IH) simp_all
  then show ?case by (auto simp: nm split: option.split member.split)
qed

lemma js_call_step:
  assumes "classes_ok ks" "c < length ks"
  shows "js_call ks c name =
    (case member_of ks c name of
       None \<Rightarrow> None
     | Some (_, Plain s) \<Rightarrow> None
     | Some (_, Method f) \<Rightarrow> Some [fn_number f]
     | Some (_, Super f a) \<Rightarrow>
         if fn_calls_first f then map_option (\<lambda>fs. fn_number f # fs) (js_call ks a name) else Some [fn_number f])"
proof -
  have "call_method (length ks) ks a name = call_method (Suc (length ks)) ks a name"
    if "member_of ks c name = Some (d, Super f a)" for d f a
    using member_of_super [OF assms that] assms by (intro call_enough) simp_all
  then show ?thesis by (auto simp: js_call_def split: option.split member.split)
qed

lemma js_call_inherited:
  assumes "classes_ok ks" "c < length ks" "map_of (k_members (ks ! c)) name = None" "k_superclass (ks ! c) = Some p"
  shows "js_call ks c name = js_call ks p name"
proof -
  have "p < length ks" using parent_less [OF assms(1,2,4)] assms(2) by simp
  then show ?thesis using assms by (simp add: js_call_step [OF assms(1)] member_of_step [OF assms(1,2)])
qed

text \<open>What a call means: the definitions of the name from the class upwards.\<close>

fun class_chain :: "nat \<Rightarrow> classes \<Rightarrow> nat \<Rightarrow> nat list" where
  "class_chain 0 ks c = []"
| "class_chain (Suc n) ks c = c # (case k_superclass (ks ! c) of None \<Rightarrow> [] | Some p \<Rightarrow> class_chain n ks p)"

definition definitions_of :: "classes \<Rightarrow> nat \<Rightarrow> string \<Rightarrow> member list" where
  "definitions_of ks c name =
     concat (map (\<lambda>d. case map_of (k_members (ks ! d)) name of None \<Rightarrow> [] | Some m \<Rightarrow> [m]) (class_chain (length ks) ks c))"

fun call_definitions :: "member list \<Rightarrow> nat list option" where
  "call_definitions [] = None"
| "call_definitions (Plain s # ms) = None"
| "call_definitions (Method f # ms) = Some [fn_number f]"
| "call_definitions (Super f a # ms) =
     (if fn_calls_first f then map_option (\<lambda>fs. fn_number f # fs) (call_definitions ms) else Some [fn_number f])"

lemma chain_enough:
  "classes_ok ks \<Longrightarrow> c < length ks \<Longrightarrow> c < n \<Longrightarrow> c < m \<Longrightarrow> class_chain n ks c = class_chain m ks c"
proof (induction c arbitrary: n m rule: less_induct)
  case (less c)
  obtain n' m' where nm: "n = Suc n'" "m = Suc m'" using less.prems by (cases n; cases m) auto
  have "class_chain n' ks p = class_chain m' ks p" if "k_superclass (ks ! c) = Some p" for p
    using parent_less [OF less.prems(1,2) that] less.prems nm by (intro less.IH) simp_all
  then show ?case by (simp add: nm split: option.split)
qed

lemma definitions_step:
  assumes "classes_ok ks" "c < length ks"
  shows "definitions_of ks c name =
    (case map_of (k_members (ks ! c)) name of None \<Rightarrow> [] | Some m \<Rightarrow> [m]) @
    (case k_superclass (ks ! c) of None \<Rightarrow> [] | Some p \<Rightarrow> definitions_of ks p name)"
proof -
  have "class_chain (length ks) ks c = class_chain (Suc (length ks)) ks c"
    using assms by (intro chain_enough) simp_all
  then show ?thesis by (simp add: definitions_of_def split: option.split)
qed

lemma call_runs_definitions:
  "classes_ok ks \<Longrightarrow> c < length ks \<Longrightarrow> js_call ks c name = call_definitions (definitions_of ks c name)"
proof (induction c rule: less_induct)
  case (less c)
  note st = definitions_step [OF less.prems, of name]
  have up: "js_call ks p name = call_definitions (definitions_of ks p name)" if "k_superclass (ks ! c) = Some p" for p
    using parent_less [OF less.prems that] less.prems by (intro less.IH) simp_all
  show ?case
  proof (cases "map_of (k_members (ks ! c)) name")
    case None
    show ?thesis
    proof (cases "k_superclass (ks ! c)")
      case None
      then show ?thesis using \<open>map_of (k_members (ks ! c)) name = None\<close> st
        by (simp add: js_call_step [OF less.prems] member_of_step [OF less.prems])
    next
      case (Some p)
      then show ?thesis using None up [OF Some] js_call_inherited [OF less.prems None Some] st by simp
    qed
  next
    case (Some m)
    then have m: "member_of ks c name = Some (c, m)" by (simp add: member_of_step [OF less.prems])
    show ?thesis
    proof (cases m)
      case (Super f a)
      then have a: "k_superclass (ks ! c) = Some a" using Some less.prems by (auto simp: classes_ok_def)
      then show ?thesis using Super m Some st up [OF a] by (simp add: js_call_step [OF less.prems])
    qed (use m Some st in \<open>simp_all add: js_call_step [OF less.prems]\<close>)
  qed
qed

section \<open>Making a class\<close>

definition same_class :: "js_class \<Rightarrow> js_class \<Rightarrow> bool" where
  "same_class k k' \<longleftrightarrow> k_superclass k' = k_superclass k \<and> k_members k' = k_members k"

text \<open>The calls of a class depend only on the class and its ancestors.\<close>

lemma class_calls_frame:
  assumes "classes_ok ks" "classes_ok ks'" "length ks \<le> length ks'" "\<forall>d < length ks. same_class (ks ! d) (ks' ! d)"
  shows "d < length ks \<Longrightarrow> js_call ks' d name = js_call ks d name"
proof -
  have "d < length ks \<Longrightarrow> definitions_of ks' d name = definitions_of ks d name"
  proof (induction d rule: less_induct)
    case (less d)
    have "definitions_of ks' p name = definitions_of ks p name" if "k_superclass (ks ! d) = Some p" for p
      using parent_less [OF assms(1) less.prems that] less.prems by (intro less.IH) simp_all
    then show ?case
      using assms less.prems by (simp add: definitions_step same_class_def split: option.split)
  qed
  then show "d < length ks \<Longrightarrow> js_call ks' d name = js_call ks d name"
    using assms by (simp add: call_runs_definitions)
qed

lemma members_frame:
  assumes "classes_ok ks" "classes_ok ks'" "length ks \<le> length ks'" "\<forall>d < length ks. same_class (ks ! d) (ks' ! d)"
  shows "d < length ks \<Longrightarrow> member_of ks' d name = member_of ks d name"
proof (induction d rule: less_induct)
  case (less d)
  have "member_of ks' p name = member_of ks p name" if "k_superclass (ks ! d) = Some p" for p
    using parent_less [OF assms(1) less.prems that] less.prems by (intro less.IH) simp_all
  then show ?case using assms less.prems by (simp add: member_of_step same_class_def split: option.split)
qed

text \<open>What adding methods does to the members of a class.\<close>

definition adds_members :: "nat \<Rightarrow> source_value props \<Rightarrow> classes \<Rightarrow> classes \<Rightarrow> bool" where
  "adds_members c source ks ks' \<longleftrightarrow> length ks' = length ks \<and> (\<forall>d. d \<noteq> c \<longrightarrow> ks' ! d = ks ! d) \<and>
     k_superclass (ks' ! c) = k_superclass (ks ! c) \<and>
     (\<forall>name. map_of (k_members (ks' ! c)) name =
       (case map_of (rev source) name of
          None \<Rightarrow> map_of (k_members (ks ! c)) name
        | Some v \<Rightarrow> stored_value (k_superclass (ks ! c)) v)) \<and>
     (\<forall>name v. map_of (rev source) name = Some v \<longrightarrow> stored_value (k_superclass (ks ! c)) v \<noteq> None)"

lemma adds_members_trans:
  assumes "adds_members c s1 ks ks1" "adds_members c s2 ks1 ks2"
  shows "adds_members c (s1 @ s2) ks ks2"
  using assms by (auto simp: adds_members_def map_add_def split: option.split)

lemma adds_stored:
  "adds_members c source ks ks' \<Longrightarrow> map_of (rev source) name = Some v \<Longrightarrow> stored_value (k_superclass (ks ! c)) v \<noteq> None"
  unfolding adds_members_def by blast

lemma set_member_adds:
  "c < length ks \<Longrightarrow> stored_value (k_superclass (ks ! c)) v = Some m \<Longrightarrow> adds_members c [(name, v)] ks (set_member c name m ks)"
  by (auto simp: adds_members_def set_member_def AList.update_conv' nth_list_update)

lemma addMethods_adds: "c < length ks \<Longrightarrow> addMethods c source ks = Some ks' \<Longrightarrow> adds_members c source ks ks'"
proof (induction source arbitrary: ks)
  case Nil
  then show ?case by (simp add: adds_members_def)
next
  case (Cons nv source)
  obtain name v where nv: "nv = (name, v)" by (cases nv)
  obtain m where m: "stored_value (k_superclass (ks ! c)) v = Some m" "addMethods c source (set_member c name m ks) = Some ks'"
    using Cons.prems(2) by (auto simp: nv split: option.splits)
  have "adds_members c source (set_member c name m ks) ks'"
    using Cons.IH [OF _ m(2)] Cons.prems(1) by (simp add: set_member_def)
  then show ?case using adds_members_trans [OF set_member_adds [OF Cons.prems(1) m(1)]] by (simp add: nv)
qed

lemma add_all_adds: "c < length ks \<Longrightarrow> add_all c sources ks = Some ks' \<Longrightarrow> adds_members c (concat sources) ks ks'"
proof (induction sources arbitrary: ks)
  case Nil
  then show ?case by (simp add: adds_members_def)
next
  case (Cons source sources)
  obtain ks1 where k: "addMethods c source ks = Some ks1" "add_all c sources ks1 = Some ks'"
    using Cons.prems(2) by (auto split: option.splits)
  have a: "adds_members c source ks ks1" by (rule addMethods_adds [OF Cons.prems(1) k(1)])
  then have "c < length ks1" using Cons.prems(1) by (simp add: adds_members_def)
  then show ?case using adds_members_trans [OF a Cons.IH [OF _ k(2)]] by simp
qed

lemma stored_super: "stored_value q v = Some (Super f a) \<Longrightarrow> q = Some a"
  by (auto simp: stored_value_def split: source_value.splits option.splits if_splits)

lemma adds_members_ok:
  assumes "classes_ok ks" "adds_members c source ks ks'"
  shows "classes_ok ks'"
  unfolding classes_ok_def
proof (intro allI impI conjI)
  fix d assume d: "d < length ks'"
  show "p < d" if "k_superclass (ks' ! d) = Some p" for p
    using assms d that by (cases "d = c") (auto simp: adds_members_def classes_ok_def)
  show "k_superclass (ks' ! d) = Some a" if m: "map_of (k_members (ks' ! d)) name = Some (Super f a)" for name f a
  proof (cases "d = c")
    case True
    then have "stored_value (k_superclass (ks ! c)) v = Some (Super f a)" if "map_of (rev source) name = Some v" for v
      using m that assms(2) by (simp add: adds_members_def)
    then show ?thesis using m assms d True stored_super by (fastforce simp: adds_members_def classes_ok_def split: option.splits)
  next
    case False
    then show ?thesis using m assms d by (auto simp: adds_members_def classes_ok_def)
  qed
qed

lemma new_class_shape:
  assumes "classes_ok ks" "p < length ks" "ks' = new_class (Some p) ks"
  shows "length ks' = Suc (length ks)" "\<forall>d < length ks. same_class (ks ! d) (ks' ! d)"
    "k_superclass (ks' ! length ks) = Some p" "k_members (ks' ! length ks) = []" "classes_ok ks'"
proof -
  show l: "length ks' = Suc (length ks)" and s: "\<forall>d < length ks. same_class (ks ! d) (ks' ! d)"
    and q: "k_superclass (ks' ! length ks) = Some p" "k_members (ks' ! length ks) = []"
    using assms(2) unfolding assms(3) by (auto simp: new_class_def Let_def same_class_def nth_append nth_list_update)
  show "classes_ok ks'"
    unfolding classes_ok_def
  proof (intro allI impI)
    fix d assume "d < length ks'"
    then consider "d < length ks" | "d = length ks" using l by linarith
    then show "(\<forall>p. k_superclass (ks' ! d) = Some p \<longrightarrow> p < d) \<and>
        (\<forall>name f a. map_of (k_members (ks' ! d)) name = Some (Super f a) \<longrightarrow> k_superclass (ks' ! d) = Some a)"
      using assms(1,2) s q by cases (auto simp: classes_ok_def same_class_def)
  qed
qed

definition takes_super :: "fn \<Rightarrow> bool" where
  "takes_super f = (case argumentNames f of Some (name # _) \<Rightarrow> name = ''$super'' | _ \<Rightarrow> False)"

lemma stored_method: "stored_value (Some p) (SFun f) = Some m \<Longrightarrow> m = (if takes_super f then Super f p else Method f)"
  by (auto simp: stored_value_def takes_super_def split: option.splits list.splits)

text \<open>
  The sources and what is put in the end: \<open>initialize\<close> when there is none, and \<open>constructor\<close>.
\<close>

lemma finish_adds:
  assumes "c < length ks" "member_of ks c ''initialize'' \<noteq> None"
  shows "adds_members c [(''constructor'', SVal ''klass'')] ks (finish_class c ks)"
  using assms by (auto simp: finish_class_def set_member_adds stored_value_def)

lemma create_adds:
  assumes ok: "classes_ok ks" and p: "p < length ks" "member_of ks p ''initialize'' \<noteq> None"
    and cr: "class_create (Some p) sources ks = Some (ks', c)"
  shows "c = length ks" "adds_members c (concat sources @ [(''constructor'', SVal ''klass'')]) (new_class (Some p) ks) ks'"
proof -
  let ?n = "new_class (Some p) ks"
  note sh = new_class_shape [OF ok p(1) refl]
  obtain ks1 where k: "c = length ks" "add_all c sources ?n = Some ks1" "ks' = finish_class c ks1"
    using cr by (auto simp: class_create_def Let_def)
  have a1: "adds_members c (concat sources) ?n ks1" using add_all_adds [OF _ k(2)] sh(1) k(1) by simp
  have ok1: "classes_ok ks1" by (rule adds_members_ok [OF sh(5) a1])
  have c: "c < length ks1" using a1 sh(1) k(1) by (simp add: adds_members_def)
  have sp: "k_superclass (ks1 ! c) = Some p" using a1 sh(3) k(1) by (simp add: adds_members_def)
  have fr1: "\<forall>d < length ks. same_class (ks ! d) (ks1 ! d)" using a1 sh(2) k(1) by (simp add: adds_members_def)
  have l1: "length ks \<le> length ks1" using a1 sh(1) by (simp add: adds_members_def)
  have "member_of ks1 p ''initialize'' \<noteq> None" using members_frame [OF ok ok1 l1 fr1 p(1)] p(2) by simp
  then have "member_of ks1 c ''initialize'' \<noteq> None" using sp by (simp add: member_of_step [OF ok1 c] split: option.split)
  then have a2: "adds_members c [(''constructor'', SVal ''klass'')] ks1 ks'" unfolding k(3) by (rule finish_adds [OF c])
  show "c = length ks" by (rule k(1))
  show "adds_members c (concat sources @ [(''constructor'', SVal ''klass'')]) ?n ks'" by (rule adds_members_trans [OF a1 a2])
qed

lemma own_member_call:
  assumes ok: "classes_ok ks" and c: "c < length ks" "k_superclass (ks ! c) = Some p"
    and m: "map_of (k_members (ks ! c)) name = stored_value (Some p) v" "stored_value (Some p) v \<noteq> None"
  shows "js_call ks c name =
    (case v of
       SVal s \<Rightarrow> None
     | SFun f \<Rightarrow>
         if takes_super f \<and> fn_calls_first f then map_option (\<lambda>fs. fn_number f # fs) (js_call ks p name)
         else Some [fn_number f])"
proof -
  obtain x where x: "stored_value (Some p) v = Some x" using m(2) by blast
  then have mo: "member_of ks c name = Some (c, x)" using m(1) by (simp add: member_of_step [OF ok c(1)])
  show ?thesis
  proof (cases v)
    case (SVal t)
    then show ?thesis using x mo by (auto simp: js_call_step [OF ok c(1)] stored_value_def)
  next
    case (SFun f)
    then have "x = (if takes_super f then Super f p else Method f)" using x stored_method by simp
    then show ?thesis using SFun mo by (simp add: js_call_step [OF ok c(1)])
  qed
qed

text \<open>
  C33. A class that \<open>Class.create\<close> makes of a parent: all classes keep their calls; the new class has those
  of its parent, except for the names that the sources define, where the last definition counts; a
  function whose first argument is \<open>$super\<close> and that calls it goes on with the method of the parent.
\<close>

theorem create_inherits:
  assumes ok: "classes_ok ks" and p: "p < length ks" "member_of ks p ''initialize'' \<noteq> None"
    and cr: "class_create (Some p) sources ks = Some (ks', c)" and name: "name \<noteq> ''constructor''"
  shows "classes_ok ks' \<and> c = length ks \<and> (\<forall>d < c. js_call ks' d name = js_call ks d name) \<and>
    js_call ks' c name =
      (case map_of (rev (concat sources)) name of
         None \<Rightarrow> js_call ks p name
       | Some (SVal s) \<Rightarrow> None
       | Some (SFun f) \<Rightarrow>
           if takes_super f \<and> fn_calls_first f then map_option (\<lambda>fs. fn_number f # fs) (js_call ks p name)
           else Some [fn_number f])"
proof -
  note sh = new_class_shape [OF ok p(1) refl] and c = create_adds(1) [OF ok p cr] and a = create_adds(2) [OF ok p cr]
  have ok': "classes_ok ks'" by (rule adds_members_ok [OF sh(5) a])
  have c': "c < length ks'" "k_superclass (ks' ! c) = Some p" using a sh(1,3) c by (simp_all add: adds_members_def)
  have fr: "\<forall>d < length ks. same_class (ks ! d) (ks' ! d)" "length ks \<le> length ks'"
    using a sh(1,2) c by (simp_all add: adds_members_def)
  have keep: "js_call ks' d name = js_call ks d name" if "d < length ks" for d
    by (rule class_calls_frame [OF ok ok' fr(2,1) that])
  have own: "map_of (k_members (ks' ! c)) name =
      (case map_of (rev (concat sources)) name of None \<Rightarrow> None | Some v \<Rightarrow> stored_value (Some p) v)"
    using a sh(3,4) c name by (simp add: adds_members_def map_add_def split: option.split)
  have kept: "stored_value (Some p) v \<noteq> None" if "map_of (rev (concat sources)) name = Some v" for v
    using adds_stored [OF a, of name v] sh(3) c name that by simp
  have "js_call ks' c name = js_call ks p name" if "map_of (rev (concat sources)) name = None"
    using js_call_inherited [OF ok' c'(1) _ c'(2)] own that keep [OF p(1)] by simp
  moreover note own_member_call [OF ok' c'] own kept keep [OF p(1)]
  ultimately show ?thesis using ok' c keep by (simp split: option.split source_value.split)
qed

section \<open>The names of the arguments\<close>

text \<open>The text of a function with a name and arguments, blanks after each comma.\<close>

definition header_text :: "string \<Rightarrow> string list \<Rightarrow> string \<Rightarrow> string" where
  "header_text name args body = ''function '' @ name @ ''('' @ join '', '' args @ '') { '' @ body @ '' }''"

lemma join_blank: "filter (\<lambda>c. \<not> is_ws c) (join '', '' ws) = join '','' (map (filter (\<lambda>c. \<not> is_ws c)) ws)"
  by (induction "'', ''" ws rule: join.induct) (auto simp: is_ws_def)

lemma join_mem: "c \<in> set (join sep ws) \<Longrightarrow> c \<in> set sep \<or> (\<exists>w \<in> set ws. c \<in> set w)"
  by (induction sep ws rule: join.induct) auto

text \<open>
  \<open>argumentNames\<close> reads the names of the arguments off the text of a function.
\<close>

theorem argumentNames_printed:
  assumes "CHR ''('' \<notin> set name" and "\<forall>w \<in> set args. w \<noteq> [] \<and> CHR '')'' \<notin> set w \<and> CHR '','' \<notin> set w \<and> list_all (\<lambda>c. \<not> is_ws c) w"
  shows "argumentNames \<lparr>fn_text = header_text name args body, fn_number = n, fn_calls_first = b\<rparr> = Some args"
proof -
  let ?j = "join '', '' args"
  have "CHR '')'' \<notin> set ?j" using join_mem [of "CHR '')''" "'', ''" args] assms(2) by auto
  then have "takeWhile (\<lambda>c. c \<noteq> CHR '')'') (?j @ '') { '' @ body @ '' }'') = ?j" by (simp add: takeWhile_append)
  moreover have "dropWhile (\<lambda>c. c \<noteq> CHR ''('') (CHR '' '' # name @ ''('' @ ?j @ '') { '' @ body @ '' }'') = ''('' @ ?j @ '') { '' @ body @ '' }''"
    using assms(1) by (simp add: dropWhile_append)
  ultimately have h: "header_args (header_text name args body) = Some ?j"
    by (simp add: header_args_def header_text_def is_ws_def)
  have "map (filter (\<lambda>c. \<not> is_ws c)) args = args" using assms(2) by (auto simp: list_all_iff filter_id_conv intro!: map_idI)
  then have f: "filter (\<lambda>c. \<not> is_ws c) ?j = join '','' args" by (simp add: join_blank)
  show ?thesis
  proof (cases "args = []")
    case True
    then show ?thesis using h by (simp add: argumentNames_def)
  next
    case False
    then have "split_char CHR '','' (join '','' args) = args" using assms(2) by (intro split_char_join) auto
    moreover have "args \<noteq> [[]]" using assms(2) by auto
    ultimately show ?thesis using h f by (simp add: argumentNames_def)
  qed
qed

theorem argumentNames_printed_witness:
  "argumentNames \<lparr>fn_text = ''function f($super, x) { return x }'', fn_number = 1, fn_calls_first = False\<rparr> = Some [''$super'', ''x'']"
  using argumentNames_printed [of "''f''" "[''$super'', ''x'']" "''return x''" 1 False] by (simp add: header_text_def is_ws_def)

section \<open>Samples\<close>

definition sample_fn :: "nat \<Rightarrow> bool \<Rightarrow> fn" where
  "sample_fn n up = \<lparr>fn_text = (if up then ''function($super) { $super(); }'' else ''function() { }''), fn_number = n, fn_calls_first = up\<rparr>"

definition base_class :: classes where
  "base_class = (case class_create None [[(''initialize'', SFun (sample_fn 1 False)), (''stop'', SFun (sample_fn 2 False))]] [] of
     Some (ks, _) \<Rightarrow> ks | None \<Rightarrow> [])"

lemma base_class_eq:
  "base_class = [\<lparr>k_superclass = None, k_subclasses = [],
     k_members = [(''initialize'', Method (sample_fn 1 False)), (''stop'', Method (sample_fn 2 False)), (''constructor'', Plain ''klass'')]\<rparr>]"
  by code_simp

theorem create_inherits_witness:
  "\<exists>ks'. class_create (Some 0) [[(''initialize'', SFun (sample_fn 3 True))]] base_class = Some (ks', 1) \<and>
     js_call ks' 1 ''initialize'' = Some [3, 1] \<and> js_call ks' 0 ''initialize'' = Some [1]"
proof -
  let ?src = "[[(''initialize'', SFun (sample_fn 3 True))]]"
  have ok: "classes_ok base_class" by (simp add: base_class_eq classes_ok_def)
  have "\<exists>ks'. class_create (Some 0) ?src base_class = Some (ks', 1)" by (rule exI) code_simp
  then obtain ks' where cr: "class_create (Some 0) ?src base_class = Some (ks', 1)" by blast
  have m: "member_of base_class 0 ''initialize'' \<noteq> None" by code_simp
  have "js_call base_class 0 ''initialize'' = Some [1]" "takes_super (sample_fn 3 True)" by code_simp+
  then show ?thesis
    using create_inherits [OF ok _ m cr, of "''initialize''"] cr by (simp add: base_class_eq sample_fn_def)
qed

end
