(* ===== verification/ProtoTemplate.thy ===== *)
theory ProtoTemplate
  imports ProtoString
begin

text \<open>
  \<open>Template\<close> of \<open>prototype.js\<close>: the pattern of an expression in a text, the path of names within it,
  and \<open>evaluate\<close>, which replaces the expressions by the values of an object.  Objects are trees of named
  values; a text has no properties, and \<open>null\<close> and \<open>undefined\<close> are the same.
\<close>

section \<open>The pattern\<close>

text \<open>\<open>#\{(.*?)\}\<close> at the front: the expression and what is left.\<close>

fun brace_body :: "string \<Rightarrow> (string \<times> string) option" where
  "brace_body [] = None"
| "brace_body (c # r) =
     (if c = CHR ''}'' then Some ([], r)
      else if line_end c then None
      else map_option (\<lambda>(e, u). (c # e, u)) (brace_body r))"

definition brace :: "string \<Rightarrow> (string \<times> string) option" where
  "brace s = (if take 2 s = [CHR ''#'', CHR 0x7B] then brace_body (drop 2 s) else None)"

text \<open>
  \<open>(^|.|\r|\n)(#\{(.*?)\})\<close>: nothing before the expression at the beginning of the text, a character
  elsewhere.
\<close>

fun template_from :: "nat \<Rightarrow> string \<Rightarrow> rmatch option" where
  "template_from i [] = None"
| "template_from i (c # r) =
     (case brace r of
        Some (e, u) \<Rightarrow>
          let w = take (length r - length u) r
          in Some \<lparr>m_index = i, m_text = c # w, m_groups = [[c], w, e]\<rparr>
      | None \<Rightarrow> template_from (Suc i) r)"

definition template_pattern :: matcher where
  "template_pattern s =
     (case brace s of
        Some (e, u) \<Rightarrow>
          let w = take (length s - length u) s
          in Some \<lparr>m_index = 0, m_text = w, m_groups = [[], w, e]\<rparr>
      | None \<Rightarrow> template_from 0 s)"

section \<open>Paths\<close>

datatype tval = TNull | TText string | TObject "(string \<times> tval) list"

definition tval_prop :: "tval \<Rightarrow> string \<Rightarrow> tval" where
  "tval_prop v name =
     (case v of TObject ps \<Rightarrow> (case map_of ps name of Some w \<Rightarrow> w | None \<Rightarrow> TNull) | _ \<Rightarrow> TNull)"

definition tval_interpret :: "tval \<Rightarrow> string" where
  "tval_interpret v = (case v of TNull \<Rightarrow> [] | TText s \<Rightarrow> s | TObject ps \<Rightarrow> ''[object Object]'')"

text \<open>
  \<open>\[((?:.*?[^\\])?)\](\.|\[|$)\<close> after the bracket: the shortest text that does not end with a backslash
  and is followed by a bracket and the end of the component.
\<close>

definition component_end :: "string \<Rightarrow> bool" where
  "component_end r \<longleftrightarrow> r = [] \<or> hd r = CHR ''.'' \<or> hd r = CHR ''[''"

fun bracket_content :: "string \<Rightarrow> (string \<times> string) option" where
  "bracket_content [] = None"
| "bracket_content (c # r) =
     (if c \<noteq> CHR 0x5C \<and> r \<noteq> [] \<and> hd r = CHR '']'' \<and> component_end (tl r) then Some ([c], tl r)
      else if line_end c then None
      else map_option (\<lambda>(x, u). (c # x, u)) (bracket_content r))"

text \<open>Only when there is no such text the component may be empty.\<close>

definition bracketed :: "string \<Rightarrow> (string \<times> string) option" where
  "bracketed s =
     (case bracket_content s of
        Some y \<Rightarrow> Some y
      | None \<Rightarrow> if s \<noteq> [] \<and> hd s = CHR '']'' \<and> component_end (tl s) then Some ([], tl s) else None)"

text \<open>A component: its name, whether it is the last one, and what is left of the expression.\<close>

definition path_step :: "string \<Rightarrow> (string \<times> bool \<times> string) option" where
  "path_step e =
     (if e \<noteq> [] \<and> hd e = CHR ''[''
      then (case bracketed (tl e) of
              None \<Rightarrow> None
            | Some (x, r) \<Rightarrow>
                Some (replace_all (literal [CHR 0x5C, CHR '']'']) (\<lambda>_. '']'') x, r = [],
                      if r \<noteq> [] \<and> hd r = CHR ''.'' then tl r else r))
      else
        let w = takeWhile (\<lambda>c. c \<noteq> CHR ''.'' \<and> c \<noteq> CHR ''['') e; r = dropWhile (\<lambda>c. c \<noteq> CHR ''.'' \<and> c \<noteq> CHR ''['') e
        in if w = [] then None
           else Some (w, r = [], if r \<noteq> [] \<and> hd r = CHR ''.'' then tl r else r))"

lemma bracketed_shorter: "bracketed s = Some (x, r) \<Longrightarrow> length r < length s"
proof -
  have c: "bracket_content s = Some (x, r) \<Longrightarrow> length r < length s"
  proof (induction s arbitrary: x)
    case (Cons c s)
    then show ?case by (cases s) (fastforce split: if_splits)+
  qed simp
  assume "bracketed s = Some (x, r)"
  then show ?thesis using c by (cases s) (auto simp: bracketed_def split: option.splits if_splits)
qed

lemma path_step_shorter: "path_step e = Some (w, l, r) \<Longrightarrow> length r < length e"
proof (cases "e \<noteq> [] \<and> hd e = CHR ''[''")
  case True
  assume p: "path_step e = Some (w, l, r)"
  then obtain x u where "bracketed (tl e) = Some (x, u)" "r = (if u \<noteq> [] \<and> hd u = CHR ''.'' then tl u else u)"
    using True by (auto simp: path_step_def split: option.splits)
  then show ?thesis using bracketed_shorter [of "tl e" x u] by (cases e; cases u) (auto split: if_splits)
next
  case False
  assume p: "path_step e = Some (w, l, r)"
  let ?P = "\<lambda>c. c \<noteq> CHR ''.'' \<and> c \<noteq> CHR ''[''"
  have w: "w = takeWhile ?P e" "w \<noteq> []" and r: "length r \<le> length (dropWhile ?P e)"
    using p False by (auto simp: path_step_def Let_def split: if_splits)
  have "length (takeWhile ?P e) + length (dropWhile ?P e) = length e"
    by (metis length_append takeWhile_dropWhile_id)
  moreover have "0 < length (takeWhile ?P e)" using w by simp
  ultimately show ?thesis using r by linarith
qed

text \<open>The loop of \<open>evaluate\<close>.\<close>

function template_walk :: "tval \<Rightarrow> string \<Rightarrow> tval" where
  "template_walk ctx e =
     (case path_step e of
        None \<Rightarrow> ctx
      | Some (name, final, r) \<Rightarrow>
          let c = tval_prop ctx name in if c = TNull \<or> final then c else template_walk c r)"
  by auto

termination
  by (relation "measure (\<lambda>(ctx, e). length e)") (auto dest: path_step_shorter [OF sym] intro: path_step_shorter)

declare template_walk.simps [simp del]

definition template_replacement :: "tval \<Rightarrow> rmatch \<Rightarrow> string" where
  "template_replacement ob m =
     (if ob = TNull then []
      else
        let before = m_groups m ! 0; whole = m_groups m ! 1; e = m_groups m ! 2
        in if before = [CHR 0x5C] then whole
           else case path_step e of
                  None \<Rightarrow> before
                | Some _ \<Rightarrow> before @ tval_interpret (template_walk ob e))"

text \<open>
  \<open>evaluate\<close>, first with the object whose properties are read, then as it is called: an object may
  have \<open>toTemplateReplacements\<close>, and looking for it throws when there is no object.
\<close>

definition evaluate :: "string \<Rightarrow> tval \<Rightarrow> string option" where
  "evaluate template ob = gsub template template_pattern (template_replacement ob)"

definition evaluate_call :: "string \<Rightarrow> tval \<Rightarrow> tval option \<Rightarrow> string option" where
  "evaluate_call template ob toTemplateReplacements =
     (if ob = TNull then None
      else evaluate template (case toTemplateReplacements of None \<Rightarrow> ob | Some r \<Rightarrow> r))"

section \<open>Evaluating\<close>

lemma brace_body_shorter: "brace_body s = Some (e, u) \<Longrightarrow> length u < length s"
  by (induction s arbitrary: e) (fastforce split: if_splits)+

lemma brace_shorter: "brace s = Some (e, u) \<Longrightarrow> length u < length s"
  using brace_body_shorter [of "drop 2 s" e u] by (auto simp: brace_def split: if_splits)

lemma template_from_inside:
  "template_from i s = Some m \<Longrightarrow> i \<le> m_index m \<and> m_index m - i + length (m_text m) \<le> length s \<and>
     m_text m = take (length (m_text m)) (drop (m_index m - i) s) \<and> m_text m \<noteq> []"
proof (induction s arbitrary: i)
  case (Cons c s)
  show ?case
  proof (cases "brace s")
    case None
    then have "template_from (Suc i) s = Some m" using Cons.prems by simp
    then have h: "Suc i \<le> m_index m" "m_index m - Suc i + length (m_text m) \<le> length s"
        "m_text m = take (length (m_text m)) (drop (m_index m - Suc i) s)" "m_text m \<noteq> []"
      using Cons.IH by blast+
    then have "m_index m - i = Suc (m_index m - Suc i)" by simp
    then show ?thesis using h by simp
  next
    case (Some x)
    then show ?thesis using Cons.prems brace_shorter [of s] by (cases x) (auto simp: Let_def)
  qed
qed simp

interpretation template: pattern template_pattern
proof
  fix s m assume m: "template_pattern s = Some m"
  have "m_index m + length (m_text m) \<le> length s \<and> m_text m = take (length (m_text m)) (drop (m_index m) s) \<and> m_text m \<noteq> []"
  proof (cases "brace s")
    case None
    then show ?thesis using m template_from_inside [of 0 s m] by (simp add: template_pattern_def)
  next
    case (Some x)
    then show ?thesis using m brace_shorter [of s] by (cases x) (auto simp: template_pattern_def Let_def)
  qed
  then show "m_index m + length (m_text m) \<le> length s" "m_text m = take (length (m_text m)) (drop (m_index m) s)" "m_text m \<noteq> []"
    by blast+
qed

text \<open>A template of texts and expressions; the text before an expression, the names of its path.\<close>

type_synonym template_part = "string \<times> string list"

definition part_text :: "template_part \<Rightarrow> string" where
  "part_text p = fst p @ [CHR ''#'', CHR 0x7B] @ join ''.'' (snd p) @ ''}''"

definition part_ok :: "template_part \<Rightarrow> bool" where
  "part_ok p \<longleftrightarrow> CHR ''#'' \<notin> set (fst p) \<and> (fst p \<noteq> [] \<longrightarrow> last (fst p) \<noteq> CHR 0x5C) \<and> snd p \<noteq> [] \<and>
     list_all (\<lambda>w. w \<noteq> [] \<and> list_all (\<lambda>c. c \<notin> set ''.[}'' \<and> \<not> line_end c) w) (snd p)"

fun path_value :: "tval \<Rightarrow> string list \<Rightarrow> tval" where
  "path_value v [] = v"
| "path_value v (w # ws) = path_value (tval_prop v w) ws"

lemma path_null: "path_value TNull ws = TNull"
  by (induction ws) (simp_all add: tval_prop_def)

definition name_text :: "string \<Rightarrow> bool" where
  "name_text w \<longleftrightarrow> w \<noteq> [] \<and> list_all (\<lambda>c. c \<notin> set ''.[}'' \<and> \<not> line_end c) w"

lemma name_step:
  assumes "name_text w"
  shows "path_step (w @ r) = (if r = [] then Some (w, True, []) else if hd r = CHR ''.'' then Some (w, False, tl r) else path_step (w @ r))"
proof -
  obtain c u where w: "w = c # u" using assms by (cases w) (auto simp: name_text_def)
  let ?P = "\<lambda>c. c \<noteq> CHR ''.'' \<and> c \<noteq> CHR ''[''"
  have P: "\<forall>x \<in> set w. ?P x" using assms by (auto simp: name_text_def list_all_iff)
  have h: "\<not> (w @ r \<noteq> [] \<and> hd (w @ r) = CHR ''['')" using P w by auto
  have tw: "r = [] \<or> hd r = CHR ''.'' \<Longrightarrow> takeWhile ?P (w @ r) = w \<and> dropWhile ?P (w @ r) = r"
    using P by (cases r) (auto simp: takeWhile_append dropWhile_append)
  show ?thesis using h tw w by (auto simp: path_step_def Let_def)
qed

lemma walk_path: "ws \<noteq> [] \<Longrightarrow> list_all name_text ws \<Longrightarrow> template_walk v (join ''.'' ws) = path_value v ws"
proof (induction ws arbitrary: v)
  case (Cons w ws)
  show ?case
  proof (cases "ws = []")
    case True
    then show ?thesis using Cons.prems name_step [of w "[]"] by (simp add: template_walk.simps [of v w] Let_def)
  next
    case False
    then have j: "join ''.'' (w # ws) = w @ ''.'' @ join ''.'' ws" by (simp add: join_Cons)
    have "template_walk v (join ''.'' (w # ws)) =
        (let c = tval_prop v w in if c = TNull then c else template_walk c (join ''.'' ws))"
      unfolding j using name_step [of w "''.'' @ join ''.'' ws"] Cons.prems by (subst template_walk.simps) simp
    then show ?thesis using Cons False by (auto simp: Let_def path_null)
  qed
qed simp

lemma brace_whole:
  "list_all (\<lambda>c. c \<noteq> CHR ''}'' \<and> \<not> line_end c) e \<Longrightarrow> brace ([CHR ''#'', CHR 0x7B] @ e @ ''}'' @ r) = Some (e, r)"
proof -
  have "list_all (\<lambda>c. c \<noteq> CHR ''}'' \<and> \<not> line_end c) e \<Longrightarrow> brace_body (e @ CHR ''}'' # r) = Some (e, r)"
    by (induction e) auto
  then show "list_all (\<lambda>c. c \<noteq> CHR ''}'' \<and> \<not> line_end c) e \<Longrightarrow> ?thesis" by (simp add: brace_def)
qed

lemma brace_other: "c \<noteq> CHR ''#'' \<Longrightarrow> brace (c # r) = None"
  by (simp add: brace_def)

lemma template_from_at:
  "CHR ''#'' \<notin> set l \<Longrightarrow> c \<noteq> CHR ''#'' \<Longrightarrow> brace b = Some (e, u) \<Longrightarrow>
    template_from i (l @ c # b) =
      (let w = take (length b - length u) b in Some \<lparr>m_index = i + length l, m_text = c # w, m_groups = [[c], w, e]\<rparr>)"
proof (induction l arbitrary: i)
  case (Cons x l)
  have "brace (l @ c # b) = None" using Cons.prems by (cases l) (auto simp: brace_other)
  then show ?case using Cons by simp
qed simp

lemma template_none: "CHR ''#'' \<notin> set s \<Longrightarrow> template_pattern s = None"
proof -
  assume s: "CHR ''#'' \<notin> set s"
  have b: "CHR ''#'' \<notin> set r \<Longrightarrow> brace r = None" for r by (cases r) (auto simp: brace_def)
  have "CHR ''#'' \<notin> set r \<Longrightarrow> template_from i r = None" for i r
    by (induction r arbitrary: i) (auto simp: b)
  then show ?thesis using s b by (simp add: template_pattern_def)
qed

text \<open>The first part of a text is found, with the character before it.\<close>

lemma template_first:
  assumes "CHR ''#'' \<notin> set l" "brace b = Some (e, u)"
  shows "template_pattern (l @ b) =
    (let w = take (length b - length u) b
     in Some (if l = [] then \<lparr>m_index = 0, m_text = w, m_groups = [[], w, e]\<rparr>
              else \<lparr>m_index = length l - 1, m_text = last l # w, m_groups = [[last l], w, e]\<rparr>))"
proof (cases l rule: rev_cases)
  case Nil
  then show ?thesis using assms(2) by (simp add: template_pattern_def)
next
  case (snoc l' c)
  have "brace (l @ b) = None" using assms(1) snoc by (cases l') (auto simp: brace_other)
  then show ?thesis using template_from_at [of l' c b e u 0] assms snoc by (auto simp: template_pattern_def)
qed

definition part_value :: "tval \<Rightarrow> template_part \<Rightarrow> string" where
  "part_value ob p = fst p @ tval_interpret (path_value ob (snd p))"

lemma part_expression:
  assumes "part_ok p"
  shows "list_all name_text (snd p)" "list_all (\<lambda>c. c \<noteq> CHR ''}'' \<and> \<not> line_end c) (join ''.'' (snd p))"
    "path_step (join ''.'' (snd p)) \<noteq> None"
proof -
  show nt: "list_all name_text (snd p)" using assms unfolding part_ok_def name_text_def [abs_def] by blast
  have nw: "name_text w \<Longrightarrow> list_all (\<lambda>c. c \<noteq> CHR ''}'' \<and> \<not> line_end c) w" for w by (simp add: name_text_def list_all_iff)
  have "list_all name_text ws \<Longrightarrow> list_all (\<lambda>c. c \<noteq> CHR ''}'' \<and> \<not> line_end c) (join ''.'' ws)" for ws
  proof (induction ws)
    case (Cons w ws)
    then show ?case using nw by (cases "ws = []") (simp_all add: join_Cons line_end_def)
  qed simp
  then show "list_all (\<lambda>c. c \<noteq> CHR ''}'' \<and> \<not> line_end c) (join ''.'' (snd p))" using nt by blast
  obtain w ws where w: "snd p = w # ws" "name_text w" using assms nt by (cases "snd p") (auto simp: part_ok_def)
  then show "path_step (join ''.'' (snd p)) \<noteq> None"
    using name_step [of w "[]"] name_step [of w "''.'' @ join ''.'' ws"] by (cases "ws = []") (simp_all add: join_Cons)
qed

lemma evaluate_loop:
  assumes "ob \<noteq> TNull" "CHR ''#'' \<notin> set final"
  shows "list_all part_ok ps \<Longrightarrow>
    gsub_loop template_pattern (\<lambda>_ m. (template_replacement ob m, ())) () res (concat (map part_text ps) @ final) =
    Some (res @ concat (map (part_value ob) ps) @ final, ())"
proof (induction ps arbitrary: res)
  case Nil
  then show ?case using template_none [OF assms(2)] by (subst gsub_loop.simps) simp
next
  case (Cons p ps)
  obtain l ws where p: "p = (l, ws)" by (cases p)
  note pe = part_expression [of p, unfolded p snd_conv]
  define e where "e = join ''.'' ws"
  define r where "r = concat (map part_text ps) @ final"
  define w where "w = [CHR ''#'', CHR 0x7B] @ e @ ''}''"
  have ok: "part_ok (l, ws)" using Cons.prems p by simp
  have b: "brace (w @ r) = Some (e, r)" using brace_whole [OF pe(2) [OF ok], of r] by (simp add: w_def e_def)
  have src: "concat (map part_text (p # ps)) @ final = l @ w @ r" by (simp add: p part_text_def w_def e_def r_def)
  have l: "CHR ''#'' \<notin> set l" "l \<noteq> [] \<Longrightarrow> last l \<noteq> CHR 0x5C" using ok by (simp_all add: part_ok_def)
  have val: "tval_interpret (template_walk ob e) = tval_interpret (path_value ob ws)"
    using walk_path [of ws ob] pe(1) [OF ok] ok by (simp add: e_def part_ok_def)
  have st: "path_step e \<noteq> None" using pe(3) [OF ok] by (simp add: e_def)
  have "gsub_loop template_pattern (\<lambda>_ m. (template_replacement ob m, ())) () res (l @ w @ r) =
      gsub_loop template_pattern (\<lambda>_ m. (template_replacement ob m, ())) () (res @ part_value ob p) r"
  proof -
    have wne: "w \<noteq> []" by (simp add: w_def)
    have rep: "template_replacement ob \<lparr>m_index = i, m_text = t, m_groups = [x, w, e]\<rparr> = x @ tval_interpret (path_value ob ws)"
      if "x \<noteq> [CHR 0x5C]" for i t x
      using that assms(1) st val by (auto simp: template_replacement_def Let_def)
    show ?thesis
    proof (cases l rule: rev_cases)
      case Nil
      have "template_pattern (w @ r) = Some \<lparr>m_index = 0, m_text = w, m_groups = [[], w, e]\<rparr>"
        using template_first [OF l(1) b] Nil by simp
      then show ?thesis using wne Nil by (subst gsub_loop.simps) (simp add: rep part_value_def p)
    next
      case (snoc l' c)
      have "template_pattern (l @ w @ r) = Some \<lparr>m_index = length l', m_text = c # w, m_groups = [[c], w, e]\<rparr>"
        using template_first [OF l(1) b] snoc by simp
      then show ?thesis using l(2) snoc by (subst gsub_loop.simps) (simp add: rep part_value_def p)
    qed
  qed
  then show ?case using Cons src by (simp add: r_def)
qed

text \<open>
  C34. A template is evaluated to its texts with the values of the expressions in between, a missing value
  as nothing.
\<close>

theorem evaluate_parts:
  assumes "list_all part_ok ps" "ob \<noteq> TNull" "CHR ''#'' \<notin> set final"
  shows "evaluate (concat (map part_text ps) @ final) ob = Some (concat (map (part_value ob) ps) @ final)"
  using evaluate_loop [OF assms(2,3,1), of "[]"] by (simp add: evaluate_def gsub_def)

definition sample_object :: tval where
  "sample_object = TObject [(''app'', TObject [(''name'', TText ''blog'')]), (''port'', TText ''80'')]"

theorem evaluate_parts_witness:
  "evaluate (concat (map part_text [(''at '', [''app'', ''name'']), ('':'', [''port'']), ([], [''none''])]) @ '' !'') sample_object =
    Some ''at blog:80 !''"
proof -
  have "list_all part_ok [(''at '', [''app'', ''name'']), ('':'', [''port'']), ([], [''none''])]"
    by (simp add: part_ok_def line_end_def)
  moreover have "sample_object \<noteq> TNull" "CHR ''#'' \<notin> set '' !''" by (simp_all add: sample_object_def)
  ultimately show ?thesis
    using evaluate_parts [of "[(''at '', [''app'', ''name'']), ('':'', [''port'']), ([], [''none''])]" sample_object "'' !''"]
    by (simp add: part_value_def sample_object_def tval_prop_def tval_interpret_def)
qed

text \<open>\<open>evaluate\<close> returns on every template; a backslash before an expression keeps its text.\<close>

lemma evaluate_returns: "\<exists>t. evaluate template ob = Some t"
  unfolding evaluate_def by (rule template.gsub_returns)

lemma evaluate_call_returns: "evaluate_call template ob r = None \<longleftrightarrow> ob = TNull"
  using evaluate_returns by (auto simp: evaluate_call_def)

lemma evaluate_escaped: "evaluate ([CHR 0x5C, CHR ''#'', CHR 0x7B] @ ''port}'') sample_object = Some ([CHR ''#'', CHR 0x7B] @ ''port}'')"
  by code_simp

lemma evaluate_brackets: "evaluate ([CHR ''#'', CHR 0x7B] @ ''[app].name}'') sample_object = Some ''blog''"
  by code_simp

end
