(* ===== verification/Spec2Isabelle.thy ===== *)
theory Spec2Isabelle
  imports AdminForms AdminPanel ProtoAjax UiSlider AjaxAutocompleter InPlaceEditor EffectLibrary EffectMorph Sortables ProtoForm ElementMethods
    ElementLayout ClassNames ProtoClass ProtoTemplate
begin

text \<open>
  \<^bold>\<open>The browser side of the WebROaR administration panel\<close>

  WebROaR is a web server for Ruby applications: a head server and workers in C, an administration
  panel in Ruby on Rails, and the scripts of the panel's pages in JavaScript.  This development is about
  the scripts, which are in \<open>src/src/admin_panel/public/javascripts/\<close>: the panel's own \<open>application.js\<close>, the slider of jQuery UI
  that chooses the hours of a graph (\<open>ui.core.js\<close>, \<open>ui.slider.js\<close>), and the libraries Prototype (\<open>prototype.js\<close>)
  and script.aculo.us (\<open>effects.js\<close>, \<open>dragdrop.js\<close>, \<open>controls.js\<close>).  They interact by calls and by the state of the page:
  a form of the panel is checked by \<open>application.js\<close> before it is sent; the slider gets the events of the mouse
  through the mouse interaction of \<open>ui.core.js\<close> and writes the hours that \<open>application.js\<close> shows and requests; the
  completer, the in-place editor and \<open>Form.request\<close> send their texts with \<open>Ajax.Request\<close>, which uses the query strings
  of \<open>Hash\<close>; \<open>Sortable\<close> is built on draggables and droppables; \<open>up\<close>, \<open>next\<close> and \<open>previous\<close> are built on \<open>Selector\<close>.

  \<^bold>\<open>Conventions\<close>

  A definition has the name of the function it models where the name is free.  A handler takes the state it
  changes and returns the new one; state is a record, an enumeration a datatype.  A call that throws, or a loop that
  does not end, is \<open>None\<close> or the second value of a sum or pair, as the theory says; callbacks of the page and what the
  browser reports (sizes, parsed markup, the transport of a request, the clock) are parameters.  Strings are lists of
  the characters 0 to 255.  Indices, counts and hours are \<open>int\<close> or \<open>nat\<close>; coordinates of drags are \<open>int\<close>; other numbers are
  reals, with \<open>NaN\<close> and the infinities where the scripts can meet them, so that the rounding of the 53 bit format is
  not modelled.  An object is the list of its properties in the order of \<open>for in\<close>.

  \<^bold>\<open>Theories\<close>

  \<^item> \<open>JsPrelude\<close>, \<open>JsNumber\<close>, \<open>JsRegex\<close>: the strings, numbers and anchored regular expressions of the language; the
    matcher by derivatives decides the language of an expression.
  \<^item> \<open>FormChecks\<close>, \<open>AdminForms\<close> (\<open>application.js\<close>): the checks \<open>validates_*\<close> with the contract \<open>field_check\<close>, and
    the submit handlers; \<open>validate_application_decides\<close> and \<open>validate_password_decides\<close>: a form is sent exactly when no
    field is bad, and otherwise the page shows the reports of the checks.
  \<^item> \<open>AdminPanel\<close> (\<open>application.js\<close>): help popup, analytics, Flash test, graph requests, exception list;
    \<open>exception_boxes_in_step\<close> is the invariant of the check boxes over all sequences of clicks.
  \<^item> \<open>ProtoEnumerable\<close>, \<open>ProtoString\<close>, \<open>ProtoArray\<close>, \<open>ProtoHash\<close> (\<open>prototype.js\<close>): \<open>Enumerable\<close> with the interface \<open>enumerable\<close>,
    \<open>gsub\<close> and the methods of strings with the interfaces \<open>pattern\<close> and \<open>anchored\<close>, arrays, ranges, JSON, hashes and query
    strings; \<open>gsub_total\<close>, \<open>stripTags_leaves_no_tag\<close>, \<open>toJSON_isJSON\<close>, \<open>query_roundtrip\<close>.
  \<^item> \<open>ProtoClass\<close>, \<open>ProtoTemplate\<close> (\<open>prototype.js\<close>): \<open>Class.create\<close> with \<open>$super\<close> (\<open>create_inherits\<close> relates a call to the
    definitions along the chain of classes), the methods of functions, and \<open>Template\<close> (\<open>evaluate_parts\<close>).
  \<^item> \<open>UiMouse\<close>, \<open>UiWidget\<close>, \<open>UiSlider\<close> (\<open>ui.core.js\<close>, \<open>ui.slider.js\<close>): the mouse as a state machine between events and the hooks
    of a widget with the interface \<open>immediate_client\<close>, the widget factory, and the slider; \<open>panel_slider_hours\<close>: after any
    sequence of events the handles are at whole hours of the day and in order.
  \<^item> \<open>Autocompleter\<close>, \<open>AjaxAutocompleter\<close>, \<open>InPlaceEditor\<close> (\<open>controls.js\<close>): the list of choices, the query for them, and the
    editor with its pending requests; \<open>completer_moves_in_list\<close>, \<open>completion_request_read\<close>, \<open>editor_modes\<close>.
  \<^item> \<open>ProtoAjax\<close> (\<open>prototype.js\<close>): responders, requests, updaters and \<open>PeriodicalExecuter\<close>; \<open>request_count_balanced\<close>,
    \<open>complete_at_most_once\<close>, \<open>periodical_stops\<close>.
  \<^item> \<open>ElementStyle\<close>, \<open>EffectKinds\<close>, \<open>EffectEngine\<close>, \<open>EffectLibrary\<close>, \<open>EffectMorph\<close> (\<open>effects.js\<close> and the style methods of
    \<open>prototype.js\<close>): styles, the core effects, their queues and loop, the combination effects, and \<open>Morph\<close>; \<open>effect_life\<close>,
    \<open>queue_runs_in_turn\<close>, \<open>toggle_hides_and_restores\<close>, \<open>morph_reaches_style\<close>.
  \<^item> \<open>PageTree\<close>, \<open>DragDrop\<close>, \<open>Sortables\<close> (\<open>dragdrop.js\<close>): the document, drags and sortable lists; \<open>show_activates_innermost\<close>,
    \<open>drag_follows_pointer\<close>, \<open>sorting_keeps_others\<close>, \<open>update_iff_reordered\<close>, \<open>destroy_undoes_create\<close>.
  \<^item> \<open>ProtoEvent\<close>, \<open>ProtoForm\<close> (\<open>prototype.js\<close>): the registry of events, which refines a plain list of handlers
    (\<open>events_refine\<close>, interface \<open>event_registry\<close>), and forms with their observers (\<open>form_query_read_back\<close>, \<open>serialize_groups\<close>).
  \<^item> \<open>SelectorTokens\<close>, \<open>ProtoSelector\<close>, \<open>ElementMethods\<close>, \<open>ElementLayout\<close> (\<open>prototype.js\<close>): selectors from the text to the
    elements (\<open>printed_selector_cut\<close>, \<open>matcher_finds_css\<close>), walking and changing the tree (\<open>relatives_matching\<close>,
    \<open>identify_finds\<close>, \<open>changes_keep_tree\<close>), and offsets on the page (\<open>clone_covers_source\<close>).
  \<^item> \<open>ClassNames\<close> (\<open>prototype.js\<close>): the text of the class names of an element, which the other theories see as the list of its
    words; \<open>class_text_refines\<close> relates the two.
  \<^item> This theory composes \<open>ProtoForm\<close>, \<open>ProtoAjax\<close> and \<open>ProtoHash\<close>: \<open>form_request_posted\<close>, the server reads from the body
    of a request the values of the form.

  The lemmas of a theory come in three groups: what each operation does and leaves alone; the invariant of the
  component and that every operation keeps it; and the properties, which follow from these.  At the end of a theory are
  concrete samples on which the properties are applied, and evaluations that show where the code does
  not do what it means to.

  \<^bold>\<open>Loops and bounds\<close>

  Loops that need not end are partial functions into \<open>option\<close>: \<open>gsub_loop\<close> (\<open>gsub_total\<close>: it ends when no match is empty),
  \<open>match_loop\<close> of the local completer, \<open>isParent\<close> and \<open>findRootElement\<close> (they end on every well formed document),
  \<open>recursivelyCollect\<close> (\<open>collect_follows\<close>), \<open>free_id\<close> (\<open>free_id_returns\<close>: a page has finitely many ids), \<open>sum_along\<close> and
  \<open>positioned_above\<close> (\<open>offsets_return\<close>).  Searches below an element have a number of levels: \<open>findChildren\<close>
  (\<open>findChildren_enough\<close>) and \<open>descendants\<close> (\<open>descendants_below\<close>: the number of edges of the tree is enough).  The walk up
  a chain of classes is bounded by the number of classes, which is enough because a parent is made before its
  subclasses (\<open>lookup_enough\<close>, \<open>call_enough\<close>).

  \<^bold>\<open>Not modelled\<close>

  The head server, the workers and the Ruby code are other languages.  \<open>jquery-1.3.2.js\<close>, \<open>swfobject.js\<close> and the calendar
  plugin are third party code; what is called of them is a parameter or modelled where it is called.
  \<open>ui.slider_old.js\<close> is a former copy of the slider that no page loads.  Of Prototype the following is left out: the selectors
  that are handed to the browser as path expressions, work arounds for single browsers, content that the browser
  parses from HTML text, and \<open>Date\<close>, \<open>Try\<close> and \<open>Position\<close>, which pass on to what is modelled or to the browser.  Of
  script.aculo.us the loader and \<open>Builder\<close>, which only write markup, and the scrolling of a window during a drag,
  whose positions the browser rounds and limits.
\<close>

section \<open>A form that is sent by a request\<close>

text \<open>
  \<open>Form.request\<close> hands the values of a form to \<open>Ajax.Request\<close>, which writes them into the body of
  the request; the server reads the body as a query.
\<close>

lemma update_names: "names_ok ds \<Longrightarrow> k \<noteq> [] \<Longrightarrow> \<not> inherited k \<Longrightarrow> names_ok (AList.update k d ds)"
  by (auto simp: names_ok_def AList.distinct_update update_keys)

lemma extend_names:
  "names_ok ds \<Longrightarrow> \<forall>k \<in> fst ` set ps. k \<noteq> [] \<and> \<not> inherited k \<Longrightarrow> names_ok (object_extend ds ps)"
proof (induction ps arbitrary: ds)
  case (Cons p ps)
  then show ?case by (cases p) (simp add: object_extend_def update_names)
qed (simp add: object_extend_def)

definition request_params :: "sdata props \<Rightarrow> hval props" where
  "request_params ds = map (\<lambda>(k, d). (k, data_hval d)) ds"

lemma request_params_update: "AList.update k (data_hval d) (request_params ds) = request_params (AList.update k d ds)"
  by (induction ds) (auto simp: request_params_def)

lemma body_is_query:
  assumes "names_ok ds" "a_params o' = request_params ds" "a_postBody o' = None" "a_method o' \<noteq> ''get''"
  shows "l_body (request_line_of False o' address) =
    Some (data_query (if a_method o' = ''post'' then ds else AList.update ''_method'' (SOne (a_method o')) ds))"
proof -
  have "map fst (request_params ds) = map fst ds" by (simp add: request_params_def comp_def split_beta)
  then have "object_clone (a_params o') = request_params ds"
    using assms(1,2) clone_distinct [of "[]" "request_params ds"] by (simp add: object_clone_def names_ok_def)
  moreover have "HPrim (Str m) = data_hval (SOne m)" for m by (simp add: data_hval_def)
  ultimately show ?thesis
    using assms(3,4) by (simp add: request_line_of_def Let_def hash_set_def request_params_update) (simp add: data_query_def request_params_def)
qed



end
